(* ===== verification/Hermes_Prelude.thy ===== *)
theory Hermes_Prelude
  imports Main "HOL-Library.Word" "HOL-Library.Multiset"
begin

text \<open>
  The prelude of the development: the result type in which every throwing or undefined
  operation of the C++ code is a value, the keyed containers that stand for
  \<^verbatim>\<open>std::unordered_set\<close> and \<^verbatim>\<open>std::unordered_map\<close> (and
  \<^verbatim>\<open>std::map\<close>), machine integers, and the generic lemmas that the component
  theories share.  The collection \<open>container_simps\<close> holds the container laws and
  \<open>result_simps\<close> the laws of the result type.
\<close>

named_theorems container_simps "laws of the keyed containers"
named_theorems result_simps "laws of the result type"

section \<open>Machine integers\<close>

type_synonym size_t = "64 word"
type_synonym int32 = "32 word"

section \<open>Results: values, exceptions and undefined behaviour\<close>

text \<open>
  \<open>RuntimeError\<close> is a thrown \<^verbatim>\<open>std::runtime_error\<close>, \<open>InvalidArgument\<close> a
  thrown \<^verbatim>\<open>std::invalid_argument\<close>, \<open>OutOfRange\<close> a thrown
  \<^verbatim>\<open>std::out_of_range\<close>, \<open>BadExpectedAccess\<close> the exception of
  \<^verbatim>\<open>tl::expected::value()\<close> on an error, \<open>BadOptionalAccess\<close> that of
  \<^verbatim>\<open>std::optional::value()\<close> on an empty one, and \<open>UndefinedBehaviour\<close> an execution the
  C++ standard gives no meaning to (a null pointer dereferenced, \<^verbatim>\<open>back()\<close> of an empty
  list, an end iterator dereferenced).
\<close>

datatype cpp_error =
    RuntimeError string
  | InvalidArgument string
  | OutOfRange string
  | BadExpectedAccess string
  | BadOptionalAccess
  | UndefinedBehaviour string

type_synonym 'a result = "cpp_error + 'a"

fun rbind :: "'a result \<Rightarrow> ('a \<Rightarrow> 'b result) \<Rightarrow> 'b result" where
  "rbind (Inl e) f = Inl e"
| "rbind (Inr x) f = f x"

fun rmap :: "('a \<Rightarrow> 'b result) \<Rightarrow> 'a list \<Rightarrow> 'b list result" where
  "rmap f [] = Inr []"
| "rmap f (x # xs) = rbind (f x) (\<lambda>y. rbind (rmap f xs) (\<lambda>ys. Inr (y # ys)))"

fun rfold :: "('a \<Rightarrow> 's \<Rightarrow> 's result) \<Rightarrow> 'a list \<Rightarrow> 's \<Rightarrow> 's result" where
  "rfold f [] s = Inr s"
| "rfold f (x # xs) s = rbind (f x s) (rfold f xs)"

lemma rbind_eq_Inr [result_simps]:
  "rbind m f = Inr y \<longleftrightarrow> (\<exists>x. m = Inr x \<and> f x = Inr y)"
  by (cases m) auto

lemma rbindE: "rbind m f = Inr y \<Longrightarrow> (\<And>x. m = Inr x \<Longrightarrow> f x = Inr y \<Longrightarrow> P) \<Longrightarrow> P"
  by (cases m) auto

lemma rbind_cong [fundef_cong]:
  "m = m' \<Longrightarrow> (\<And>x. m' = Inr x \<Longrightarrow> f x = g x) \<Longrightarrow> rbind m f = rbind m' g"
  by (cases m') auto

lemma rmap_Inr [result_simps]: "rmap (\<lambda>x. Inr (f x)) xs = Inr (map f xs)"
  by (induction xs) auto

lemma rmap_cong_Inr:
  "(\<And>x. x \<in> set xs \<Longrightarrow> g x = Inr (f x)) \<Longrightarrow> rmap g xs = Inr (map f xs)"
  by (induction xs) auto

lemma rmap_map_Inr:
  "(\<And>x. x \<in> set xs \<Longrightarrow> f (g x) = Inr (h x)) \<Longrightarrow> rmap f (map g xs) = Inr (map h xs)"
  by (induction xs) auto

lemma rmap_length: "rmap f xs = Inr ys \<Longrightarrow> length ys = length xs"
  by (induction xs arbitrary: ys) (auto simp: result_simps)

text \<open>The induction principle of a loop: an invariant every step keeps holds at the end.\<close>

lemma rfold_invariant:
  assumes "rfold f xs s = Inr t" and "P s"
    and "\<And>x s t. x \<in> set xs \<Longrightarrow> P s \<Longrightarrow> f x s = Inr t \<Longrightarrow> P t"
  shows "P t"
  using assms
proof (induction xs arbitrary: s)
  case Nil
  then show ?case by simp
next
  case (Cons x xs)
  from Cons.prems(1) obtain u where u: "f x s = Inr u" and rest: "rfold f xs u = Inr t"
    by (auto simp: result_simps)
  have "P u" by (rule Cons.prems(3) [OF _ Cons.prems(2) u]) simp
  then show ?case
    by (rule Cons.IH [OF rest]) (rule Cons.prems(3), auto)
qed

lemma rfold_total:
  assumes "P s" and "\<And>x s. x \<in> set xs \<Longrightarrow> P s \<Longrightarrow> \<exists>t. f x s = Inr t \<and> P t"
  shows "\<exists>t. rfold f xs s = Inr t \<and> P t"
  using assms
proof (induction xs arbitrary: s)
  case Nil
  then show ?case by simp
next
  case (Cons x xs)
  from Cons.prems obtain u where "f x s = Inr u" and "P u" by fastforce
  then show ?case using Cons.IH [of u] Cons.prems(2) by simp
qed

lemma rfold_append: "rfold f (xs @ ys) s = rbind (rfold f xs s) (rfold f ys)"
proof (induction xs arbitrary: s)
  case (Cons x xs)
  then show ?case by (cases "f x s") simp_all
qed simp

lemma rfold_upt:
  assumes "P 0 s" and "\<And>i s. i < n \<Longrightarrow> P i s \<Longrightarrow> \<exists>t. f i s = Inr t \<and> P (Suc i) t"
  shows "\<exists>t. rfold f [0..<n] s = Inr t \<and> P n t"
  using assms
proof (induction n)
  case (Suc n)
  then obtain u where u: "rfold f [0..<n] s = Inr u" "P n u" by auto
  with Suc.prems(2) [of n u] obtain t where "f n u = Inr t" "P (Suc n) t" by auto
  with u(1) show ?case by (simp add: rfold_append)
qed simp

lemma rfold_upt_fails:
  assumes "P 0 s" and "\<And>i s. i < k \<Longrightarrow> P i s \<Longrightarrow> \<exists>t. f i s = Inr t \<and> P (Suc i) t"
    and "\<And>s. P k s \<Longrightarrow> f k s = Inl e" and "k < n"
  shows "rfold f [0..<n] s = Inl e"
proof -
  obtain t where t: "rfold f [0..<k] s = Inr t" "P k t"
    using rfold_upt [where P = P and f = f and n = k, OF assms(1,2)] by blast
  have "[0..<n] = [0..<k] @ k # [Suc k..<n]"
    using assms(4) by (metis less_imp_add_positive upt_add_eq_append upt_conv_Cons le0 assms(4) zero_less_iff_neq_zero add_0)
  with t assms(3) show ?thesis by (simp add: rfold_append)
qed

section \<open>Decimal printing\<close>

definition digit_char :: "nat \<Rightarrow> char" where
  "digit_char d = char_of (48 + d)"

fun string_of_nat :: "nat \<Rightarrow> string" where
  "string_of_nat n =
     (if n < 10 then [digit_char n] else string_of_nat (n div 10) @ [digit_char (n mod 10)])"

declare string_of_nat.simps [simp del]

definition string_of_int :: "int \<Rightarrow> string" where
  "string_of_int i = (if i < 0 then CHR ''-'' # string_of_nat (nat (- i)) else string_of_nat (nat i))"

text \<open>The C++ messages quote names with apostrophes.\<close>

definition quoted :: "string \<Rightarrow> string" where
  "quoted s = [CHR 0x27] @ s @ [CHR 0x27]"

section \<open>Keyed containers\<close>

text \<open>
  An unordered container compares its elements by a key: \<open>kf\<close> maps an element to what the
  container's equality looks at.  An \<^verbatim>\<open>unordered_set\<close> is a list of elements, an
  \<^verbatim>\<open>unordered_map\<close> a list of pairs with \<open>kf \<circ> fst\<close> as its key.  \<open>emplace\<close> leaves
  an equal element in place, as the C++ containers do.  The C++ iteration order is unspecified; the
  list fixes one, and no property of the development depends on which.
\<close>

definition us_find :: "('a \<Rightarrow> 'k) \<Rightarrow> 'k \<Rightarrow> 'a list \<Rightarrow> 'a option" where
  "us_find kf k xs = List.find (\<lambda>x. kf x = k) xs"

definition us_emplace :: "('a \<Rightarrow> 'k) \<Rightarrow> 'a \<Rightarrow> 'a list \<Rightarrow> 'a list" where
  "us_emplace kf a xs = (if us_find kf (kf a) xs = None then xs @ [a] else xs)"

definition us_erase :: "('a \<Rightarrow> 'k) \<Rightarrow> 'k \<Rightarrow> 'a list \<Rightarrow> 'a list" where
  "us_erase kf k xs = filter (\<lambda>x. kf x \<noteq> k) xs"

definition us_keys :: "('a \<Rightarrow> 'k) \<Rightarrow> 'a list \<Rightarrow> 'k set" where
  "us_keys kf xs = kf ` set xs"

definition us_wf :: "('a \<Rightarrow> 'k) \<Rightarrow> 'a list \<Rightarrow> bool" where
  "us_wf kf xs = distinct (map kf xs)"

lemma us_find_None [container_simps]: "us_find kf k xs = None \<longleftrightarrow> k \<notin> us_keys kf xs"
  by (auto simp: us_find_def us_keys_def find_None_iff)

lemma us_find_Some: "us_find kf k xs = Some a \<Longrightarrow> a \<in> set xs \<and> kf a = k"
  by (auto simp: us_find_def find_Some_iff)

lemma us_find_wf:
  assumes "us_wf kf xs" and "a \<in> set xs"
  shows "us_find kf (kf a) xs = Some a"
  using assms by (induction xs) (auto simp: us_find_def us_wf_def)

lemma us_find_SomeI: "us_wf kf xs \<Longrightarrow> a \<in> set xs \<Longrightarrow> kf a = k \<Longrightarrow> us_find kf k xs = Some a"
  using us_find_wf [of kf xs a] by simp

lemma us_keys_Nil [simp]: "us_keys kf [] = {}"
  by (simp add: us_keys_def)

lemma us_keys_Cons [simp]: "us_keys kf (x # xs) = insert (kf x) (us_keys kf xs)"
  by (simp add: us_keys_def)

lemma us_keys_append [simp]: "us_keys kf (xs @ ys) = us_keys kf xs \<union> us_keys kf ys"
  by (auto simp: us_keys_def)

lemma us_keys_emplace [container_simps]:
  "us_keys kf (us_emplace kf a xs) = insert (kf a) (us_keys kf xs)"
  by (auto simp: us_emplace_def container_simps)

lemma us_keys_erase [container_simps]: "us_keys kf (us_erase kf k xs) = us_keys kf xs - {k}"
  by (auto simp: us_erase_def us_keys_def)

lemma us_wf_Nil [simp]: "us_wf kf []"
  by (simp add: us_wf_def)

lemma us_wf_Cons [simp]: "us_wf kf (x # xs) \<longleftrightarrow> kf x \<notin> us_keys kf xs \<and> us_wf kf xs"
  by (auto simp: us_wf_def us_keys_def)

lemma us_wf_emplace [container_simps]: "us_wf kf xs \<Longrightarrow> us_wf kf (us_emplace kf a xs)"
  by (auto simp: us_emplace_def us_wf_def us_find_def find_None_iff)

lemma us_wf_erase [container_simps]: "us_wf kf xs \<Longrightarrow> us_wf kf (us_erase kf k xs)"
  by (simp add: us_wf_def us_erase_def distinct_map_filter)

lemma us_erase_id [container_simps]: "k \<notin> us_keys kf xs \<Longrightarrow> us_erase kf k xs = xs"
  by (auto simp: us_erase_def us_keys_def intro: filter_True)

lemma us_wf_distinct: "us_wf kf xs \<Longrightarrow> distinct xs"
  by (auto simp: us_wf_def distinct_map)

lemma us_find_emplace [container_simps]:
  "us_find kf k (us_emplace kf a xs)
     = (if k = kf a \<and> kf a \<notin> us_keys kf xs then Some a else us_find kf k xs)"
proof (cases "kf a \<in> us_keys kf xs")
  case True
  then show ?thesis by (simp add: us_emplace_def us_find_None)
next
  case False
  then show ?thesis
    by (induction xs) (auto simp: us_emplace_def us_find_def)
qed

lemma us_find_erase [container_simps]:
  "us_find kf k (us_erase kf k' xs) = (if k = k' then None else us_find kf k xs)"
  by (induction xs) (auto simp: us_find_def us_erase_def)

text \<open>Maps: the value an \<^verbatim>\<open>unordered_map\<close> holds under a key.\<close>

definition um_find :: "('a \<Rightarrow> 'k) \<Rightarrow> 'k \<Rightarrow> ('a \<times> 'v) list \<Rightarrow> 'v option" where
  "um_find kf k m = map_option snd (us_find (kf \<circ> fst) k m)"

definition um_emplace :: "('a \<Rightarrow> 'k) \<Rightarrow> 'a \<Rightarrow> 'v \<Rightarrow> ('a \<times> 'v) list \<Rightarrow> ('a \<times> 'v) list" where
  "um_emplace kf a v m = us_emplace (kf \<circ> fst) (a, v) m"

definition um_erase :: "('a \<Rightarrow> 'k) \<Rightarrow> 'k \<Rightarrow> ('a \<times> 'v) list \<Rightarrow> ('a \<times> 'v) list" where
  "um_erase kf k m = us_erase (kf \<circ> fst) k m"

text \<open>\<open>operator[]\<close> followed by an assignment: the stored key stays, the value is replaced.\<close>

definition um_assign :: "('a \<Rightarrow> 'k) \<Rightarrow> 'a \<Rightarrow> 'v \<Rightarrow> ('a \<times> 'v) list \<Rightarrow> ('a \<times> 'v) list" where
  "um_assign kf a v m =
     (if us_find (kf \<circ> fst) (kf a) m = None then m @ [(a, v)]
      else map (\<lambda>(b, w). if kf b = kf a then (b, v) else (b, w)) m)"

abbreviation um_keys :: "('a \<Rightarrow> 'k) \<Rightarrow> ('a \<times> 'v) list \<Rightarrow> 'k set" where
  "um_keys kf m \<equiv> us_keys (kf \<circ> fst) m"

abbreviation um_wf :: "('a \<Rightarrow> 'k) \<Rightarrow> ('a \<times> 'v) list \<Rightarrow> bool" where
  "um_wf kf m \<equiv> us_wf (kf \<circ> fst) m"

lemma um_find_None [container_simps]: "um_find kf k m = None \<longleftrightarrow> k \<notin> um_keys kf m"
  by (simp add: um_find_def us_find_None)

lemma um_find_Some: "um_find kf k m = Some v \<Longrightarrow> \<exists>a. (a, v) \<in> set m \<and> kf a = k"
  by (auto simp: um_find_def dest!: us_find_Some)

lemma um_find_emplace [container_simps]:
  "um_find kf k (um_emplace kf a v m)
     = (if k = kf a \<and> kf a \<notin> um_keys kf m then Some v else um_find kf k m)"
  by (simp add: um_find_def um_emplace_def us_find_emplace)

lemma um_find_erase [container_simps]:
  "um_find kf k (um_erase kf k' m) = (if k = k' then None else um_find kf k m)"
  by (simp add: um_find_def um_erase_def us_find_erase)

lemma um_keys_emplace [container_simps]:
  "um_keys kf (um_emplace kf a v m) = insert (kf a) (um_keys kf m)"
  by (simp add: um_emplace_def us_keys_emplace)

lemma um_keys_erase [container_simps]: "um_keys kf (um_erase kf k m) = um_keys kf m - {k}"
  by (simp add: um_erase_def us_keys_erase)

lemma um_wf_emplace [container_simps]: "um_wf kf m \<Longrightarrow> um_wf kf (um_emplace kf a v m)"
  by (simp add: um_emplace_def us_wf_emplace)

lemma um_wf_erase [container_simps]: "um_wf kf m \<Longrightarrow> um_wf kf (um_erase kf k m)"
  by (simp add: um_erase_def us_wf_erase)

lemma um_keys_assign [container_simps]:
  "um_keys kf (um_assign kf a v m) = insert (kf a) (um_keys kf m)"
proof -
  have "(kf \<circ> fst) ` set (map (\<lambda>(b, w). if kf b = kf a then (b, v) else (b, w)) m)
      = (kf \<circ> fst) ` set m"
    by (induction m) auto
  moreover have "kf a \<in> (kf \<circ> fst) ` set m" if "us_find (kf \<circ> fst) (kf a) m \<noteq> None"
    using that by (auto simp: us_find_None us_keys_def)
  ultimately show ?thesis
    by (auto simp: um_assign_def us_keys_def)
qed

lemma um_wf_assign [container_simps]: "um_wf kf m \<Longrightarrow> um_wf kf (um_assign kf a v m)"
proof -
  have "map (kf \<circ> fst) (map (\<lambda>(b, w). if kf b = kf a then (b, v) else (b, w)) m)
      = map (kf \<circ> fst) m"
    by (induction m) auto
  then show "um_wf kf m \<Longrightarrow> um_wf kf (um_assign kf a v m)"
    by (auto simp: um_assign_def us_wf_def us_find_None us_keys_def simp del: map_map)
qed

lemma um_find_assign [container_simps]:
  "um_find kf k (um_assign kf a v m) = (if k = kf a then Some v else um_find kf k m)"
proof (cases "us_find (kf \<circ> fst) (kf a) m = None")
  case True
  then show ?thesis
    by (induction m) (auto simp: um_assign_def um_find_def us_find_def split: if_splits)
next
  case False
  have "um_find kf k (map (\<lambda>(b, w). if kf b = kf a then (b, v) else (b, w)) m)
      = (if k = kf a \<and> k \<in> um_keys kf m then Some v else um_find kf k m)"
    by (induction m) (auto simp: um_find_def us_find_def)
  with False show ?thesis
    by (auto simp: um_assign_def us_find_None)
qed

text \<open>The laws for maps that compare whole keys.\<close>

lemmas um_id_simps =
  um_find_None [where kf = id, simplified] um_find_emplace [where kf = id, simplified]
  um_find_erase [where kf = id, simplified] um_keys_emplace [where kf = id, simplified]
  um_keys_erase [where kf = id, simplified] um_wf_emplace [where kf = id, simplified]
  um_wf_erase [where kf = id, simplified]

text \<open>A loop over a \<^verbatim>\<open>std::map\<close> visits the keys in increasing order.\<close>

lemma sort_um_keys: "um_wf id m \<Longrightarrow> sort (map fst m) = sorted_list_of_set (um_keys id m)"
  by (intro sorted_distinct_set_unique) (auto simp: us_wf_def us_keys_def)

section \<open>Sums of machine sizes\<close>

text \<open>
  Sizes are summed as natural numbers, so that a sum that would wrap is not mistaken for a
  small one.
\<close>

definition sum_sizes :: "('a \<Rightarrow> size_t) \<Rightarrow> 'a list \<Rightarrow> nat" where
  "sum_sizes sz xs = sum_list (map (\<lambda>x. unat (sz x)) xs)"

lemma sum_sizes_Nil [simp]: "sum_sizes sz [] = 0"
  by (simp add: sum_sizes_def)

lemma sum_sizes_Cons [simp]: "sum_sizes sz (x # xs) = unat (sz x) + sum_sizes sz xs"
  by (simp add: sum_sizes_def)

lemma sum_sizes_append [simp]: "sum_sizes sz (xs @ ys) = sum_sizes sz xs + sum_sizes sz ys"
  by (simp add: sum_sizes_def)

lemma sum_sizes_mset: "mset xs = mset ys \<Longrightarrow> sum_sizes sz xs = sum_sizes sz ys"
  by (simp add: sum_sizes_def flip: sum_mset_sum_list)

lemma sum_sizes_cong: "(\<And>x. x \<in> set xs \<Longrightarrow> sz x = sz' x) \<Longrightarrow> sum_sizes sz xs = sum_sizes sz' xs"
  by (simp add: sum_sizes_def cong: map_cong)

lemma sum_sizes_us_wf:
  assumes "us_wf kf xs"
  shows "sum_sizes (g \<circ> kf) xs = (\<Sum>k \<in> us_keys kf xs. unat (g k))"
proof -
  have "(\<Sum>k \<in> set (map kf xs). unat (g k)) = sum_list (map (\<lambda>k. unat (g k)) (map kf xs))"
    using assms by (intro sum_list_distinct_conv_sum_set [symmetric]) (simp add: us_wf_def)
  then show ?thesis by (simp add: sum_sizes_def us_keys_def comp_def)
qed

text \<open>Sizes that depend on the key only: a smaller key set has a smaller sum.\<close>

lemma sum_sizes_mono_keys:
  assumes "us_wf kf xs" and "us_wf kf ys" and "us_keys kf xs \<subseteq> us_keys kf ys"
  shows "sum_sizes (g \<circ> kf) xs \<le> sum_sizes (g \<circ> kf) ys"
  unfolding sum_sizes_us_wf [OF assms(1)] sum_sizes_us_wf [OF assms(2)]
  by (rule sum_mono2) (use assms(3) in \<open>auto simp: us_keys_def\<close>)

lemma sum_sizes_filter_compl:
  "sum_sizes sz (filter P xs) + sum_sizes sz (filter (\<lambda>x. \<not> P x) xs) = sum_sizes sz xs"
  by (induction xs) auto

lemma fold_us_emplace_wf:
  assumes "us_wf kf (ys @ xs)"
  shows "fold (us_emplace kf) xs ys = ys @ xs"
  using assms
proof (induction xs arbitrary: ys)
  case (Cons x xs)
  then have "kf x \<notin> us_keys kf ys" by (auto simp: us_wf_def us_keys_def)
  then have "us_emplace kf x ys = ys @ [x]" by (simp add: us_emplace_def us_find_None)
  with Cons show ?case by simp
qed simp

lemma fold_us_emplace_keys:
  "us_keys kf (fold (us_emplace kf) xs ys) = us_keys kf ys \<union> us_keys kf xs"
  by (induction xs arbitrary: ys) (auto simp: container_simps)

lemma fold_us_emplace_set:
  "set (fold (us_emplace kf) xs ys) \<subseteq> set ys \<union> set xs"
proof (induction xs arbitrary: ys)
  case (Cons x xs)
  from Cons.IH [of "us_emplace kf x ys"] show ?case by (auto simp: us_emplace_def split: if_splits)
qed simp

lemma fold_us_emplace_us_wf:
  "us_wf kf ys \<Longrightarrow> us_wf kf (fold (us_emplace kf) xs ys)"
  by (induction xs arbitrary: ys) (auto simp: container_simps)

lemma us_wf_mset: "mset xs = mset ys \<Longrightarrow> us_wf kf xs = us_wf kf ys"
  unfolding us_wf_def by (metis mset_eq_imp_distinct_iff mset_map)

lemma us_wf_filter: "us_wf kf xs \<Longrightarrow> us_wf kf (filter P xs)"
  by (simp add: us_wf_def distinct_map_filter)

text \<open>Addition and subtraction on \<^typ>\<open>size_t\<close> that do not wrap.\<close>

lemma unat_add_le:
  fixes a b m :: size_t
  assumes "unat a + unat b \<le> unat m"
  shows "unat (a + b) = unat a + unat b"
proof -
  have "unat m < 2 ^ 64" using unsigned_less [of m] by simp
  with assms have "unat a + unat b < 2 ^ LENGTH(64)" by simp
  then show ?thesis by (rule unat_add_lem [THEN iffD1])
qed

lemma unat_sub_le:
  fixes a b :: size_t
  assumes "b \<le> a"
  shows "unat (a - b) = unat a - unat b"
  using assms by (simp add: unat_sub)

end
