(* ===== verification/Segment_Key.thy ===== *)
theory Segment_Key
  imports Hermes_Prelude
begin

text \<open>
  The data the segment cache works on: S3 partitions
  (\<^verbatim>\<open>fpdb-catalogue/src/s3/S3Partition.cpp\<close>), segment ranges, metadata and keys
  (\<^verbatim>\<open>fpdb-cache/src/SegmentRange.cpp\<close>, \<^verbatim>\<open>SegmentMetadata.cpp\<close>,
  \<^verbatim>\<open>SegmentKey.cpp\<close>).

  Keys are handed around as \<^verbatim>\<open>std::shared_ptr<SegmentKey>\<close> and share their metadata
  object, which the policies mutate.  A key therefore carries its own address \<open>key_ptr\<close> (what
  \<^verbatim>\<open>==\<close> on shared pointers compares) and the address of its metadata; the metadata
  objects live in a \<open>heap\<close>.  Key equality, which all hashed containers use, looks at
  the partition and the column name only: \<open>kid\<close>.

  A \<^verbatim>\<open>double\<close> is a value of a type variable, and the arithmetic on it an argument
  (\<open>double_ops\<close>), so that nothing below depends on rounding.
\<close>

section \<open>Decimal parsing\<close>

definition is_digit_char :: "char \<Rightarrow> bool" where
  "is_digit_char c \<longleftrightarrow> 48 \<le> (of_char c :: nat) \<and> (of_char c :: nat) \<le> 57"

definition digit_val :: "char \<Rightarrow> nat" where
  "digit_val c = (of_char c :: nat) - 48"

definition digits_val :: "string \<Rightarrow> nat" where
  "digits_val ds = foldl (\<lambda>a c. 10 * a + digit_val c) 0 ds"

definition is_space_char :: "char \<Rightarrow> bool" where
  "is_space_char c \<longleftrightarrow> (of_char c :: nat) = 32 \<or> (9 \<le> (of_char c :: nat) \<and> (of_char c :: nat) \<le> 13)"

text \<open>
  \<^verbatim>\<open>std::stol\<close>: leading white space, an optional sign, the longest run of digits; no digit is
  an \<^verbatim>\<open>invalid_argument\<close>, a value outside \<^verbatim>\<open>long\<close> an
  \<^verbatim>\<open>out_of_range\<close>; what follows the digits is ignored.
\<close>

definition stol :: "string \<Rightarrow> int result" where
  "stol s =
     (let t = dropWhile is_space_char s;
          neg = (t \<noteq> [] \<and> hd t = CHR ''-'');
          u = (if t \<noteq> [] \<and> (hd t = CHR ''-'' \<or> hd t = CHR ''+'') then tl t else t);
          ds = takeWhile is_digit_char u;
          v = (if neg then - int (digits_val ds) else int (digits_val ds))
      in if ds = [] then Inl (InvalidArgument ''stol'')
         else if v < - (2 ^ 63) \<or> 2 ^ 63 \<le> v then Inl (OutOfRange ''stol'')
         else Inr v)"

section \<open>S3 partitions\<close>

record S3Partition =
  s3Bucket :: string
  s3Object :: string

definition S3Partition_toString :: "S3Partition \<Rightarrow> string" where
  "S3Partition_toString p = ''s3://'' @ s3Bucket p @ ''/'' @ s3Object p"

text \<open>\<open>equalTo\<close> casts statically, so within one catalogue type it is field equality.\<close>

definition S3Partition_equalTo :: "S3Partition \<Rightarrow> S3Partition \<Rightarrow> bool" where
  "S3Partition_equalTo p q \<longleftrightarrow> s3Bucket p = s3Bucket q \<and> s3Object p = s3Object q"

text \<open>
  The \<^verbatim>\<open>std::getline\<close> loop with a delimiter: a segment ends at the delimiter, and a
  delimiter at the very end opens no further segment.
\<close>

function getline_segments :: "char \<Rightarrow> string \<Rightarrow> string list" where
  "getline_segments d [] = []"
| "getline_segments d (c # cs) =
     (let seg = takeWhile (\<lambda>x. x \<noteq> d) (c # cs);
          rest = dropWhile (\<lambda>x. x \<noteq> d) (c # cs)
      in seg # getline_segments d (tl rest))"
  by pat_completeness auto
termination
proof (relation "measure (\<lambda>(d, s). length s)")
  fix d c :: char and cs seg rest :: string
  assume "rest = dropWhile (\<lambda>x. x \<noteq> d) (c # cs)"
  then have "length rest \<le> length (c # cs)" by (simp add: length_dropWhile_le le_SucI)
  then show "((d, tl rest), d, c # cs) \<in> measure (\<lambda>(d, s). length s)" by auto
qed simp

definition S3Partition_toRawPartition :: "S3Partition \<Rightarrow> int result" where
  "S3Partition_toRawPartition p =
     (let segmentList = getline_segments (CHR ''.'') (s3Object p)
      in if length segmentList \<le> 2 then Inr 0 else stol (last segmentList))"

section \<open>Ranges, metadata and keys\<close>

record SegmentRange =
  startOffset :: size_t
  finishOffset :: size_t

definition SegmentRange_make :: "size_t \<Rightarrow> size_t \<Rightarrow> SegmentRange" where
  "SegmentRange_make s f = \<lparr>startOffset = s, finishOffset = f\<rparr>"

definition SegmentRange_toString :: "SegmentRange \<Rightarrow> string" where
  "SegmentRange_toString r =
     ''('' @ string_of_nat (unat (startOffset r)) @ '':'' @ string_of_nat (unat (finishOffset r))
       @ '')''"

definition SegmentRange_eq :: "SegmentRange \<Rightarrow> SegmentRange \<Rightarrow> bool" where
  "SegmentRange_eq a b \<longleftrightarrow> startOffset a = startOffset b \<and> finishOffset a = finishOffset b"

record 'd SegmentMetadata =
  md_size :: size_t
  md_hitNum :: int
  md_perSizeFreq :: 'd
  md_value :: 'd
  md_valid :: bool

record 'd double_ops =
  d_zero :: 'd
  d_quot :: "int \<Rightarrow> size_t \<Rightarrow> 'd"
  d_add :: "'d \<Rightarrow> 'd \<Rightarrow> 'd"

definition SegmentMetadata_make :: "'d double_ops \<Rightarrow> size_t \<Rightarrow> 'd SegmentMetadata" where
  "SegmentMetadata_make D sz =
     \<lparr>md_size = sz, md_hitNum = 1, md_perSizeFreq = d_zero D, md_value = d_zero D, md_valid = True\<rparr>"

text \<open>The copy constructor makes the copy valid.\<close>

definition SegmentMetadata_copy :: "'d SegmentMetadata \<Rightarrow> 'd SegmentMetadata" where
  "SegmentMetadata_copy m =
     \<lparr>md_size = md_size m, md_hitNum = md_hitNum m, md_perSizeFreq = md_perSizeFreq m, md_value = md_value m,
      md_valid = True\<rparr>"

definition setSize :: "size_t \<Rightarrow> 'd SegmentMetadata \<Rightarrow> 'd SegmentMetadata" where
  "setSize sz m = m\<lparr>md_size := sz\<rparr>"

definition incHitNum :: "'d SegmentMetadata \<Rightarrow> 'd SegmentMetadata" where
  "incHitNum m = m\<lparr>md_hitNum := md_hitNum m + 1\<rparr>"

definition incHitNum_size :: "'d double_ops \<Rightarrow> size_t \<Rightarrow> 'd SegmentMetadata \<Rightarrow> 'd SegmentMetadata"
  where
  "incHitNum_size D sz m =
     m\<lparr>md_hitNum := md_hitNum m + 1, md_perSizeFreq := d_quot D (md_hitNum m + 1) sz\<rparr>"

definition addValue :: "'d double_ops \<Rightarrow> 'd \<Rightarrow> 'd SegmentMetadata \<Rightarrow> 'd SegmentMetadata" where
  "addValue D v m = m\<lparr>md_value := d_add D (md_value m) v\<rparr>"

definition invalidate :: "'d SegmentMetadata \<Rightarrow> 'd SegmentMetadata" where
  "invalidate m = m\<lparr>md_valid := False\<rparr>"

record SegmentKey =
  key_ptr :: nat
  key_partition :: S3Partition
  key_columnName :: string
  key_range :: SegmentRange
  key_metadata :: "nat option"

definition SegmentKey_make ::
  "nat \<Rightarrow> S3Partition \<Rightarrow> string \<Rightarrow> SegmentRange \<Rightarrow> nat option \<Rightarrow> SegmentKey" where
  "SegmentKey_make p part col rng md =
     \<lparr>key_ptr = p, key_partition = part, key_columnName = col, key_range = rng, key_metadata = md\<rparr>"

definition SegmentKey_toString :: "SegmentKey \<Rightarrow> string" where
  "SegmentKey_toString k =
     ''{ partition: '' @ S3Partition_toString (key_partition k) @ '', column: '' @ key_columnName k
       @ '', range: '' @ SegmentRange_toString (key_range k) @ '' }''"

definition SegmentKey_eq :: "SegmentKey \<Rightarrow> SegmentKey \<Rightarrow> bool" where
  "SegmentKey_eq a b \<longleftrightarrow>
     S3Partition_equalTo (key_partition a) (key_partition b) \<and> key_columnName a = key_columnName b"

text \<open>\<open>kid\<close> is what \<^const>\<open>SegmentKey_eq\<close> compares: the key of the hashed containers.\<close>

datatype key_id = KeyId string string string

definition kid :: "SegmentKey \<Rightarrow> key_id" where
  "kid k = KeyId (s3Bucket (key_partition k)) (s3Object (key_partition k)) (key_columnName k)"

lemma SegmentKey_eq_kid: "SegmentKey_eq a b \<longleftrightarrow> kid a = kid b"
  by (auto simp: SegmentKey_eq_def S3Partition_equalTo_def kid_def)

text \<open>
  The hash is the hash of the partition's string, here with the string hash \<open>hs\<close> as an
  argument.
\<close>

definition SegmentKey_hash :: "(string \<Rightarrow> size_t) \<Rightarrow> SegmentKey \<Rightarrow> size_t" where
  "SegmentKey_hash hs k = hs (S3Partition_toString (key_partition k))"

section \<open>The heap of metadata objects\<close>

record 'd heap =
  mem :: "nat \<Rightarrow> 'd SegmentMetadata"
  next_ptr :: nat

definition meta :: "'d heap \<Rightarrow> SegmentKey \<Rightarrow> 'd SegmentMetadata result" where
  "meta h k = (case key_metadata k of
       None \<Rightarrow> Inl (UndefinedBehaviour ''null metadata dereferenced'')
     | Some r \<Rightarrow> Inr (mem h r))"

definition upd_meta ::
  "('d SegmentMetadata \<Rightarrow> 'd SegmentMetadata) \<Rightarrow> SegmentKey \<Rightarrow> 'd heap \<Rightarrow> 'd heap result" where
  "upd_meta f k h = (case key_metadata k of
       None \<Rightarrow> Inl (UndefinedBehaviour ''null metadata dereferenced'')
     | Some r \<Rightarrow> Inr (h\<lparr>mem := (mem h)(r := f (mem h r))\<rparr>))"

definition ksize :: "'d heap \<Rightarrow> SegmentKey \<Rightarrow> size_t" where
  "ksize h k = (case key_metadata k of None \<Rightarrow> 0 | Some r \<Rightarrow> md_size (mem h r))"

lemma meta_ksize: "meta h k = Inr m \<Longrightarrow> md_size m = ksize h k"
  by (auto simp: meta_def ksize_def split: option.splits)

lemma meta_Some: "key_metadata k \<noteq> None \<Longrightarrow> \<exists>m. meta h k = Inr m \<and> md_size m = ksize h k"
  by (auto simp: meta_def ksize_def)

section \<open>A concrete instance\<close>

text \<open>
  Sample keys, one per column name, with a metadata object each: object \<open>n\<close> describes a
  segment of \<open>10 * (n + 1)\<close> bytes.  The witnesses of the cache theories run on them.
\<close>

definition int_ops :: "int double_ops" where
  "int_ops = \<lparr>d_zero = 0, d_quot = (\<lambda>n s. n div uint s), d_add = (+)\<rparr>"

definition sample_heap :: "int heap" where
  "sample_heap = \<lparr>mem = (\<lambda>n. SegmentMetadata_make int_ops (of_nat (10 * (n + 1)))), next_ptr = 10\<rparr>"

definition sample_key :: "nat \<Rightarrow> string \<Rightarrow> SegmentKey" where
  "sample_key n col = SegmentKey_make n \<lparr>s3Bucket = ''b'', s3Object = ''t/a.tbl''\<rparr> col
     (SegmentRange_make 0 100) (Some n)"

lemma kid_sample_key [simp]: "kid (sample_key n c) = KeyId ''b'' ''t/a.tbl'' c"
  by (simp add: kid_def sample_key_def SegmentKey_make_def)

lemma key_metadata_sample_key [simp]: "key_metadata (sample_key n c) = Some n"
  by (simp add: sample_key_def SegmentKey_make_def)

lemma key_ptr_sample_key [simp]: "key_ptr (sample_key n c) = n"
  by (simp add: sample_key_def SegmentKey_make_def)

lemma meta_sample [simp]:
  "meta sample_heap (sample_key n c) = Inr (SegmentMetadata_make int_ops (of_nat (10 * (n + 1))))"
  by (simp add: meta_def sample_heap_def)

lemma ksize_sample [simp]: "ksize sample_heap (sample_key n c) = of_nat (10 * (n + 1))"
  by (simp add: ksize_def sample_heap_def SegmentMetadata_make_def)

section \<open>Lemmas\<close>

lemma digit_char_props:
  assumes "d < 10"
  shows "is_digit_char (digit_char d)" and "digit_val (digit_char d) = d"
  using assms by (simp_all add: is_digit_char_def digit_val_def digit_char_def)

lemma digits_val_snoc: "digits_val (ds @ [c]) = 10 * digits_val ds + digit_val c"
  by (simp add: digits_val_def)

lemma string_of_nat_digits: "\<forall>c \<in> set (string_of_nat n). is_digit_char c"
proof (induction n rule: string_of_nat.induct)
  case (1 n)
  then show ?case
    by (cases "n < 10") (auto simp: string_of_nat.simps [of n] digit_char_props)
qed

lemma string_of_nat_val: "digits_val (string_of_nat n) = n"
proof (induction n rule: string_of_nat.induct)
  case (1 n)
  show ?case
  proof (cases "n < 10")
    case True
    then show ?thesis
      by (simp add: string_of_nat.simps [of n] digits_val_def digit_char_props)
  next
    case False
    with 1 have "digits_val (string_of_nat (n div 10)) = n div 10" by simp
    with False show ?thesis
      by (simp add: string_of_nat.simps [of n] digits_val_snoc digit_char_props)
  qed
qed

lemma string_of_nat_nonempty: "string_of_nat n \<noteq> []"
  by (simp add: string_of_nat.simps [of n])

lemma hd_string_of_nat: "is_digit_char (hd (string_of_nat n))"
  using string_of_nat_digits [of n] string_of_nat_nonempty [of n] by (cases "string_of_nat n") auto

lemma stol_string_of_nat:
  assumes "n < 2 ^ 63"
  shows "stol (string_of_nat n) = Inr (int n)"
proof -
  obtain c cs where s: "string_of_nat n = c # cs"
    using string_of_nat_nonempty [of n] by (cases "string_of_nat n") auto
  have d: "is_digit_char c" using hd_string_of_nat [of n] s by simp
  then have nsp: "\<not> is_space_char c" and "c \<noteq> CHR ''-''" and "c \<noteq> CHR ''+''"
    by (auto simp: is_digit_char_def is_space_char_def)
  then have dw: "dropWhile is_space_char (string_of_nat n) = string_of_nat n"
    and hd: "hd (string_of_nat n) \<noteq> CHR ''-''" "hd (string_of_nat n) \<noteq> CHR ''+''"
    using s by simp_all
  have tw: "takeWhile is_digit_char (string_of_nat n) = string_of_nat n"
    using string_of_nat_digits [of n] by (simp add: takeWhile_eq_all_conv)
  have "int n < 2 ^ 63" using assms by simp
  then show ?thesis
    using hd by (simp add: stol_def Let_def dw tw string_of_nat_val string_of_nat_nonempty)
qed

lemma getline_segments_no_delim:
  "s \<noteq> [] \<Longrightarrow> d \<notin> set s \<Longrightarrow> getline_segments d s = [s]"
proof (cases s)
  case (Cons c cs)
  moreover assume "d \<notin> set s"
  ultimately have "takeWhile (\<lambda>x. x \<noteq> d) s = s" and "dropWhile (\<lambda>x. x \<noteq> d) s = []"
    by (auto simp: takeWhile_eq_all_conv)
  with Cons show ?thesis by simp
qed simp

lemma getline_segments_cons:
  assumes "d \<notin> set s"
  shows "getline_segments d (s @ d # t) = s # getline_segments d t"
proof -
  have tw: "takeWhile (\<lambda>x. x \<noteq> d) (s @ d # t) = s"
    and dw: "dropWhile (\<lambda>x. x \<noteq> d) (s @ d # t) = d # t"
    using assms by (auto simp: takeWhile_append dropWhile_append)
  show ?thesis
  proof (cases s)
    case Nil
    then show ?thesis by simp
  next
    case (Cons c cs)
    then show ?thesis using tw dw by simp
  qed
qed

lemma string_of_nat_no_dot: "CHR ''.'' \<notin> set (string_of_nat n)"
  using string_of_nat_digits [of n] by (auto simp: is_digit_char_def)

end
