(* ===== verification/Segment_Cache.thy ===== *)
theory Segment_Cache
  imports Segment_Key "HOL-Library.Sublist"
begin

text \<open>
  The segment cache (\<^verbatim>\<open>fpdb-cache/src/SegmentCache.cpp\<close>) over the interface of a
  caching policy (\<^verbatim>\<open>fpdb-cache/src/policy/CachingPolicy.cpp\<close>,
  \<^verbatim>\<open>CachingPolicy.h\<close>).

  The virtual methods of \<^verbatim>\<open>CachingPolicy\<close> are the fields of \<open>policy_vtable\<close>;
  the cache calls the policy through it, as the C++ code does through the vtable.  What the cache
  relies on is the locale \<open>caching_policy\<close>, which the theory of each policy interprets on its
  own model: a policy's key set follows exactly the decisions it reports.  Inside the locale the
  agreement between the cache and its policy is proved once, for all policies.
\<close>

section \<open>The base class of the policies\<close>

datatype CachingPolicyType = LRU | LFU | LFUS | WLFU | BELADY

datatype CatalogueEntryType = S3 | LOCAL_FS

record CachingPolicy =
  policyType :: CachingPolicyType
  maxSize :: size_t
  freeSize :: size_t
  segmentSizeMap :: "(SegmentKey \<times> size_t) list"

text \<open>
  The constructor.  \<open>entry\<close> is the catalogue entry, if any: its type, its name and the segment
  sizes \<^verbatim>\<open>Util::readSegmentKeySize\<close> reads from its \<^verbatim>\<open>segment_info\<close> file.
\<close>

definition CachingPolicy_make ::
  "CachingPolicyType \<Rightarrow> size_t \<Rightarrow>
   (CatalogueEntryType \<times> string \<times> (SegmentKey \<times> size_t) list) option \<Rightarrow> bool \<Rightarrow>
   CachingPolicy result" where
  "CachingPolicy_make ty ms entry readSegmentSize =
     (let p = \<lparr>policyType = ty, maxSize = ms, freeSize = ms, segmentSizeMap = []\<rparr>
      in case entry of
           Some (ety, name, sizes) \<Rightarrow>
             (if readSegmentSize then
                (if ety = S3 then Inr (p\<lparr>segmentSizeMap := sizes\<rparr>)
                 else Inl (RuntimeError
                   (''Read segment size unsupported, catalogue entry: '' @ name)))
              else Inr p)
         | None \<Rightarrow> Inr p)"

definition getSegmentSize :: "('a CachingPolicy_scheme) \<Rightarrow> SegmentKey \<Rightarrow> size_t result" where
  "getSegmentSize p k =
     (case um_find kid (kid k) (segmentSizeMap p) of
        Some s \<Rightarrow> Inr s
      | None \<Rightarrow> Inl (RuntimeError
          (''Segment key not found in getSegmentSize: '' @ SegmentKey_toString k)))"

record 'p policy_vtable =
  vt_onLoad :: "SegmentKey \<Rightarrow> 'p \<Rightarrow> 'p result"
  vt_onStore :: "SegmentKey \<Rightarrow> 'p \<Rightarrow> (SegmentKey list option \<times> 'p) result"
  vt_onRemove :: "SegmentKey \<Rightarrow> 'p \<Rightarrow> 'p result"
  vt_onToCache :: "SegmentKey list \<Rightarrow> 'p \<Rightarrow> (SegmentKey list \<times> 'p) result"
  vt_onNewQuery :: "'p \<Rightarrow> 'p"
  vt_getKeysetInCachePolicy :: "'p \<Rightarrow> SegmentKey list"

section \<open>The cache\<close>

record ('p, 'c) SegmentCache =
  cacheMap :: "(SegmentKey \<times> 'c) list"
  cachingPolicy :: 'p
  hitNum :: size_t
  missNum :: size_t
  shardHitNum :: size_t
  shardMissNum :: size_t
  crtQueryHitNum :: size_t
  crtQueryMissNum :: size_t
  crtQueryShardHitNum :: size_t
  crtQueryShardMissNum :: size_t

definition SegmentCache_make :: "'p \<Rightarrow> ('p, 'c) SegmentCache" where
  "SegmentCache_make p =
     \<lparr>cacheMap = [], cachingPolicy = p, hitNum = 0, missNum = 0, shardHitNum = 0, shardMissNum = 0,
      crtQueryHitNum = 0, crtQueryMissNum = 0, crtQueryShardHitNum = 0, crtQueryShardMissNum = 0\<rparr>"

definition erase_all :: "SegmentKey list \<Rightarrow> (SegmentKey \<times> 'c) list \<Rightarrow> (SegmentKey \<times> 'c) list" where
  "erase_all ks m = fold (\<lambda>k m. um_erase kid (kid k) m) ks m"

definition SegmentCache_store ::
  "'p policy_vtable \<Rightarrow> SegmentKey \<Rightarrow> 'c \<Rightarrow> ('p, 'c) SegmentCache \<Rightarrow> ('p, 'c) SegmentCache result"
  where
  "SegmentCache_store vt key d c =
     rbind (vt_onStore vt key (cachingPolicy c)) (\<lambda>(removable, p).
       case removable of
         Some ks \<Rightarrow> Inr (c\<lparr>cachingPolicy := p,
                          cacheMap := um_emplace kid key d (erase_all ks (cacheMap c))\<rparr>)
       | None \<Rightarrow> Inr (c\<lparr>cachingPolicy := p\<rparr>))"

text \<open>The result of a load: the data, or the message of the \<^verbatim>\<open>tl::unexpected\<close>.\<close>

definition SegmentCache_load ::
  "'p policy_vtable \<Rightarrow> SegmentKey \<Rightarrow> ('p, 'c) SegmentCache \<Rightarrow>
   ((string + 'c) \<times> ('p, 'c) SegmentCache) result" where
  "SegmentCache_load vt key c =
     rbind (vt_onLoad vt key (cachingPolicy c)) (\<lambda>p.
       let c' = c\<lparr>cachingPolicy := p\<rparr>
       in case um_find kid (kid key) (cacheMap c) of
            None \<Rightarrow> Inr (Inl (''Segment for key '' @ [CHR 0x27] @ SegmentKey_toString key @ [CHR 0x27]
              @ '' not found''), c')
          | Some d \<Rightarrow> Inr (Inr d, c'))"

text \<open>\<^verbatim>\<open>remove(key)\<close> erases the entry and does not tell the policy.\<close>

definition SegmentCache_remove :: "SegmentKey \<Rightarrow> ('p, 'c) SegmentCache \<Rightarrow> nat \<times> ('p, 'c) SegmentCache"
  where
  "SegmentCache_remove key c =
     ((if kid key \<in> um_keys kid (cacheMap c) then 1 else 0),
      c\<lparr>cacheMap := um_erase kid (kid key) (cacheMap c)\<rparr>)"

text \<open>
  \<^verbatim>\<open>remove(predicate)\<close> iterates over \<^verbatim>\<open>map_\<close> with a range-based loop and erases the
  current entry inside it: the loop then increments an iterator the erasure has invalidated.
  The first matching key therefore ends in undefined behaviour.
\<close>

fun SegmentCache_remove_if_loop ::
  "'p policy_vtable \<Rightarrow> (SegmentKey \<Rightarrow> bool) \<Rightarrow> (SegmentKey \<times> 'c) list \<Rightarrow> nat \<Rightarrow>
   ('p, 'c) SegmentCache \<Rightarrow> (nat \<times> ('p, 'c) SegmentCache) result" where
  "SegmentCache_remove_if_loop vt P [] n c = Inr (n, c)"
| "SegmentCache_remove_if_loop vt P ((k, d) # es) n c =
     (if P k then
        rbind (vt_onRemove vt k (cachingPolicy c)) (\<lambda>p.
          Inl (UndefinedBehaviour ''iterator of an erased element incremented''))
      else SegmentCache_remove_if_loop vt P es n c)"

definition SegmentCache_remove_if ::
  "'p policy_vtable \<Rightarrow> (SegmentKey \<Rightarrow> bool) \<Rightarrow> ('p, 'c) SegmentCache \<Rightarrow>
   (nat \<times> ('p, 'c) SegmentCache) result" where
  "SegmentCache_remove_if vt P c = SegmentCache_remove_if_loop vt P (cacheMap c) 0 c"

definition SegmentCache_getSize :: "('p, 'c) SegmentCache \<Rightarrow> nat" where
  "SegmentCache_getSize c = length (cacheMap c)"

definition SegmentCache_toCache ::
  "'p policy_vtable \<Rightarrow> SegmentKey list \<Rightarrow> ('p, 'c) SegmentCache \<Rightarrow>
   (SegmentKey list \<times> ('p, 'c) SegmentCache) result" where
  "SegmentCache_toCache vt ks c =
     rbind (vt_onToCache vt ks (cachingPolicy c)) (\<lambda>(r, p). Inr (r, c\<lparr>cachingPolicy := p\<rparr>))"

definition SegmentCache_clearMetrics :: "('p, 'c) SegmentCache \<Rightarrow> ('p, 'c) SegmentCache" where
  "SegmentCache_clearMetrics c =
     c\<lparr>hitNum := 0, missNum := 0, shardHitNum := 0, shardMissNum := 0,
       crtQueryHitNum := 0, crtQueryMissNum := 0, crtQueryShardHitNum := 0,
       crtQueryShardMissNum := 0\<rparr>"

definition SegmentCache_clearCrtQueryMetrics :: "('p, 'c) SegmentCache \<Rightarrow> ('p, 'c) SegmentCache"
  where
  "SegmentCache_clearCrtQueryMetrics c =
     c\<lparr>crtQueryHitNum := 0, crtQueryMissNum := 0, crtQueryShardHitNum := 0,
       crtQueryShardMissNum := 0\<rparr>"

definition SegmentCache_newQuery ::
  "'p policy_vtable \<Rightarrow> ('p, 'c) SegmentCache \<Rightarrow> ('p, 'c) SegmentCache" where
  "SegmentCache_newQuery vt c =
     SegmentCache_clearCrtQueryMetrics (c\<lparr>cachingPolicy := vt_onNewQuery vt (cachingPolicy c)\<rparr>)"

text \<open>The eight \<^verbatim>\<open>add...Num\<close> methods, in the order of the source.\<close>

definition SegmentCache_addHitNum :: "size_t \<Rightarrow> ('p, 'c) SegmentCache \<Rightarrow> ('p, 'c) SegmentCache" where
  "SegmentCache_addHitNum n c = c\<lparr>hitNum := hitNum c + n\<rparr>"

definition SegmentCache_addMissNum :: "size_t \<Rightarrow> ('p, 'c) SegmentCache \<Rightarrow> ('p, 'c) SegmentCache" where
  "SegmentCache_addMissNum n c = c\<lparr>missNum := missNum c + n\<rparr>"

definition SegmentCache_addShardHitNum :: "size_t \<Rightarrow> ('p, 'c) SegmentCache \<Rightarrow> ('p, 'c) SegmentCache"
  where
  "SegmentCache_addShardHitNum n c = c\<lparr>shardHitNum := shardHitNum c + n\<rparr>"

definition SegmentCache_addShardMissNum :: "size_t \<Rightarrow> ('p, 'c) SegmentCache \<Rightarrow> ('p, 'c) SegmentCache"
  where
  "SegmentCache_addShardMissNum n c = c\<lparr>shardMissNum := shardMissNum c + n\<rparr>"

definition SegmentCache_addCrtQueryHitNum ::
  "size_t \<Rightarrow> ('p, 'c) SegmentCache \<Rightarrow> ('p, 'c) SegmentCache" where
  "SegmentCache_addCrtQueryHitNum n c = c\<lparr>crtQueryHitNum := crtQueryHitNum c + n\<rparr>"

definition SegmentCache_addCrtQueryMissNum ::
  "size_t \<Rightarrow> ('p, 'c) SegmentCache \<Rightarrow> ('p, 'c) SegmentCache" where
  "SegmentCache_addCrtQueryMissNum n c = c\<lparr>crtQueryMissNum := crtQueryMissNum c + n\<rparr>"

definition SegmentCache_addCrtQueryShardHitNum ::
  "size_t \<Rightarrow> ('p, 'c) SegmentCache \<Rightarrow> ('p, 'c) SegmentCache" where
  "SegmentCache_addCrtQueryShardHitNum n c = c\<lparr>crtQueryShardHitNum := crtQueryShardHitNum c + n\<rparr>"

definition SegmentCache_addCrtQueryShardMissNum ::
  "size_t \<Rightarrow> ('p, 'c) SegmentCache \<Rightarrow> ('p, 'c) SegmentCache" where
  "SegmentCache_addCrtQueryShardMissNum n c = c\<lparr>crtQueryShardMissNum := crtQueryShardMissNum c + n\<rparr>"

text \<open>
  The policy's key set is an \<^verbatim>\<open>unordered_set\<close>, so its size counts keys, not list entries.
\<close>

definition checkCacheConsistencyWithCachePolicy ::
  "'p policy_vtable \<Rightarrow> ('p, 'c) SegmentCache \<Rightarrow> unit result" where
  "checkCacheConsistencyWithCachePolicy vt c =
     (let ks = vt_getKeysetInCachePolicy vt (cachingPolicy c)
      in if length (remdups (map kid ks)) \<noteq> length (cacheMap c) then
           Inl (RuntimeError
             ''Error, cache policy key set has different size than segment cache keyset'')
         else if list_ex (\<lambda>k. kid k \<notin> um_keys kid (cacheMap c)) ks then
           Inl (RuntimeError
             ''Error, cache policy key set has a key not present in the segment cache'')
         else Inr ())"

section \<open>Agreement of the cache with its policy\<close>

definition cache_agrees :: "'p policy_vtable \<Rightarrow> ('p, 'c) SegmentCache \<Rightarrow> bool" where
  "cache_agrees vt c \<longleftrightarrow>
     um_wf kid (cacheMap c) \<and>
     um_keys kid (cacheMap c) = us_keys kid (vt_getKeysetInCachePolicy vt (cachingPolicy c))"

lemma um_keys_erase_all [container_simps]:
  "um_keys kid (erase_all ks m) = um_keys kid m - us_keys kid ks"
  by (induction ks arbitrary: m) (auto simp: erase_all_def container_simps)

lemma um_wf_erase_all [container_simps]: "um_wf kid m \<Longrightarrow> um_wf kid (erase_all ks m)"
  by (induction ks arbitrary: m) (auto simp: erase_all_def container_simps)

lemma um_find_erase_all [container_simps]:
  "um_find kid k (erase_all ks m) = (if k \<in> us_keys kid ks then None else um_find kid k m)"
  by (induction ks arbitrary: m) (auto simp: erase_all_def container_simps)

text \<open>The check of the source accepts exactly the caches that agree with their policy.\<close>

lemma checkConsistency_iff_agrees:
  assumes "um_wf kid (cacheMap c)"
  shows "checkCacheConsistencyWithCachePolicy vt c = Inr () \<longleftrightarrow> cache_agrees vt c"
proof -
  let ?ks = "vt_getKeysetInCachePolicy vt (cachingPolicy c)"
  let ?K = "us_keys kid ?ks" and ?M = "um_keys kid (cacheMap c)"
  have K: "card ?K = length (remdups (map kid ?ks))"
    by (simp add: us_keys_def length_remdups_card_conv)
  have M: "card ?M = length (cacheMap c)"
    using assms distinct_card [of "map (kid \<circ> fst) (cacheMap c)"]
    by (simp add: us_wf_def us_keys_def)
  have fin: "finite ?M" by (simp add: us_keys_def)
  have "(length (remdups (map kid ?ks)) = length (cacheMap c) \<and> ?K \<subseteq> ?M) \<longleftrightarrow> ?M = ?K"
    using card_subset_eq [OF fin, of ?K] K M by auto
  moreover have "list_ex (\<lambda>k. kid k \<notin> ?M) ?ks \<longleftrightarrow> \<not> ?K \<subseteq> ?M"
    by (auto simp: list_ex_iff us_keys_def)
  ultimately show ?thesis
    using assms by (auto simp: checkCacheConsistencyWithCachePolicy_def cache_agrees_def Let_def)
qed

locale caching_policy =
  fixes vt :: "'p policy_vtable"
    and inv :: "'p \<Rightarrow> bool"
  assumes onLoad_laws:
      "\<lbrakk>inv p; vt_onLoad vt k p = Inr p'\<rbrakk>
       \<Longrightarrow> inv p' \<and> us_keys kid (vt_getKeysetInCachePolicy vt p')
                   = us_keys kid (vt_getKeysetInCachePolicy vt p)"
    and onStore_reject:
      "\<lbrakk>inv p; kid k \<notin> us_keys kid (vt_getKeysetInCachePolicy vt p);
        vt_onStore vt k p = Inr (None, p')\<rbrakk>
       \<Longrightarrow> inv p' \<and> us_keys kid (vt_getKeysetInCachePolicy vt p')
                   = us_keys kid (vt_getKeysetInCachePolicy vt p)"
    and onStore_accept:
      "\<lbrakk>inv p; kid k \<notin> us_keys kid (vt_getKeysetInCachePolicy vt p);
        vt_onStore vt k p = Inr (Some rs, p')\<rbrakk>
       \<Longrightarrow> inv p' \<and> us_keys kid (vt_getKeysetInCachePolicy vt p')
                   = insert (kid k) (us_keys kid (vt_getKeysetInCachePolicy vt p) - us_keys kid rs)"
    and onNewQuery_laws:
      "inv p \<Longrightarrow> inv (vt_onNewQuery vt p) \<and>
         us_keys kid (vt_getKeysetInCachePolicy vt (vt_onNewQuery vt p))
           = us_keys kid (vt_getKeysetInCachePolicy vt p)"
    and onToCache_laws:
      "\<lbrakk>inv p; vt_onToCache vt ks p = Inr (ks', p')\<rbrakk>
       \<Longrightarrow> inv p' \<and> us_keys kid (vt_getKeysetInCachePolicy vt p')
                   = us_keys kid (vt_getKeysetInCachePolicy vt p) \<and>
           subseq (map kid ks') (map kid ks)"
begin

definition good :: "('p, 'c) SegmentCache \<Rightarrow> bool" where
  "good c \<longleftrightarrow> inv (cachingPolicy c) \<and> cache_agrees vt c"

lemma good_consistent: "good c \<Longrightarrow> checkCacheConsistencyWithCachePolicy vt c = Inr ()"
  using checkConsistency_iff_agrees by (auto simp: good_def cache_agrees_def)

lemma good_make:
  "inv p \<Longrightarrow> us_keys kid (vt_getKeysetInCachePolicy vt p) = {} \<Longrightarrow> good (SegmentCache_make p)"
  by (simp add: good_def cache_agrees_def SegmentCache_make_def)

lemma good_load:
  assumes "good c" and "SegmentCache_load vt k c = Inr (r, c')"
  shows "good c'"
proof -
  from assms(2) obtain p where ld: "vt_onLoad vt k (cachingPolicy c) = Inr p"
    and c': "c' = c\<lparr>cachingPolicy := p\<rparr>"
    by (auto simp: SegmentCache_load_def Let_def result_simps split: option.splits)
  from assms(1) have "inv (cachingPolicy c)" by (simp add: good_def)
  from onLoad_laws [OF this ld] assms(1) show ?thesis
    by (simp add: good_def cache_agrees_def c')
qed

lemma good_store:
  assumes "good c" and "kid k \<notin> um_keys kid (cacheMap c)"
    and "SegmentCache_store vt k d c = Inr c'"
  shows "good c'"
proof -
  from assms(1,2) have k: "kid k \<notin> us_keys kid (vt_getKeysetInCachePolicy vt (cachingPolicy c))"
    and i: "inv (cachingPolicy c)"
    by (simp_all add: good_def cache_agrees_def)
  from assms(3) obtain r p where st: "vt_onStore vt k (cachingPolicy c) = Inr (r, p)"
    by (auto simp: SegmentCache_store_def result_simps)
  show ?thesis
  proof (cases r)
    case None
    with assms(3) st have "c' = c\<lparr>cachingPolicy := p\<rparr>"
      by (simp add: SegmentCache_store_def)
    with onStore_reject [OF i k st [unfolded None]] assms(1) show ?thesis
      by (simp add: good_def cache_agrees_def)
  next
    case (Some rs)
    with assms(3) st have "c' = c\<lparr>cachingPolicy := p,
        cacheMap := um_emplace kid k d (erase_all rs (cacheMap c))\<rparr>"
      by (simp add: SegmentCache_store_def)
    with onStore_accept [OF i k st [unfolded Some]] assms(1) show ?thesis
      by (simp add: good_def cache_agrees_def container_simps)
  qed
qed

lemma good_newQuery: "good c \<Longrightarrow> good (SegmentCache_newQuery vt c)"
  using onNewQuery_laws
  by (simp add: good_def cache_agrees_def SegmentCache_newQuery_def
      SegmentCache_clearCrtQueryMetrics_def)

text \<open>A load returns what the last store of the key put there, as long as nothing evicted it.\<close>

lemma load_after_store:
  assumes "good c" and "kid k \<notin> um_keys kid (cacheMap c)"
    and st: "SegmentCache_store vt k d c = Inr c'"
    and acc: "vt_onStore vt k (cachingPolicy c) = Inr (Some rs, p)"
    and ld: "SegmentCache_load vt k' c' = Inr (r, c'')" and "kid k' = kid k"
  shows "r = Inr d"
proof -
  from st acc have "c' = c\<lparr>cachingPolicy := p,
      cacheMap := um_emplace kid k d (erase_all rs (cacheMap c))\<rparr>"
    by (simp add: SegmentCache_store_def)
  then have "um_find kid (kid k') (cacheMap c') = Some d"
    using assms(2,6) by (simp add: container_simps)
  with ld show ?thesis
    by (auto simp: SegmentCache_load_def result_simps Let_def)
qed

end

section \<open>Runs of the cache\<close>

text \<open>
  The operations the cache actor performs, as steps of a machine, with two restrictions.  A store is of
  a key the cache does not hold: an operator stores the segments that a load has reported missing to it,
  but \<^verbatim>\<open>SegmentCacheActor::store\<close> does not check that they are missing still, so that two
  operators may store the same segment; \<open>Cache_Actor\<close> models the actor without the restriction
  and shows what goes wrong then.  And there is no step for \<open>SegmentCache_remove\<close>, which
  nothing outside the tests calls and which does not tell the policy, so that it breaks the agreement.
\<close>

inductive cache_step ::
  "'p policy_vtable \<Rightarrow> ('p, 'c) SegmentCache \<Rightarrow> ('p, 'c) SegmentCache \<Rightarrow> bool" for vt where
  load: "SegmentCache_load vt k c = Inr (r, c') \<Longrightarrow> cache_step vt c c'"
| store: "kid k \<notin> um_keys kid (cacheMap c) \<Longrightarrow> SegmentCache_store vt k d c = Inr c' \<Longrightarrow>
    cache_step vt c c'"
| to_cache: "SegmentCache_toCache vt ks c = Inr (ks', c') \<Longrightarrow> cache_step vt c c'"
| metrics: "cacheMap c' = cacheMap c \<Longrightarrow> cachingPolicy c' = cachingPolicy c \<Longrightarrow> cache_step vt c c'"
| new_query: "cache_step vt c (SegmentCache_newQuery vt c)"
| clear_metrics: "cache_step vt c (SegmentCache_clearMetrics c)"

inductive cache_reachable ::
  "'p policy_vtable \<Rightarrow> ('p, 'c) SegmentCache \<Rightarrow> ('p, 'c) SegmentCache \<Rightarrow> bool" for vt c0 where
  start: "cache_reachable vt c0 c0"
| step: "cache_reachable vt c0 c \<Longrightarrow> cache_step vt c c' \<Longrightarrow> cache_reachable vt c0 c'"

context caching_policy begin

lemma good_clearMetrics: "good c \<Longrightarrow> good (SegmentCache_clearMetrics c)"
  by (simp add: good_def cache_agrees_def SegmentCache_clearMetrics_def)

lemma good_toCache: "good c \<Longrightarrow> SegmentCache_toCache vt ks c = Inr (ks', c') \<Longrightarrow> good c'"
  using onToCache_laws by (auto simp: good_def cache_agrees_def SegmentCache_toCache_def result_simps)

lemma good_metrics: "good c \<Longrightarrow> cacheMap c' = cacheMap c \<Longrightarrow> cachingPolicy c' = cachingPolicy c \<Longrightarrow> good c'"
  by (simp add: good_def cache_agrees_def)

lemma good_step: "cache_step vt c c' \<Longrightarrow> good c \<Longrightarrow> good c'"
  by (induction rule: cache_step.induct)
    (auto intro: good_load good_store good_toCache good_newQuery good_clearMetrics elim: good_metrics)

lemma reachable_good: "cache_reachable vt c0 c \<Longrightarrow> good c0 \<Longrightarrow> good c"
  by (induction rule: cache_reachable.induct) (auto intro: good_step)

lemma reachable_consistent:
  assumes "inv p" and "us_keys kid (vt_getKeysetInCachePolicy vt p) = {}"
    and "cache_reachable vt (SegmentCache_make p) c"
  shows "checkCacheConsistencyWithCachePolicy vt c = Inr ()"
  using assms good_consistent good_make reachable_good by blast

end

end
