(* ===== verification/LFU_Policy.thy ===== *)
theory LFU_Policy
  imports Segment_Cache
begin

text \<open>
  The least-frequently-used policy (\<^verbatim>\<open>fpdb-cache/src/policy/LFUCachingPolicy.cpp\<close>).
  \<^verbatim>\<open>freqMap_\<close> holds a list of keys for each hit number, \<^verbatim>\<open>keyMap_\<close> an iterator
  into these lists for each cached key.  As in \<open>LRU_Policy\<close> a list node has a number, which is what the
  iterator is.  Erasing through an iterator of another list, or reading \<^verbatim>\<open>begin()\<close> of an empty set,
  is undefined.

  \<^verbatim>\<open>keySet_\<close> keeps the first key object of every segment ever loaded; the metadata of that object
  counts the hits, so the heap of metadata is part of the state.  Hit numbers are \<^verbatim>\<open>int\<close>s that stay
  below their bound.  The comparison of the free size with a tenth of the capacity, which is done in
  floating point, is an argument.
\<close>

record LFUCachingPolicy = CachingPolicy +
  freqMap :: "(int \<times> (nat \<times> SegmentKey) list) list"
  keyMap :: "(SegmentKey \<times> nat) list"
  minFreq :: int
  freqSet :: "int list"
  keySet :: "SegmentKey list"
  keysToReplace :: "SegmentKey list"
  estimateCachingDecisions :: "(SegmentKey \<times> SegmentKey) list"
  nextListNode :: nat

type_synonym 'd lfu_state = "'d heap \<times> LFUCachingPolicy"

definition LFU_make :: "size_t \<Rightarrow> LFUCachingPolicy" where
  "LFU_make ms =
     \<lparr>policyType = LFU, maxSize = ms, freeSize = ms, segmentSizeMap = [],
      freqMap = [], keyMap = [], minFreq = 0, freqSet = [], keySet = [], keysToReplace = [],
      estimateCachingDecisions = [], nextListNode = 0\<rparr>"

text \<open>\<^verbatim>\<open>freqMap_[freq]\<close>; where the source reads it, an absent list is an empty one.\<close>

definition freq_list :: "LFUCachingPolicy \<Rightarrow> int \<Rightarrow> (nat \<times> SegmentKey) list" where
  "freq_list p f = (case um_find id f (freqMap p) of Some xs \<Rightarrow> xs | None \<Rightarrow> [])"

text \<open>The loop for the minimum of a set: it starts with the first element.\<close>

definition set_minimum :: "int list \<Rightarrow> int" where
  "set_minimum fs = fold min fs (hd fs)"

definition LFU_eraseFreqMap :: "int \<Rightarrow> nat \<Rightarrow> LFUCachingPolicy \<Rightarrow> LFUCachingPolicy result" where
  "LFU_eraseFreqMap freq it p =
     (if it \<notin> fst ` set (freq_list p freq) then Inl (UndefinedBehaviour ''erase of an iterator of another list'')
      else
        let xs = filter (\<lambda>y. fst y \<noteq> it) (freq_list p freq)
        in if xs \<noteq> [] then Inr (p\<lparr>freqMap := um_assign id freq xs (freqMap p)\<rparr>)
           else
             let p1 = p\<lparr>freqMap := um_erase id freq (freqMap p), freqSet := us_erase id freq (freqSet p)\<rparr>
             in if minFreq p1 \<noteq> freq then Inr p1
                else if freqSet p1 = [] then Inl (UndefinedBehaviour ''begin() of an empty set dereferenced'')
                else Inr (p1\<lparr>minFreq := set_minimum (freqSet p1)\<rparr>))"

definition LFU_insert :: "int \<Rightarrow> SegmentKey \<Rightarrow> LFUCachingPolicy \<Rightarrow> LFUCachingPolicy" where
  "LFU_insert freq key p =
     p\<lparr>freqMap := um_assign id freq (freq_list p freq @ [(nextListNode p, key)]) (freqMap p),
       keyMap := um_assign kid key (nextListNode p) (keyMap p),
       freqSet := us_emplace id freq (freqSet p),
       minFreq := (if minFreq p = 0 then freq else minFreq p),
       nextListNode := nextListNode p + 1\<rparr>"

text \<open>\<open>onLoad\<close> first updates \<^verbatim>\<open>keySet_\<close>, and then the lists if the key is cached.\<close>

definition LFU_register :: "SegmentKey \<Rightarrow> 'd lfu_state \<Rightarrow> (SegmentKey \<times> 'd lfu_state) result" where
  "LFU_register key = (\<lambda>(h, p).
     case us_find kid (kid key) (keySet p) of
       Some realKey \<Rightarrow> rbind (upd_meta incHitNum realKey h) (\<lambda>h'. Inr (realKey, h', p))
     | None \<Rightarrow> Inr (key, h, p\<lparr>keySet := us_emplace kid key (keySet p)\<rparr>))"

definition LFU_move :: "SegmentKey \<Rightarrow> 'd lfu_state \<Rightarrow> 'd lfu_state result" where
  "LFU_move realKey = (\<lambda>(h, p).
     case um_find kid (kid realKey) (keyMap p) of
       None \<Rightarrow> Inr (h, p)
     | Some oldListIt \<Rightarrow>
         rbind (meta h realKey) (\<lambda>m.
         rbind (LFU_eraseFreqMap (md_hitNum m - 1) oldListIt p) (\<lambda>p1.
           Inr (h, LFU_insert (md_hitNum m) realKey p1))))"

definition LFU_onLoad :: "SegmentKey \<Rightarrow> 'd lfu_state \<Rightarrow> 'd lfu_state result" where
  "LFU_onLoad key s = rbind (LFU_register key s) (\<lambda>(realKey, s'). LFU_move realKey s')"

text \<open>\<open>onRemove\<close> uses the hit number of the key it is given, not of the one in \<^verbatim>\<open>keySet_\<close>.\<close>

definition LFU_onRemove :: "SegmentKey \<Rightarrow> 'd lfu_state \<Rightarrow> 'd lfu_state result" where
  "LFU_onRemove key = (\<lambda>(h, p).
     case um_find kid (kid key) (keyMap p) of
       None \<Rightarrow> Inr (h, p)
     | Some listIt \<Rightarrow>
         rbind (meta h key) (\<lambda>m.
         rbind (LFU_eraseFreqMap (md_hitNum m) listIt p) (\<lambda>p1.
           Inr (h, p1\<lparr>keyMap := um_erase kid (kid key) (keyMap p1)\<rparr>))))"

definition removeEstimateCachingDecision :: "SegmentKey \<Rightarrow> LFUCachingPolicy \<Rightarrow> LFUCachingPolicy" where
  "removeEstimateCachingDecision k p =
     (case um_find kid (kid k) (estimateCachingDecisions p) of
        None \<Rightarrow> p
      | Some out \<Rightarrow> p\<lparr>keysToReplace := us_erase kid (kid out) (keysToReplace p),
                      estimateCachingDecisions := um_erase kid (kid k) (estimateCachingDecisions p)\<rparr>)"

definition addEstimateCachingDecision :: "SegmentKey \<Rightarrow> SegmentKey \<Rightarrow> LFUCachingPolicy \<Rightarrow> LFUCachingPolicy" where
  "addEstimateCachingDecision k out p =
     p\<lparr>keysToReplace := us_emplace kid out (keysToReplace p),
       estimateCachingDecisions := um_emplace kid k out (estimateCachingDecisions p)\<rparr>"

subsection \<open>The search for space\<close>

datatype Result = SUFFICIENT | INSUFFICIENT | UNKNOWN

text \<open>One list of candidates: \<open>freq\<close> is the hit number of the key to store, \<open>low\<close> what is collected.\<close>

fun LFU_candidates ::
  "'d heap \<Rightarrow> int \<Rightarrow> size_t \<Rightarrow> size_t \<Rightarrow> SegmentKey list \<Rightarrow> SegmentKey list \<Rightarrow> size_t \<Rightarrow>
   (Result \<times> SegmentKey list \<times> size_t) result" where
  "LFU_candidates h freq segmentSize free [] removable low = Inr (UNKNOWN, removable, low)"
| "LFU_candidates h freq segmentSize free (k # ks) removable low =
     rbind (meta h k) (\<lambda>m.
       if md_hitNum m < freq then
         if low + md_size m + free \<ge> segmentSize then Inr (SUFFICIENT, removable @ [k], low + md_size m)
         else LFU_candidates h freq segmentSize free ks (removable @ [k]) (low + md_size m)
       else Inr (INSUFFICIENT, removable, low))"

lemma set_minimum_in: "fs \<noteq> [] \<Longrightarrow> set_minimum fs \<in> set fs"
proof -
  have "fold min xs a \<in> insert a (set xs)" for xs and a :: int
    by (induction xs arbitrary: a) (auto simp: min_def)
  then show "fs \<noteq> [] \<Longrightarrow> set_minimum fs \<in> set fs"
    unfolding set_minimum_def by (metis hd_in_set insert_absorb)
qed

lemma length_us_erase: "k \<in> us_keys kf xs \<Longrightarrow> length (us_erase kf k xs) < length xs"
  unfolding us_erase_def us_keys_def by (auto intro!: length_filter_less)

lemma length_us_erase_le: "length (us_erase kf k xs) \<le> length xs"
  by (simp add: us_erase_def)

text \<open>
  The loop over the frequencies that remain.  The first one is \<^verbatim>\<open>minFreq_\<close>, from then on the
  minimum of the set.
\<close>

function LFU_search ::
  "'d heap \<Rightarrow> int \<Rightarrow> size_t \<Rightarrow> LFUCachingPolicy \<Rightarrow> int list \<Rightarrow> int \<Rightarrow> SegmentKey list \<Rightarrow> size_t \<Rightarrow>
   (Result \<times> SegmentKey list \<times> size_t) result" where
  "LFU_search h freq segmentSize p tmpFreqSet tmpMinFreq removable low =
     (if tmpFreqSet = [] then Inr (UNKNOWN, removable, low)
      else
        case LFU_candidates h freq segmentSize (freeSize p) (map snd (freq_list p tmpMinFreq)) removable low of
          Inl e \<Rightarrow> Inl e
        | Inr (res, removable', low') \<Rightarrow>
            if res \<noteq> UNKNOWN then Inr (res, removable', low')
            else
              let rest = us_erase id tmpMinFreq tmpFreqSet
              in LFU_search h freq segmentSize p rest (if rest = [] then tmpMinFreq else set_minimum rest)
                   removable' low')"
  by pat_completeness auto

termination
  by (relation "measure (\<lambda>(h, freq, sz, p, s, m, r, l). 2 * length s + (if m \<in> set s \<or> s = [] then 0 else 1))")
    (auto simp: us_keys_def less_Suc_eq_le length_us_erase_le dest!: set_minimum_in intro: length_us_erase)

declare LFU_search.simps [simp del]

text \<open>The loop that removes the collected keys.\<close>

definition LFU_evict_key :: "'d heap \<Rightarrow> SegmentKey \<Rightarrow> LFUCachingPolicy \<Rightarrow> LFUCachingPolicy result" where
  "LFU_evict_key h removableKey p =
     (case um_find kid (kid removableKey) (keyMap p) of
        None \<Rightarrow> Inl (UndefinedBehaviour ''erase of a default iterator'')
      | Some listIt \<Rightarrow>
          rbind (meta h removableKey) (\<lambda>m.
          rbind (LFU_eraseFreqMap (md_hitNum m) listIt p) (\<lambda>p1.
            Inr (p1\<lparr>keyMap := um_erase kid (kid removableKey) (keyMap p1)\<rparr>))))"

text \<open>The decision of \<open>onStore\<close>, once the key and its size are known.\<close>

definition LFU_find_space ::
  "'d heap \<Rightarrow> SegmentKey \<Rightarrow> LFUCachingPolicy \<Rightarrow> (Result \<times> SegmentKey list \<times> size_t) result" where
  "LFU_find_space h realKey p =
     rbind (meta h realKey) (\<lambda>m.
       if freeSize p \<ge> md_size m then Inr (SUFFICIENT, [], 0)
       else LFU_search h (md_hitNum m) (md_size m) p (freqSet p) (minFreq p) [] 0)"

text \<open>The size of a segment becomes known when its data is first stored.\<close>

definition LFU_learn_size :: "SegmentKey \<Rightarrow> SegmentKey \<Rightarrow> 'd heap \<Rightarrow> 'd heap result" where
  "LFU_learn_size key realKey h =
     rbind (meta h realKey) (\<lambda>m.
       if md_size m = 0 then rbind (meta h key) (\<lambda>mk. upd_meta (setSize (md_size mk)) realKey h)
       else Inr h)"

definition LFU_store_known ::
  "SegmentKey \<Rightarrow> 'd heap \<Rightarrow> LFUCachingPolicy \<Rightarrow> (SegmentKey list option \<times> 'd lfu_state) result" where
  "LFU_store_known realKey h p =
     rbind (meta h realKey) (\<lambda>m.
       if maxSize p < md_size m then Inr (None, (h, removeEstimateCachingDecision realKey p))
       else rbind (LFU_find_space h realKey p) (\<lambda>(res, removable, low).
         let p1 = removeEstimateCachingDecision realKey p
         in if res = SUFFICIENT then
              rbind (rfold (LFU_evict_key h) removable p1) (\<lambda>p2.
                Inr (Some removable,
                  (h, (LFU_insert (md_hitNum m) realKey p2)\<lparr>freeSize := freeSize p2 + low - md_size m\<rparr>)))
            else Inr (None, (h, p1))))"

definition LFU_onStore ::
  "SegmentKey \<Rightarrow> 'd lfu_state \<Rightarrow> (SegmentKey list option \<times> 'd lfu_state) result" where
  "LFU_onStore key = (\<lambda>(h0, p).
     case us_find kid (kid key) (keySet p) of
       None \<Rightarrow> Inl (RuntimeError ''onStore: Key should exist in keySet_'')
     | Some realKey \<Rightarrow> rbind (LFU_learn_size key realKey h0) (\<lambda>h. LFU_store_known realKey h p))"

text \<open>\<open>tenth\<close> compares the free size with a tenth of the capacity.\<close>

definition LFU_onToCache ::
  "(size_t \<Rightarrow> size_t \<Rightarrow> bool) \<Rightarrow> SegmentKey list \<Rightarrow> 'd lfu_state \<Rightarrow> (SegmentKey list \<times> 'd lfu_state) result" where
  "LFU_onToCache tenth segmentKeys = (\<lambda>(h, p).
     if tenth (freeSize p) (maxSize p) \<and> freeSize p \<ge> 100 * 1024 * 1024 then Inr (segmentKeys, (h, p))
     else rbind (rfold (\<lambda>key keysToCache.
            case us_find kid (kid key) (keySet p) of
              None \<Rightarrow> Inl (RuntimeError ''onToCache: Key should exist in keySet_'')
            | Some realKey \<Rightarrow>
                rbind (meta h realKey) (\<lambda>m.
                  Inr (if md_hitNum m > minFreq p then keysToCache @ [realKey] else keysToCache)))
          segmentKeys []) (\<lambda>ks. Inr (ks, (h, p))))"

definition LFU_getKeysetInCachePolicy :: "'d lfu_state \<Rightarrow> SegmentKey list" where
  "LFU_getKeysetInCachePolicy = (\<lambda>(h, p). map fst (keyMap p))"

definition LFU_onNewQuery :: "'d lfu_state \<Rightarrow> 'd lfu_state" where
  "LFU_onNewQuery s = s"

definition LFU_vtable :: "(size_t \<Rightarrow> size_t \<Rightarrow> bool) \<Rightarrow> 'd lfu_state policy_vtable" where
  "LFU_vtable tenth =
     \<lparr>vt_onLoad = LFU_onLoad, vt_onStore = LFU_onStore, vt_onRemove = LFU_onRemove,
      vt_onToCache = LFU_onToCache tenth, vt_onNewQuery = LFU_onNewQuery,
      vt_getKeysetInCachePolicy = LFU_getKeysetInCachePolicy\<rparr>"

lemma LFU_vtable_sel [simp]:
  "vt_onLoad (LFU_vtable t) = LFU_onLoad" "vt_onStore (LFU_vtable t) = LFU_onStore"
  "vt_onNewQuery (LFU_vtable t) = LFU_onNewQuery" "vt_onRemove (LFU_vtable t) = LFU_onRemove"
  "vt_getKeysetInCachePolicy (LFU_vtable t) = LFU_getKeysetInCachePolicy"
  "vt_onToCache (LFU_vtable t) = LFU_onToCache t"
  by (simp_all add: LFU_vtable_def)

section \<open>The laws of the interface\<close>

lemma LFU_erase_keeps:
  assumes "LFU_eraseFreqMap f n p = Inr p'"
  shows "keyMap p' = keyMap p" "keySet p' = keySet p" "freeSize p' = freeSize p" "maxSize p' = maxSize p"
    "nextListNode p' = nextListNode p"
  using assms by (auto simp: LFU_eraseFreqMap_def Let_def split: if_splits)

lemma LFU_insert_keeps [simp]:
  "keyMap (LFU_insert f k p) = um_assign kid k (nextListNode p) (keyMap p)"
  "keySet (LFU_insert f k p) = keySet p" "freeSize (LFU_insert f k p) = freeSize p"
  "maxSize (LFU_insert f k p) = maxSize p"
  by (simp_all add: LFU_insert_def)

lemma removeEstimate_keeps [simp]:
  "keyMap (removeEstimateCachingDecision k p) = keyMap p" "keySet (removeEstimateCachingDecision k p) = keySet p"
  "freeSize (removeEstimateCachingDecision k p) = freeSize p" "maxSize (removeEstimateCachingDecision k p) = maxSize p"
  "freqMap (removeEstimateCachingDecision k p) = freqMap p" "freqSet (removeEstimateCachingDecision k p) = freqSet p"
  "minFreq (removeEstimateCachingDecision k p) = minFreq p"
  "nextListNode (removeEstimateCachingDecision k p) = nextListNode p"
  "freq_list (removeEstimateCachingDecision k p) f = freq_list p f"
  by (simp_all add: removeEstimateCachingDecision_def freq_list_def split: option.splits)

text \<open>What holds whatever keys the policy is called with: each segment is in a map or a set once.\<close>

fun LFU_keys_ok :: "'d lfu_state \<Rightarrow> bool" where
  "LFU_keys_ok (h, p) \<longleftrightarrow> um_wf kid (keyMap p) \<and> us_wf kid (keySet p)"

lemma LFU_keyset: "us_keys kid (LFU_getKeysetInCachePolicy (h, p)) = um_keys kid (keyMap p)"
  by (simp add: LFU_getKeysetInCachePolicy_def us_keys_def image_comp)

lemma LFU_register_keys:
  assumes "LFU_register k (h, p) = Inr (realKey, h', p')"
  shows "kid realKey = kid k" "keyMap p' = keyMap p" "us_wf kid (keySet p) \<Longrightarrow> us_wf kid (keySet p')"
  using assms by (auto simp: LFU_register_def result_simps container_simps split: option.splits dest!: us_find_Some)

lemma LFU_move_keys:
  assumes "LFU_move realKey (h, p) = Inr (h', p')"
  shows "keySet p' = keySet p" "um_keys kid (keyMap p') = um_keys kid (keyMap p)"
    "um_wf kid (keyMap p) \<Longrightarrow> um_wf kid (keyMap p')"
proof -
  have "keySet p' = keySet p \<and> um_keys kid (keyMap p') = um_keys kid (keyMap p) \<and>
    (um_wf kid (keyMap p) \<longrightarrow> um_wf kid (keyMap p'))"
  proof (cases "um_find kid (kid realKey) (keyMap p)")
    case (Some n)
    with assms obtain f p1 where e: "LFU_eraseFreqMap (f - 1) n p = Inr p1"
      and p': "p' = LFU_insert f realKey p1"
      unfolding LFU_move_def prod.case Some option.case by (elim rbindE) simp
    have "kid realKey \<in> um_keys kid (keyMap p)"
      using Some um_find_None [of kid "kid realKey" "keyMap p"] by auto
    then show ?thesis using LFU_erase_keeps [OF e] by (simp add: p' container_simps insert_absorb)
  qed (use assms in \<open>simp add: LFU_move_def\<close>)
  then show "keySet p' = keySet p" "um_keys kid (keyMap p') = um_keys kid (keyMap p)"
    "um_wf kid (keyMap p) \<Longrightarrow> um_wf kid (keyMap p')" by blast+
qed

lemma LFU_onLoad_keys:
  assumes "LFU_keys_ok s" and "LFU_onLoad k s = Inr s'"
  shows "LFU_keys_ok s' \<and> us_keys kid (LFU_getKeysetInCachePolicy s') = us_keys kid (LFU_getKeysetInCachePolicy s)"
proof -
  obtain h p h' p' where s: "s = (h, p)" "s' = (h', p')" by fastforce
  from assms(2) obtain realKey h1 p1 where "LFU_register k (h, p) = Inr (realKey, h1, p1)"
    and "LFU_move realKey (h1, p1) = Inr (h', p')"
    by (auto simp: LFU_onLoad_def s result_simps)
  with LFU_register_keys [OF this(1)] LFU_move_keys [OF this(2)] assms(1) show ?thesis
    by (auto simp: s LFU_keyset)
qed

lemma LFU_evict_keys:
  "LFU_evict_key h k p = Inr p' \<Longrightarrow>
   keyMap p' = um_erase kid (kid k) (keyMap p) \<and> keySet p' = keySet p \<and> freeSize p' = freeSize p \<and> maxSize p' = maxSize p"
  by (auto simp: LFU_evict_key_def result_simps LFU_erase_keeps split: option.splits)

lemma LFU_evict_all_keys:
  assumes "rfold (LFU_evict_key h) ks p = Inr p'" and "um_wf kid (keyMap p)"
  shows "um_keys kid (keyMap p') = um_keys kid (keyMap p) - us_keys kid ks \<and> um_wf kid (keyMap p') \<and>
    keySet p' = keySet p \<and> freeSize p' = freeSize p \<and> maxSize p' = maxSize p"
  using assms
proof (induction ks arbitrary: p)
  case (Cons k ks)
  then obtain p1 where e: "LFU_evict_key h k p = Inr p1" and r: "rfold (LFU_evict_key h) ks p1 = Inr p'"
    by (auto simp: result_simps)
  note E = LFU_evict_keys [OF e]
  then have "um_wf kid (keyMap p1)" using um_wf_erase [OF Cons.prems(2)] by metis
  note I = Cons.IH [OF r this]
  have "um_keys kid (keyMap p1) = um_keys kid (keyMap p) - {kid k}" using E um_keys_erase by metis
  then have "um_keys kid (keyMap p') = um_keys kid (keyMap p) - us_keys kid (k # ks)"
    using I unfolding us_keys_Cons by blast
  with I E show ?case by metis
qed simp

lemma LFU_store_known_keys:
  assumes "LFU_store_known realKey h p = Inr (r, h', p')" and "um_wf kid (keyMap p)"
  shows "um_wf kid (keyMap p') \<and> keySet p' = keySet p \<and> um_keys kid (keyMap p') =
    (case r of None \<Rightarrow> um_keys kid (keyMap p)
     | Some rs \<Rightarrow> insert (kid realKey) (um_keys kid (keyMap p) - us_keys kid rs))"
proof -
  let ?p1 = "removeEstimateCachingDecision realKey p"
  from assms(1) obtain m where m: "meta h realKey = Inr m" by (auto simp: LFU_store_known_def result_simps)
  show ?thesis
  proof (cases "maxSize p < md_size m")
    case True
    with assms m show ?thesis by (auto simp: LFU_store_known_def)
  next
    case False
    with assms(1) m obtain res removable low where f: "LFU_find_space h realKey p = Inr (res, removable, low)"
      by (auto simp: LFU_store_known_def result_simps)
    show ?thesis
    proof (cases "res = SUFFICIENT")
      case True
      with assms(1) m f False obtain p2 where e: "rfold (LFU_evict_key h) removable ?p1 = Inr p2"
        and s': "r = Some removable" "p' = (LFU_insert (md_hitNum m) realKey p2)\<lparr>freeSize := freeSize p2 + low - md_size m\<rparr>"
        by (auto simp: LFU_store_known_def result_simps)
      from LFU_evict_all_keys [OF e] assms(2) show ?thesis by (simp add: s' container_simps)
    qed (use assms m f False in \<open>auto simp: LFU_store_known_def\<close>)
  qed
qed

lemma LFU_onStore_keys:
  assumes "LFU_keys_ok s" and "LFU_onStore k s = Inr (r, s')"
  shows "LFU_keys_ok s' \<and> us_keys kid (LFU_getKeysetInCachePolicy s') =
    (case r of None \<Rightarrow> us_keys kid (LFU_getKeysetInCachePolicy s)
     | Some rs \<Rightarrow> insert (kid k) (us_keys kid (LFU_getKeysetInCachePolicy s) - us_keys kid rs))"
proof -
  obtain h p h' p' where s: "s = (h, p)" "s' = (h', p')" by fastforce
  from assms(2) obtain realKey where rk: "us_find kid (kid k) (keySet p) = Some realKey"
    by (auto simp: s LFU_onStore_def split: option.splits)
  with assms(2) obtain h1 where "LFU_store_known realKey h1 p = Inr (r, h', p')"
    by (auto simp: s LFU_onStore_def result_simps)
  with LFU_store_known_keys [OF this] assms(1) us_find_Some [OF rk] show ?thesis
    by (auto simp: s LFU_keyset split: option.splits)
qed

lemma LFU_onToCache_keys:
  assumes "LFU_onToCache t ks s = Inr (ks', s')"
  shows "s' = s \<and> subseq (map kid ks') (map kid ks)"
proof -
  obtain h p where s: "s = (h, p)" by (cases s)
  let ?step = "\<lambda>key keysToCache. case us_find kid (kid key) (keySet p) of
      None \<Rightarrow> Inl (RuntimeError ''onToCache: Key should exist in keySet_'')
    | Some realKey \<Rightarrow> rbind (meta h realKey) (\<lambda>m.
        Inr (if md_hitNum m > minFreq p then keysToCache @ [realKey] else keysToCache))"
  have loop: "\<exists>new. out = acc @ new \<and> subseq (map kid new) (map kid ks)"
    if "rfold ?step ks acc = Inr out" for ks acc out
    using that
  proof (induction ks arbitrary: acc)
    case (Cons k ks)
    then obtain acc1 where a: "?step k acc = Inr acc1" and r: "rfold ?step ks acc1 = Inr out"
      by (auto elim!: rbindE)
    from a have "acc1 = acc \<or> (\<exists>x. acc1 = acc @ [x] \<and> kid x = kid k)"
      by (auto simp: result_simps split: option.splits if_splits dest!: us_find_Some)
    with Cons.IH [OF r] show ?case by (auto intro: list_emb_Cons2)
  qed simp
  show ?thesis
  proof (cases "t (freeSize p) (maxSize p) \<and> freeSize p \<ge> 100 * 1024 * 1024")
    case True
    with assms show ?thesis by (simp add: s LFU_onToCache_def)
  next
    case False
    with assms have "s' = s" "rfold ?step ks [] = Inr ks'"
      by (auto simp: s LFU_onToCache_def result_simps simp del: not_le)
    with loop [of ks "[]" ks'] show ?thesis by auto
  qed
qed

interpretation lfu: caching_policy "LFU_vtable tenth" LFU_keys_ok for tenth
proof (unfold_locales, goal_cases)
  case (1 p k p')
  then show ?case using LFU_onLoad_keys by (simp only: LFU_vtable_sel)
next
  case (2 p k p')
  with LFU_onStore_keys [of p k None p'] show ?case by simp
next
  case (3 p k rs p')
  with LFU_onStore_keys [of p k "Some rs" p'] show ?case by simp
next
  case (4 p)
  then show ?case by (simp add: LFU_onNewQuery_def)
next
  case (5 p ks ks' p')
  with LFU_onToCache_keys [of tenth ks p ks' p'] show ?case by simp
qed

section \<open>The invariant\<close>

text \<open>
  The frequencies: \<^verbatim>\<open>freqSet_\<close> holds those with a list, and \<^verbatim>\<open>minFreq_\<close> is one of them, or 0.
\<close>

definition LFU_freqs_ok :: "LFUCachingPolicy \<Rightarrow> bool" where
  "LFU_freqs_ok p \<longleftrightarrow> set (freqSet p) = {f. freq_list p f \<noteq> []} \<and> (\<forall>f \<in> set (freqSet p). f \<ge> 1) \<and>
     (if freqSet p = [] then minFreq p = 0 else minFreq p \<in> set (freqSet p))"

lemma LFU_freqs_okI:
  "set (freqSet p) = {f. freq_list p f \<noteq> []} \<Longrightarrow> \<forall>f \<in> set (freqSet p). f \<ge> 1 \<Longrightarrow> freqSet p \<noteq> [] \<Longrightarrow>
   minFreq p \<in> set (freqSet p) \<Longrightarrow> LFU_freqs_ok p"
  by (simp add: LFU_freqs_ok_def)

definition khit :: "'d heap \<Rightarrow> SegmentKey \<Rightarrow> int" where
  "khit h k = (case key_metadata k of None \<Rightarrow> 0 | Some r \<Rightarrow> md_hitNum (mem h r))"

text \<open>The known keys: one object for a segment, each with a metadata object of its own.\<close>

definition LFU_known_ok :: "LFUCachingPolicy \<Rightarrow> bool" where
  "LFU_known_ok p \<longleftrightarrow> um_wf kid (keyMap p) \<and> us_wf kid (keySet p) \<and>
     (\<forall>k \<in> set (keySet p). key_metadata k \<noteq> None) \<and> inj_on key_metadata (set (keySet p)) \<and>
     (\<forall>(k, n) \<in> set (keyMap p). k \<in> set (keySet p) \<and> n < nextListNode p)"

text \<open>
  The links between the lists and the iterators, with the exception of the keys \<open>X\<close>: those are in no
  list, whatever \<^verbatim>\<open>keyMap_\<close> says of them.
\<close>

definition LFU_links :: "'d heap \<Rightarrow> SegmentKey set \<Rightarrow> LFUCachingPolicy \<Rightarrow> bool" where
  "LFU_links h X p \<longleftrightarrow>
     (\<forall>f n k. (n, k) \<in> set (freq_list p f) \<longrightarrow>
        k \<notin> X \<and> k \<in> set (keySet p) \<and> khit h k = f \<and> um_find kid (kid k) (keyMap p) = Some n) \<and>
     (\<forall>f. us_wf fst (freq_list p f)) \<and>
     (\<forall>(k, n) \<in> set (keyMap p). k \<notin> X \<longrightarrow> (n, k) \<in> set (freq_list p (khit h k)))"

definition LFU_used :: "'d heap \<Rightarrow> LFUCachingPolicy \<Rightarrow> nat" where
  "LFU_used h p = sum_sizes (ksize h) (map fst (keyMap p))"

fun LFU_inv :: "'d lfu_state \<Rightarrow> bool" where
  "LFU_inv (h, p) \<longleftrightarrow> LFU_freqs_ok p \<and> LFU_known_ok p \<and> LFU_links h {} p \<and> (\<forall>k \<in> set (keySet p). khit h k \<ge> 1) \<and>
     unat (freeSize p) + LFU_used h p = unat (maxSize p)"

lemma freq_list_update [simp]:
  "freq_list (p\<lparr>freqMap := um_assign id f xs (freqMap p)\<rparr>) g = (if g = f then xs else freq_list p g)"
  "freq_list (p\<lparr>freqMap := um_erase id f (freqMap p), freqSet := s\<rparr>) g = (if g = f then [] else freq_list p g)"
  "freq_list (p\<lparr>freqMap := um_erase id f (freqMap p), freqSet := s, minFreq := m\<rparr>) g = (if g = f then [] else freq_list p g)"
  "freq_list (p\<lparr>keyMap := km\<rparr>) g = freq_list p g" "freq_list (p\<lparr>freeSize := z\<rparr>) g = freq_list p g"
  "freq_list (p\<lparr>keySet := ks\<rparr>) g = freq_list p g"
  by (auto simp: freq_list_def um_find_assign um_find_erase)

lemma freq_list_insert [simp]:
  "freq_list (LFU_insert f k p) g = (if g = f then freq_list p f @ [(nextListNode p, k)] else freq_list p g)"
  by (auto simp: LFU_insert_def freq_list_def um_find_assign)

lemma LFU_freqs_insert: "LFU_freqs_ok p \<Longrightarrow> f \<ge> 1 \<Longrightarrow> LFU_freqs_ok (LFU_insert f k p)"
proof -
  assume p: "LFU_freqs_ok p" and f: "f \<ge> 1"
  have s: "set (freqSet (LFU_insert f k p)) = insert f (set (freqSet p))"
    by (auto simp: LFU_insert_def us_emplace_def us_find_def find_None_iff find_Some_iff)
  then have "freqSet (LFU_insert f k p) \<noteq> []" by auto
  moreover have "minFreq (LFU_insert f k p) = (if minFreq p = 0 then f else minFreq p)" by (simp add: LFU_insert_def)
  ultimately show ?thesis
    using p f s unfolding LFU_freqs_ok_def by (auto split: if_splits)
qed

text \<open>
  Erasing a node: the only thing that can go wrong is that no frequency remains.
\<close>

lemma LFU_erase_cases:
  assumes ok: "LFU_freqs_ok p" and n: "(n, k) \<in> set (freq_list p f)" and wf: "us_wf fst (freq_list p f)"
  shows "if set (freqSet p) = {f} \<and> freq_list p f = [(n, k)]
    then LFU_eraseFreqMap f n p = Inl (UndefinedBehaviour ''begin() of an empty set dereferenced'')
    else \<exists>p'. LFU_eraseFreqMap f n p = Inr p' \<and> LFU_freqs_ok p' \<and>
      (\<forall>g. freq_list p' g = (if g = f then filter (\<lambda>y. fst y \<noteq> n) (freq_list p f) else freq_list p g))"
proof -
  let ?xs = "filter (\<lambda>y. fst y \<noteq> n) (freq_list p f)"
  have in_list: "n \<in> fst ` set (freq_list p f)" using n by force
  have f: "f \<in> set (freqSet p)" "freqSet p \<noteq> []" using ok n by (auto simp: LFU_freqs_ok_def)
  have single: "?xs = [] \<longleftrightarrow> freq_list p f = [(n, k)]"
  proof
    assume "?xs = []"
    then have "\<forall>y \<in> set (freq_list p f). fst y = n" by (simp add: filter_empty_conv)
    with n wf show "freq_list p f = [(n, k)]"
      by (cases "freq_list p f" rule: remdups_adj.cases) (auto simp: us_wf_def)
  qed simp
  have rest: "set (us_erase id f (freqSet p)) = set (freqSet p) - {f}" by (auto simp: us_erase_def)
  show ?thesis
  proof (cases "?xs = []")
    case False
    then have "LFU_eraseFreqMap f n p = Inr (p\<lparr>freqMap := um_assign id f ?xs (freqMap p)\<rparr>)"
      using in_list by (simp add: LFU_eraseFreqMap_def)
    moreover have "LFU_freqs_ok (p\<lparr>freqMap := um_assign id f ?xs (freqMap p)\<rparr>)"
      using ok False f unfolding LFU_freqs_ok_def by auto
    ultimately show ?thesis using False single by auto
  next
    case True
    let ?p1 = "p\<lparr>freqMap := um_erase id f (freqMap p), freqSet := us_erase id f (freqSet p)\<rparr>"
    have E: "LFU_eraseFreqMap f n p = (if minFreq p \<noteq> f then Inr ?p1
        else if us_erase id f (freqSet p) = [] then Inl (UndefinedBehaviour ''begin() of an empty set dereferenced'')
        else Inr (?p1\<lparr>minFreq := set_minimum (us_erase id f (freqSet p))\<rparr>))"
      using in_list True by (simp add: LFU_eraseFreqMap_def Let_def)
    have only: "us_erase id f (freqSet p) = [] \<longleftrightarrow> set (freqSet p) = {f}"
    proof -
      have "us_erase id f (freqSet p) = [] \<longleftrightarrow> set (freqSet p) - {f} = {}" by (simp flip: rest)
      with f(1) show ?thesis by blast
    qed
    show ?thesis
    proof (cases "set (freqSet p) = {f}")
      case True
      moreover have "minFreq p = f" using ok f True by (auto simp: LFU_freqs_ok_def split: if_splits)
      ultimately show ?thesis using single \<open>?xs = []\<close> only by (auto simp: E)
    next
      case False
      let ?q = "if minFreq p \<noteq> f then ?p1 else ?p1\<lparr>minFreq := set_minimum (us_erase id f (freqSet p))\<rparr>"
      have ne: "us_erase id f (freqSet p) \<noteq> []" using only False by simp
      have q: "LFU_eraseFreqMap f n p = Inr ?q" using ne by (simp add: E)
      have lists: "freq_list ?q g = (if g = f then ?xs else freq_list p g)" for g
        using \<open>?xs = []\<close> by simp
      have fs: "freqSet ?q = us_erase id f (freqSet p)" by simp
      have "minFreq ?q \<in> set (freqSet ?q)"
      proof (cases "minFreq p = f")
        case True
        then show ?thesis using set_minimum_in [OF ne] by simp
      next
        case False
        moreover have "minFreq p \<in> set (freqSet p)" using ok f(2) by (auto simp: LFU_freqs_ok_def)
        ultimately show ?thesis using rest by simp
      qed
      moreover have "set (freqSet ?q) = {g. freq_list ?q g \<noteq> []}"
        unfolding lists fs rest using ok \<open>?xs = []\<close> by (auto simp: LFU_freqs_ok_def)
      moreover have "\<forall>g \<in> set (freqSet ?q). g \<ge> 1" unfolding fs rest using ok by (simp add: LFU_freqs_ok_def)
      moreover have "freqSet ?q \<noteq> []" using ne fs by simp
      ultimately have "LFU_freqs_ok ?q" by (intro LFU_freqs_okI)
      with q lists show ?thesis using False by (auto simp del: freq_list_update)
    qed
  qed
qed

lemma LFU_linksI:
  "(\<And>f n k. (n, k) \<in> set (freq_list p f) \<Longrightarrow>
      k \<notin> X \<and> k \<in> set (keySet p) \<and> khit h k = f \<and> um_find kid (kid k) (keyMap p) = Some n) \<Longrightarrow>
   (\<And>f. us_wf fst (freq_list p f)) \<Longrightarrow>
   (\<And>k n. (k, n) \<in> set (keyMap p) \<Longrightarrow> k \<notin> X \<Longrightarrow> (n, k) \<in> set (freq_list p (khit h k))) \<Longrightarrow> LFU_links h X p"
  by (auto simp: LFU_links_def)

lemma LFU_links_node:
  "LFU_links h X p \<Longrightarrow> (n, k) \<in> set (freq_list p f) \<Longrightarrow>
   k \<notin> X \<and> k \<in> set (keySet p) \<and> khit h k = f \<and> um_find kid (kid k) (keyMap p) = Some n"
  unfolding LFU_links_def by blast

lemma LFU_links_wf: "LFU_links h X p \<Longrightarrow> us_wf fst (freq_list p f)"
  by (simp add: LFU_links_def)

lemma LFU_links_entry:
  "LFU_links h X p \<Longrightarrow> (k, n) \<in> set (keyMap p) \<Longrightarrow> k \<notin> X \<Longrightarrow> (n, k) \<in> set (freq_list p (khit h k))"
  unfolding LFU_links_def by blast

lemma distinct_singletonI: "distinct xs \<Longrightarrow> a \<in> set xs \<Longrightarrow> \<forall>y \<in> set xs. y = a \<Longrightarrow> xs = [a]"
  by (cases xs; cases "tl xs") auto

lemma um_assign_set:
  "(b, w) \<in> set (um_assign kf a v m) \<Longrightarrow>
   kf b = kf a \<and> w = v \<and> (b = a \<or> (\<exists>w'. (b, w') \<in> set m)) \<or> kf b \<noteq> kf a \<and> (b, w) \<in> set m"
  by (force simp: um_assign_def us_find_None us_keys_def split: if_splits)

lemma um_find_wf: "um_wf kf m \<Longrightarrow> (k, v) \<in> set m \<Longrightarrow> um_find kf (kf k) m = Some v"
  using us_find_SomeI [of "kf \<circ> fst" m "(k, v)" "kf k"] by (simp add: um_find_def)

lemma LFU_known_same: "LFU_known_ok p \<Longrightarrow> a \<in> set (keySet p) \<Longrightarrow> b \<in> set (keySet p) \<Longrightarrow> kid a = kid b \<Longrightarrow> a = b"
  unfolding LFU_known_ok_def us_wf_def distinct_map by (meson inj_onD)

lemma LFU_cached_entry:
  assumes "LFU_known_ok p" and "x \<in> set (keySet p)" and "um_find kid (kid x) (keyMap p) = Some n"
  shows "(x, n) \<in> set (keyMap p)"
proof -
  obtain a where a: "(a, n) \<in> set (keyMap p)" "kid a = kid x" using um_find_Some [OF assms(3)] by blast
  moreover have "a \<in> set (keySet p)" using assms(1) a(1) by (auto simp: LFU_known_ok_def)
  ultimately show ?thesis using LFU_known_same [OF assms(1) _ assms(2)] by blast
qed

text \<open>Erasing the node of a cached key.\<close>

lemma LFU_erase_cached:
  assumes ok: "LFU_freqs_ok p" "LFU_known_ok p" "LFU_links h {} p"
    and x: "x \<in> set (keySet p)" "um_find kid (kid x) (keyMap p) = Some n"
  shows "if um_keys kid (keyMap p) = {kid x}
    then LFU_eraseFreqMap (khit h x) n p = Inl (UndefinedBehaviour ''begin() of an empty set dereferenced'')
    else \<exists>p'. LFU_eraseFreqMap (khit h x) n p = Inr p' \<and> LFU_freqs_ok p' \<and> LFU_links h {x} p'"
proof -
  let ?f = "khit h x"
  have xn: "(x, n) \<in> set (keyMap p)" by (rule LFU_cached_entry [OF ok(2) x])
  then have node: "(n, x) \<in> set (freq_list p ?f)" using ok(3) by (auto simp: LFU_links_def)
  have wf: "us_wf fst (freq_list p g)" for g using ok(3) by (simp add: LFU_links_def)
  have own: "k = x" if "(n, k) \<in> set (freq_list p ?f)" for k
    using that node wf [of ?f] unfolding us_wf_def distinct_map inj_on_def by fastforce
  have fs: "set (freqSet p) = {g. freq_list p g \<noteq> []}" using ok(1) by (simp add: LFU_freqs_ok_def)
  have single: "um_keys kid (keyMap p) = {kid x} \<longleftrightarrow> set (freqSet p) = {?f} \<and> freq_list p ?f = [(n, x)]"
  proof
    assume one: "um_keys kid (keyMap p) = {kid x}"
    have all: "y = (n, x) \<and> g = ?f" if "y \<in> set (freq_list p g)" for y g
    proof -
      obtain m k where y: "y = (m, k)" by fastforce
      with that ok(3) have k: "k \<in> set (keySet p)" "khit h k = g" "um_find kid (kid k) (keyMap p) = Some m"
        by (auto simp: LFU_links_def)
      then have "kid k \<in> um_keys kid (keyMap p)" using um_find_None [of kid "kid k" "keyMap p"] by auto
      with one have "k = x" using LFU_known_same [OF ok(2) k(1) x(1)] by blast
      with k x(2) y show ?thesis by simp
    qed
    have "freq_list p ?f = [(n, x)]"
      using all by (intro distinct_singletonI [OF us_wf_distinct [OF wf] node]) blast
    moreover have "g = ?f" if "freq_list p g \<noteq> []" for g
      using all [of "hd (freq_list p g)" g] that by simp
    then have "set (freqSet p) = {?f}" unfolding fs using node by force
    ultimately show "set (freqSet p) = {?f} \<and> freq_list p ?f = [(n, x)]" by blast
  next
    assume r: "set (freqSet p) = {?f} \<and> freq_list p ?f = [(n, x)]"
    have "a = x" if "(a, m) \<in> set (keyMap p)" for a m
    proof -
      from that ok(3) have a: "(m, a) \<in> set (freq_list p (khit h a))" by (auto simp: LFU_links_def)
      then have "freq_list p (khit h a) \<noteq> []" by (metis empty_iff empty_set)
      then have "khit h a \<in> set (freqSet p)" unfolding fs by simp
      with r have "khit h a = ?f" by blast
      with a r show ?thesis by simp
    qed
    then have "\<forall>e \<in> set (keyMap p). (kid \<circ> fst) e = kid x" by (auto simp: Ball_def)
    with xn show "um_keys kid (keyMap p) = {kid x}" unfolding us_keys_def by (metis empty_iff empty_set image_constant_conv image_cong)
  qed
  show ?thesis
  proof (cases "um_keys kid (keyMap p) = {kid x}")
    case True
    then have "set (freqSet p) = {?f} \<and> freq_list p ?f = [(n, x)]" using single by blast
    from LFU_erase_cases [OF ok(1) node wf, unfolded if_P [OF this]] show ?thesis unfolding if_P [OF True] .
  next
    case False
    then have "\<not> (set (freqSet p) = {?f} \<and> freq_list p ?f = [(n, x)])" using single by blast
    from LFU_erase_cases [OF ok(1) node wf, unfolded if_not_P [OF this]] obtain p' where
      e: "LFU_eraseFreqMap ?f n p = Inr p'" "LFU_freqs_ok p'"
      and all: "\<forall>g. freq_list p' g = (if g = ?f then filter (\<lambda>y. fst y \<noteq> n) (freq_list p ?f) else freq_list p g)"
      by blast
    note l = all [rule_format]
    have mem: "(m, k) \<in> set (freq_list p' g) \<longleftrightarrow> (m, k) \<in> set (freq_list p g) \<and> (g = ?f \<longrightarrow> m \<noteq> n)" for m k g
      by (simp add: l)
    have "LFU_links h {x} p'"
    proof (rule LFU_linksI)
      fix f m k
      assume "(m, k) \<in> set (freq_list p' f)"
      then have k: "(m, k) \<in> set (freq_list p f)" "f = ?f \<longrightarrow> m \<noteq> n" by (simp_all add: mem)
      note N = LFU_links_node [OF ok(3) k(1)]
      with k(2) x(2) have "k \<noteq> x" by auto
      with N show "k \<notin> {x} \<and> k \<in> set (keySet p') \<and> khit h k = f \<and> um_find kid (kid k) (keyMap p') = Some m"
        by (simp add: LFU_erase_keeps [OF e(1)])
    next
      fix f
      show "us_wf fst (freq_list p' f)" by (cases "f = ?f") (simp_all add: l us_wf_filter wf)
    next
      fix k m
      assume "(k, m) \<in> set (keyMap p')" "k \<notin> {x}"
      then have k: "(k, m) \<in> set (keyMap p)" "k \<noteq> x" by (simp_all add: LFU_erase_keeps [OF e(1)])
      then have "(m, k) \<in> set (freq_list p (khit h k))" using LFU_links_entry [OF ok(3)] by blast
      with own k(2) show "(m, k) \<in> set (freq_list p' (khit h k))" by (auto simp: mem)
    qed
    with e show ?thesis unfolding if_not_P [OF False] by blast
  qed
qed

text \<open>A key in no list is put into the list of its hit number.\<close>

lemma LFU_insert_links:
  assumes ok: "LFU_known_ok p" "LFU_links h {x} p" and x: "x \<in> set (keySet p)"
    and same: "\<And>k. k \<in> set (keySet p) \<Longrightarrow> k \<noteq> x \<Longrightarrow> khit h' k = khit h k"
  shows "LFU_links h' {} (LFU_insert (khit h' x) x p)" "LFU_known_ok (LFU_insert (khit h' x) x p)"
proof -
  let ?f = "khit h' x" and ?n = "nextListNode p"
  let ?q = "LFU_insert ?f x p"
  have mem: "(m, k) \<in> set (freq_list ?q g) \<longleftrightarrow> (m, k) \<in> set (freq_list p g) \<or> g = ?f \<and> m = ?n \<and> k = x" for m k g
    by auto
  have keys: "b = x \<and> w = ?n \<or> kid b \<noteq> kid x \<and> (b, w) \<in> set (keyMap p)" if "(b, w) \<in> set (keyMap ?q)" for b w
  proof -
    from um_assign_set [of b w kid x ?n "keyMap p"] that have "kid b = kid x \<and> w = ?n \<and> (b = x \<or> (\<exists>w'. (b, w') \<in> set (keyMap p)))
        \<or> kid b \<noteq> kid x \<and> (b, w) \<in> set (keyMap p)" by simp
    moreover have "b = x" if "(b, w') \<in> set (keyMap p)" "kid b = kid x" for w'
      using that LFU_known_same [OF ok(1) _ x] ok(1) by (auto simp: LFU_known_ok_def)
    ultimately show ?thesis by blast
  qed
  show "LFU_links h' {} ?q"
  proof (rule LFU_linksI)
    fix f m k
    assume a: "(m, k) \<in> set (freq_list ?q f)"
    show "k \<notin> {} \<and> k \<in> set (keySet ?q) \<and> khit h' k = f \<and> um_find kid (kid k) (keyMap ?q) = Some m"
    proof (cases "(m, k) \<in> set (freq_list p f)")
      case True
      note N = LFU_links_node [OF ok(2) True]
      then have "kid k \<noteq> kid x" using LFU_known_same [OF ok(1) _ x] by blast
      with N same show ?thesis by (simp add: um_find_assign)
    next
      case False
      with a have "f = ?f" "m = ?n" "k = x" by (auto simp only: mem)
      with x show ?thesis by (simp add: um_find_assign)
    qed
  next
    fix f
    have "m < ?n" if "(m, k) \<in> set (freq_list p g)" for m k g
    proof -
      note N = LFU_links_node [OF ok(2) that]
      then obtain a where "(a, m) \<in> set (keyMap p)" using um_find_Some [of kid "kid k" "keyMap p" m] by auto
      with ok(1) show ?thesis by (auto simp: LFU_known_ok_def)
    qed
    then have "?n \<notin> us_keys fst (freq_list p ?f)" by (fastforce simp: us_keys_def)
    with LFU_links_wf [OF ok(2)] show "us_wf fst (freq_list ?q f)"
      by (auto simp: us_wf_def us_keys_def)
  next
    fix k m
    assume "(k, m) \<in> set (keyMap ?q)"
    from keys [OF this] show "(m, k) \<in> set (freq_list ?q (khit h' k))"
    proof
      assume b: "kid k \<noteq> kid x \<and> (k, m) \<in> set (keyMap p)"
      then have "k \<noteq> x" "k \<in> set (keySet p)" using ok(1) by (auto simp: LFU_known_ok_def)
      with b LFU_links_entry [OF ok(2)] same show ?thesis by (simp only: mem) simp
    qed (simp only: mem simp_thms)
  qed
  have "k \<in> set (keySet p) \<and> m < Suc ?n" if "(k, m) \<in> set (keyMap ?q)" for k m
    using keys [OF that] ok(1) x by (auto simp: LFU_known_ok_def)
  then show "LFU_known_ok ?q"
    using ok(1) um_wf_assign [of kid "keyMap p" x ?n] by (auto simp: LFU_known_ok_def LFU_insert_def)
qed

text \<open>Taking a key out of \<^verbatim>\<open>keyMap_\<close>.\<close>

lemma LFU_forget_links:
  assumes ok: "LFU_known_ok p" "LFU_links h {x} p" and x: "x \<in> set (keySet p)"
  shows "LFU_links h {} (p\<lparr>keyMap := um_erase kid (kid x) (keyMap p)\<rparr>)"
    "LFU_known_ok (p\<lparr>keyMap := um_erase kid (kid x) (keyMap p)\<rparr>)"
proof -
  let ?q = "p\<lparr>keyMap := um_erase kid (kid x) (keyMap p)\<rparr>"
  have keys: "(k, m) \<in> set (um_erase kid (kid x) (keyMap p)) \<longleftrightarrow> (k, m) \<in> set (keyMap p) \<and> kid k \<noteq> kid x" for k m
    by (auto simp: um_erase_def us_erase_def)
  show "LFU_links h {} ?q"
  proof (rule LFU_linksI)
    fix f m k
    assume "(m, k) \<in> set (freq_list ?q f)"
    then have "(m, k) \<in> set (freq_list p f)" by simp
    note N = LFU_links_node [OF ok(2) this]
    then have "kid k \<noteq> kid x" using LFU_known_same [OF ok(1) _ x] by blast
    with N show "k \<notin> {} \<and> k \<in> set (keySet ?q) \<and> khit h k = f \<and> um_find kid (kid k) (keyMap ?q) = Some m"
      by (simp add: um_find_erase)
  next
    fix k m
    assume "(k, m) \<in> set (keyMap ?q)"
    then show "(m, k) \<in> set (freq_list ?q (khit h k))"
      using LFU_links_entry [OF ok(2)] by (auto simp: keys)
  qed (use LFU_links_wf [OF ok(2)] in simp)
  show "LFU_known_ok ?q"
    using ok(1) um_wf_erase [of kid "keyMap p" "kid x"] by (auto simp: LFU_known_ok_def keys)
qed

lemma LFU_links_uncached:
  assumes "LFU_links h {} p" and "um_find kid (kid x) (keyMap p) = None"
  shows "LFU_links h {x} p"
proof (rule LFU_linksI)
  fix f m k
  assume "(m, k) \<in> set (freq_list p f)"
  from LFU_links_node [OF assms(1) this] assms(2)
  show "k \<notin> {x} \<and> k \<in> set (keySet p) \<and> khit h k = f \<and> um_find kid (kid k) (keyMap p) = Some m" by auto
qed (use LFU_links_wf [OF assms(1)] LFU_links_entry [OF assms(1)] in auto)

section \<open>Loads\<close>

lemma map_fst_um_assign: "kf a \<in> um_keys kf m \<Longrightarrow> map fst (um_assign kf a v m) = map fst m"
  by (auto simp: um_assign_def us_find_None)

lemma LFU_known_keeps:
  "LFU_known_ok p \<Longrightarrow> keyMap q = keyMap p \<Longrightarrow> keySet q = keySet p \<Longrightarrow> nextListNode q = nextListNode p \<Longrightarrow> LFU_known_ok q"
  by (simp add: LFU_known_ok_def)

lemma LFU_links_cong:
  assumes "LFU_links h {} p" and "LFU_known_ok p" and "\<And>k n. (k, n) \<in> set (keyMap p) \<Longrightarrow> khit h' k = khit h k"
  shows "LFU_links h' {} p"
proof (rule LFU_linksI)
  fix f n k
  assume "(n, k) \<in> set (freq_list p f)"
  note N = LFU_links_node [OF assms(1) this]
  then have "(k, n) \<in> set (keyMap p)" using LFU_cached_entry [OF assms(2)] by blast
  with assms(3) N show "k \<notin> {} \<and> k \<in> set (keySet p) \<and> khit h' k = f \<and> um_find kid (kid k) (keyMap p) = Some n"
    by simp
qed (use LFU_links_wf [OF assms(1)] LFU_links_entry [OF assms(1)] assms(3) in auto)

text \<open>Counting a hit of a known key.\<close>

lemma LFU_count_hit:
  assumes ok: "LFU_known_ok p" and x: "x \<in> set (keySet p)"
  obtains h' where "upd_meta incHitNum x h = Inr h'" and "khit h' x = khit h x + 1"
    and "\<And>k. k \<in> set (keySet p) \<Longrightarrow> k \<noteq> x \<Longrightarrow> khit h' k = khit h k" and "ksize h' = ksize h"
    and "\<exists>m. meta h' x = Inr m \<and> md_hitNum m = khit h' x"
proof -
  obtain r where r: "key_metadata x = Some r" using ok x by (fastforce simp: LFU_known_ok_def)
  let ?h = "h\<lparr>mem := (mem h)(r := incHitNum (mem h r))\<rparr>"
  have other: "key_metadata k \<noteq> Some r" if "k \<in> set (keySet p)" "k \<noteq> x" for k
    using that ok x r unfolding LFU_known_ok_def inj_on_def by metis
  show ?thesis
  proof (rule that [of ?h])
    show "upd_meta incHitNum x h = Inr ?h" by (simp add: upd_meta_def r)
    show "khit ?h x = khit h x + 1" by (simp add: khit_def r incHitNum_def)
    show "khit ?h k = khit h k" if "k \<in> set (keySet p)" "k \<noteq> x" for k
      using other [OF that] by (auto simp: khit_def split: option.splits)
    show "ksize ?h = ksize h" by (auto simp: ksize_def incHitNum_def fun_eq_iff split: option.splits)
    show "\<exists>m. meta ?h x = Inr m \<and> md_hitNum m = khit ?h x" by (simp add: meta_def khit_def r)
  qed
qed

text \<open>A hit of a key that is known.\<close>

lemma LFU_hit_spec:
  assumes inv: "LFU_inv (h, p)" and x: "x \<in> set (keySet p)" and up: "upd_meta incHitNum x h = Inr h'"
  shows "if um_keys kid (keyMap p) = {kid x}
    then LFU_move x (h', p) = Inl (UndefinedBehaviour ''begin() of an empty set dereferenced'')
    else \<exists>p'. LFU_move x (h', p) = Inr (h', p') \<and> LFU_inv (h', p') \<and> keySet p' = keySet p \<and>
      map fst (keyMap p') = map fst (keyMap p)"
proof -
  have ok: "LFU_freqs_ok p" "LFU_known_ok p" "LFU_links h {} p"
    and sz: "unat (freeSize p) + LFU_used h p = unat (maxSize p)"
    and pos: "\<forall>k \<in> set (keySet p). khit h k \<ge> 1" using inv by simp_all
  obtain h1 where "upd_meta incHitNum x h = Inr h1" and H: "khit h1 x = khit h x + 1"
    "\<And>k. k \<in> set (keySet p) \<Longrightarrow> k \<noteq> x \<Longrightarrow> khit h1 k = khit h k" "ksize h1 = ksize h"
    "\<exists>m. meta h1 x = Inr m \<and> md_hitNum m = khit h1 x" using LFU_count_hit [OF ok(2) x] by blast
  with up have h1: "h1 = h'" by simp
  note H = H [unfolded h1]
  obtain m where m: "meta h' x = Inr m" "md_hitNum m = khit h x + 1" using H(1,4) by auto
  have pos': "\<forall>k \<in> set (keySet p). khit h' k \<ge> 1"
  proof
    fix k assume "k \<in> set (keySet p)"
    with pos H(1,2) x show "khit h' k \<ge> 1" by (cases "k = x") auto
  qed
  show ?thesis
  proof (cases "um_find kid (kid x) (keyMap p)")
    case None
    then have nk: "kid x \<notin> um_keys kid (keyMap p)" by (simp add: um_find_None)
    have "khit h' k = khit h k" if "(k, n) \<in> set (keyMap p)" for k n
    proof (rule H(2))
      show "k \<in> set (keySet p)" using that ok(2) by (auto simp: LFU_known_ok_def)
      show "k \<noteq> x" using that nk by (force simp: us_keys_def)
    qed
    from LFU_links_cong [OF ok(3,2) this] have "LFU_inv (h', p)" using ok sz pos' H(3) by (simp add: LFU_used_def)
    moreover have "LFU_move x (h', p) = Inr (h', p)" by (simp add: LFU_move_def None)
    moreover have "um_keys kid (keyMap p) \<noteq> {kid x}" using nk by auto
    ultimately show ?thesis by simp
  next
    case (Some n)
    note E = LFU_erase_cached [OF ok x Some]
    have mv: "LFU_move x (h', p) = rbind (LFU_eraseFreqMap (khit h x) n p) (\<lambda>p1. Inr (h', LFU_insert (khit h x + 1) x p1))"
      by (simp add: LFU_move_def Some m)
    show ?thesis
    proof (cases "um_keys kid (keyMap p) = {kid x}")
      case True
      with E mv show ?thesis by simp
    next
      case False
      from E [unfolded if_not_P [OF False]] obtain p1 where
        e: "LFU_eraseFreqMap (khit h x) n p = Inr p1" and fr: "LFU_freqs_ok p1" and lk: "LFU_links h {x} p1" by blast
      note K = LFU_erase_keeps [OF e]
      have kn: "LFU_known_ok p1" by (rule LFU_known_keeps [OF ok(2) K(1,2,5)])
      let ?q = "LFU_insert (khit h x + 1) x p1"
      have "LFU_links h' {} ?q" "LFU_known_ok ?q"
        using LFU_insert_links [OF kn lk, of h'] x H(1,2) K(2) by simp_all
      moreover have "LFU_freqs_ok ?q"
        using LFU_freqs_insert [OF fr, of "khit h x + 1"] bspec [OF pos x] by simp
      moreover have "kid x \<in> um_keys kid (keyMap p1)" using Some um_find_None [of kid "kid x" "keyMap p"] K(1) by auto
      then have mf: "map fst (keyMap ?q) = map fst (keyMap p)" using K(1) by (simp add: map_fst_um_assign)
      then have "LFU_used h' ?q = LFU_used h p" using H(3) by (simp add: LFU_used_def)
      ultimately have "LFU_inv (h', ?q)" using sz K pos' by simp
      with mf K mv e False show ?thesis by simp
    qed
  qed
qed

lemma LFU_new_key_inv:
  assumes inv: "LFU_inv (h, p)" and new: "us_find kid (kid key) (keySet p) = None"
    and r: "key_metadata key = Some r" "\<forall>k \<in> set (keySet p). key_metadata k \<noteq> Some r" "khit h key \<ge> 1"
  shows "LFU_onLoad key (h, p) = Inr (h, p\<lparr>keySet := keySet p @ [key]\<rparr>) \<and>
    LFU_inv (h, p\<lparr>keySet := keySet p @ [key]\<rparr>) \<and> um_keys kid (keyMap p) \<noteq> {kid key}"
proof -
  let ?q = "p\<lparr>keySet := keySet p @ [key]\<rparr>"
  have nk: "kid key \<notin> us_keys kid (keySet p)" using new by (simp add: us_find_None)
  have nm: "kid key \<notin> um_keys kid (keyMap p)"
  proof
    assume "kid key \<in> um_keys kid (keyMap p)"
    then obtain a n where "(a, n) \<in> set (keyMap p)" "kid a = kid key" by (auto simp: us_keys_def)
    moreover have "a \<in> set (keySet p)" using inv calculation(1) by (auto simp: LFU_known_ok_def)
    ultimately show False using nk imageI [of a "set (keySet p)" kid] by (simp add: us_keys_def)
  qed
  have "LFU_links h {} ?q"
    by (rule LFU_linksI) (use inv LFU_links_wf [of h "{}" p] in \<open>auto dest: LFU_links_node LFU_links_entry\<close>)
  moreover have "LFU_known_ok ?q"
    using inv nk r by (auto simp: LFU_known_ok_def us_wf_def us_keys_def inj_on_def)
  moreover have "LFU_freqs_ok ?q = LFU_freqs_ok p" unfolding LFU_freqs_ok_def by simp
  ultimately have "LFU_inv (h, ?q)" using inv r(3) by (simp add: LFU_used_def)
  moreover have "LFU_onLoad key (h, p) = Inr (h, ?q)"
    using new nm um_find_None [of kid "kid key" "keyMap p"]
    by (simp add: LFU_onLoad_def LFU_register_def LFU_move_def us_emplace_def)
  ultimately show ?thesis using nm by auto
qed

text \<open>
  C37.  A load of the least-frequently-used policy keeps its invariant and what it has cached, with one
  exception: when the segment is the only one in the cache, the load reads the first element of an empty
  set, which is undefined.
\<close>

theorem LFU_load_fails_for_only_segment:
  assumes inv: "LFU_inv (h, p)"
    and fresh: "us_find kid (kid key) (keySet p) = None \<Longrightarrow>
      \<exists>r. key_metadata key = Some r \<and> (\<forall>k \<in> set (keySet p). key_metadata k \<noteq> Some r) \<and> khit h key \<ge> 1"
  shows "if um_keys kid (keyMap p) = {kid key}
    then LFU_onLoad key (h, p) = Inl (UndefinedBehaviour ''begin() of an empty set dereferenced'')
    else \<exists>h' p'. LFU_onLoad key (h, p) = Inr (h', p') \<and> LFU_inv (h', p') \<and>
      map fst (keyMap p') = map fst (keyMap p)"
proof (cases "us_find kid (kid key) (keySet p)")
  case None
  with fresh obtain r where "key_metadata key = Some r" "\<forall>k \<in> set (keySet p). key_metadata k \<noteq> Some r" "khit h key \<ge> 1"
    by blast
  from LFU_new_key_inv [OF inv None this] show ?thesis by auto
next
  case (Some x)
  then have x: "x \<in> set (keySet p)" "kid x = kid key" by (auto dest: us_find_Some)
  have "LFU_known_ok p" using inv by simp
  then obtain h' where up: "upd_meta incHitNum x h = Inr h'" using LFU_count_hit [OF _ x(1)] by blast
  then have ld: "LFU_onLoad key (h, p) = LFU_move x (h', p)"
    by (simp add: LFU_onLoad_def LFU_register_def Some)
  show ?thesis
    using LFU_hit_spec [OF inv x(1) up] unfolding ld x(2) by (auto split: if_splits)
qed

section \<open>Stores\<close>

definition word_sum :: "('a \<Rightarrow> size_t) \<Rightarrow> 'a list \<Rightarrow> size_t" where
  "word_sum sz xs = sum_list (map sz xs)"

lemma word_sum_simps [simp]:
  "word_sum sz [] = 0" "word_sum sz (x # xs) = sz x + word_sum sz xs"
  "word_sum sz (xs @ ys) = word_sum sz xs + word_sum sz ys"
  by (simp_all add: word_sum_def)

lemma unat_word_sum: "sum_sizes sz xs \<le> unat (m :: size_t) \<Longrightarrow> unat (word_sum sz xs) = sum_sizes sz xs"
proof (induction xs)
  case (Cons x xs)
  then have ih: "unat (word_sum sz xs) = sum_sizes sz xs" by simp
  then have "unat (sz x) + unat (word_sum sz xs) \<le> unat m" using Cons.prems by simp
  from unat_add_le [OF this] ih show ?case by simp
qed simp

text \<open>The candidates of one list: a prefix of it, all used less often than the new key.\<close>

lemma LFU_candidates_spec:
  assumes "\<forall>k \<in> set ks. key_metadata k \<noteq> None"
  shows "\<exists>res new. LFU_candidates h freq sz free ks removable low = Inr (res, removable @ new, low + word_sum (ksize h) new) \<and>
    (\<exists>rest. ks = new @ rest) \<and> (\<forall>k \<in> set new. khit h k < freq) \<and>
    (res = SUFFICIENT \<longrightarrow> sz \<le> low + word_sum (ksize h) new + free)"
  using assms
proof (induction ks arbitrary: removable low)
  case (Cons k ks)
  then obtain r where r: "key_metadata k = Some r" by auto
  let ?m = "mem h r"
  have m: "meta h k = Inr ?m" "md_size ?m = ksize h k" "md_hitNum ?m = khit h k"
    by (simp_all add: meta_def ksize_def khit_def r)
  show ?case
  proof (cases "khit h k < freq")
    case False
    then show ?thesis using m by (intro exI [of _ INSUFFICIENT] exI [of _ "[]"]) simp
  next
    case less: True
    show ?thesis
    proof (cases "low + ksize h k + free \<ge> sz")
      case True
      then show ?thesis using m less by (intro exI [of _ SUFFICIENT] exI [of _ "[k]"]) simp
    next
      case False
      from Cons.IH [of "removable @ [k]" "low + ksize h k"] Cons.prems obtain res new where
        n: "LFU_candidates h freq sz free ks (removable @ [k]) (low + ksize h k)
            = Inr (res, (removable @ [k]) @ new, low + ksize h k + word_sum (ksize h) new)"
          "\<exists>rest. ks = new @ rest" "\<forall>k \<in> set new. khit h k < freq"
          "res = SUFFICIENT \<longrightarrow> sz \<le> low + ksize h k + word_sum (ksize h) new + free" by auto
      then show ?thesis
        using m less False by (intro exI [of _ res] exI [of _ "k # new"]) (auto simp: add.assoc)
    qed
  qed
qed (intro exI [of _ UNKNOWN] exI [of _ "[]"], simp)

text \<open>The cached keys with one of the hit numbers in a set.\<close>

definition cached_with :: "'d heap \<Rightarrow> LFUCachingPolicy \<Rightarrow> int set \<Rightarrow> SegmentKey set" where
  "cached_with h p F = {k. k \<in> fst ` set (keyMap p) \<and> khit h k \<in> F}"

lemma LFU_list_keys:
  assumes "LFU_known_ok p" and "LFU_links h {} p"
  shows "distinct (map snd (freq_list p f))" and "k \<in> snd ` set (freq_list p f) \<Longrightarrow> k \<in> cached_with h p {f}"
proof -
  have "inj_on snd (set (freq_list p f))"
  proof (rule inj_onI)
    fix a b assume ab: "a \<in> set (freq_list p f)" "b \<in> set (freq_list p f)" "snd a = snd b"
    obtain n k m where e: "a = (n, k)" "b = (m, k)" using ab(3) by (cases a; cases b) auto
    from LFU_links_node [OF assms(2), of n k f] LFU_links_node [OF assms(2), of m k f] ab show "a = b" by (simp add: e)
  qed
  then show "distinct (map snd (freq_list p f))"
    using us_wf_distinct [OF LFU_links_wf [OF assms(2)]] by (simp add: distinct_map)
  assume "k \<in> snd ` set (freq_list p f)"
  then obtain n where n: "(n, k) \<in> set (freq_list p f)" by auto
  note N = LFU_links_node [OF assms(2) n]
  then have "(k, n) \<in> set (keyMap p)" using LFU_cached_entry [OF assms(1)] by blast
  with N show "k \<in> cached_with h p {f}" by (force simp: cached_with_def)
qed

text \<open>The search: distinct cached keys, all used less often than the new key.\<close>

lemma LFU_search_spec:
  assumes ok: "LFU_known_ok p" "LFU_links h {} p"
  shows "tmpFreqSet = [] \<or> tmpMinFreq \<in> set tmpFreqSet \<Longrightarrow>
    \<exists>res new. LFU_search h freq sz p tmpFreqSet tmpMinFreq removable low
        = Inr (res, removable @ new, low + word_sum (ksize h) new) \<and>
      distinct new \<and> set new \<subseteq> cached_with h p (set tmpFreqSet) \<and> (\<forall>k \<in> set new. khit h k < freq) \<and>
      (res = SUFFICIENT \<longrightarrow> sz \<le> low + word_sum (ksize h) new + freeSize p)"
proof (induction "length tmpFreqSet" arbitrary: tmpFreqSet tmpMinFreq removable low rule: less_induct)
  case less
  show ?case
  proof (cases "tmpFreqSet = []")
    case True
    then show ?thesis
      by (intro exI [of _ UNKNOWN] exI [of _ "[]"]) (simp add: LFU_search.simps [of _ _ _ _ "[]"])
  next
    case False
    with less.prems have f: "tmpMinFreq \<in> set tmpFreqSet" by blast
    let ?ks = "map snd (freq_list p tmpMinFreq)"
    have "\<forall>k \<in> set ?ks. key_metadata k \<noteq> None"
      using LFU_links_node [OF ok(2)] ok(1) by (fastforce simp: LFU_known_ok_def)
    from LFU_candidates_spec [OF this] obtain res new rest where
      c: "LFU_candidates h freq sz (freeSize p) ?ks removable low = Inr (res, removable @ new, low + word_sum (ksize h) new)"
      and new: "?ks = new @ rest" "\<forall>k \<in> set new. khit h k < freq"
      and suf: "res = SUFFICIENT \<longrightarrow> sz \<le> low + word_sum (ksize h) new + freeSize p" by blast
    have d: "distinct new" using LFU_list_keys(1) [OF ok, of tmpMinFreq] new(1) by simp
    have "set new \<subseteq> set ?ks" by (simp add: new(1))
    then have sub: "set new \<subseteq> cached_with h p {tmpMinFreq}" using LFU_list_keys(2) [OF ok] by fastforce
    let ?rest = "us_erase id tmpMinFreq tmpFreqSet"
    have S: "LFU_search h freq sz p tmpFreqSet tmpMinFreq removable low =
        (if res \<noteq> UNKNOWN then Inr (res, removable @ new, low + word_sum (ksize h) new)
         else LFU_search h freq sz p ?rest (if ?rest = [] then tmpMinFreq else set_minimum ?rest)
                (removable @ new) (low + word_sum (ksize h) new))"
      using False c by (simp add: LFU_search.simps [of _ _ _ _ tmpFreqSet] Let_def)
    show ?thesis
    proof (cases "res = UNKNOWN")
      case False
      with S d sub new(2) suf f show ?thesis
        by (intro exI [of _ res] exI [of _ new]) (auto simp: cached_with_def)
    next
      case True
      have "length ?rest < length tmpFreqSet" using f by (intro length_us_erase) (simp add: us_keys_def)
      moreover have "?rest = [] \<or> (if ?rest = [] then tmpMinFreq else set_minimum ?rest) \<in> set ?rest"
        using set_minimum_in by auto
      ultimately obtain res2 new2 where
        s: "LFU_search h freq sz p ?rest (if ?rest = [] then tmpMinFreq else set_minimum ?rest)
            (removable @ new) (low + word_sum (ksize h) new)
          = Inr (res2, (removable @ new) @ new2, low + word_sum (ksize h) new + word_sum (ksize h) new2)"
        and n2: "distinct new2" "set new2 \<subseteq> cached_with h p (set ?rest)" "\<forall>k \<in> set new2. khit h k < freq"
        and suf2: "res2 = SUFFICIENT \<longrightarrow> sz \<le> low + word_sum (ksize h) new + word_sum (ksize h) new2 + freeSize p"
        using less.hyps [of ?rest "if ?rest = [] then tmpMinFreq else set_minimum ?rest" "removable @ new"
            "low + word_sum (ksize h) new"] by blast
      have "set ?rest = set tmpFreqSet - {tmpMinFreq}" by (auto simp: us_erase_def)
      then have "distinct (new @ new2)" "set (new @ new2) \<subseteq> cached_with h p (set tmpFreqSet)"
        using d n2(1,2) sub f by (auto simp: cached_with_def)
      then show ?thesis
        using S True s n2(3) new(2) suf2 by (intro exI [of _ res2] exI [of _ "new @ new2"]) (auto simp: add.assoc)
    qed
  qed
qed

text \<open>Evicting some of the cached keys; only evicting all of them fails.\<close>

lemma LFU_evict_one:
  assumes ok: "LFU_freqs_ok p" "LFU_known_ok p" "LFU_links h {} p" and x: "x \<in> fst ` set (keyMap p)"
  shows "if um_keys kid (keyMap p) = {kid x}
    then LFU_evict_key h x p = Inl (UndefinedBehaviour ''begin() of an empty set dereferenced'')
    else \<exists>p'. LFU_evict_key h x p = Inr p' \<and> LFU_freqs_ok p' \<and> LFU_known_ok p' \<and> LFU_links h {} p' \<and>
      keyMap p' = um_erase kid (kid x) (keyMap p)"
proof -
  obtain n where xn: "(x, n) \<in> set (keyMap p)" using x by auto
  then have xk: "x \<in> set (keySet p)" using ok(2) by (auto simp: LFU_known_ok_def)
  have "um_wf kid (keyMap p)" using ok(2) by (simp add: LFU_known_ok_def)
  then have f: "um_find kid (kid x) (keyMap p) = Some n" using xn by (rule um_find_wf)
  obtain m where m: "meta h x = Inr m" "md_hitNum m = khit h x"
    using ok(2) xk by (fastforce simp: LFU_known_ok_def meta_def khit_def)
  note E = LFU_erase_cached [OF ok xk f]
  have ev: "LFU_evict_key h x p = rbind (LFU_eraseFreqMap (khit h x) n p)
      (\<lambda>p1. Inr (p1\<lparr>keyMap := um_erase kid (kid x) (keyMap p1)\<rparr>))"
    by (simp add: LFU_evict_key_def f m)
  show ?thesis
  proof (cases "um_keys kid (keyMap p) = {kid x}")
    case True
    then show ?thesis using E ev by simp
  next
    case False
    from E [unfolded if_not_P [OF False]] obtain p1 where
      e: "LFU_eraseFreqMap (khit h x) n p = Inr p1" and fr: "LFU_freqs_ok p1" and lk: "LFU_links h {x} p1" by blast
    note K = LFU_erase_keeps [OF e]
    have kn: "LFU_known_ok p1" by (rule LFU_known_keeps [OF ok(2) K(1,2,5)])
    let ?q = "p1\<lparr>keyMap := um_erase kid (kid x) (keyMap p1)\<rparr>"
    have "LFU_freqs_ok ?q = LFU_freqs_ok p1" unfolding LFU_freqs_ok_def by simp
    then show ?thesis
      using False ev e K(1) fr LFU_forget_links [OF kn lk] xk K(2) by simp
  qed
qed

lemma LFU_entry_known: "LFU_known_ok p \<Longrightarrow> k \<in> fst ` set (keyMap p) \<Longrightarrow> k \<in> set (keySet p)"
  by (auto simp: LFU_known_ok_def)

lemma LFU_entry_same:
  "LFU_known_ok p \<Longrightarrow> k \<in> fst ` set (keyMap p) \<Longrightarrow> x \<in> fst ` set (keyMap p) \<Longrightarrow> kid k = kid x \<Longrightarrow> k = x"
  using LFU_known_same LFU_entry_known by blast

lemma um_erase_entry:
  assumes "LFU_known_ok p" and "x \<in> fst ` set (keyMap p)"
  shows "map fst (um_erase kid (kid x) (keyMap p)) = filter (\<lambda>k. k \<noteq> x) (map fst (keyMap p))"
proof -
  have "kid k = kid x \<longleftrightarrow> k = x" if "(k, n) \<in> set (keyMap p)" for k n
    using LFU_entry_same [OF assms(1) _ assms(2), of k] that by force
  then have "filter (\<lambda>e. kid (fst e) \<noteq> kid x) (keyMap p) = filter (\<lambda>e. fst e \<noteq> x) (keyMap p)"
    by (intro filter_cong) auto
  then show ?thesis by (simp add: um_erase_def us_erase_def comp_def filter_map)
qed

lemma LFU_evict_all:
  assumes "LFU_freqs_ok p" "LFU_known_ok p" "LFU_links h {} p"
    and "distinct rs" and "set rs \<subseteq> fst ` set (keyMap p)"
  shows "if rs \<noteq> [] \<and> set rs = fst ` set (keyMap p)
    then rfold (LFU_evict_key h) rs p = Inl (UndefinedBehaviour ''begin() of an empty set dereferenced'')
    else \<exists>p'. rfold (LFU_evict_key h) rs p = Inr p' \<and> LFU_freqs_ok p' \<and> LFU_known_ok p' \<and> LFU_links h {} p' \<and>
      map fst (keyMap p') = filter (\<lambda>k. k \<notin> set rs) (map fst (keyMap p))"
  using assms
proof (induction rs arbitrary: p)
  case (Cons x rs)
  then have x: "x \<in> fst ` set (keyMap p)" by simp
  note E = LFU_evict_one [OF Cons.prems(1-3) x]
  have ids: "k = x" if "k \<in> fst ` set (keyMap p)" "kid k = kid x" for k
    using LFU_entry_same [OF Cons.prems(2) that(1) x that(2)] .
  have one: "um_keys kid (keyMap p) = {kid x} \<longleftrightarrow> fst ` set (keyMap p) = {x}"
  proof
    assume a: "um_keys kid (keyMap p) = {kid x}"
    have "k = x" if "k \<in> fst ` set (keyMap p)" for k
    proof -
      have "kid k \<in> um_keys kid (keyMap p)" using that by (auto simp: us_keys_def)
      with a ids [OF that] show ?thesis by blast
    qed
    with x show "fst ` set (keyMap p) = {x}" by blast
  next
    assume "fst ` set (keyMap p) = {x}"
    then have "kid ` fst ` set (keyMap p) = {kid x}" by simp
    then show "um_keys kid (keyMap p) = {kid x}" by (simp add: us_keys_def image_comp)
  qed
  show ?case
  proof (cases "um_keys kid (keyMap p) = {kid x}")
    case True
    then have "LFU_evict_key h x p = Inl (UndefinedBehaviour ''begin() of an empty set dereferenced'')" using E by simp
    moreover have "set (x # rs) = fst ` set (keyMap p)" using True one Cons.prems(5) by auto
    ultimately show ?thesis by simp
  next
    case False
    from E [unfolded if_not_P [OF False]] obtain p1 where e: "LFU_evict_key h x p = Inr p1"
      and ok: "LFU_freqs_ok p1" "LFU_known_ok p1" "LFU_links h {} p1" and km: "keyMap p1 = um_erase kid (kid x) (keyMap p)"
      by blast
    have mf: "map fst (keyMap p1) = filter (\<lambda>k. k \<noteq> x) (map fst (keyMap p))"
      using um_erase_entry [OF Cons.prems(2) x] by (simp add: km)
    then have keys: "fst ` set (keyMap p1) = fst ` set (keyMap p) - {x}"
      unfolding list.set_map [symmetric] by auto
    have "distinct rs" "set rs \<subseteq> fst ` set (keyMap p1)" using Cons.prems(4,5) by (auto simp: keys)
    note IH = Cons.IH [OF ok this]
    have all: "set (x # rs) = fst ` set (keyMap p) \<longleftrightarrow> rs \<noteq> [] \<and> set rs = fst ` set (keyMap p1)"
    proof -
      have "rs \<noteq> []" if "set (x # rs) = fst ` set (keyMap p)" using that False one by auto
      then show ?thesis using Cons.prems(4) x unfolding keys by auto
    qed
    show ?thesis
    proof (cases "set (x # rs) = fst ` set (keyMap p)")
      case True
      with IH all e show ?thesis by simp
    next
      case F: False
      with all have "\<not> (rs \<noteq> [] \<and> set rs = fst ` set (keyMap p1))" by blast
      from IH [unfolded if_not_P [OF this]] obtain p' where "rfold (LFU_evict_key h) rs p1 = Inr p'"
        "LFU_freqs_ok p'" "LFU_known_ok p'" "LFU_links h {} p'"
        "map fst (keyMap p') = filter (\<lambda>k. k \<notin> set rs) (map fst (keyMap p1))" by blast
      moreover have "filter (\<lambda>k. k \<notin> set rs) (map fst (keyMap p1)) = filter (\<lambda>k. k \<notin> set (x # rs)) (map fst (keyMap p))"
        by (simp add: mf conj_commute)
      ultimately show ?thesis using e F by auto
    qed
  qed
qed simp

lemma LFU_learn_size_Inr:
  assumes ok: "LFU_known_ok p" and x: "x \<in> set (keySet p)" and key: "key_metadata key \<noteq> None"
  obtains h where "LFU_learn_size key x h0 = Inr h" and "khit h = khit h0"
    and "\<And>k. k \<in> set (keySet p) \<Longrightarrow> k \<noteq> x \<Longrightarrow> ksize h k = ksize h0 k"
proof -
  obtain r where r: "key_metadata x = Some r" using ok x by (fastforce simp: LFU_known_ok_def)
  obtain mk where mk: "meta h0 key = Inr mk" using meta_Some [OF key] by blast
  let ?h = "if md_size (mem h0 r) = 0 then h0\<lparr>mem := (mem h0)(r := setSize (md_size mk) (mem h0 r))\<rparr> else h0"
  have other: "key_metadata k \<noteq> Some r" if "k \<in> set (keySet p)" "k \<noteq> x" for k
    using that ok x r unfolding LFU_known_ok_def inj_on_def by metis
  show ?thesis
  proof (rule that [of ?h])
    show "LFU_learn_size key x h0 = Inr ?h" by (simp add: LFU_learn_size_def meta_def [of h0 x] r mk upd_meta_def)
    show "khit ?h = khit h0" by (auto simp: khit_def setSize_def fun_eq_iff split: option.splits)
    show "ksize ?h k = ksize h0 k" if "k \<in> set (keySet p)" "k \<noteq> x" for k
      using other [OF that] by (auto simp: ksize_def split: option.splits)
  qed
qed

lemma LFU_keys_distinct: "LFU_known_ok p \<Longrightarrow> distinct (map fst (keyMap p))"
  unfolding LFU_known_ok_def us_wf_def map_map [symmetric] by (blast dest: distinct_map [THEN iffD1])

text \<open>What is freed by evicting some of the keys.\<close>

lemma LFU_used_split:
  assumes "LFU_known_ok p" and "distinct rs" and "set rs \<subseteq> fst ` set (keyMap p)"
  shows "sum_sizes sz (filter (\<lambda>k. k \<notin> set rs) (map fst (keyMap p))) + sum_sizes sz rs
    = sum_sizes sz (map fst (keyMap p))"
proof -
  let ?ks = "map fst (keyMap p)"
  have "set (filter (\<lambda>k. k \<in> set rs) ?ks) = set rs" using assms(3) by auto
  then have "mset (filter (\<lambda>k. k \<in> set rs) ?ks) = mset rs"
    using LFU_keys_distinct [OF assms(1)] assms(2) by (intro set_eq_iff_mset_eq_distinct [THEN iffD1]) auto
  then have "sum_sizes sz (filter (\<lambda>k. k \<in> set rs) ?ks) = sum_sizes sz rs" by (rule sum_sizes_mset)
  with sum_sizes_filter_compl [of sz "\<lambda>k. k \<in> set rs" ?ks] show ?thesis by simp
qed

text \<open>Where space for a known key of size at most the capacity is found.\<close>

lemma LFU_find_space_spec:
  assumes ok: "LFU_freqs_ok p" "LFU_known_ok p" "LFU_links h {} p" and x: "x \<in> set (keySet p)"
  shows "\<exists>res rs. LFU_find_space h x p = Inr (res, rs, word_sum (ksize h) rs) \<and> distinct rs \<and>
    set rs \<subseteq> fst ` set (keyMap p) \<and> (\<forall>k \<in> set rs. khit h k < khit h x) \<and>
    (res = SUFFICIENT \<longrightarrow> ksize h x \<le> word_sum (ksize h) rs + freeSize p) \<and>
    (rs \<noteq> [] \<longrightarrow> freeSize p < ksize h x)"
proof -
  obtain m where m: "meta h x = Inr m" "md_size m = ksize h x" "md_hitNum m = khit h x"
    using ok(2) x by (fastforce simp: LFU_known_ok_def meta_def khit_def ksize_def)
  show ?thesis
  proof (cases "freeSize p \<ge> ksize h x")
    case True
    then show ?thesis using m by (intro exI [of _ SUFFICIENT] exI [of _ "[]"]) (simp add: LFU_find_space_def)
  next
    case False
    have "freqSet p = [] \<or> minFreq p \<in> set (freqSet p)" using ok(1) by (auto simp: LFU_freqs_ok_def)
    from LFU_search_spec [OF ok(2,3) this, of "khit h x" "ksize h x" "[]" 0] obtain res rs where
      "LFU_search h (khit h x) (ksize h x) p (freqSet p) (minFreq p) [] 0 = Inr (res, rs, word_sum (ksize h) rs)"
      "distinct rs" "set rs \<subseteq> cached_with h p (set (freqSet p))" "\<forall>k \<in> set rs. khit h k < khit h x"
      "res = SUFFICIENT \<longrightarrow> ksize h x \<le> word_sum (ksize h) rs + freeSize p" by auto
    then show ?thesis using m False
      by (intro exI [of _ res] exI [of _ rs]) (auto simp: LFU_find_space_def cached_with_def)
  qed
qed

lemma LFU_free_size:
  "LFU_freqs_ok (p\<lparr>freeSize := z\<rparr>) = LFU_freqs_ok p" "LFU_known_ok (p\<lparr>freeSize := z\<rparr>) = LFU_known_ok p"
  "LFU_links h X (p\<lparr>freeSize := z\<rparr>) = LFU_links h X p"
  unfolding LFU_freqs_ok_def LFU_known_ok_def LFU_links_def by simp_all

text \<open>
  The three outcomes of storing a known key that is not cached: all cached keys are used less often and
  would all have to go, which is undefined; the key is refused; or it replaces keys used less often.
\<close>

definition LFU_store_outcome ::
  "'d heap \<Rightarrow> SegmentKey \<Rightarrow> LFUCachingPolicy \<Rightarrow> (SegmentKey list option \<times> 'd lfu_state) result \<Rightarrow> bool" where
  "LFU_store_outcome h x p r \<longleftrightarrow>
     r = Inl (UndefinedBehaviour ''begin() of an empty set dereferenced'') \<and>
      keyMap p \<noteq> [] \<and> freeSize p < ksize h x \<and> (\<forall>k \<in> fst ` set (keyMap p). khit h k < khit h x) \<or>
    (\<exists>p'. r = Inr (None, (h, p')) \<and> LFU_inv (h, p') \<and> keyMap p' = keyMap p) \<or>
    (\<exists>rs p'. r = Inr (Some rs, (h, p')) \<and> LFU_inv (h, p') \<and>
      set rs \<subset> insert x (fst ` set (keyMap p)) \<and> (\<forall>k \<in> set rs. khit h k < khit h x) \<and>
      fst ` set (keyMap p') = insert x (fst ` set (keyMap p) - set rs))"

lemma LFU_store_known_spec:
  assumes inv: "LFU_inv (h, p)" and x: "x \<in> set (keySet p)" "kid x \<notin> um_keys kid (keyMap p)"
  shows "LFU_store_outcome h x p (LFU_store_known x h p)"
proof -
  have ok: "LFU_freqs_ok p" "LFU_known_ok p" "LFU_links h {} p" "\<forall>k \<in> set (keySet p). khit h k \<ge> 1"
    and sz: "unat (freeSize p) + LFU_used h p = unat (maxSize p)" using inv by simp_all
  obtain m where m: "meta h x = Inr m" "md_size m = ksize h x" "md_hitNum m = khit h x"
    using ok(2) x(1) by (fastforce simp: LFU_known_ok_def meta_def khit_def ksize_def)
  let ?p1 = "removeEstimateCachingDecision x p"
  have fr1: "LFU_freqs_ok ?p1 = LFU_freqs_ok p" unfolding LFU_freqs_ok_def by simp
  have ok1: "LFU_freqs_ok ?p1" "LFU_known_ok ?p1" "LFU_links h {} ?p1"
    using ok fr1 by (simp_all add: LFU_known_ok_def LFU_links_def)
  have refused: "LFU_inv (h, ?p1)" using ok1 ok(4) sz by (simp add: LFU_used_def)
  show ?thesis
  proof (cases "maxSize p < ksize h x")
    case True
    then have "LFU_store_known x h p = Inr (None, (h, ?p1))" by (simp add: LFU_store_known_def m)
    with refused show ?thesis by (auto simp: LFU_store_outcome_def)
  next
    case fits: False
    from LFU_find_space_spec [OF ok(1-3) x(1)] obtain res rs where
      f: "LFU_find_space h x p = Inr (res, rs, word_sum (ksize h) rs)"
      and rs: "distinct rs" "set rs \<subseteq> fst ` set (keyMap p)" "\<forall>k \<in> set rs. khit h k < khit h x"
      and suf: "res = SUFFICIENT \<longrightarrow> ksize h x \<le> word_sum (ksize h) rs + freeSize p"
      and need: "rs \<noteq> [] \<longrightarrow> freeSize p < ksize h x" by blast
    show ?thesis
    proof (cases "res = SUFFICIENT")
      case False
      then have "LFU_store_known x h p = Inr (None, (h, ?p1))" using fits f by (simp add: LFU_store_known_def m)
      with refused show ?thesis by (auto simp: LFU_store_outcome_def)
    next
      case True
      have S: "LFU_store_known x h p = rbind (rfold (LFU_evict_key h) rs ?p1) (\<lambda>p2. Inr (Some rs,
          (h, (LFU_insert (khit h x) x p2)\<lparr>freeSize := freeSize p2 + word_sum (ksize h) rs - ksize h x\<rparr>)))"
        using fits f True by (simp add: LFU_store_known_def m)
      have "set rs \<subseteq> fst ` set (keyMap ?p1)" using rs(2) by simp
      note E = LFU_evict_all [OF ok1 rs(1) this]
      show ?thesis
      proof (cases "rs \<noteq> [] \<and> set rs = fst ` set (keyMap ?p1)")
        case all: True
        with E S have "LFU_store_known x h p = Inl (UndefinedBehaviour ''begin() of an empty set dereferenced'')" by simp
        moreover have "keyMap p \<noteq> []" using all rs(2) by auto
        ultimately show ?thesis using need all rs(3) by (simp add: LFU_store_outcome_def)
      next
        case some: False
        from E [unfolded if_not_P [OF this]] obtain p2 where
          e: "rfold (LFU_evict_key h) rs ?p1 = Inr p2" and ok2: "LFU_freqs_ok p2" "LFU_known_ok p2" "LFU_links h {} p2"
          and mf: "map fst (keyMap p2) = filter (\<lambda>k. k \<notin> set rs) (map fst (keyMap p))" by auto
        have wf1: "um_wf kid (keyMap ?p1)" using ok1(2) by (simp add: LFU_known_ok_def)
        note K = LFU_evict_all_keys [OF e wf1]
        let ?q = "LFU_insert (khit h x) x p2"
        let ?q' = "?q\<lparr>freeSize := freeSize p2 + word_sum (ksize h) rs - ksize h x\<rparr>"
        have x2: "x \<in> set (keySet p2)" "kid x \<notin> um_keys kid (keyMap p2)" using K x by auto
        then have "LFU_links h {x} p2" using LFU_links_uncached [OF ok2(3)] by (simp add: um_find_None)
        note I = LFU_insert_links [OF ok2(2) this x2(1), of h, OF refl]
        have used: "LFU_used h p2 + sum_sizes (ksize h) rs = LFU_used h p"
          using LFU_used_split [OF ok(2) rs(1,2), of "ksize h"] by (simp add: LFU_used_def mf)
        then have low: "unat (word_sum (ksize h) rs) = sum_sizes (ksize h) rs"
          using sz by (intro unat_word_sum [of _ _ "maxSize p"]) simp
        have free: "unat (freeSize p + word_sum (ksize h) rs) = unat (freeSize p) + sum_sizes (ksize h) rs"
          using used sz low by (subst unat_add_le [of _ _ "maxSize p"]) simp_all
        have "unat (freeSize p2 + word_sum (ksize h) rs - ksize h x) = unat (freeSize p) + sum_sizes (ksize h) rs - unat (ksize h x)"
          and le: "unat (ksize h x) \<le> unat (freeSize p) + sum_sizes (ksize h) rs"
          using suf True K free by (simp_all add: unat_sub_le add.commute word_le_nat_alt)
        moreover have mq: "map fst (keyMap ?q) = map fst (keyMap p2) @ [x]"
          using x2(2) by (simp add: um_assign_def us_find_None)
        then have "LFU_used h ?q = LFU_used h p2 + unat (ksize h x)" by (simp add: LFU_used_def)
        ultimately have acc: "unat (freeSize ?q') + LFU_used h ?q' = unat (maxSize ?q')"
          using used sz K by (simp add: LFU_used_def)
        have "LFU_freqs_ok ?q" using LFU_freqs_insert [OF ok2(1)] ok(4) x(1) by blast
        moreover have "keySet ?q' = keySet p" using K by simp
        ultimately have "LFU_inv (h, ?q')"
          unfolding LFU_inv.simps LFU_free_size using I ok(4) acc by metis
        moreover have "x \<notin> set rs" using rs(3) by auto
        then have "set rs \<subset> insert x (fst ` set (keyMap p))" using rs(2) by auto
        moreover have "fst ` set (keyMap ?q') = insert x (fst ` set (keyMap p) - set rs)"
        proof -
          have "fst ` set (keyMap ?q') = set (map fst (keyMap ?q))" by simp
          then show ?thesis unfolding mq mf by auto
        qed
        moreover have "LFU_store_known x h p = Inr (Some rs, (h, ?q'))" using S e by simp
        ultimately show ?thesis using rs(3) unfolding LFU_store_outcome_def by (intro disjI2 exI [of _ rs] exI [of _ ?q'] conjI)
      qed
    qed
  qed
qed

section \<open>Properties\<close>

text \<open>
  C36.  Storing a loaded segment that is not cached has one of three outcomes, whatever the contents of the
  cache: the segment is refused and the cache stays as it is; or it replaces cached segments that have all
  been used less often, and the free size and the sizes of the cached segments still add up to the
  capacity; or all cached segments have been used less often and would all be evicted, and then the
  policy reads the first element of an empty set.  The capacity is never exceeded.
\<close>

theorem LFU_store_evicts_less_used:
  assumes inv: "LFU_inv (h0, p)" and x: "us_find kid (kid key) (keySet p) = Some x"
    and new: "kid key \<notin> um_keys kid (keyMap p)" and key: "key_metadata key \<noteq> None"
  shows "\<exists>h. LFU_learn_size key x h0 = Inr h \<and> khit h = khit h0 \<and> LFU_store_outcome h x p (LFU_onStore key (h0, p))"
proof -
  have xk: "x \<in> set (keySet p)" "kid x = kid key" using us_find_Some [OF x] by simp_all
  have ok: "LFU_known_ok p" using inv by simp
  obtain h where h: "LFU_learn_size key x h0 = Inr h" "khit h = khit h0"
    and sz: "\<And>k. k \<in> set (keySet p) \<Longrightarrow> k \<noteq> x \<Longrightarrow> ksize h k = ksize h0 k"
    using LFU_learn_size_Inr [OF ok xk(1) key] by blast
  have "ksize h k = ksize h0 k" if "k \<in> set (map fst (keyMap p))" for k
  proof (rule sz)
    show "k \<in> set (keySet p)" using LFU_entry_known [OF ok] that by simp
    show "k \<noteq> x" using that new by (auto simp: us_keys_def xk(2) [symmetric])
  qed
  then have "LFU_used h p = LFU_used h0 p" unfolding LFU_used_def by (intro sum_sizes_cong) blast
  then have "LFU_inv (h, p)" using inv h(2) by (simp add: LFU_links_def)
  from LFU_store_known_spec [OF this xk(1)] new have "LFU_store_outcome h x p (LFU_store_known x h p)" by (simp add: xk(2))
  moreover have "LFU_onStore key (h0, p) = LFU_store_known x h p" by (simp add: LFU_onStore_def x h(1))
  ultimately show ?thesis using h by simp
qed

text \<open>The example: \<open>x\<close> and \<open>y\<close> are cached with 1 and 2 hits, \<open>z\<close> is known with 3; each takes 10 of 20 bytes.\<close>

definition lfu_heap :: "int heap" where
  "lfu_heap = \<lparr>mem = (\<lambda>n. (SegmentMetadata_make int_ops 10)\<lparr>md_hitNum := int n + 1\<rparr>), next_ptr = 10\<rparr>"

definition lfu_two :: LFUCachingPolicy where
  "lfu_two = \<lparr>policyType = LFU, maxSize = 20, freeSize = 0, segmentSizeMap = [],
      freqMap = [(1, [(0, sample_key 0 ''x'')]), (2, [(1, sample_key 1 ''y'')])],
      keyMap = [(sample_key 0 ''x'', 0), (sample_key 1 ''y'', 1)], minFreq = 1, freqSet = [1, 2],
      keySet = [sample_key 0 ''x'', sample_key 1 ''y'', sample_key 2 ''z''], keysToReplace = [],
      estimateCachingDecisions = [], nextListNode = 2\<rparr>"

lemma lfu_heap_key [simp]:
  "khit lfu_heap (sample_key n c) = int n + 1" "ksize lfu_heap (sample_key n c) = 10"
  by (simp_all add: khit_def ksize_def lfu_heap_def SegmentMetadata_make_def)

lemma lfu_two_sel [simp]:
  "keyMap lfu_two = [(sample_key 0 ''x'', 0), (sample_key 1 ''y'', 1)]" "minFreq lfu_two = 1" "freqSet lfu_two = [1, 2]"
  "keySet lfu_two = [sample_key 0 ''x'', sample_key 1 ''y'', sample_key 2 ''z'']" "nextListNode lfu_two = 2"
  "maxSize lfu_two = 20" "freeSize lfu_two = 0"
  by (simp_all add: lfu_two_def)

lemma lfu_two_list [simp]:
  "freq_list lfu_two f = (if f = 1 then [(0, sample_key 0 ''x'')] else if f = 2 then [(1, sample_key 1 ''y'')] else [])"
  by (simp add: freq_list_def lfu_two_def um_find_def us_find_def)

lemma lfu_two_inv: "LFU_inv (lfu_heap, lfu_two)"
proof -
  have "LFU_links lfu_heap {} lfu_two"
    by (rule LFU_linksI) (auto simp: um_find_def us_find_def split: if_splits)
  moreover have "LFU_freqs_ok lfu_two" by (auto simp: LFU_freqs_ok_def)
  moreover have "LFU_known_ok lfu_two" by (auto simp: LFU_known_ok_def inj_on_def)
  ultimately show ?thesis by (simp add: LFU_used_def)
qed

theorem LFU_store_evicts_less_used_witness:
  "\<exists>h. LFU_store_outcome h (sample_key 2 ''z'') lfu_two (LFU_onStore (sample_key 2 ''z'') (lfu_heap, lfu_two))"
  using LFU_store_evicts_less_used [OF lfu_two_inv, of "sample_key 2 ''z''" "sample_key 2 ''z''"]
  by (simp add: us_find_def us_keys_def) blast

definition lfu_one :: LFUCachingPolicy where
  "lfu_one = \<lparr>policyType = LFU, maxSize = 20, freeSize = 10, segmentSizeMap = [],
      freqMap = [(1, [(0, sample_key 0 ''x'')])], keyMap = [(sample_key 0 ''x'', 0)], minFreq = 1, freqSet = [1],
      keySet = [sample_key 0 ''x''], keysToReplace = [], estimateCachingDecisions = [], nextListNode = 1\<rparr>"

lemma lfu_one_sel [simp]:
  "keyMap lfu_one = [(sample_key 0 ''x'', 0)]" "minFreq lfu_one = 1" "freqSet lfu_one = [1]"
  "keySet lfu_one = [sample_key 0 ''x'']" "nextListNode lfu_one = 1" "maxSize lfu_one = 20" "freeSize lfu_one = 10"
  by (simp_all add: lfu_one_def)

lemma lfu_one_list [simp]: "freq_list lfu_one f = (if f = 1 then [(0, sample_key 0 ''x'')] else [])"
  by (simp add: freq_list_def lfu_one_def um_find_def us_find_def)

theorem LFU_load_fails_for_only_segment_witness:
  "LFU_onLoad (sample_key 0 ''x'') (lfu_heap, lfu_one)
     = Inl (UndefinedBehaviour ''begin() of an empty set dereferenced'')"
proof -
  have "LFU_links lfu_heap {} lfu_one"
    by (rule LFU_linksI) (auto simp: um_find_def us_find_def split: if_splits)
  moreover have "LFU_freqs_ok lfu_one" by (auto simp: LFU_freqs_ok_def)
  moreover have "LFU_known_ok lfu_one" by (auto simp: LFU_known_ok_def inj_on_def)
  ultimately have i: "LFU_inv (lfu_heap, lfu_one)" by (simp add: LFU_used_def)
  have "um_keys kid (keyMap lfu_one) = {kid (sample_key 0 ''x'')}" by (simp add: us_keys_def)
  with LFU_load_fails_for_only_segment [OF i, of "sample_key 0 ''x''"] show ?thesis
    by (simp add: us_find_def)
qed

end
