(* ===== verification/Tuple_Set.thy ===== *)
theory Tuple_Set
  imports Hermes_Prelude
begin

text \<open>
  Columns and tuple sets (\<^verbatim>\<open>fpdb-tuple/src/Column.cpp\<close>, \<^verbatim>\<open>ColumnName.cpp\<close>,
  \<^verbatim>\<open>TupleSet.cpp\<close> and \<^verbatim>\<open>Scalar::value\<close> of
  \<^verbatim>\<open>Scalar.h\<close>).  They wrap tables and chunked arrays of Apache Arrow, which is not part of the
  repository: the calls the wrappers make are the fields of the record \<open>arrow\<close>, an argument of
  the definitions.  \<open>arrow_ok\<close> collects what the properties use of the documented behaviour of those
  calls, and \<open>list_arrow\<close> is an instance on lists.
\<close>

section \<open>The Arrow interface\<close>

datatype type_id =
    Int16Type | Int32Type | Int64Type | FloatType | DoubleType | BooleanType | StringType | Date64Type
  | Decimal128Type | OtherType string

text \<open>Scalars; floating-point values are kept as their bit patterns.\<close>

datatype arrow_scalar =
    Int16Scalar "16 word"
  | Int32Scalar int32
  | Int64Scalar "64 word"
  | FloatScalar "32 word"
  | DoubleScalar "64 word"
  | BooleanScalar bool
  | StringScalar string
  | Date64Scalar "64 word"
  | Decimal128Scalar int
  | OtherScalar string

record ('t, 'a) arrow =
  num_rows :: "'t \<Rightarrow> nat"
  num_columns :: "'t \<Rightarrow> nat"
  field_names :: "'t \<Rightarrow> string list"
  schema_Equals :: "'t \<Rightarrow> 't \<Rightarrow> bool"
  GetColumnByName :: "'t \<Rightarrow> string \<Rightarrow> 'a option"
  table_column :: "'t \<Rightarrow> nat \<Rightarrow> 'a"
  Table_Make :: "(string \<times> 'a) list \<Rightarrow> 't"
  ConcatenateTables :: "'t list \<Rightarrow> string + 't"
  RenameColumns :: "'t \<Rightarrow> string list \<Rightarrow> string + 't"
  CombineChunks :: "'t \<Rightarrow> string + 't"
  Slice :: "'t \<Rightarrow> nat \<Rightarrow> nat option \<Rightarrow> 't"
  array_length :: "'a \<Rightarrow> nat"
  array_type :: "'a \<Rightarrow> type_id"
  array_value :: "'a \<Rightarrow> nat \<Rightarrow> arrow_scalar"
  array_buffer_sizes :: "'a \<Rightarrow> size_t list"
  float_to_int32 :: "32 word \<Rightarrow> int32"
  double_to_int32 :: "64 word \<Rightarrow> int32"

text \<open>The number of rows of a batch.\<close>

definition DefaultChunkSize :: nat where
  "DefaultChunkSize = 100000"

section \<open>Column names, columns and scalars\<close>

text \<open>\<^verbatim>\<open>tolower\<close> in the C locale.\<close>

definition tolower :: "char \<Rightarrow> char" where
  "tolower c = (if 65 \<le> (of_char c :: nat) \<and> (of_char c :: nat) \<le> 90
                then char_of ((of_char c :: nat) + 32) else c)"

definition canonicalize :: "string \<Rightarrow> string" where
  "canonicalize columnName = map tolower columnName"

definition canonicalize_all :: "string list \<Rightarrow> string list" where
  "canonicalize_all columnNames = map canonicalize columnNames"

record 'a Column =
  col_name :: string
  col_array :: 'a

definition Column_numRows :: "('t, 'a) arrow \<Rightarrow> 'a Column \<Rightarrow> nat" where
  "Column_numRows A c = array_length A (col_array c)"

text \<open>
  \<open>Column::element\<close>: an index above the length is an error value; an index equal to the length
  passes that test and reads the first value of an empty slice, which is undefined, as is a negative
  index; a type without an accessor is an error value.
\<close>

definition Column_element :: "('t, 'a) arrow \<Rightarrow> 'a Column \<Rightarrow> int \<Rightarrow> (string + arrow_scalar) result" where
  "Column_element A c index =
     (if index > int (array_length A (col_array c)) then Inr (Inl (''Row '' @ quoted (string_of_int index) @ '' does not exist''))
      else case array_type A (col_array c) of
        OtherType ty \<Rightarrow> Inr (Inl (''Column value accessor for type '' @ quoted ty @ '' not implemented yet''))
      | Int16Type \<Rightarrow> Inr (Inl (''Column value accessor for type '' @ quoted ''int16'' @ '' not implemented yet''))
      | _ \<Rightarrow>
        if index < 0 \<or> index = int (array_length A (col_array c)) then
          Inl (UndefinedBehaviour ''read outside an array'')
        else Inr (Inr (array_value A (col_array c) (nat index))))"

text \<open>\<open>value()\<close> of a \<^verbatim>\<open>tl::expected\<close>: the value, or an exception.\<close>

fun expected_value :: "string + 'b \<Rightarrow> 'b result" where
  "expected_value (Inl e) = Inl (BadExpectedAccess e)"
| "expected_value (Inr x) = Inr x"

definition type_string :: "type_id \<Rightarrow> string" where
  "type_string ty = (case ty of
       Int16Type \<Rightarrow> ''int16'' | Int32Type \<Rightarrow> ''int32'' | Int64Type \<Rightarrow> ''int64'' | FloatType \<Rightarrow> ''float'' | DoubleType \<Rightarrow> ''double''
     | BooleanType \<Rightarrow> ''bool'' | StringType \<Rightarrow> ''string'' | Date64Type \<Rightarrow> ''date64[ms]''
     | Decimal128Type \<Rightarrow> ''decimal'' | OtherType s \<Rightarrow> s)"

definition scalar_type :: "arrow_scalar \<Rightarrow> type_id" where
  "scalar_type s = (case s of
       Int16Scalar _ \<Rightarrow> Int16Type | Int32Scalar _ \<Rightarrow> Int32Type | Int64Scalar _ \<Rightarrow> Int64Type | FloatScalar _ \<Rightarrow> FloatType
     | DoubleScalar _ \<Rightarrow> DoubleType | BooleanScalar _ \<Rightarrow> BooleanType | StringScalar _ \<Rightarrow> StringType
     | Date64Scalar _ \<Rightarrow> Date64Type | Decimal128Scalar _ \<Rightarrow> Decimal128Type | OtherScalar ty \<Rightarrow> OtherType ty)"

definition not_implemented :: "arrow_scalar \<Rightarrow> string" where
  "not_implemented s = ''Scalar type '' @ quoted (type_string (scalar_type s)) @ '' not implemented yet''"

text \<open>\<open>Scalar::value<int32_t>\<close> converts the stored value to the requested type.\<close>

definition Scalar_int32 :: "('t, 'a) arrow \<Rightarrow> arrow_scalar \<Rightarrow> string + int32" where
  "Scalar_int32 A s = (case s of
       Int32Scalar v \<Rightarrow> Inr v
     | Int64Scalar v \<Rightarrow> Inr (ucast v)
     | FloatScalar v \<Rightarrow> Inr (float_to_int32 A v)
     | DoubleScalar v \<Rightarrow> Inr (double_to_int32 A v)
     | Date64Scalar v \<Rightarrow> Inr (ucast v)
     | BooleanScalar b \<Rightarrow> Inr (if b then 1 else 0)
     | _ \<Rightarrow> Inl (not_implemented s))"

definition Scalar_string :: "arrow_scalar \<Rightarrow> string + string" where
  "Scalar_string s = (case s of StringScalar v \<Rightarrow> Inr v | _ \<Rightarrow> Inl (not_implemented s))"

text \<open>The two reads the operators make: \<^verbatim>\<open>element(i).value()->value<T>().value()\<close>.\<close>

definition read_int32 :: "('t, 'a) arrow \<Rightarrow> 'a Column \<Rightarrow> int \<Rightarrow> int32 result" where
  "read_int32 A c i =
     rbind (Column_element A c i) (\<lambda>e. rbind (expected_value e) (\<lambda>s. expected_value (Scalar_int32 A s)))"

definition read_string :: "('t, 'a) arrow \<Rightarrow> 'a Column \<Rightarrow> int \<Rightarrow> string result" where
  "read_string A c i =
     rbind (Column_element A c i) (\<lambda>e. rbind (expected_value e) (\<lambda>s. expected_value (Scalar_string s)))"

definition Column_size :: "('t, 'a) arrow \<Rightarrow> 'a Column \<Rightarrow> size_t" where
  "Column_size A c = sum_list (array_buffer_sizes A (col_array c))"

section \<open>Tuple sets\<close>

text \<open>A tuple set is a possibly null table; what dereferences a null table is undefined.\<close>

type_synonym 't TupleSet = "'t option"

definition deref_table :: "'t TupleSet \<Rightarrow> 't result" where
  "deref_table ts = (case ts of Some t \<Rightarrow> Inr t
     | None \<Rightarrow> Inl (UndefinedBehaviour ''null table dereferenced''))"

definition TupleSet_make :: "('t, 'a) arrow \<Rightarrow> 'a Column list \<Rightarrow> 't TupleSet" where
  "TupleSet_make A columns = Some (Table_Make A (map (\<lambda>c. (col_name c, col_array c)) columns))"

definition TupleSet_valid :: "'t TupleSet \<Rightarrow> bool" where
  "TupleSet_valid ts = (ts \<noteq> None)"

definition TupleSet_numRows :: "('t, 'a) arrow \<Rightarrow> 't TupleSet \<Rightarrow> nat" where
  "TupleSet_numRows A ts = (case ts of Some t \<Rightarrow> num_rows A t | None \<Rightarrow> 0)"

definition TupleSet_numColumns :: "('t, 'a) arrow \<Rightarrow> 't TupleSet \<Rightarrow> nat" where
  "TupleSet_numColumns A ts = (case ts of Some t \<Rightarrow> num_columns A t | None \<Rightarrow> 0)"

definition getColumnByName :: "('t, 'a) arrow \<Rightarrow> 't TupleSet \<Rightarrow> string \<Rightarrow> (string + 'a Column) result" where
  "getColumnByName A ts name =
     rbind (deref_table ts) (\<lambda>t.
       let canonicalColumnName = canonicalize name
       in case GetColumnByName A t canonicalColumnName of
            None \<Rightarrow> Inr (Inl (''Column '' @ quoted canonicalColumnName @ '' does not exist''))
          | Some a \<Rightarrow> Inr (Inr \<lparr>col_name = canonicalColumnName, col_array = a\<rparr>))"

text \<open>The common \<^verbatim>\<open>getColumnByName(name).value()\<close>.\<close>

definition columnByName :: "('t, 'a) arrow \<Rightarrow> 't TupleSet \<Rightarrow> string \<Rightarrow> 'a Column result" where
  "columnByName A ts name = rbind (getColumnByName A ts name) expected_value"

definition getColumnByIndex :: "('t, 'a) arrow \<Rightarrow> 't TupleSet \<Rightarrow> nat \<Rightarrow> 'a Column result" where
  "getColumnByIndex A ts columnIndex =
     rbind (deref_table ts) (\<lambda>t.
       if columnIndex \<ge> num_columns A t then Inl (UndefinedBehaviour ''column index out of range'')
       else Inr \<lparr>col_name = field_names A t ! columnIndex, col_array = table_column A t columnIndex\<rparr>)"

text \<open>\<open>size()\<close> adds the columns \<open>0 \<dots> numColumns() - 2\<close>.\<close>

definition TupleSet_size :: "('t, 'a) arrow \<Rightarrow> 't TupleSet \<Rightarrow> size_t result" where
  "TupleSet_size A ts =
     rfold (\<lambda>i size. rbind (getColumnByIndex A ts i) (\<lambda>c. Inr (size + Column_size A c)))
       [0..<TupleSet_numColumns A ts - 1] 0"

text \<open>
  \<open>concatenate\<close>: every further tuple set is brought into the column order of the first one if its
  schema differs; a column that is missing is an error value.
\<close>

definition reorder_like ::
  "('t, 'a) arrow \<Rightarrow> 't \<Rightarrow> 't TupleSet \<Rightarrow> (string + 't TupleSet) result" where
  "reorder_like A t1 ts =
     rbind (deref_table ts) (\<lambda>t.
       if list_ex (\<lambda>n. n \<notin> set (field_names A t)) (field_names A t1) then
         Inr (Inl ''Cannot concatenate tuple sets with different schemas'')
       else rbind (rmap (columnByName A ts) (field_names A t1)) (\<lambda>cols.
         Inr (Inr (TupleSet_make A cols))))"

fun concat_tables ::
  "('t, 'a) arrow \<Rightarrow> 't \<Rightarrow> 't TupleSet list \<Rightarrow> 't list \<Rightarrow> (string + 't list) result" where
  "concat_tables A t1 [] acc = Inr (Inr acc)"
| "concat_tables A t1 (None # rest) acc = Inr (Inl ''Cannot concatenate empty tuple sets'')"
| "concat_tables A t1 (Some t # rest) acc =
     (if schema_Equals A t t1 then concat_tables A t1 rest (acc @ [t])
      else rbind (reorder_like A t1 (Some t)) (\<lambda>r. case r of
             Inl e \<Rightarrow> Inr (Inl e)
           | Inr ts' \<Rightarrow> rbind (deref_table ts') (\<lambda>t'. concat_tables A t1 rest (acc @ [t']))))"

definition TupleSet_concatenate ::
  "('t, 'a) arrow \<Rightarrow> 't TupleSet list \<Rightarrow> (string + 't TupleSet) result" where
  "TupleSet_concatenate A tupleSets =
     (case tupleSets of
        [] \<Rightarrow> (case ConcatenateTables A [] of Inl e \<Rightarrow> Inr (Inl e) | Inr t \<Rightarrow> Inr (Inr (Some t)))
      | None # rest \<Rightarrow> Inr (Inl ''Cannot concatenate empty tuple sets'')
      | Some t1 # rest \<Rightarrow>
          rbind (concat_tables A t1 rest [t1]) (\<lambda>r. case r of
            Inl e \<Rightarrow> Inr (Inl e)
          | Inr tables \<Rightarrow>
              (case ConcatenateTables A tables of
                 Inl e \<Rightarrow> Inr (Inl e) | Inr t \<Rightarrow> Inr (Inr (Some t)))))"

text \<open>\<open>append\<close> returns the changed tuple set, or the error and the unchanged one.\<close>

definition TupleSet_append ::
  "('t, 'a) arrow \<Rightarrow> 't TupleSet list \<Rightarrow> 't TupleSet \<Rightarrow> (string option \<times> 't TupleSet) result" where
  "TupleSet_append A tupleSets this =
     rbind (TupleSet_concatenate A (this # tupleSets)) (\<lambda>r. case r of
       Inl e \<Rightarrow> Inr (Some e, this)
     | Inr ts \<Rightarrow> Inr (None, ts))"

fun project_columns :: "('t, 'a) arrow \<Rightarrow> 't TupleSet \<Rightarrow> string list \<Rightarrow> 'a Column list result" where
  "project_columns A ts [] = Inr []"
| "project_columns A ts (n # ns) =
     rbind (getColumnByName A ts n) (\<lambda>e.
     rbind (project_columns A ts ns) (\<lambda>cs.
       case e of Inr c \<Rightarrow> Inr (c # cs) | Inl _ \<Rightarrow> Inr cs))"

definition projectExist :: "('t, 'a) arrow \<Rightarrow> 't TupleSet \<Rightarrow> string list \<Rightarrow> (string + 't TupleSet) result"
  where
  "projectExist A ts columnNames =
     rbind (project_columns A ts columnNames) (\<lambda>columns.
       if columns = [] then Inr (Inl ''No column exists.'') else Inr (Inr (TupleSet_make A columns)))"

text \<open>\<open>renameColumns\<close> with a map from old to new names.\<close>

fun rename_ids ::
  "(string \<times> nat) list \<Rightarrow> (string \<times> string) list \<Rightarrow> string list \<Rightarrow> string + string list" where
  "rename_ids ids [] names = Inr names"
| "rename_ids ids ((oldName, newName) # rs) names =
     (case um_find id oldName ids of
        None \<Rightarrow> Inl (''Column '' @ quoted oldName @ '' does not exist'')
      | Some i \<Rightarrow> rename_ids ids rs (names[i := newName]))"

definition TupleSet_renameColumns ::
  "('t, 'a) arrow \<Rightarrow> (string \<times> string) list \<Rightarrow> 't TupleSet \<Rightarrow> string option \<times> 't TupleSet" where
  "TupleSet_renameColumns A columnRenames ts =
     (case ts of
        None \<Rightarrow> (None, ts)
      | Some t \<Rightarrow>
          if columnRenames = [] then (None, ts)
          else
            let names = field_names A t;
                ids = fold (\<lambda>(n, i) m. um_emplace id n i m) (zip names [0..<length names]) []
            in case rename_ids ids columnRenames names of
                 Inl e \<Rightarrow> (Some e, ts)
               | Inr names' \<Rightarrow>
                   (case RenameColumns A t names' of Inl e \<Rightarrow> (Some e, ts) | Inr t' \<Rightarrow> (None, Some t')))"

definition TupleSet_combine :: "('t, 'a) arrow \<Rightarrow> 't TupleSet \<Rightarrow> (string option \<times> 't TupleSet) result" where
  "TupleSet_combine A ts =
     rbind (deref_table ts) (\<lambda>t. case CombineChunks A t of
       Inl e \<Rightarrow> Inr (Some e, ts) | Inr t' \<Rightarrow> Inr (None, Some t'))"

section \<open>What is relied on of Arrow\<close>

text \<open>
  The laws: a table has one column per field and can be built from columns; a lookup by name finds
  the column of a table whose names are distinct; and tables with equal schemas can be concatenated,
  column by column.
\<close>

definition arrow_ok :: "('t, 'a) arrow \<Rightarrow> bool" where
  "arrow_ok A \<longleftrightarrow>
     (\<forall>t. num_columns A t = length (field_names A t)) \<and>
     (\<forall>t n. distinct (field_names A t) \<longrightarrow> n \<notin> set (field_names A t) \<longrightarrow> GetColumnByName A t n = None) \<and>
     (\<forall>t i. distinct (field_names A t) \<longrightarrow> i < length (field_names A t) \<longrightarrow>
        GetColumnByName A t (field_names A t ! i) = Some (table_column A t i)) \<and>
     (\<forall>cols. field_names A (Table_Make A cols) = map fst cols) \<and>
     (\<forall>cols i. i < length cols \<longrightarrow> table_column A (Table_Make A cols) i = snd (cols ! i)) \<and>
     (\<forall>c cols. num_rows A (Table_Make A (c # cols)) = array_length A (snd c)) \<and>
     (\<forall>t u. schema_Equals A t u \<longrightarrow> field_names A t = field_names A u) \<and>
     (\<forall>t ts. (\<forall>u \<in> set ts. schema_Equals A u t) \<longrightarrow>
        (\<exists>r. ConcatenateTables A (t # ts) = Inr r \<and> field_names A r = field_names A t \<and>
           num_rows A r = sum_list (map (num_rows A) (t # ts))))"

text \<open>An instance: a table is a list of named, typed lists of scalars.\<close>

type_synonym list_table = "(string \<times> type_id \<times> arrow_scalar list) list"

definition list_rows :: "list_table \<Rightarrow> nat" where
  "list_rows t = (case t of [] \<Rightarrow> 0 | (n, ty, vs) # _ \<Rightarrow> length vs)"

definition list_arrow :: "(list_table, type_id \<times> arrow_scalar list) arrow" where
  "list_arrow =
     \<lparr>num_rows = list_rows,
      num_columns = length,
      field_names = map fst,
      schema_Equals = (\<lambda>t u. map fst t = map fst u),
      GetColumnByName = map_of,
      table_column = (\<lambda>t i. snd (t ! i)),
      Table_Make = (\<lambda>cols. cols),
      ConcatenateTables = (\<lambda>ts. case ts of [] \<Rightarrow> Inl ''no tables'' | t # us \<Rightarrow>
         Inr (map (\<lambda>i. (fst (t ! i), fst (snd (t ! i)),
               concat (map (\<lambda>u. snd (snd (u ! i))) (t # us))))
             [0..<length t])),
      RenameColumns = (\<lambda>t ns. Inr (zip ns (map snd t))),
      CombineChunks = Inr,
      Slice = (\<lambda>t off len. map (\<lambda>(n, ty, vs). (n, ty,
         (case len of None \<Rightarrow> drop off vs | Some l \<Rightarrow> take l (drop off vs)))) t),
      array_length = (\<lambda>(ty, vs). length vs),
      array_type = fst,
      array_value = (\<lambda>(ty, vs) i. vs ! i),
      array_buffer_sizes = (\<lambda>(ty, vs). [of_nat (length vs)]),
      float_to_int32 = (\<lambda>w. 0),
      double_to_int32 = (\<lambda>w. 0)\<rparr>"

lemma list_rows_concat:
  assumes "\<forall>u \<in> set us. map fst u = map fst t"
  shows "list_rows (map (\<lambda>i. (fst (t ! i), fst (snd (t ! i)),
      concat (map (\<lambda>u. snd (snd (u ! i))) (t # us)))) [0..<length t])
    = sum_list (map list_rows (t # us))"
proof (cases t)
  case Nil
  then have "\<forall>u \<in> set us. u = []" using assms by simp
  then have "sum_list (map list_rows us) = 0" by (induction us) (auto simp: list_rows_def)
  then show ?thesis by (simp add: Nil list_rows_def)
next
  case (Cons c cs)
  have "list_rows u = length (snd (snd (u ! 0)))" if "u \<in> set (t # us)" for u
    using that assms Cons by (cases u) (auto simp: list_rows_def split: prod.splits)
  then have eq: "map list_rows (t # us) = map (\<lambda>u. length (snd (snd (u ! 0)))) (t # us)"
    by (intro map_cong) auto
  show ?thesis
    unfolding eq by (simp add: Cons upt_conv_Cons length_concat list_rows_def comp_def del: upt_Suc)
qed

lemma list_arrow_ok: "arrow_ok list_arrow"
proof -
  have 1: "distinct (map fst t) \<Longrightarrow> i < length t \<Longrightarrow> map_of t (map fst t ! i) = Some (snd (t ! i))"
    for t :: list_table and i
    by (metis map_of_is_SomeI nth_map nth_mem prod.collapse)
  have 2: "n \<notin> set (map fst t) \<Longrightarrow> map_of t n = None" for t :: list_table and n
    by (simp add: map_of_eq_None_iff)
  show ?thesis
    unfolding arrow_ok_def
  proof (intro conjI allI impI, goal_cases)
    case (8 t ts)
    then show ?case
      using list_rows_concat [of ts t] by (auto simp: list_arrow_def intro: nth_equalityI)
  qed (use 1 2 in \<open>auto simp: list_arrow_def list_rows_def split: prod.splits\<close>)
qed

section \<open>Properties\<close>

lemma getColumnByName_ok:
  assumes "arrow_ok A" and "distinct (field_names A t)"
  shows "getColumnByName A (Some t) n = Inr
     (case List.find (\<lambda>i. field_names A t ! i = canonicalize n) [0..<length (field_names A t)] of
        None \<Rightarrow> Inl (''Column '' @ quoted (canonicalize n) @ '' does not exist'')
      | Some i \<Rightarrow> Inr \<lparr>col_name = canonicalize n, col_array = table_column A t i\<rparr>)"
proof (cases "List.find (\<lambda>i. field_names A t ! i = canonicalize n) [0..<length (field_names A t)]")
  case None
  then have "canonicalize n \<notin> set (field_names A t)"
    by (auto simp: find_None_iff in_set_conv_nth)
  then have "GetColumnByName A t (canonicalize n) = None" using assms by (simp add: arrow_ok_def)
  with None show ?thesis by (simp add: getColumnByName_def deref_table_def)
next
  case (Some i)
  then have "i < length (field_names A t)" "field_names A t ! i = canonicalize n"
    by (auto simp: find_Some_iff)
  then have "GetColumnByName A t (canonicalize n) = Some (table_column A t i)"
    using assms unfolding arrow_ok_def by metis
  with Some show ?thesis by (simp add: getColumnByName_def deref_table_def)
qed

lemma project_columns_ok:
  assumes "arrow_ok A" and "distinct (field_names A t)"
  shows "\<exists>cs. project_columns A (Some t) ns = Inr cs \<and>
    map col_name cs = filter (\<lambda>n. n \<in> set (field_names A t)) (map canonicalize ns) \<and>
    (\<forall>c \<in> set cs. \<exists>i < length (field_names A t). field_names A t ! i = col_name c \<and>
       col_array c = table_column A t i)"
proof (induction ns)
  case (Cons n ns)
  then obtain cs where cs: "project_columns A (Some t) ns = Inr cs"
    "map col_name cs = filter (\<lambda>n. n \<in> set (field_names A t)) (map canonicalize ns)"
    "\<forall>c \<in> set cs. \<exists>i < length (field_names A t). field_names A t ! i = col_name c \<and>
       col_array c = table_column A t i" by blast
  show ?case
  proof (cases "List.find (\<lambda>i. field_names A t ! i = canonicalize n) [0..<length (field_names A t)]")
    case None
    then have "canonicalize n \<notin> set (field_names A t)"
      by (auto simp: find_None_iff in_set_conv_nth)
    with None cs show ?thesis by (simp add: getColumnByName_ok [OF assms])
  next
    case (Some i)
    then have "i < length (field_names A t)" "field_names A t ! i = canonicalize n"
      by (auto simp: find_Some_iff)
    with Some cs show ?thesis
      by (auto simp: getColumnByName_ok [OF assms] in_set_conv_nth)
  qed
qed simp

text \<open>
  \<open>projectExist\<close> on a valid table with distinct field names never throws.  It keeps exactly the
  requested columns that exist, compared by their lower-case names, in the order requested, each with
  its own array; when none exists it returns the error \<open>No column exists.\<close>
\<close>

theorem projectExist_keeps_existing_columns:
  assumes "arrow_ok A" and "distinct (field_names A t)"
  shows "\<exists>cs. map col_name cs = filter (\<lambda>n. n \<in> set (field_names A t)) (map canonicalize ns) \<and>
    (\<forall>c \<in> set cs. \<exists>i < length (field_names A t). field_names A t ! i = col_name c \<and>
       col_array c = table_column A t i) \<and>
    projectExist A (Some t) ns =
      Inr (if cs = [] then Inl ''No column exists.'' else Inr (TupleSet_make A cs))"
proof -
  from project_columns_ok [OF assms, of ns] obtain cs where
    "project_columns A (Some t) ns = Inr cs"
    "map col_name cs = filter (\<lambda>n. n \<in> set (field_names A t)) (map canonicalize ns)"
    "\<forall>c \<in> set cs. \<exists>i < length (field_names A t). field_names A t ! i = col_name c \<and>
       col_array c = table_column A t i" by blast
  then show ?thesis by (intro exI [of _ cs]) (simp add: projectExist_def)
qed

definition sample_table :: list_table where
  "sample_table = [(''k'', Int32Type, [Int32Scalar 1, Int32Scalar 2]),
                   (''v'', StringType, [StringScalar ''a'', StringScalar ''b''])]"

theorem projectExist_keeps_existing_columns_witness:
  "\<exists>cs. map col_name cs = [''v''] \<and>
     projectExist list_arrow (Some sample_table) [''V'', ''w''] = Inr (Inr (TupleSet_make list_arrow cs))"
proof -
  have f: "field_names list_arrow sample_table = [''k'', ''v'']"
    by (simp add: list_arrow_def sample_table_def)
  have "canonicalize ''V'' = ''v''" "canonicalize ''w'' = ''w''"
    by (code_simp, code_simp)
  note ev = this f
  from projectExist_keeps_existing_columns [OF list_arrow_ok, of sample_table "[''V'', ''w'']"] f
  obtain cs where cs: "map col_name cs = filter (\<lambda>n. n \<in> set (field_names list_arrow sample_table))
      (map canonicalize [''V'', ''w''])"
    "projectExist list_arrow (Some sample_table) [''V'', ''w''] =
      Inr (if cs = [] then Inl ''No column exists.'' else Inr (TupleSet_make list_arrow cs))" by auto
  from cs(1) have "map col_name cs = [''v'']" by (simp add: ev)
  moreover from this have "cs \<noteq> []" by auto
  ultimately show ?thesis using cs(2) by (intro exI [of _ cs]) simp
qed

lemma TupleSet_size_fold:
  assumes "n \<le> num_columns A t"
  shows "rfold (\<lambda>i size. rbind (getColumnByIndex A (Some t) i) (\<lambda>c. Inr (size + Column_size A c)))
      [0..<n] 0
    = Inr (\<Sum>i\<leftarrow>[0..<n]. Column_size A \<lparr>col_name = field_names A t ! i, col_array = table_column A t i\<rparr>)"
proof -
  have app: "rfold f (xs @ ys) s = rbind (rfold f xs s) (rfold f ys)" for f :: "nat \<Rightarrow> size_t \<Rightarrow> size_t result" and xs ys s
    by (induction xs arbitrary: s) (auto, metis rbind.simps(1,2) sum.exhaust)
  show ?thesis
    using assms by (induction n) (auto simp: app getColumnByIndex_def deref_table_def)
qed

text \<open>
  \<open>TupleSet::size\<close> of a table is the sum of the sizes of all its columns but the last one, which
  its loop never reaches.
\<close>

theorem TupleSet_size_omits_last_column:
  "TupleSet_size A (Some t) = Inr (\<Sum>i\<leftarrow>[0..<num_columns A t - 1].
     Column_size A \<lparr>col_name = field_names A t ! i, col_array = table_column A t i\<rparr>)"
  by (simp add: TupleSet_size_def TupleSet_numColumns_def TupleSet_size_fold)

end
