(* ===== verification/Operator_Runtime.thy ===== *)
theory Operator_Runtime
  imports Tuple_Set "HOL-Library.List_Lexorder" "HOL-Library.Char_ord"
begin

text \<open>
  The runtime of the physical operators (\<^verbatim>\<open>fpdb-executor/src/physical\<close>): the directories that
  count which operators are complete (\<^verbatim>\<open>LocalPOpDirectory.cpp\<close>,
  \<^verbatim>\<open>POpDirectory.cpp\<close>), the context through which an operator sends messages
  (\<^verbatim>\<open>POpContext.cpp\<close>) and the actor that receives messages, buffers the early ones and hands
  them to the operator (\<^verbatim>\<open>POpActor.cpp\<close>).

  The actors of the C++ Actor Framework are not part of the repository.  An actor handle is a value of a
  type \<open>'h\<close>, and \<open>None\<close> after it has been destroyed; every call of \<^verbatim>\<open>anon_send\<close> or
  \<^verbatim>\<open>request\<close> is an entry of a trace, with the handle it was given.  The virtual methods of an
  operator are the fields of a record.  Log messages and the measured processing times are left out.
\<close>

section \<open>Messages\<close>

datatype POpRelationshipType = Producer | Consumer

datatype 'h POpConnection =
  POpConnection (con_name: string) (con_handle: "'h option") (con_type: POpRelationshipType)

text \<open>
  The message types, with the classes the runtime itself looks into; the other classes carry data of
  a type \<open>'d\<close>.  A tuple message holds a pointer, which is null (\<open>None\<close>) when an operator only
  signals that it has made progress.
\<close>

definition deref_pointer :: "'x option \<Rightarrow> 'x result" where
  "deref_pointer p = (case p of Some x \<Rightarrow> Inr x
     | None \<Rightarrow> Inl (UndefinedBehaviour ''null pointer dereferenced''))"

lemma deref_pointer_simps [simp]:
  "deref_pointer (Some x) = Inr x"
  "deref_pointer None = Inl (UndefinedBehaviour ''null pointer dereferenced'')"
  by (simp_all add: deref_pointer_def)

datatype DataMessageType =
    SCAN | TUPLESET_INDEX | LOAD_REQUEST | LOAD_RESPONSE | STORE_REQUEST | WEIGHT_REQUEST
  | CACHE_METRICS | DISK_DELTAS | MERGED_DELTA

datatype DataMessageClass =
    ScanMessage | TupleSetIndexMessage | LoadRequestMessage | LoadResponseMessage | StoreRequestMessage
  | WeightRequestMessage | CacheMetricsMessage | LoadDeltaRequestMessage | LoadDeltaResponseMessage
  | LoadDiskDeltasResponseMessage | MergedDeltaMessage | StoreDeltaRequestMessage

datatype ('h, 't, 'd) Message =
    StartMessage (sender: string)
  | StopMessage (sender: string)
  | ConnectMessage (connections: "'h POpConnection list") (sender: string)
  | CompleteMessage (sender: string)
  | ErrorMessage (content: string) (sender: string)
  | TupleMessage (tuples: "'t TupleSet option") (sender: string)
  | DataMessage DataMessageClass (data: 'd) (sender: string)

text \<open>The type the constructor of each class passes to \<open>Message\<close>.\<close>

fun data_type :: "DataMessageClass \<Rightarrow> DataMessageType" where
  "data_type ScanMessage = SCAN"
| "data_type TupleSetIndexMessage = TUPLESET_INDEX"
| "data_type LoadRequestMessage = LOAD_REQUEST"
| "data_type LoadResponseMessage = LOAD_RESPONSE"
| "data_type StoreRequestMessage = STORE_REQUEST"
| "data_type WeightRequestMessage = WEIGHT_REQUEST"
| "data_type CacheMetricsMessage = CACHE_METRICS"
| "data_type LoadDeltaRequestMessage = LOAD_REQUEST"
| "data_type LoadDeltaResponseMessage = LOAD_RESPONSE"
| "data_type LoadDiskDeltasResponseMessage = DISK_DELTAS"
| "data_type MergedDeltaMessage = MERGED_DELTA"
| "data_type StoreDeltaRequestMessage = STORE_REQUEST"

fun data_type_string :: "DataMessageClass \<Rightarrow> string" where
  "data_type_string ScanMessage = ''ScanMessage''"
| "data_type_string TupleSetIndexMessage = ''TupleSetIndexMessage''"
| "data_type_string LoadRequestMessage = ''LoadRequestMessage''"
| "data_type_string LoadResponseMessage = ''LoadResponseMessage''"
| "data_type_string StoreRequestMessage = ''StoreRequestMessage''"
| "data_type_string WeightRequestMessage = ''WeightRequestMessage''"
| "data_type_string CacheMetricsMessage = ''CacheMetricsMessage''"
| "data_type_string LoadDeltaRequestMessage = ''LoadDeltaRequestMessage''"
| "data_type_string LoadDeltaResponseMessage = ''LoadDeltaResponseMessage''"
| "data_type_string LoadDiskDeltasResponseMessage = ''LoadDiskDeltasResponseMessage''"
| "data_type_string MergedDeltaMessage = ''MergedDeltaMessage''"
| "data_type_string StoreDeltaRequestMessage = ''StoreDeltaRequestMessage''"

text \<open>No class of the repository has the type STOP; the name of such a message is only ever printed.\<close>

definition getTypeString :: "('h, 't, 'd) Message \<Rightarrow> string" where
  "getTypeString m = (case m of
       StartMessage _ \<Rightarrow> ''StartMessage'' | StopMessage _ \<Rightarrow> ''StopMessage''
     | ConnectMessage _ _ \<Rightarrow> ''ConnectMessage'' | CompleteMessage _ \<Rightarrow> ''CompleteMessage''
     | ErrorMessage _ _ \<Rightarrow> ''ErrorMessage'' | TupleMessage _ _ \<Rightarrow> ''TupleMessage''
     | DataMessage c _ _ \<Rightarrow> data_type_string c)"

section \<open>The directory an operator keeps of its producers and consumers\<close>

record 'h LocalPOpDirectoryEntry =
  le_name :: string
  le_actor :: "'h option"
  le_relationshipType :: POpRelationshipType
  le_complete :: bool

text \<open>The counters are \<^verbatim>\<open>int\<close>s that count entries of the map, and stay far below their bound.\<close>

record 'h LocalPOpDirectory =
  le_entries :: "(string \<times> 'h LocalPOpDirectoryEntry) list"
  numProducers :: int
  numConsumers :: int
  numProducersComplete :: int
  numConsumersComplete :: int

definition LocalPOpDirectory_empty :: "'h LocalPOpDirectory" where
  "LocalPOpDirectory_empty = \<lparr>le_entries = [], numProducers = 0, numConsumers = 0,
     numProducersComplete = 0, numConsumersComplete = 0\<rparr>"

definition local_insert ::
  "'h LocalPOpDirectoryEntry \<Rightarrow> 'h LocalPOpDirectory \<Rightarrow> string + 'h LocalPOpDirectory" where
  "local_insert entry d =
     (if um_find id (le_name entry) (le_entries d) \<noteq> None then
        Inl (''Operator '' @ quoted (le_name entry) @ '' already added to local directory'')
      else
        let d' = d\<lparr>le_entries := um_emplace id (le_name entry) entry (le_entries d)\<rparr>
        in if le_relationshipType entry = Producer then Inr (d'\<lparr>numProducers := numProducers d' + 1\<rparr>)
           else Inr (d'\<lparr>numConsumers := numConsumers d' + 1\<rparr>))"

definition local_setComplete :: "string \<Rightarrow> 'h LocalPOpDirectory \<Rightarrow> string + 'h LocalPOpDirectory" where
  "local_setComplete name d =
     (case um_find id name (le_entries d) of
        None \<Rightarrow> Inl (''No entry for actor '' @ quoted name)
      | Some entry \<Rightarrow>
          if le_complete entry then
            Inl (''LocalOpdir: Entry for operator '' @ quoted name @ ''completes twice'')
          else
            let d' = d\<lparr>le_entries := um_assign id name (entry\<lparr>le_complete := True\<rparr>) (le_entries d)\<rparr>
            in if le_relationshipType entry = Producer then
                 Inr (d'\<lparr>numProducersComplete := numProducersComplete d' + 1\<rparr>)
               else Inr (d'\<lparr>numConsumersComplete := numConsumersComplete d' + 1\<rparr>))"

definition local_allComplete :: "POpRelationshipType \<Rightarrow> 'h LocalPOpDirectory \<Rightarrow> bool" where
  "local_allComplete ty d =
     (if ty = Producer then numProducersComplete d \<ge> numProducers d
      else numConsumersComplete d \<ge> numConsumers d)"

definition local_destroyActorHandles :: "'h LocalPOpDirectory \<Rightarrow> 'h LocalPOpDirectory" where
  "local_destroyActorHandles d =
     d\<lparr>le_entries := map (\<lambda>(n, e). (n, e\<lparr>le_actor := None\<rparr>)) (le_entries d)\<rparr>"

definition local_get :: "string \<Rightarrow> 'h LocalPOpDirectory \<Rightarrow> string + 'h LocalPOpDirectoryEntry" where
  "local_get operatorId d =
     (case um_find id operatorId (le_entries d) of
        None \<Rightarrow> Inl (''Operator with id '' @ quoted operatorId @ '' not found'')
      | Some entry \<Rightarrow> Inr entry)"

definition local_get_all ::
  "POpRelationshipType \<Rightarrow> 'h LocalPOpDirectory \<Rightarrow> 'h LocalPOpDirectoryEntry list" where
  "local_get_all ty d = filter (\<lambda>e. le_relationshipType e = ty) (map snd (le_entries d))"

section \<open>The directory of all operators of a query\<close>

record ('h, 'o) POpDirectoryEntry =
  pe_name :: string
  pe_def :: 'o
  pe_actorHandle :: "'h option"
  pe_complete :: bool

record ('h, 'o) POpDirectory =
  pd_entries :: "(string \<times> ('h, 'o) POpDirectoryEntry) list"
  numOperators :: int
  numOperatorsComplete :: int

definition POpDirectory_empty :: "('h, 'o) POpDirectory" where
  "POpDirectory_empty = \<lparr>pd_entries = [], numOperators = 0, numOperatorsComplete = 0\<rparr>"

definition pd_insert ::
  "('h, 'o) POpDirectoryEntry \<Rightarrow> ('h, 'o) POpDirectory \<Rightarrow> string + ('h, 'o) POpDirectory" where
  "pd_insert entry d =
     (if um_find id (pe_name entry) (pd_entries d) \<noteq> None then
        Inl (''Operator '' @ quoted (pe_name entry) @ '' already added to directory'')
      else Inr (d\<lparr>pd_entries := um_emplace id (pe_name entry) entry (pd_entries d),
                   numOperators := numOperators d + 1\<rparr>))"

definition pd_setComplete :: "string \<Rightarrow> ('h, 'o) POpDirectory \<Rightarrow> string + ('h, 'o) POpDirectory" where
  "pd_setComplete name d =
     (case um_find id name (pd_entries d) of
        None \<Rightarrow> Inl (''No entry for operator '' @ quoted name)
      | Some entry \<Rightarrow>
          if pe_complete entry then
            Inl (''Opdir: Entry for operator '' @ quoted name @ ''completes twice'')
          else Inr (d\<lparr>pd_entries := um_assign id name (entry\<lparr>pe_complete := True\<rparr>) (pd_entries d),
                       numOperatorsComplete := numOperatorsComplete d + 1\<rparr>))"

definition pd_allComplete :: "('h, 'o) POpDirectory \<Rightarrow> bool" where
  "pd_allComplete d = (numOperatorsComplete d \<ge> numOperators d)"

text \<open>\<open>setIncomplete\<close> and \<open>clear\<close> change the entries and leave the counters as they are.\<close>

definition pd_setIncomplete :: "('h, 'o) POpDirectory \<Rightarrow> ('h, 'o) POpDirectory" where
  "pd_setIncomplete d =
     d\<lparr>pd_entries := map (\<lambda>(n, e). (n, e\<lparr>pe_complete := False\<rparr>)) (pd_entries d)\<rparr>"

definition pd_get :: "string \<Rightarrow> ('h, 'o) POpDirectory \<Rightarrow> string + ('h, 'o) POpDirectoryEntry" where
  "pd_get name d =
     (case um_find id name (pd_entries d) of
        None \<Rightarrow> Inl (''Operator with name '' @ quoted name @ '' not found'')
      | Some entry \<Rightarrow> Inr entry)"

definition pd_clear :: "('h, 'o) POpDirectory \<Rightarrow> ('h, 'o) POpDirectory" where
  "pd_clear d = d\<lparr>pd_entries := []\<rparr>"

section \<open>Operators and their context\<close>

datatype POpType =
    AGGREGATE | CACHE_LOAD | COLLATE | FILE_SCAN | FILTER | GROUP | HASH_JOIN_BUILD | HASH_JOIN_PROBE
  | NESTED_LOOP_JOIN | LIMIT_SORT | MERGE | PROJECT | S3_GET | S3_SELECT | SHUFFLE | SORT | SPLIT
  | DELTA_MERGE | CACHE_HANDLER

datatype Atom =
    LoadAtom | StoreAtom | WeightAtom | MetricsAtom | LoadDeltaAtom | MergedDeltaAtom | StoreDeltaAtom

text \<open>
  What an operator asks of the actor framework: a message to an actor, a message with an atom, or a
  request whose answer is sent to the operator itself.
\<close>

datatype ('h, 't, 'd) action =
    Anon_send "'h option" "('h, 't, 'd) Message"
  | Anon_send_atom "'h option" Atom "('h, 't, 'd) Message"
  | Request "'h option" Atom "('h, 't, 'd) Message"

text \<open>
  An operator: the fields of \<open>PhysicalOp\<close>, those of the class derived from it (\<open>op_fields\<close>), those
  of its \<open>POpContext\<close>, the identity of its actor, and the trace.
\<close>

record ('h, 't, 'd, 'o) POp =
  op_name :: string
  op_type :: POpType
  projectColumnNames :: "string list"
  op_consumers :: "string list"
  op_producers :: "string list"
  op_fields :: 'o
  operatorMap :: "'h LocalPOpDirectory"
  rootActor :: "'h option"
  segmentCacheActor :: "'h option"
  deltaCacheActor :: "'h option"
  op_complete :: bool
  actor_id :: nat
  actor_name :: string
  trace :: "('h, 't, 'd) action list"

text \<open>
  \<open>PhysicalOp::produce\<close> and \<open>consume\<close>; a \<^verbatim>\<open>std::set\<close> of names is a sorted list without
  duplicates.
\<close>

definition PhysicalOp_produce :: "string \<Rightarrow> ('h, 't, 'd, 'o) POp \<Rightarrow> ('h, 't, 'd, 'o) POp" where
  "PhysicalOp_produce opName S = S\<lparr>op_consumers := insort_insert opName (op_consumers S)\<rparr>"

definition PhysicalOp_consume :: "string \<Rightarrow> ('h, 't, 'd, 'o) POp \<Rightarrow> ('h, 't, 'd, 'o) POp" where
  "PhysicalOp_consume opName S = S\<lparr>op_producers := insort_insert opName (op_producers S)\<rparr>"

definition emit :: "('h, 't, 'd) action \<Rightarrow> ('h, 't, 'd, 'o) POp \<Rightarrow> ('h, 't, 'd, 'o) POp" where
  "emit a S = S\<lparr>trace := trace S @ [a]\<rparr>"

definition destroyActorHandles :: "('h, 't, 'd, 'o) POp \<Rightarrow> ('h, 't, 'd, 'o) POp" where
  "destroyActorHandles S =
     S\<lparr>operatorMap := local_destroyActorHandles (operatorMap S), rootActor := None,
       segmentCacheActor := None, deltaCacheActor := None\<rparr>"

text \<open>\<open>notifyError\<close> tells the root and runs \<open>POpActor::on_exit\<close>, which destroys the handles.\<close>

definition notifyError :: "string \<Rightarrow> ('h, 't, 'd, 'o) POp \<Rightarrow> ('h, 't, 'd, 'o) POp" where
  "notifyError msg S =
     destroyActorHandles (emit (Anon_send (rootActor S) (ErrorMessage msg (actor_name S))) S)"

text \<open>The loop over the consumers; a consumer that is not connected makes \<open>value()\<close> throw.\<close>

definition send_to ::
  "('h, 't, 'd) Message \<Rightarrow> string \<Rightarrow> ('h, 't, 'd, 'o) POp \<Rightarrow> ('h, 't, 'd, 'o) POp result" where
  "send_to msg consumer S =
     rbind (expected_value (local_get consumer (operatorMap S))) (\<lambda>entry.
       Inr (emit (Anon_send (le_actor entry) msg) S))"

definition send_to_consumers ::
  "('h, 't, 'd) Message \<Rightarrow> ('h, 't, 'd, 'o) POp \<Rightarrow> ('h, 't, 'd, 'o) POp result" where
  "send_to_consumers msg S = rfold (send_to msg) (op_consumers S) S"

definition describe :: "('h, 't, 'd, 'o) POp \<Rightarrow> string" where
  "describe S = string_of_nat (actor_id S) @ '' ('' @ quoted (op_name S) @ '')''"

definition tell ::
  "('h, 't, 'd) Message \<Rightarrow> ('h, 't, 'd, 'o) POp \<Rightarrow> ('h, 't, 'd, 'o) POp result" where
  "tell msg S =
     (let S1 = (if op_complete S then
                  notifyError (''Cannot tell message to consumers, operator '' @ describe S @ '' is complete'') S
                else S)
      in send_to_consumers msg S1)"

definition send ::
  "('h, 't, 'd) Message \<Rightarrow> string \<Rightarrow> ('h, 't, 'd, 'o) POp \<Rightarrow> ('h, 't, 'd, 'o) POp" where
  "send msg recipientId S =
     (if recipientId = ''SegmentCache'' then
        (case msg of
           DataMessage c _ _ \<Rightarrow>
             (case data_type c of
                LOAD_REQUEST \<Rightarrow> emit (Request (segmentCacheActor S) LoadAtom msg) S
              | STORE_REQUEST \<Rightarrow> emit (Anon_send_atom (segmentCacheActor S) StoreAtom msg) S
              | WEIGHT_REQUEST \<Rightarrow> emit (Anon_send_atom (segmentCacheActor S) WeightAtom msg) S
              | CACHE_METRICS \<Rightarrow> emit (Anon_send_atom (segmentCacheActor S) MetricsAtom msg) S
              | _ \<Rightarrow> notifyError (''Unrecognized message for SegmentCacheActor: '' @ getTypeString msg) S)
         | _ \<Rightarrow> notifyError (''Unrecognized message for SegmentCacheActor: '' @ getTypeString msg) S)
      else if recipientId = ''DeltaCache'' then
        (case msg of
           DataMessage c _ _ \<Rightarrow>
             (case data_type c of
                LOAD_REQUEST \<Rightarrow> emit (Request (deltaCacheActor S) LoadDeltaAtom msg) S
              | MERGED_DELTA \<Rightarrow> emit (Anon_send_atom (deltaCacheActor S) MergedDeltaAtom msg) S
              | STORE_REQUEST \<Rightarrow> emit (Anon_send_atom (deltaCacheActor S) StoreDeltaAtom msg) S
              | _ \<Rightarrow> notifyError (''Unrecognized message for DeltaCacheActor: '' @ getTypeString msg) S)
         | _ \<Rightarrow> notifyError (''Unrecognized message for DeltaCacheActor: '' @ getTypeString msg) S)
      else
        (case local_get recipientId (operatorMap S) of
           Inr entry \<Rightarrow> emit (Anon_send (le_actor entry) msg) S
         | Inl _ \<Rightarrow> notifyError (''Actor with id '' @ quoted recipientId @ '' not found'') S))"

text \<open>\<open>notifyComplete\<close>; \<open>clear\<close> is the operator's virtual method.\<close>

definition notifyComplete ::
  "('o \<Rightarrow> 'o) \<Rightarrow> ('h, 't, 'd, 'o) POp \<Rightarrow> ('h, 't, 'd, 'o) POp result" where
  "notifyComplete clear S =
     (let S1 = (if op_complete S then
                  notifyError (''Cannot complete already completed operator '' @ describe S) S else S);
          msg = CompleteMessage (op_name S1)
      in rbind (send_to_consumers msg S1) (\<lambda>S2.
           let S3 = emit (Anon_send (rootActor S2) msg) S2;
               S4 = (if op_type S3 \<noteq> COLLATE then S3\<lparr>op_fields := clear (op_fields S3)\<rparr> else S3)
           in Inr (S4\<lparr>op_complete := True\<rparr>)))"

section \<open>The actor of an operator\<close>

text \<open>The virtual methods of an operator.\<close>

record ('h, 't, 'd, 'o) operator_methods =
  onReceive :: "('h, 't, 'd) Message \<Rightarrow> ('h, 't, 'd, 'o) POp \<Rightarrow> ('h, 't, 'd, 'o) POp result"

record ('h, 't, 'd, 'o) POpActor =
  running :: bool
  buffer :: "('h, 't, 'd) Message list"
  opBehaviour :: "('h, 't, 'd, 'o) POp"

definition connect :: "'h POpConnection \<Rightarrow> ('h, 't, 'd, 'o) POp \<Rightarrow> ('h, 't, 'd, 'o) POp" where
  "connect element S =
     (let localEntry = \<lparr>le_name = con_name element, le_actor = con_handle element,
                        le_relationshipType = con_type element, le_complete = False\<rparr>
      in case local_insert localEntry (operatorMap S) of
           Inr d \<Rightarrow> S\<lparr>operatorMap := d\<rparr>
         | Inl e \<Rightarrow> notifyError e S)"

text \<open>A message of a running operator that is neither CONNECT, START nor STOP.\<close>

definition handle_message ::
  "('h, 't, 'd, 'o) operator_methods \<Rightarrow> ('h, 't, 'd) Message \<Rightarrow> ('h, 't, 'd, 'o) POp
     \<Rightarrow> ('h, 't, 'd, 'o) POp result" where
  "handle_message V msg S =
     (case msg of
        CompleteMessage s \<Rightarrow>
          (case local_setComplete s (operatorMap S) of
             Inl e \<Rightarrow> Inr (notifyError e S)
           | Inr d \<Rightarrow> onReceive V msg (S\<lparr>operatorMap := d\<rparr>))
      | _ \<Rightarrow> onReceive V msg S)"

text \<open>
  \<open>START\<close> replays the buffer: the first message is handled, then popped, until the buffer is empty.
  The operator is running, so no message is buffered meanwhile.
\<close>

fun replay ::
  "('h, 't, 'd, 'o) operator_methods \<Rightarrow> ('h, 't, 'd) Message list \<Rightarrow> ('h, 't, 'd, 'o) POp
     \<Rightarrow> ('h, 't, 'd, 'o) POp result" where
  "replay V [] S = Inr S"
| "replay V (item # items) S = rbind (handle_message V item S) (replay V items)"

definition POpActor_behaviour ::
  "('h, 't, 'd, 'o) operator_methods \<Rightarrow> ('h, 't, 'd) Message \<Rightarrow> ('h, 't, 'd, 'o) POpActor
     \<Rightarrow> ('h, 't, 'd, 'o) POpActor result" where
  "POpActor_behaviour V msg self =
     (case msg of
        ConnectMessage cs _ \<Rightarrow> Inr (self\<lparr>opBehaviour := fold connect cs (opBehaviour self)\<rparr>)
      | StartMessage _ \<Rightarrow>
          rbind (onReceive V msg (opBehaviour self)) (\<lambda>S.
          rbind (replay V (buffer self) S) (\<lambda>S'.
            Inr (self\<lparr>running := True, buffer := [], opBehaviour := S'\<rparr>)))
      | StopMessage _ \<Rightarrow>
          rbind (onReceive V msg (opBehaviour self)) (\<lambda>S.
            Inr (self\<lparr>running := False, opBehaviour := S\<rparr>))
      | _ \<Rightarrow>
          if \<not> running self then Inr (self\<lparr>buffer := buffer self @ [msg]\<rparr>)
          else rbind (handle_message V msg (opBehaviour self)) (\<lambda>S.
            Inr (self\<lparr>opBehaviour := S\<rparr>)))"

definition POpActor_run ::
  "('h, 't, 'd, 'o) operator_methods \<Rightarrow> ('h, 't, 'd) Message list \<Rightarrow> ('h, 't, 'd, 'o) POpActor
     \<Rightarrow> ('h, 't, 'd, 'o) POpActor result" where
  "POpActor_run V = rfold (POpActor_behaviour V)"


section \<open>The directories count what is complete\<close>

text \<open>Completing several operators, one after the other.\<close>

fun complete_all :: "(string \<Rightarrow> 'd \<Rightarrow> string + 'd) \<Rightarrow> string list \<Rightarrow> 'd \<Rightarrow> string + 'd" where
  "complete_all f [] d = Inr d"
| "complete_all f (n # ns) d = (case f n d of Inl e \<Rightarrow> Inl e | Inr d' \<Rightarrow> complete_all f ns d')"

text \<open>
  What the clients of a directory rely on: it knows some members, some of them are done, \<open>setComplete\<close>
  adds a member to those that are done and refuses a member that is done already, and \<open>allComplete\<close>
  tells whether all are done.
\<close>

locale completion_directory =
  fixes dir_ok :: "'d \<Rightarrow> bool"
    and members :: "'d \<Rightarrow> string set"
    and finished :: "'d \<Rightarrow> string set"
    and set_complete :: "string \<Rightarrow> 'd \<Rightarrow> string + 'd"
    and all_complete :: "'d \<Rightarrow> bool"
  assumes set_complete_ok: "dir_ok d \<Longrightarrow> n \<in> members d \<Longrightarrow> n \<notin> finished d \<Longrightarrow> \<exists>d'. set_complete n d = Inr d'"
    and set_complete_twice: "dir_ok d \<Longrightarrow> n \<in> finished d \<Longrightarrow> \<exists>e. set_complete n d = Inl e"
    and set_complete_Inr: "dir_ok d \<Longrightarrow> set_complete n d = Inr d' \<Longrightarrow>
      dir_ok d' \<and> members d' = members d \<and> finished d' = finished d \<union> ({n} \<inter> members d)"
    and finished_members: "dir_ok d \<Longrightarrow> finished d \<subseteq> members d"
    and all_complete_iff: "dir_ok d \<Longrightarrow> all_complete d \<longleftrightarrow> finished d = members d"
begin

text \<open>The directory reports completion with the last member, and not before.\<close>

lemma complete_all_ok:
  assumes "dir_ok d" and "distinct ns" and "set ns \<subseteq> members d - finished d"
  shows "\<exists>d'. complete_all set_complete ns d = Inr d' \<and> dir_ok d' \<and> members d' = members d \<and>
    finished d' = finished d \<union> set ns \<and> (all_complete d' \<longleftrightarrow> finished d \<union> set ns = members d)"
  using assms
proof (induction ns arbitrary: d)
  case Nil
  then show ?case by (simp add: all_complete_iff)
next
  case (Cons n ns)
  then obtain d1 where d1: "set_complete n d = Inr d1" using set_complete_ok [of d n] by auto
  from set_complete_Inr [OF Cons.prems(1) d1] Cons.prems(3)
  have 1: "dir_ok d1" "members d1 = members d" "finished d1 = insert n (finished d)" by auto
  with Cons.prems have "set ns \<subseteq> members d1 - finished d1" by auto
  from Cons.IH [OF 1(1) _ this] Cons.prems(2) d1 1 show ?case by auto
qed

end

text \<open>The entries of a map with distinct keys that satisfy a predicate, and their number.\<close>

definition entries_with :: "('e \<Rightarrow> bool) \<Rightarrow> (string \<times> 'e) list \<Rightarrow> string set" where
  "entries_with P es = {n. \<exists>e. (n, e) \<in> set es \<and> P e}"

definition count_entries :: "('e \<Rightarrow> bool) \<Rightarrow> (string \<times> 'e) list \<Rightarrow> int" where
  "count_entries P es = int (length (filter (P \<circ> snd) es))"

lemma count_entries_simps [simp]:
  "count_entries P [] = 0"
  "count_entries P ((n, e) # es) = (if P e then 1 else 0) + count_entries P es"
  "count_entries P (es @ fs) = count_entries P es + count_entries P fs"
  by (auto simp: count_entries_def)

lemma entries_with_filter: "entries_with P es = set (map fst (filter (P \<circ> snd) es))"
  by (force simp: entries_with_def)

lemma entry_find: "um_wf id es \<Longrightarrow> (n, e) \<in> set es \<Longrightarrow> um_find id n es = Some e"
  using us_find_SomeI [of fst es "(n, e)" n] by (simp add: um_find_def)

lemma entries_with_find:
  assumes "um_wf id es"
  shows "n \<in> entries_with P es \<longleftrightarrow> (\<exists>e. um_find id n es = Some e \<and> P e)"
proof -
  have "um_find id n es = Some e \<longleftrightarrow> (n, e) \<in> set es" for e
    using entry_find [OF assms, of n e] um_find_Some [of id n es e] by auto
  then show ?thesis by (simp add: entries_with_def)
qed

lemma count_entries_le:
  "count_entries P es \<le> count_entries (\<lambda>e. P e \<and> Q e) es \<longleftrightarrow> (\<forall>(n, e) \<in> set es. P e \<longrightarrow> Q e)"
proof (induction es)
  case (Cons x es)
  have "count_entries (\<lambda>e. P e \<and> Q e) es \<le> count_entries P es"
    by (induction es) auto
  with Cons show ?case by (cases x) auto
qed simp

lemma count_entries_all:
  assumes "um_wf id es"
  shows "count_entries P es \<le> count_entries (\<lambda>e. P e \<and> Q e) es \<longleftrightarrow>
    entries_with (\<lambda>e. P e \<and> Q e) es = entries_with P es"
proof
  assume eq: "entries_with (\<lambda>e. P e \<and> Q e) es = entries_with P es"
  have "Q e" if "(n, e) \<in> set es" "P e" for n e
  proof -
    from that eq have "n \<in> entries_with (\<lambda>e. P e \<and> Q e) es" by (auto simp: entries_with_def)
    then show ?thesis using entry_find [OF assms that(1)] by (simp add: entries_with_find [OF assms])
  qed
  then show "count_entries P es \<le> count_entries (\<lambda>e. P e \<and> Q e) es" by (auto simp: count_entries_le)
qed (auto simp: count_entries_le entries_with_def)

text \<open>An assignment replaces the one entry of its key.\<close>

lemma um_assign_split:
  assumes "um_wf id m" and "um_find id n m = Some e"
  obtains xs ys where "m = xs @ (n, e) # ys" "um_assign id n v m = xs @ (n, v) # ys"
    "n \<notin> fst ` set xs" "n \<notin> fst ` set ys"
proof -
  from um_find_Some [OF assms(2)] obtain xs ys where m: "m = xs @ (n, e) # ys"
    by (metis id_apply split_list)
  with assms(1) have n: "n \<notin> fst ` set xs" "n \<notin> fst ` set ys"
    by (auto simp: us_wf_def image_iff)
  then have "map (\<lambda>(b, w). if b = n then (b, v) else (b, w)) xs = xs"
    "map (\<lambda>(b, w). if b = n then (b, v) else (b, w)) ys = ys"
    by (force intro!: map_idI split: prod.splits)+
  moreover have "us_find fst n m \<noteq> None"
    using assms(2) by (auto simp: um_find_def)
  ultimately have "um_assign id n v m = xs @ (n, v) # ys" using m by (simp add: um_assign_def)
  with m n show ?thesis using that by blast
qed

lemma um_wf_id_assign: "um_wf id m \<Longrightarrow> um_wf id (um_assign id n v m)"
  by (rule um_wf_assign)

lemma entries_with_assign:
  assumes "um_wf id m"
  shows "entries_with P (um_assign id n v m) = entries_with P m - {n} \<union> (if P v then {n} else {})"
  unfolding set_eq_iff entries_with_find [OF um_wf_id_assign [OF assms]]
  by (auto simp: entries_with_find [OF assms] um_find_assign)

lemma count_entries_assign:
  assumes "um_wf id m" and "um_find id n m = Some e"
  shows "count_entries P (um_assign id n v m)
    = count_entries P m - (if P e then 1 else 0) + (if P v then 1 else 0)"
  by (rule um_assign_split [OF assms, of v]) simp

lemma um_emplace_append: "um_find id n m = None \<Longrightarrow> um_emplace id n e m = m @ [(n, e)]"
  by (simp add: um_emplace_def us_emplace_def um_find_def)

lemma um_wf_append_new: "um_wf id m \<Longrightarrow> um_find id n m = None \<Longrightarrow> um_wf id (m @ [(n, e)])"
  using um_wf_emplace [of id m n e] by (simp add: um_emplace_append)

text \<open>A local directory as a completion directory, for its producers and for its consumers.\<close>

definition local_members :: "POpRelationshipType \<Rightarrow> 'h LocalPOpDirectory \<Rightarrow> string set" where
  "local_members ty d = entries_with (\<lambda>e. le_relationshipType e = ty) (le_entries d)"

definition local_finished :: "POpRelationshipType \<Rightarrow> 'h LocalPOpDirectory \<Rightarrow> string set" where
  "local_finished ty d = entries_with (\<lambda>e. le_relationshipType e = ty \<and> le_complete e) (le_entries d)"

definition local_ok :: "'h LocalPOpDirectory \<Rightarrow> bool" where
  "local_ok d \<longleftrightarrow> um_wf id (le_entries d) \<and>
     numProducers d = count_entries (\<lambda>e. le_relationshipType e = Producer) (le_entries d) \<and>
     numConsumers d = count_entries (\<lambda>e. le_relationshipType e = Consumer) (le_entries d) \<and>
     numProducersComplete d
       = count_entries (\<lambda>e. le_relationshipType e = Producer \<and> le_complete e) (le_entries d) \<and>
     numConsumersComplete d
       = count_entries (\<lambda>e. le_relationshipType e = Consumer \<and> le_complete e) (le_entries d)"

lemma not_Producer [simp]: "ty \<noteq> Producer \<longleftrightarrow> ty = Consumer"
  by (cases ty) auto

lemma local_ok_empty [simp]: "local_ok LocalPOpDirectory_empty"
  by (simp add: local_ok_def LocalPOpDirectory_empty_def)

lemma local_insert_ok:
  assumes "local_ok d" and "\<not> le_complete entry" and "local_insert entry d = Inr d'"
  shows "local_ok d'"
proof -
  have "um_find id (le_name entry) (le_entries d) = None"
    using assms(3) by (auto simp: local_insert_def split: if_splits)
  with assms um_wf_append_new [OF _ this] show ?thesis
    by (cases "le_relationshipType entry")
      (auto simp: local_insert_def local_ok_def um_emplace_append Let_def)
qed

lemma local_setComplete_Inr:
  assumes "local_ok d" and "local_setComplete n d = Inr d'"
  shows "\<exists>e. um_find id n (le_entries d) = Some e \<and> \<not> le_complete e \<and>
    le_entries d' = um_assign id n (e\<lparr>le_complete := True\<rparr>) (le_entries d) \<and> local_ok d'"
proof -
  from assms(2) obtain e where e: "um_find id n (le_entries d) = Some e" "\<not> le_complete e"
    by (auto simp: local_setComplete_def split: option.splits if_splits)
  have wf: "um_wf id (le_entries d)" using assms(1) by (simp add: local_ok_def)
  from assms e show ?thesis
    by (cases "le_relationshipType e")
      (auto simp: local_setComplete_def local_ok_def Let_def count_entries_assign [OF wf e(1)]
        um_wf_id_assign [OF wf, simplified])
qed

lemma local_directory: "completion_directory local_ok (local_members ty) (local_finished ty)
  local_setComplete (local_allComplete ty)"
proof
  fix d :: "'h LocalPOpDirectory" and n
  assume d: "local_ok d"
  then have wf: "um_wf id (le_entries d)" by (simp add: local_ok_def)
  note dir_simps = local_members_def local_finished_def entries_with_find [OF wf]
  show "\<exists>d'. local_setComplete n d = Inr d'"
    if "n \<in> local_members ty d" "n \<notin> local_finished ty d"
    using that by (auto simp: dir_simps local_setComplete_def Let_def)
  show "\<exists>e. local_setComplete n d = Inl e" if "n \<in> local_finished ty d"
    using that by (auto simp: dir_simps local_setComplete_def)
  show "local_ok d' \<and> local_members ty d' = local_members ty d \<and>
      local_finished ty d' = local_finished ty d \<union> ({n} \<inter> local_members ty d)"
    if r: "local_setComplete n d = Inr d'" for d'
    using local_setComplete_Inr [OF d r] unfolding set_eq_iff
    by (auto simp: dir_simps entries_with_assign [OF wf] split: if_splits)
  show "local_finished ty d \<subseteq> local_members ty d"
    by (auto simp: dir_simps)
  show "local_allComplete ty d = (local_finished ty d = local_members ty d)"
    using d by (cases ty) (simp_all add: local_allComplete_def local_ok_def count_entries_all [OF wf]
        local_members_def local_finished_def)
qed

interpretation relatives: completion_directory local_ok "local_members ty" "local_finished ty"
  local_setComplete "local_allComplete ty" for ty
  by (rule local_directory)

text \<open>The directory of the query as a completion directory.\<close>

definition pd_members :: "('h, 'o) POpDirectory \<Rightarrow> string set" where
  "pd_members d = entries_with (\<lambda>e. True) (pd_entries d)"

definition pd_finished :: "('h, 'o) POpDirectory \<Rightarrow> string set" where
  "pd_finished d = entries_with pe_complete (pd_entries d)"

definition pd_ok :: "('h, 'o) POpDirectory \<Rightarrow> bool" where
  "pd_ok d \<longleftrightarrow> um_wf id (pd_entries d) \<and>
     numOperators d = count_entries (\<lambda>e. True) (pd_entries d) \<and>
     numOperatorsComplete d = count_entries pe_complete (pd_entries d)"

interpretation operators: completion_directory pd_ok pd_members pd_finished pd_setComplete pd_allComplete
proof
  fix d :: "('h, 'o) POpDirectory" and n
  assume d: "pd_ok d"
  then have wf: "um_wf id (pd_entries d)" by (simp add: pd_ok_def)
  note dir_simps = pd_members_def pd_finished_def entries_with_find [OF wf]
  show "\<exists>d'. pd_setComplete n d = Inr d'" if "n \<in> pd_members d" "n \<notin> pd_finished d"
    using that by (auto simp: dir_simps pd_setComplete_def)
  show "\<exists>e. pd_setComplete n d = Inl e" if "n \<in> pd_finished d"
    using that by (auto simp: dir_simps pd_setComplete_def)
  show "pd_ok d' \<and> pd_members d' = pd_members d \<and> pd_finished d' = pd_finished d \<union> ({n} \<inter> pd_members d)"
    if r: "pd_setComplete n d = Inr d'" for d'
  proof -
    from r obtain e where e: "um_find id n (pd_entries d) = Some e" "\<not> pe_complete e"
      "d' = d\<lparr>pd_entries := um_assign id n (e\<lparr>pe_complete := True\<rparr>) (pd_entries d),
              numOperatorsComplete := numOperatorsComplete d + 1\<rparr>"
      by (auto simp: pd_setComplete_def split: option.splits if_splits)
    then have "pd_ok d'"
      using d by (auto simp: pd_ok_def count_entries_assign [OF wf e(1)] um_wf_id_assign [OF wf, simplified])
    with e show ?thesis
      unfolding set_eq_iff by (auto simp: dir_simps entries_with_assign [OF wf])
  qed
  show "pd_finished d \<subseteq> pd_members d"
    by (auto simp: dir_simps)
  show "pd_allComplete d = (pd_finished d = pd_members d)"
    using d count_entries_all [OF wf, of "\<lambda>e. True" pe_complete]
    by (simp add: pd_allComplete_def pd_ok_def pd_members_def pd_finished_def)
qed


section \<open>Reachable directories\<close>

text \<open>The directories an operator can have: built by CONNECT, changed by COMPLETE and by errors.\<close>

inductive local_reachable :: "'h LocalPOpDirectory \<Rightarrow> bool" where
  reach_empty: "local_reachable LocalPOpDirectory_empty"
| reach_insert: "local_reachable d \<Longrightarrow> \<not> le_complete entry \<Longrightarrow> local_insert entry d = Inr d' \<Longrightarrow> local_reachable d'"
| reach_setComplete: "local_reachable d \<Longrightarrow> local_setComplete n d = Inr d' \<Longrightarrow> local_reachable d'"
| reach_destroy: "local_reachable d \<Longrightarrow> local_reachable (local_destroyActorHandles d)"

lemma count_entries_map:
  "(\<And>e. P (f e) = P e) \<Longrightarrow> count_entries P (map (\<lambda>(n, e). (n, f e)) es) = count_entries P es"
  by (induction es) auto

lemma um_wf_map: "um_wf id (map (\<lambda>(n, e). (n, f e)) es) = um_wf id es"
  by (simp add: us_wf_def comp_def case_prod_beta')

lemma local_ok_destroy [simp]: "local_ok (local_destroyActorHandles d) = local_ok d"
  by (simp add: local_ok_def local_destroyActorHandles_def count_entries_map um_wf_map [simplified])

lemma local_reachable_ok: "local_reachable d \<Longrightarrow> local_ok d"
proof (induction rule: local_reachable.induct)
  case (reach_insert d entry d')
  then show ?case by (metis local_insert_ok)
next
  case (reach_setComplete d n d')
  then show ?case using local_setComplete_Inr by blast
qed simp_all

text \<open>
  C25.  In every directory an operator can have, the operators of one kind that are not complete yet can
  be completed in any order; the directory reports that all of that kind are complete exactly when the
  last one is, and completing one of them again is an error.
\<close>

theorem directory_all_complete_with_the_last:
  assumes "local_reachable d" and "distinct ns"
    and "set ns \<subseteq> local_members ty d - local_finished ty d"
  shows "\<exists>d'. complete_all local_setComplete ns d = Inr d' \<and>
    (local_allComplete ty d' \<longleftrightarrow> local_finished ty d \<union> set ns = local_members ty d) \<and>
    (\<forall>n \<in> set ns. \<exists>e. local_setComplete n d' = Inl e)"
  using relatives.complete_all_ok [OF local_reachable_ok [OF assms(1)] assms(2,3)]
    relatives.set_complete_twice by blast

definition sample_entry :: "string \<Rightarrow> POpRelationshipType \<Rightarrow> nat LocalPOpDirectoryEntry" where
  "sample_entry n ty = \<lparr>le_name = n, le_actor = Some 7, le_relationshipType = ty, le_complete = False\<rparr>"

definition sample_directory :: "nat LocalPOpDirectory" where
  "sample_directory =
     \<lparr>le_entries = [(''a'', sample_entry ''a'' Producer), (''b'', sample_entry ''b'' Producer),
        (''c'', sample_entry ''c'' Consumer)],
      numProducers = 2, numConsumers = 1, numProducersComplete = 0, numConsumersComplete = 0\<rparr>"

lemma sample_directory_reachable: "local_reachable sample_directory"
proof (rule reach_insert [OF reach_insert [OF reach_insert [OF reach_empty]]])
  show "local_insert (sample_entry ''a'' Producer) LocalPOpDirectory_empty = Inr
    \<lparr>le_entries = [(''a'', sample_entry ''a'' Producer)], numProducers = 1, numConsumers = 0,
     numProducersComplete = 0, numConsumersComplete = 0\<rparr>" by code_simp
  show "local_insert (sample_entry ''b'' Producer)
    \<lparr>le_entries = [(''a'', sample_entry ''a'' Producer)], numProducers = 1, numConsumers = 0,
     numProducersComplete = 0, numConsumersComplete = 0\<rparr> = Inr
    \<lparr>le_entries = [(''a'', sample_entry ''a'' Producer), (''b'', sample_entry ''b'' Producer)],
     numProducers = 2, numConsumers = 0, numProducersComplete = 0, numConsumersComplete = 0\<rparr>" by code_simp
  show "local_insert (sample_entry ''c'' Consumer)
    \<lparr>le_entries = [(''a'', sample_entry ''a'' Producer), (''b'', sample_entry ''b'' Producer)],
     numProducers = 2, numConsumers = 0, numProducersComplete = 0, numConsumersComplete = 0\<rparr> = Inr
    sample_directory" by code_simp
qed (simp_all add: sample_entry_def)

theorem directory_all_complete_with_the_last_witness:
  "\<exists>d'. complete_all local_setComplete [''b'', ''a''] sample_directory = Inr d' \<and>
     local_allComplete Producer d' \<and> (\<exists>e. local_setComplete ''a'' d' = Inl e)"
proof -
  have "local_members Producer sample_directory = {''a'', ''b''}"
    "local_finished Producer sample_directory = {}"
    by (simp_all add: local_members_def local_finished_def entries_with_filter sample_directory_def sample_entry_def)
  then show ?thesis
    using directory_all_complete_with_the_last [OF sample_directory_reachable, of "[''b'', ''a'']" Producer]
    by auto
qed

text \<open>
  \<open>setIncomplete\<close> marks every operator of the query as not complete but keeps the count, so the
  directory still reports that all are complete, and goes on doing so when the operators complete again.
\<close>

theorem setIncomplete_keeps_the_count:
  assumes "pd_ok d" and "pd_allComplete d" and "pd_setComplete n (pd_setIncomplete d) = Inr d'"
  shows "pd_finished (pd_setIncomplete d) = {} \<and> pd_allComplete (pd_setIncomplete d) \<and>
    pd_allComplete d' \<and> numOperatorsComplete d' = numOperators d' + 1"
proof -
  have "pd_finished (pd_setIncomplete d) = {}"
    by (auto simp: pd_finished_def pd_setIncomplete_def entries_with_def)
  moreover have "pd_allComplete (pd_setIncomplete d)"
    using assms(2) by (simp add: pd_allComplete_def pd_setIncomplete_def)
  moreover have "numOperatorsComplete d = numOperators d"
  proof -
    have "count_entries pe_complete (pd_entries d) \<le> count_entries (\<lambda>e. True) (pd_entries d)"
      by (auto simp: count_entries_def length_filter_le)
    with assms(1,2) show ?thesis by (simp add: pd_ok_def pd_allComplete_def)
  qed
  ultimately show ?thesis
    using assms(3) by (auto simp: pd_setComplete_def pd_allComplete_def pd_setIncomplete_def
        split: option.splits if_splits)
qed

definition sample_query :: "(nat, unit) POpDirectory" where
  "sample_query = \<lparr>pd_entries = [(''a'', \<lparr>pe_name = ''a'', pe_def = (), pe_actorHandle = Some 1,
      pe_complete = True\<rparr>)], numOperators = 1, numOperatorsComplete = 1\<rparr>"

theorem setIncomplete_keeps_the_count_witness:
  "pd_allComplete (pd_setIncomplete sample_query) \<and> pd_finished (pd_setIncomplete sample_query) = {}"
proof -
  have "pd_ok sample_query" "pd_allComplete sample_query"
    by (simp_all add: pd_ok_def sample_query_def us_wf_def pd_allComplete_def)
  moreover have "\<exists>d'. pd_setComplete ''a'' (pd_setIncomplete sample_query) = Inr d'"
    by (simp add: pd_setComplete_def pd_setIncomplete_def sample_query_def um_find_def us_find_def)
  ultimately show ?thesis using setIncomplete_keeps_the_count [of sample_query "''a''"] by blast
qed

section \<open>The actor\<close>

definition control :: "('h, 't, 'd) Message \<Rightarrow> bool" where
  "control m = (case m of StartMessage _ \<Rightarrow> True | StopMessage _ \<Rightarrow> True | ConnectMessage _ _ \<Rightarrow> True | _ \<Rightarrow> False)"

lemma behaviour_buffers:
  "\<not> control m \<Longrightarrow> \<not> running A \<Longrightarrow> POpActor_behaviour V m A = Inr (A\<lparr>buffer := buffer A @ [m]\<rparr>)"
  by (cases m) (auto simp: control_def POpActor_behaviour_def)

lemma behaviour_handles:
  "\<not> control m \<Longrightarrow> running A \<Longrightarrow>
   POpActor_behaviour V m A = rbind (handle_message V m (opBehaviour A)) (\<lambda>S. Inr (A\<lparr>opBehaviour := S\<rparr>))"
  by (cases m) (auto simp: control_def POpActor_behaviour_def)

lemma run_buffers:
  "\<forall>m \<in> set ms. \<not> control m \<Longrightarrow> \<not> running A \<Longrightarrow> POpActor_run V ms A = Inr (A\<lparr>buffer := buffer A @ ms\<rparr>)"
  unfolding POpActor_run_def by (induction ms arbitrary: A) (auto simp: behaviour_buffers)

lemma run_handles:
  "\<forall>m \<in> set ms. \<not> control m \<Longrightarrow> running A \<Longrightarrow>
   POpActor_run V ms A = rbind (replay V ms (opBehaviour A)) (\<lambda>S. Inr (A\<lparr>opBehaviour := S\<rparr>))"
proof (induction ms arbitrary: A)
  case (Cons m ms)
  show ?case
  proof (cases "handle_message V m (opBehaviour A)")
    case (Inr S)
    with Cons show ?thesis by (simp add: POpActor_run_def behaviour_handles)
  qed (use Cons in \<open>simp add: POpActor_run_def behaviour_handles\<close>)
qed (simp add: POpActor_run_def)

lemma replay_append: "replay V (xs @ ys) S = rbind (replay V xs S) (replay V ys)"
proof (induction xs arbitrary: S)
  case (Cons x xs)
  then show ?case by (cases "handle_message V x S") simp_all
qed simp

text \<open>
  C24.  Messages that reach an operator before it is started are neither lost nor reordered: whatever
  non-control messages arrive first, an operator that is then started ends in the state it would have
  had if START had arrived before them, errors included.
\<close>

theorem early_messages_wait_for_start:
  assumes "\<forall>m \<in> set ms. \<not> control m" and "\<not> running A"
  shows "POpActor_run V (ms @ [StartMessage s]) A = POpActor_run V (StartMessage s # ms) A"
proof -
  have "POpActor_run V (ms @ [StartMessage s]) A
      = POpActor_behaviour V (StartMessage s) (A\<lparr>buffer := buffer A @ ms\<rparr>)"
    using run_buffers [OF assms, of V] by (simp add: POpActor_run_def rfold_append result_simps)
      (cases "POpActor_behaviour V (StartMessage s) (A\<lparr>buffer := buffer A @ ms\<rparr>)"; simp)
  also have "\<dots> = rbind (POpActor_behaviour V (StartMessage s) A) (POpActor_run V ms)"
  proof (cases "onReceive V (StartMessage s) (opBehaviour A)")
    case (Inr S)
    then show ?thesis
      by (cases "replay V (buffer A) S")
        (simp_all add: POpActor_behaviour_def replay_append run_handles [OF assms(1)])
  qed (simp add: POpActor_behaviour_def)
  finally show ?thesis by (simp add: POpActor_run_def)
qed


section \<open>The context\<close>

text \<open>The handles an operator has for its consumers, once all of them are connected.\<close>

definition connected_to :: "('h, 't, 'd, 'o) POp \<Rightarrow> string \<Rightarrow> bool" where
  "connected_to S c = (um_find id c (le_entries (operatorMap S)) \<noteq> None)"

definition connected :: "('h, 't, 'd, 'o) POp \<Rightarrow> bool" where
  "connected S = list_all (connected_to S) (op_consumers S)"

definition handle_of :: "('h, 't, 'd, 'o) POp \<Rightarrow> string \<Rightarrow> 'h option" where
  "handle_of S c = (case um_find id c (le_entries (operatorMap S)) of Some e \<Rightarrow> le_actor e | None \<Rightarrow> None)"

definition to_consumers :: "('h, 't, 'd, 'o) POp \<Rightarrow> ('h, 't, 'd) Message \<Rightarrow> ('h, 't, 'd) action list" where
  "to_consumers S msg = map (\<lambda>c. Anon_send (handle_of S c) msg) (op_consumers S)"

lemma emit_simps [simp]:
  "trace (emit a S) = trace S @ [a]" "operatorMap (emit a S) = operatorMap S"
  "op_consumers (emit a S) = op_consumers S" "op_fields (emit a S) = op_fields S"
  "op_complete (emit a S) = op_complete S" "rootActor (emit a S) = rootActor S"
  "op_type (emit a S) = op_type S" "op_name (emit a S) = op_name S"
  "projectColumnNames (emit a S) = projectColumnNames S" "actor_name (emit a S) = actor_name S"
  "segmentCacheActor (emit a S) = segmentCacheActor S" "deltaCacheActor (emit a S) = deltaCacheActor S"
  by (simp_all add: emit_def)

lemma send_to_connected:
  "connected_to S c \<Longrightarrow> send_to msg c S = Inr (emit (Anon_send (handle_of S c) msg) S)"
  by (auto simp: connected_to_def send_to_def local_get_def handle_of_def)

lemma rfold_send_to:
  "list_all (connected_to S) cs \<Longrightarrow>
   rfold (send_to msg) cs S = Inr (S\<lparr>trace := trace S @ map (\<lambda>c. Anon_send (handle_of S c) msg) cs\<rparr>)"
proof (induction cs arbitrary: S)
  case (Cons c cs)
  have "connected_to (S\<lparr>trace := t\<rparr>) = connected_to S" "handle_of (S\<lparr>trace := t\<rparr>) = handle_of S" for t
    by (auto simp: connected_to_def handle_of_def)
  with Cons show ?case by (simp add: send_to_connected emit_def)
qed simp

lemma send_to_consumers_connected:
  "connected S \<Longrightarrow> send_to_consumers msg S = Inr (S\<lparr>trace := trace S @ to_consumers S msg\<rparr>)"
  by (simp add: send_to_consumers_def connected_def rfold_send_to to_consumers_def)

lemma destroy_find:
  "um_find id c (le_entries (local_destroyActorHandles d))
     = map_option (\<lambda>e. e\<lparr>le_actor := None\<rparr>) (um_find id c (le_entries d))"
proof -
  have "um_find id c (map (\<lambda>(n, e). (n, f e)) es) = map_option f (um_find id c es)" for f es
    by (induction es) (auto simp: um_find_def us_find_def)
  then show ?thesis by (simp add: local_destroyActorHandles_def)
qed

lemma notifyError_simps [simp]:
  "trace (notifyError e S) = trace S @ [Anon_send (rootActor S) (ErrorMessage e (actor_name S))]"
  "op_consumers (notifyError e S) = op_consumers S" "op_fields (notifyError e S) = op_fields S"
  "op_complete (notifyError e S) = op_complete S" "op_type (notifyError e S) = op_type S"
  "op_name (notifyError e S) = op_name S"
  "operatorMap (notifyError e S) = local_destroyActorHandles (operatorMap S)"
  "projectColumnNames (notifyError e S) = projectColumnNames S"
  by (simp_all add: notifyError_def destroyActorHandles_def)

lemma connected_notifyError [simp]: "connected (notifyError e S) = connected S"
  by (simp add: connected_def connected_to_def [abs_def] destroy_find)

lemma handle_of_notifyError [simp]: "handle_of (notifyError e S) c = None"
  by (simp add: handle_of_def destroy_find split: option.splits)

lemma tell_running:
  "connected S \<Longrightarrow> \<not> op_complete S \<Longrightarrow> tell msg S = Inr (S\<lparr>trace := trace S @ to_consumers S msg\<rparr>)"
  by (simp add: tell_def send_to_consumers_connected)

text \<open>
  An operator that tells its consumers something after it has completed reports the error to the
  root, gives up its handles, and still goes through its consumers: every such message goes to a handle
  that has been destroyed.
\<close>

theorem tell_after_complete:
  assumes "op_complete S" and "connected S"
  shows "\<exists>S' e. tell msg S = Inr S' \<and>
    trace S' = trace S @ Anon_send (rootActor S) (ErrorMessage e (actor_name S))
      # map (\<lambda>c. Anon_send None msg) (op_consumers S)"
  using assms by (auto simp: tell_def Let_def send_to_consumers_connected to_consumers_def)

text \<open>
  What \<open>notifyComplete\<close> of an operator that is not complete does: one message to every consumer in
  the order of their names, then one to the root.
\<close>

lemma notifyComplete_connected:
  assumes "connected S" and "\<not> op_complete S"
  shows "notifyComplete clear S = Inr (S\<lparr>trace := trace S @ to_consumers S (CompleteMessage (op_name S))
      @ [Anon_send (rootActor S) (CompleteMessage (op_name S))],
    op_fields := if op_type S = COLLATE then op_fields S else clear (op_fields S), op_complete := True\<rparr>)"
  using assms by (simp add: notifyComplete_def send_to_consumers_connected Let_def emit_def)

text \<open>A small operator that passes every message on to the root.\<close>

definition sample_op :: "(nat, list_table, unit, unit) POp" where
  "sample_op = \<lparr>op_name = ''m'', op_type = PROJECT, projectColumnNames = [''k''], op_consumers = [''c''],
     op_producers = [''a'', ''b''], op_fields = (), operatorMap = sample_directory, rootActor = Some 0,
     segmentCacheActor = None, deltaCacheActor = None, op_complete = False, actor_id = 3,
     actor_name = ''m'', trace = []\<rparr>"

definition echo :: "(nat, list_table, unit, unit) operator_methods" where
  "echo = \<lparr>onReceive = (\<lambda>m S. Inr (emit (Anon_send (rootActor S) m) S))\<rparr>"

theorem tell_after_complete_witness:
  "\<exists>S' e. tell (TupleMessage None ''m'') (sample_op\<lparr>op_complete := True\<rparr>) = Inr S' \<and>
     trace S' = [Anon_send (Some 0) (ErrorMessage e ''m''), Anon_send None (TupleMessage None ''m'')]"
proof -
  have "connected (sample_op\<lparr>op_complete := True\<rparr>)" by code_simp
  from tell_after_complete [OF _ this, of "TupleMessage None ''m''"] show ?thesis
    by (auto simp: sample_op_def)
qed

theorem early_messages_wait_for_start_witness:
  "POpActor_run echo [CompleteMessage ''a'', TupleMessage None ''b'', StartMessage ''r'']
     \<lparr>running = False, buffer = [], opBehaviour = sample_op\<rparr>
   = POpActor_run echo [StartMessage ''r'', CompleteMessage ''a'', TupleMessage None ''b'']
     \<lparr>running = False, buffer = [], opBehaviour = sample_op\<rparr>"
  using early_messages_wait_for_start [of "[CompleteMessage ''a'', TupleMessage None ''b'']"
      "\<lparr>running = False, buffer = [], opBehaviour = sample_op\<rparr>" echo "''r''"]
  by (simp add: control_def)

end
