(* ===== verification/Operators.thy ===== *)
theory Operators
  imports Operator_Runtime
begin

text \<open>
  Physical operators on top of the runtime.  Most operators share one shape: \<open>onReceive\<close>
  dispatches on the type of the message, tuples are handled as they arrive, and the operator completes
  when its producers are complete.  The locale \<open>completing_operator\<close> says what that shape promises,
  and proves once that such an operator tells each of its consumers and the root that it is complete,
  exactly once and not before its last producer has completed.

  The theory holds the operators whose work on tuples is switched off in the sources, so that they only
  pass completion on: \<^verbatim>\<open>collate/CollatePOp.cpp\<close>, \<^verbatim>\<open>sort/SortPOp.cpp\<close>,
  \<^verbatim>\<open>project/ProjectPOp.cpp\<close> and \<^verbatim>\<open>aggregate/AggregatePOp.cpp\<close>.
\<close>

section \<open>The shape of an operator\<close>

type_synonym ('h, 't, 'd, 'o) handler = "('h, 't, 'd, 'o) POp \<Rightarrow> ('h, 't, 'd, 'o) POp result"

definition dispatch ::
  "('h, 't, 'd, 'o) handler \<Rightarrow> ('t TupleSet option \<Rightarrow> string \<Rightarrow> ('h, 't, 'd, 'o) handler)
     \<Rightarrow> ('h, 't, 'd, 'o) handler \<Rightarrow> ('h, 't, 'd) Message \<Rightarrow> ('h, 't, 'd, 'o) handler" where
  "dispatch onStart onTuple onComplete message S =
     (case message of
        StartMessage _ \<Rightarrow> onStart S
      | TupleMessage ts s \<Rightarrow> onTuple ts s S
      | CompleteMessage _ \<Rightarrow> onComplete S
      | _ \<Rightarrow> Inr (notifyError (''Unrecognized message type '' @ getTypeString message) S))"

text \<open>Operators that look into the tuple set of a message dereference its pointer.\<close>

definition with_tuples ::
  "('t TupleSet \<Rightarrow> string \<Rightarrow> ('h, 't, 'd, 'o) handler) \<Rightarrow> 't TupleSet option \<Rightarrow> string
     \<Rightarrow> ('h, 't, 'd, 'o) handler" where
  "with_tuples onTuple p s S = rbind (deref_pointer p) (\<lambda>ts. onTuple ts s S)"

lemma with_tuples_Inr: "with_tuples f p s S = Inr T \<Longrightarrow> \<exists>ts. p = Some ts \<and> f ts s S = Inr T"
  by (cases p) (simp_all add: with_tuples_def)

text \<open>\<open>onComplete\<close>: the work that remains is done when the last producer has completed.\<close>

definition when_all_complete :: "('h, 't, 'd, 'o) handler \<Rightarrow> ('h, 't, 'd, 'o) handler" where
  "when_all_complete finish S =
     (if \<not> op_complete S \<and> local_allComplete Producer (operatorMap S) then finish S else Inr S)"

section \<open>What completing promises\<close>

definition completion :: "('h, 't, 'd) action \<Rightarrow> bool" where
  "completion a = (case a of Anon_send _ (CompleteMessage _) \<Rightarrow> True | _ \<Rightarrow> False)"

definition completions :: "('h, 't, 'd) action list \<Rightarrow> ('h, 't, 'd) action list" where
  "completions as = filter completion as"

definition reports_error :: "('h, 't, 'd) action \<Rightarrow> bool" where
  "reports_error a = (case a of Anon_send _ (ErrorMessage _ _) \<Rightarrow> True | _ \<Rightarrow> False)"

definition error_free :: "('h, 't, 'd) action list \<Rightarrow> bool" where
  "error_free as = list_all (Not \<circ> reports_error) as"

fun sent_message :: "('h, 't, 'd) action \<Rightarrow> ('h, 't, 'd) Message" where
  "sent_message (Anon_send _ m) = m"
| "sent_message (Anon_send_atom _ _ m) = m"
| "sent_message (Request _ _ m) = m"

text \<open>
  A step that may send messages other than completions and may report errors, and otherwise leaves what
  the runtime keeps as it is.
\<close>

definition frames :: "('h, 't, 'd, 'o) POp \<Rightarrow> ('h, 't, 'd, 'o) POp \<Rightarrow> bool" where
  "frames S S' \<longleftrightarrow>
     op_complete S' = op_complete S \<and> op_consumers S' = op_consumers S \<and> op_name S' = op_name S \<and>
     (operatorMap S' = operatorMap S \<or> operatorMap S' = local_destroyActorHandles (operatorMap S)) \<and>
     (\<exists>as. trace S' = trace S @ as \<and> completions as = [] \<and>
        (error_free as \<longrightarrow> operatorMap S' = operatorMap S \<and> rootActor S' = rootActor S))"

lemma completions_simps [simp]:
  "completions [] = []" "completions (as @ bs) = completions as @ completions bs"
  "completions (a # as) = (if completion a then a # completions as else completions as)"
  by (simp_all add: completions_def)

lemma error_free_simps [simp]:
  "error_free []" "error_free (as @ bs) \<longleftrightarrow> error_free as \<and> error_free bs"
  "error_free (a # as) \<longleftrightarrow> \<not> reports_error a \<and> error_free as"
  by (simp_all add: error_free_def)

lemma action_simps [simp]:
  "completion (Anon_send h (CompleteMessage s))" "\<not> completion (Anon_send h (TupleMessage ts s))"
  "\<not> completion (Anon_send h (ErrorMessage e s))" "\<not> completion (Anon_send_atom h a m)"
  "\<not> completion (Request h a m)" "reports_error (Anon_send h (ErrorMessage e s))"
  "\<not> reports_error (Anon_send h (TupleMessage ts s))" "\<not> reports_error (Anon_send h (CompleteMessage s))"
  "\<not> reports_error (Anon_send_atom h a m)" "\<not> reports_error (Request h a m)"
  by (simp_all add: completion_def reports_error_def)

lemma destroy_idem [simp]:
  "local_destroyActorHandles (local_destroyActorHandles d) = local_destroyActorHandles d"
  by (simp add: local_destroyActorHandles_def comp_def case_prod_beta')

lemma frames_refl [simp]: "frames S S"
  by (simp add: frames_def)

lemma frames_trans:
  assumes "frames S T" and "frames T U"
  shows "frames S U"
proof -
  from assms obtain as bs where
    "trace T = trace S @ as" "completions as = []"
    "error_free as \<longrightarrow> operatorMap T = operatorMap S \<and> rootActor T = rootActor S"
    "trace U = trace T @ bs" "completions bs = []"
    "error_free bs \<longrightarrow> operatorMap U = operatorMap T \<and> rootActor U = rootActor T"
    unfolding frames_def by blast
  then have "\<exists>as. trace U = trace S @ as \<and> completions as = [] \<and>
        (error_free as \<longrightarrow> operatorMap U = operatorMap S \<and> rootActor U = rootActor S)"
    by (intro exI [of _ "as @ bs"]) auto
  with assms show ?thesis unfolding frames_def by auto
qed

lemma frames_notifyError [intro]: "frames S (notifyError e S)"
  by (simp add: frames_def notifyError_def destroyActorHandles_def)

lemma frames_op_fields [intro]: "frames S (S\<lparr>op_fields := f\<rparr>)"
  by (simp add: frames_def)

lemma frames_update_fields: "frames S T \<Longrightarrow> frames S (T\<lparr>op_fields := f\<rparr>)"
  using frames_trans frames_op_fields by blast

lemma frames_emit:
  "\<not> completion a \<Longrightarrow> frames S (emit a S)"
  by (simp add: frames_def)

lemma frames_rfold:
  assumes "rfold f xs S = Inr T" and "\<And>x S T. x \<in> set xs \<Longrightarrow> f x S = Inr T \<Longrightarrow> frames S T"
  shows "frames S T"
proof (rule rfold_invariant [OF assms(1), where P = "frames S"])
  show "frames S U'" if "x \<in> set xs" "frames S U" "f x U = Inr U'" for x U U'
    using assms(2) [OF that(1,3)] frames_trans [OF that(2)] by blast
qed simp

lemma frames_tell:
  assumes "tell msg S = Inr T" and "\<And>h. \<not> completion (Anon_send h msg)"
  shows "frames S T"
proof -
  let ?S1 = "if op_complete S then
      notifyError (''Cannot tell message to consumers, operator '' @ describe S @ '' is complete'') S else S"
  have "frames S ?S1" by auto
  moreover have "frames ?S1 T"
    using assms unfolding tell_def send_to_consumers_def Let_def
    by (elim frames_rfold) (auto simp: send_to_def result_simps intro!: frames_emit)
  ultimately show ?thesis by (rule frames_trans)
qed

lemma frames_send:
  assumes "\<And>h. \<not> completion (Anon_send h msg)"
  shows "frames S (send msg r S)"
proof (cases msg)
  case (DataMessage c d s)
  then show ?thesis
    using assms by (cases "data_type c") (simp_all add: send_def frames_emit frames_notifyError split: sum.splits)
qed (use assms in \<open>simp_all add: send_def frames_emit frames_notifyError split: sum.splits\<close>)

locale completing_operator =
  fixes V :: "('h, 't, 'd, 'o) operator_methods"
    and clear :: "'o \<Rightarrow> 'o"
  assumes other_frames: "onReceive V m S = Inr S' \<Longrightarrow> \<forall>s. m \<noteq> CompleteMessage s \<Longrightarrow> frames S S'"
    and early_frames: "onReceive V (CompleteMessage s) S = Inr S' \<Longrightarrow>
      op_complete S \<or> \<not> local_allComplete Producer (operatorMap S) \<Longrightarrow> frames S S'"
    and last_completes: "onReceive V (CompleteMessage s) S = Inr S' \<Longrightarrow>
      \<not> op_complete S \<Longrightarrow> local_allComplete Producer (operatorMap S) \<Longrightarrow>
      \<exists>T. frames S T \<and> notifyComplete clear T = Inr S'"

text \<open>
  The state of an operator during a run, seen from its start \<open>S0\<close>: which producers have completed,
  whether the operator has, and which completions it has sent.
\<close>

definition announced :: "('h, 't, 'd, 'o) POp \<Rightarrow> ('h, 't, 'd) action list" where
  "announced S0 = to_consumers S0 (CompleteMessage (op_name S0)) @
     [Anon_send (rootActor S0) (CompleteMessage (op_name S0))]"

definition run_inv ::
  "('h, 't, 'd, 'o) POp \<Rightarrow> string set \<Rightarrow> string set \<Rightarrow> bool \<Rightarrow> ('h, 't, 'd, 'o) POp \<Rightarrow> bool" where
  "run_inv S0 M ns b S \<longleftrightarrow>
     local_ok (operatorMap S) \<and> local_members Producer (operatorMap S) = M \<and>
     local_finished Producer (operatorMap S) = ns \<and> connected S \<and> op_complete S = b \<and>
     op_consumers S = op_consumers S0 \<and> op_name S = op_name S0 \<and>
     map sent_message (completions (trace S))
       = (if b then replicate (Suc (length (op_consumers S0))) (CompleteMessage (op_name S0)) else []) \<and>
     (error_free (trace S) \<longrightarrow> handle_of S = handle_of S0 \<and> rootActor S = rootActor S0 \<and>
        completions (trace S) = (if b then announced S0 else []))"

lemma entries_destroy:
  "local_members ty (local_destroyActorHandles d) = local_members ty d"
  "local_finished ty (local_destroyActorHandles d) = local_finished ty d"
  by (force simp: local_members_def local_finished_def entries_with_def local_destroyActorHandles_def)+

lemma connected_cong:
  "op_consumers S = op_consumers T \<Longrightarrow>
   (\<And>c. um_find id c (le_entries (operatorMap S)) = None \<longleftrightarrow> um_find id c (le_entries (operatorMap T)) = None) \<Longrightarrow>
   connected S = connected T"
  unfolding connected_def connected_to_def list_all_iff by simp

lemma run_inv_frames:
  assumes "run_inv S0 M ns b S" and "frames S T"
  shows "run_inv S0 M ns b T"
proof -
  from assms(2) obtain as where as: "trace T = trace S @ as" "completions as = []"
    "error_free as \<longrightarrow> operatorMap T = operatorMap S \<and> rootActor T = rootActor S"
    and f: "operatorMap T = operatorMap S \<or> operatorMap T = local_destroyActorHandles (operatorMap S)"
    "op_complete T = op_complete S" "op_consumers T = op_consumers S" "op_name T = op_name S"
    unfolding frames_def by blast
  have "connected T = connected S"
    by (rule connected_cong) (use f in \<open>auto simp: destroy_find\<close>)
  moreover have "local_ok (operatorMap T) = local_ok (operatorMap S)"
    "local_members Producer (operatorMap T) = local_members Producer (operatorMap S)"
    "local_finished Producer (operatorMap T) = local_finished Producer (operatorMap S)"
    using f(1) by (auto simp: entries_destroy)
  moreover have "handle_of T = handle_of S \<and> rootActor T = rootActor S" if "error_free as"
    using as(3) that by (auto simp: handle_of_def)
  ultimately show ?thesis
    using assms(1) as(1,2) f by (auto simp: run_inv_def)
qed

lemma run_inv_setComplete:
  assumes inv: "run_inv S0 M ns b S" and s: "s \<in> M" and d: "local_setComplete s (operatorMap S) = Inr d"
  shows "run_inv S0 M (insert s ns) b (S\<lparr>operatorMap := d\<rparr>)"
proof -
  have ok: "local_ok (operatorMap S)" using inv by (simp add: run_inv_def)
  from local_setComplete_Inr [OF ok d] obtain e where
    e: "um_find id s (le_entries (operatorMap S)) = Some e"
    "le_entries d = um_assign id s (e\<lparr>le_complete := True\<rparr>) (le_entries (operatorMap S))" by blast
  then have find: "um_find id c (le_entries d)
      = (if c = s then Some (e\<lparr>le_complete := True\<rparr>) else um_find id c (le_entries (operatorMap S)))" for c
    by (simp add: um_find_assign)
  have "connected (S\<lparr>operatorMap := d\<rparr>) = connected S"
    by (rule connected_cong) (auto simp: find e(1))
  moreover have "handle_of (S\<lparr>operatorMap := d\<rparr>) = handle_of S"
    by (auto simp: handle_of_def find e(1))
  ultimately show ?thesis
    using inv s relatives.set_complete_Inr [OF ok d, of Producer] by (simp add: run_inv_def)
qed

lemma sent_to_consumers: "map sent_message (to_consumers S m) = replicate (length (op_consumers S)) m"
  by (simp add: to_consumers_def comp_def map_replicate_const)

lemma completions_to_consumers: "completions (to_consumers S (CompleteMessage n)) = to_consumers S (CompleteMessage n)"
  by (simp add: to_consumers_def completions_def filter_map comp_def)

lemma error_free_to_consumers: "error_free (to_consumers S (CompleteMessage n))"
  by (simp add: to_consumers_def error_free_def list_all_iff)

lemma run_inv_notifyComplete:
  assumes inv: "run_inv S0 M ns False S" and r: "notifyComplete clear S = Inr T"
  shows "run_inv S0 M ns True T"
proof -
  have c: "connected S" "\<not> op_complete S" using inv by (auto simp: run_inv_def)
  from r have T: "T = S\<lparr>trace := trace S @ announced S,
      op_fields := if op_type S = COLLATE then op_fields S else clear (op_fields S), op_complete := True\<rparr>"
    by (simp add: notifyComplete_connected [OF c] announced_def)
  have "completions (announced X) = announced X" "error_free (announced X)" for X :: "('a, 'b, 'c, 'd) POp"
    by (simp_all add: announced_def completions_to_consumers error_free_to_consumers)
  moreover have "map sent_message (announced S) =
      replicate (Suc (length (op_consumers S))) (CompleteMessage (op_name S))"
    by (simp add: announced_def sent_to_consumers replicate_append_same)
  moreover have "connected T = connected S"
    by (rule connected_cong) (auto simp: T)
  moreover have "handle_of T = handle_of S" by (auto simp: T handle_of_def)
  moreover have "announced S = announced S0" if "handle_of S = handle_of S0" "rootActor S = rootActor S0"
    using that inv by (simp add: announced_def to_consumers_def run_inv_def)
  ultimately show ?thesis using inv by (auto simp: run_inv_def T)
qed

fun completed_by :: "('h, 't, 'd) Message list \<Rightarrow> string list" where
  "completed_by [] = []"
| "completed_by (CompleteMessage s # ms) = s # completed_by ms"
| "completed_by (_ # ms) = completed_by ms"

text \<open>
  An operator before its run: its consumers are connected, it has producers, and nothing has happened.
\<close>

definition fresh :: "('h, 't, 'd, 'o) POp \<Rightarrow> bool" where
  "fresh S \<longleftrightarrow> local_ok (operatorMap S) \<and> connected S \<and> \<not> op_complete S \<and> trace S = [] \<and>
     local_members Producer (operatorMap S) \<noteq> {} \<and> local_finished Producer (operatorMap S) = {}"

text \<open>
  After the messages \<open>ms\<close> the operator is complete exactly when all its producers have completed; it has
  then sent one completion to each consumer and one to the root, and none before; and if no error was
  reported, these went to the handles it was connected with, in the order of the consumers' names.
\<close>

definition completes_once ::
  "('h, 't, 'd, 'o) POp \<Rightarrow> ('h, 't, 'd) Message list \<Rightarrow> ('h, 't, 'd, 'o) POp \<Rightarrow> bool" where
  "completes_once S ms S' \<longleftrightarrow>
     (let all_done = (set (completed_by ms) = local_members Producer (operatorMap S));
          msg = CompleteMessage (op_name S)
      in op_complete S' = all_done \<and>
         map sent_message (completions (trace S'))
           = (if all_done then replicate (Suc (length (op_consumers S))) msg else []) \<and>
         (error_free (trace S') \<longrightarrow> completions (trace S')
           = (if all_done then to_consumers S msg @ [Anon_send (rootActor S) msg] else [])))"

context completing_operator
begin

lemma handle_other:
  assumes "run_inv S0 M ns b S" and "handle_message V m S = Inr T" and "\<forall>s. m \<noteq> CompleteMessage s"
  shows "run_inv S0 M ns b T"
proof -
  have "onReceive V m S = Inr T" using assms(2,3) by (cases m) (auto simp: handle_message_def)
  from run_inv_frames [OF assms(1) other_frames [OF this assms(3)]] show ?thesis .
qed

lemma handle_complete:
  assumes inv: "run_inv S0 M ns (ns = M) S" and r: "handle_message V (CompleteMessage s) S = Inr T"
    and s: "s \<in> M - ns"
  shows "run_inv S0 M (insert s ns) (insert s ns = M) T"
proof -
  from inv s have ok: "local_ok (operatorMap S)" and "ns \<noteq> M"
    and m: "s \<in> local_members Producer (operatorMap S)" "s \<notin> local_finished Producer (operatorMap S)"
    by (auto simp: run_inv_def)
  from relatives.set_complete_ok [OF ok m] obtain d where d: "local_setComplete s (operatorMap S) = Inr d"
    by blast
  let ?S = "S\<lparr>operatorMap := d\<rparr>"
  have inv1: "run_inv S0 M (insert s ns) False ?S"
    using run_inv_setComplete [OF inv _ d] s \<open>ns \<noteq> M\<close> by simp
  then have fin: "local_allComplete Producer (operatorMap ?S) \<longleftrightarrow> insert s ns = M" "\<not> op_complete ?S"
    using relatives.all_complete_iff [of d Producer] by (auto simp: run_inv_def)
  have r1: "onReceive V (CompleteMessage s) ?S = Inr T" using r d by (simp add: handle_message_def)
  show ?thesis
  proof (cases "insert s ns = M")
    case True
    with last_completes [OF r1] fin obtain U where "frames ?S U" "notifyComplete clear U = Inr T" by blast
    with run_inv_notifyComplete run_inv_frames [OF inv1] True show ?thesis by (metis (full_types))
  next
    case False
    with early_frames [OF r1] fin run_inv_frames [OF inv1] show ?thesis by simp
  qed
qed

lemma handle_step:
  assumes "run_inv S0 M ns (ns = M) S" and "handle_message V m S = Inr T"
    and "set (completed_by [m]) \<subseteq> M - ns"
  shows "run_inv S0 M (ns \<union> set (completed_by [m])) (ns \<union> set (completed_by [m]) = M) T"
proof (cases "\<exists>s. m = CompleteMessage s")
  case True
  then show ?thesis using assms handle_complete by auto
next
  case False
  then have "completed_by [m] = []" by (cases m) auto
  with False show ?thesis using handle_other [OF assms(1,2)] by simp
qed

lemma completed_by_Cons: "completed_by (m # ms) = completed_by [m] @ completed_by ms"
  by (cases m) auto

lemma replay_inv:
  assumes "run_inv S0 M ns (ns = M) S" and "replay V ms S = Inr T"
    and "distinct (completed_by ms)" and "set (completed_by ms) \<subseteq> M - ns"
  shows "run_inv S0 M (ns \<union> set (completed_by ms)) (ns \<union> set (completed_by ms) = M) T"
  using assms
proof (induction ms arbitrary: ns S)
  case (Cons m ms)
  from Cons.prems(2) obtain U where U: "handle_message V m S = Inr U" "replay V ms U = Inr T"
    by (auto simp: result_simps)
  have sub: "set (completed_by [m]) \<subseteq> M - ns" "distinct (completed_by ms)"
    "set (completed_by ms) \<subseteq> M - (ns \<union> set (completed_by [m]))"
    using Cons.prems(3,4) completed_by_Cons [of m ms] by auto
  from Cons.IH [OF handle_step [OF Cons.prems(1) U(1) sub(1)] U(2) sub(2,3)]
  show ?case using completed_by_Cons [of m ms] by (simp add: Un_assoc)
qed simp

lemma run_completes_once:
  assumes "fresh (opBehaviour A)" and "buffer A = []" and "\<forall>m \<in> set ms. \<not> control m"
    and "distinct (completed_by ms)"
    and "set (completed_by ms) \<subseteq> local_members Producer (operatorMap (opBehaviour A))"
    and run: "POpActor_run V (StartMessage r # ms) A = Inr A'"
  shows "completes_once (opBehaviour A) ms (opBehaviour A')"
proof -
  let ?S = "opBehaviour A" and ?M = "local_members Producer (operatorMap (opBehaviour A))"
  from run obtain S1 where S1: "onReceive V (StartMessage r) ?S = Inr S1"
    "POpActor_run V ms (A\<lparr>running := True, buffer := [], opBehaviour := S1\<rparr>) = Inr A'"
    by (auto simp: POpActor_run_def POpActor_behaviour_def result_simps assms(2))
  then have S': "replay V ms S1 = Inr (opBehaviour A')"
    by (auto simp: run_handles [OF assms(3)] result_simps)
  have "run_inv ?S ?M {} ({} = ?M) ?S"
    using assms(1) by (auto simp: fresh_def run_inv_def)
  then have "run_inv ?S ?M {} ({} = ?M) S1"
    by (rule run_inv_frames) (rule other_frames [OF S1(1)], simp)
  from replay_inv [OF this S' assms(4)] assms(5) show ?thesis
    by (auto simp: run_inv_def completes_once_def announced_def Let_def)
qed

end

text \<open>An operator that never throws, as long as its consumers are connected.\<close>

locale total_operator = completing_operator V clear
  for V :: "('h, 't, 'd, 'o) operator_methods" and clear :: "'o \<Rightarrow> 'o" +
  assumes total: "connected S \<Longrightarrow> \<exists>S'. onReceive V m S = Inr S'"
begin

lemma handle_total:
  assumes "connected S"
  shows "\<exists>T. handle_message V m S = Inr T"
proof (cases "\<exists>s. m = CompleteMessage s")
  case True
  then obtain s where m: "m = CompleteMessage s" by blast
  show ?thesis
  proof (cases "local_setComplete s (operatorMap S)")
    case (Inr d)
    then obtain e where "um_find id s (le_entries (operatorMap S)) = Some e"
      "le_entries d = um_assign id s (e\<lparr>le_complete := True\<rparr>) (le_entries (operatorMap S))"
      by (auto simp: local_setComplete_def Let_def split: option.splits if_splits)
    then have "connected (S\<lparr>operatorMap := d\<rparr>) = connected S"
      by (intro connected_cong) (auto simp: um_find_assign)
    with assms total Inr m show ?thesis by (simp add: handle_message_def)
  qed (simp add: m handle_message_def)
next
  case False
  then show ?thesis using total [OF assms] by (cases m) (auto simp: handle_message_def)
qed

lemma replay_total:
  assumes "run_inv S0 M ns (ns = M) S" and "distinct (completed_by ms)" and "set (completed_by ms) \<subseteq> M - ns"
  shows "\<exists>T. replay V ms S = Inr T"
  using assms
proof (induction ms arbitrary: ns S)
  case (Cons m ms)
  from Cons.prems(1) have "connected S" by (simp add: run_inv_def)
  from handle_total [OF this] obtain U where U: "handle_message V m S = Inr U" by blast
  have "set (completed_by [m]) \<subseteq> M - ns" "distinct (completed_by ms)"
    "set (completed_by ms) \<subseteq> M - (ns \<union> set (completed_by [m]))"
    using Cons.prems(2,3) completed_by_Cons [of m ms] by auto
  with Cons.IH [OF handle_step [OF Cons.prems(1) U]] U show ?case by simp
qed simp

lemma run_total:
  assumes "fresh (opBehaviour A)" and "buffer A = []" and "\<forall>m \<in> set ms. \<not> control m"
    and "distinct (completed_by ms)"
    and "set (completed_by ms) \<subseteq> local_members Producer (operatorMap (opBehaviour A))"
  shows "\<exists>A'. POpActor_run V (StartMessage r # ms) A = Inr A' \<and>
    completes_once (opBehaviour A) ms (opBehaviour A')"
proof -
  let ?S = "opBehaviour A" and ?M = "local_members Producer (operatorMap (opBehaviour A))"
  from assms(1) have "connected ?S" by (simp add: fresh_def)
  from total [OF this] obtain S1 where S1: "onReceive V (StartMessage r) ?S = Inr S1" by blast
  have "run_inv ?S ?M {} ({} = ?M) ?S"
    using assms(1) by (auto simp: fresh_def run_inv_def)
  then have "run_inv ?S ?M {} ({} = ?M) S1"
    by (rule run_inv_frames) (rule other_frames [OF S1(1)], simp)
  from replay_total [OF this assms(4)] assms(5) obtain T where T: "replay V ms S1 = Inr T" by auto
  have "\<exists>A'. POpActor_run V (StartMessage r # ms) A = Inr A'"
    using S1 T run_handles [OF assms(3), of "A\<lparr>running := True, buffer := [], opBehaviour := S1\<rparr>" V] assms(2)
    by (simp add: POpActor_run_def POpActor_behaviour_def)
  with run_completes_once [OF assms] show ?thesis by blast
qed

end

text \<open>An operator that dispatches on the message and completes last is such an operator.\<close>

lemma dispatch_completing:
  assumes "\<And>S T. onStart S = Inr T \<Longrightarrow> frames S T" and "\<And>ts s S T. onTuple ts s S = Inr T \<Longrightarrow> frames S T"
    and "\<And>S T. finish S = Inr T \<Longrightarrow> \<exists>U. frames S U \<and> notifyComplete clear U = Inr T"
  shows "completing_operator \<lparr>onReceive = dispatch onStart onTuple (when_all_complete finish)\<rparr> clear"
proof
  fix m :: "('a, 'b, 'c) Message" and S S' :: "('a, 'b, 'c, 'd) POp"
  assume r: "onReceive \<lparr>onReceive = dispatch onStart onTuple (when_all_complete finish)\<rparr> m S = Inr S'"
  show "frames S S'" if "\<forall>s. m \<noteq> CompleteMessage s"
    using r that assms(1,2) by (cases m) (auto simp: dispatch_def)
next
  fix s and S S' :: "('a, 'b, 'c, 'd) POp"
  assume r: "onReceive \<lparr>onReceive = dispatch onStart onTuple (when_all_complete finish)\<rparr> (CompleteMessage s) S = Inr S'"
  show "frames S S'" if "op_complete S \<or> \<not> local_allComplete Producer (operatorMap S)"
    using r that by (auto simp: dispatch_def when_all_complete_def)
  show "\<exists>T. frames S T \<and> notifyComplete clear T = Inr S'"
    if "\<not> op_complete S" "local_allComplete Producer (operatorMap S)"
    using r that assms(3) by (auto simp: dispatch_def when_all_complete_def)
qed

lemma notifyComplete_total: "connected S \<Longrightarrow> \<exists>T. notifyComplete clear S = Inr T"
proof (cases "op_complete S")
  case True
  assume "connected S"
  then have "connected (notifyError e S)" for e by simp
  with True show ?thesis by (simp add: notifyComplete_def Let_def send_to_consumers_connected)
qed (simp add: notifyComplete_connected)

lemma dispatch_total:
  assumes "\<And>S. connected S \<Longrightarrow> \<exists>T. onStart S = Inr T" and "\<And>ts s S. connected S \<Longrightarrow> \<exists>T. onTuple ts s S = Inr T"
    and "\<And>S. connected S \<Longrightarrow> \<exists>T. finish S = Inr T" and "connected S"
  shows "\<exists>T. dispatch onStart onTuple (when_all_complete finish) m S = Inr T"
  using assms by (cases m) (auto simp: dispatch_def when_all_complete_def)

section \<open>Operators that only pass completion on\<close>

text \<open>Collate: what it would collect is commented out, so \<open>tuples_\<close> is never set.\<close>

record 't Collate =
  co_tuples :: "'t TupleSet option"
  co_tables :: "'t list"

definition Collate_clear :: "'t Collate \<Rightarrow> 't Collate" where
  "Collate_clear c = c\<lparr>co_tuples := None, co_tables := []\<rparr>"

definition Collate_onStart :: "('h, 't, 'd, 't Collate) handler" where
  "Collate_onStart S = Inr S"

definition Collate_onTuple :: "'t TupleSet option \<Rightarrow> string \<Rightarrow> ('h, 't, 'd, 't Collate) handler" where
  "Collate_onTuple ts s S = Inr S"

definition Collate_onComplete :: "('h, 't, 'd, 't Collate) handler" where
  "Collate_onComplete = when_all_complete (notifyComplete Collate_clear)"

definition CollatePOp :: "('h, 't, 'd, 't Collate) operator_methods" where
  "CollatePOp = \<lparr>onReceive = dispatch Collate_onStart Collate_onTuple Collate_onComplete\<rparr>"

text \<open>\<open>tuples()\<close> asserts that \<open>tuples_\<close> has been set.\<close>

definition Collate_tuples :: "'t Collate \<Rightarrow> 't TupleSet result" where
  "Collate_tuples c = (case co_tuples c of Some ts \<Rightarrow> Inr ts
     | None \<Rightarrow> Inl (UndefinedBehaviour ''assertion failed: tuples_''))"

text \<open>Sort: the calls of \<open>buffer\<close> and \<open>sort\<close> are commented out; the two methods are still there.\<close>

datatype SortOrder = ASCENDING | DESCENDING

record SortKey =
  sk_name :: string
  sk_order :: SortOrder

record ('t, 'i) arrow_compute =
  SortIndices :: "'t \<Rightarrow> (string \<times> SortOrder) list \<Rightarrow> string + 'i"
  SelectKUnstable :: "'t \<Rightarrow> 64 word \<times> (string \<times> SortOrder) list \<Rightarrow> string + 'i"
  Take :: "'t \<Rightarrow> 'i \<Rightarrow> string + 't"

record 't Sort =
  so_sortKeys :: "SortKey list"
  so_arrowSortOptions :: "(string \<times> SortOrder) list option"
  so_buffer :: "'t TupleSet option"

definition Sort_clear :: "'t Sort \<Rightarrow> 't Sort" where
  "Sort_clear st = st\<lparr>so_buffer := None\<rparr>"

definition Sort_onStart :: "('h, 't, 'd, 't Sort) handler" where
  "Sort_onStart S = Inr S"

definition Sort_onTuple :: "'t TupleSet option \<Rightarrow> string \<Rightarrow> ('h, 't, 'd, 't Sort) handler" where
  "Sort_onTuple ts s S = Inr S"

definition Sort_onComplete :: "('h, 't, 'd, 't Sort) handler" where
  "Sort_onComplete = when_all_complete (notifyComplete Sort_clear)"

definition SortPOp :: "('h, 't, 'd, 't Sort) operator_methods" where
  "SortPOp = \<lparr>onReceive = dispatch Sort_onStart Sort_onTuple Sort_onComplete\<rparr>"

definition arrow_keys :: "SortKey list \<Rightarrow> (string \<times> SortOrder) list" where
  "arrow_keys keys = map (\<lambda>k. (sk_name k, if sk_order k = ASCENDING then ASCENDING else DESCENDING)) keys"

definition makeArrowSortOptions :: "'t Sort \<Rightarrow> 't Sort" where
  "makeArrowSortOptions st =
     (if so_arrowSortOptions st = None then st\<lparr>so_arrowSortOptions := Some (arrow_keys (so_sortKeys st))\<rparr>
      else st)"

definition Sort_buffer :: "('t, 'a) arrow \<Rightarrow> 't TupleSet \<Rightarrow> ('h, 't, 'd, 't Sort) handler" where
  "Sort_buffer A tupleSet S =
     (case so_buffer (op_fields S) of
        None \<Rightarrow> Inr (S\<lparr>op_fields := (op_fields S)\<lparr>so_buffer := Some tupleSet\<rparr>\<rparr>)
      | Some b \<Rightarrow>
          rbind (TupleSet_concatenate A [b, tupleSet]) (\<lambda>r.
            case r of
              Inl e \<Rightarrow> Inl (BadExpectedAccess e)
            | Inr ts \<Rightarrow> Inr (S\<lparr>op_fields := (op_fields S)\<lparr>so_buffer := Some ts\<rparr>\<rparr>)))"

text \<open>\<open>*\<close> of a failed Arrow result ends the program.\<close>

fun result_or_die :: "string + 'b \<Rightarrow> 'b result" where
  "result_or_die (Inl e) = Inl (RuntimeError e)"
| "result_or_die (Inr x) = Inr x"

definition Sort_sort ::
  "('t, 'a) arrow \<Rightarrow> ('t, 'i) arrow_compute \<Rightarrow> 't Sort \<Rightarrow> ('t TupleSet \<times> 't Sort) result" where
  "Sort_sort A C st =
     (case so_buffer st of
        None \<Rightarrow> Inr (Some (Table_Make A []), st)
      | Some b \<Rightarrow>
          let st' = makeArrowSortOptions st
          in rbind (deref_table b) (\<lambda>table.
               if num_rows A table = 0 then Inr (b, st')
               else case so_arrowSortOptions st' of
                 None \<Rightarrow> Inl (UndefinedBehaviour ''empty optional dereferenced'')
               | Some opts \<Rightarrow>
                   rbind (result_or_die (SortIndices C table opts)) (\<lambda>sortIndices.
                   rbind (result_or_die (Take C table sortIndices)) (\<lambda>t. Inr (Some t, st')))))"

text \<open>Project and Aggregate, without their unused helpers.\<close>

record 't Project =
  pj_tuples :: "'t TupleSet option"

definition Project_clear :: "'t Project \<Rightarrow> 't Project" where
  "Project_clear st = st\<lparr>pj_tuples := None\<rparr>"

definition Project_onTuple :: "'t TupleSet option \<Rightarrow> string \<Rightarrow> ('h, 't, 'd, 't Project) handler" where
  "Project_onTuple ts s S = Inr S"

definition Project_onComplete :: "('h, 't, 'd, 't Project) handler" where
  "Project_onComplete = when_all_complete (notifyComplete Project_clear)"

definition ProjectPOp :: "('h, 't, 'd, 't Project) operator_methods" where
  "ProjectPOp = \<lparr>onReceive = dispatch Inr Project_onTuple Project_onComplete\<rparr>"

record ('f, 'r) Aggregate =
  ag_functions :: "'f list"
  ag_aggregateResults :: "'r list list"

definition Aggregate_make :: "'f list \<Rightarrow> ('f, 'r) Aggregate" where
  "Aggregate_make functions =
     \<lparr>ag_functions = functions, ag_aggregateResults = map (\<lambda>f. []) functions\<rparr>"

definition Aggregate_clear :: "('f, 'r) Aggregate \<Rightarrow> ('f, 'r) Aggregate" where
  "Aggregate_clear st = st\<lparr>ag_aggregateResults := []\<rparr>"

definition Aggregate_onTuple :: "'t TupleSet option \<Rightarrow> string \<Rightarrow> ('h, 't, 'd, ('f, 'r) Aggregate) handler" where
  "Aggregate_onTuple ts s S = Inr S"

definition Aggregate_onComplete :: "('h, 't, 'd, ('f, 'r) Aggregate) handler" where
  "Aggregate_onComplete = when_all_complete (notifyComplete Aggregate_clear)"

definition AggregatePOp :: "('h, 't, 'd, ('f, 'r) Aggregate) operator_methods" where
  "AggregatePOp = \<lparr>onReceive = dispatch Inr Aggregate_onTuple Aggregate_onComplete\<rparr>"

lemma passing_on_total:
  assumes "\<And>S. onStart S = Inr S" and "\<And>ts s S. onTuple ts s S = Inr S"
  shows "total_operator \<lparr>onReceive = dispatch onStart onTuple (when_all_complete (notifyComplete clear))\<rparr> clear"
proof (rule total_operator.intro)
  show "completing_operator \<lparr>onReceive = dispatch onStart onTuple (when_all_complete (notifyComplete clear))\<rparr> clear"
    by (rule dispatch_completing) (auto simp: assms intro: frames_refl)
  show "total_operator_axioms \<lparr>onReceive = dispatch onStart onTuple (when_all_complete (notifyComplete clear))\<rparr>"
    by standard (simp, rule dispatch_total, simp_all add: assms notifyComplete_total)
qed

interpretation collate: total_operator CollatePOp Collate_clear
  unfolding CollatePOp_def Collate_onComplete_def
  by (rule passing_on_total) (simp_all add: Collate_onStart_def Collate_onTuple_def)

interpretation sort_op: total_operator SortPOp Sort_clear
  unfolding SortPOp_def Sort_onComplete_def
  by (rule passing_on_total) (simp_all add: Sort_onStart_def Sort_onTuple_def)

interpretation project: total_operator ProjectPOp Project_clear
  unfolding ProjectPOp_def Project_onComplete_def
  by (rule passing_on_total) (simp_all add: Project_onTuple_def)

interpretation aggregate: total_operator AggregatePOp Aggregate_clear
  unfolding AggregatePOp_def Aggregate_onComplete_def
  by (rule passing_on_total) (simp_all add: Aggregate_onTuple_def)

text \<open>
  C23.  Started with its consumers connected, the collate operator handles every sequence of messages in
  which no producer completes twice.  It is complete exactly when all its producers have completed; then
  it has sent one completion to each consumer and one to the root, and none before; if it has reported
  no error these went to the actors it was connected with, in the order of their names.
\<close>

theorem collate_completes_once:
  fixes A :: "('h, 't, 'd, 't Collate) POpActor"
  assumes "fresh (opBehaviour A)" and "buffer A = []" and "\<forall>m \<in> set ms. \<not> control m"
    and "distinct (completed_by ms)"
    and "set (completed_by ms) \<subseteq> local_members Producer (operatorMap (opBehaviour A))"
  shows "\<exists>A'. POpActor_run CollatePOp (StartMessage r # ms) A = Inr A' \<and>
    completes_once (opBehaviour A) ms (opBehaviour A')"
  by (rule collate.run_total [OF assms])

definition sample_collate :: "(nat, list_table, unit, list_table Collate) POp" where
  "sample_collate = \<lparr>op_name = ''m'', op_type = COLLATE, projectColumnNames = [''k''], op_consumers = [''c''],
     op_producers = [''a'', ''b''], op_fields = \<lparr>co_tuples = None, co_tables = []\<rparr>,
     operatorMap = sample_directory, rootActor = Some 0, segmentCacheActor = None, deltaCacheActor = None,
     op_complete = False, actor_id = 3, actor_name = ''m'', trace = []\<rparr>"

lemma sample_collate_fresh:
  "fresh sample_collate" "local_members Producer (operatorMap sample_collate) = {''a'', ''b''}"
proof -
  have "connected sample_collate" by code_simp
  then show "fresh sample_collate"
    using local_reachable_ok [OF sample_directory_reachable]
    by (simp add: fresh_def sample_collate_def local_members_def local_finished_def entries_with_filter
        sample_directory_def sample_entry_def)
  show "local_members Producer (operatorMap sample_collate) = {''a'', ''b''}"
    by (simp add: sample_collate_def local_members_def entries_with_filter sample_directory_def sample_entry_def)
qed

theorem collate_completes_once_witness:
  "\<exists>A'. POpActor_run CollatePOp [StartMessage ''r'', CompleteMessage ''b'', TupleMessage None ''a'', CompleteMessage ''a'']
       \<lparr>running = False, buffer = [], opBehaviour = sample_collate\<rparr> = Inr A' \<and> op_complete (opBehaviour A')"
proof -
  let ?ms = "[CompleteMessage ''b'', TupleMessage None ''a'', CompleteMessage ''a'']"
  have "\<exists>A'. POpActor_run CollatePOp (StartMessage ''r'' # ?ms)
       \<lparr>running = False, buffer = [], opBehaviour = sample_collate\<rparr> = Inr A' \<and>
     completes_once sample_collate ?ms (opBehaviour A')"
    using collate_completes_once [of "\<lparr>running = False, buffer = [], opBehaviour = sample_collate\<rparr>" ?ms "''r''"]
      sample_collate_fresh by (simp add: control_def)
  then show ?thesis
    using sample_collate_fresh(2) by (auto simp: completes_once_def Let_def insert_commute)
qed

text \<open>What \<open>notifyComplete\<close> does to the fields of the operator.\<close>

lemma notifyComplete_fields:
  assumes "notifyComplete clear S = Inr T"
  shows "op_fields T = op_fields S \<or> op_fields T = clear (op_fields S)"
proof -
  have "rfold (send_to m) cs U = Inr W \<Longrightarrow> op_fields W = op_fields U" for m cs U W
    by (rule rfold_invariant [where P = "\<lambda>T. op_fields T = op_fields U"]) (auto simp: send_to_def result_simps)
  with assms show ?thesis
    by (fastforce simp: notifyComplete_def send_to_consumers_def result_simps Let_def split: if_splits)
qed

lemma connect_fields: "op_fields (connect c S) = op_fields S"
  by (simp add: connect_def Let_def split: sum.splits)

lemma fold_connect_fields: "op_fields (fold connect cs S) = op_fields S"
  by (induction cs arbitrary: S) (simp_all add: connect_fields)

text \<open>A property of the fields that every message keeps holds after every run.\<close>

lemma run_fields_inv:
  assumes "POpActor_run V ms A = Inr A'" and "P (op_fields (opBehaviour A))"
    and step: "\<And>m S T. onReceive V m S = Inr T \<Longrightarrow> P (op_fields S) \<Longrightarrow> P (op_fields T)"
  shows "P (op_fields (opBehaviour A'))"
proof -
  have handle: "P (op_fields T)" if "handle_message V m S = Inr T" "P (op_fields S)" for m S T
    using that step by (cases m) (auto simp: handle_message_def split: sum.splits)
  then have replay: "P (op_fields T)" if "replay V items S = Inr T" "P (op_fields S)" for items S T
    using that by (induction items arbitrary: S) (auto simp: result_simps)
  show ?thesis
    using assms(1) unfolding POpActor_run_def
  proof (rule rfold_invariant [where P = "\<lambda>A. P (op_fields (opBehaviour A))"])
    fix m and B B' :: "('a, 'b, 'c, 'd) POpActor"
    assume "P (op_fields (opBehaviour B))" "POpActor_behaviour V m B = Inr B'"
    then show "P (op_fields (opBehaviour B'))"
      using handle replay step
      by (cases m) (auto simp: POpActor_behaviour_def result_simps fold_connect_fields split: if_splits)
  qed (rule assms(2))
qed

text \<open>
  Whatever messages the collate operator receives, the tuples it is asked for at the end of a query
  have never been set, so that \<open>tuples()\<close> fails its assertion.
\<close>

theorem collate_result_never_set:
  assumes "POpActor_run CollatePOp ms A = Inr A'" and "co_tuples (op_fields (opBehaviour A)) = None"
  shows "Collate_tuples (op_fields (opBehaviour A')) = Inl (UndefinedBehaviour ''assertion failed: tuples_'')"
proof -
  have "co_tuples (op_fields (opBehaviour A')) = None"
    using assms
  proof (rule run_fields_inv [where P = "\<lambda>f. co_tuples f = None"])
    fix m and S T :: "('a, 'b, 'c, 'b Collate) POp"
    assume "onReceive CollatePOp m S = Inr T" "co_tuples (op_fields S) = None"
    then show "co_tuples (op_fields T) = None"
      using notifyComplete_fields [of Collate_clear S T]
      by (cases m) (auto simp: CollatePOp_def dispatch_def Collate_onStart_def Collate_onTuple_def
          Collate_onComplete_def when_all_complete_def Collate_clear_def split: if_splits)
  qed
  then show ?thesis by (simp add: Collate_tuples_def)
qed

theorem collate_result_never_set_witness:
  "\<exists>A'. POpActor_run CollatePOp [StartMessage ''r'', TupleMessage (Some (Some sample_table)) ''a'']
       \<lparr>running = False, buffer = [], opBehaviour = sample_collate\<rparr> = Inr A' \<and>
     Collate_tuples (op_fields (opBehaviour A')) = Inl (UndefinedBehaviour ''assertion failed: tuples_'')"
proof -
  let ?ms = "[StartMessage ''r'', TupleMessage (Some (Some sample_table)) ''a'']"
    and ?A = "\<lparr>running = False, buffer = [], opBehaviour = sample_collate\<rparr>"
  have "\<exists>A'. POpActor_run CollatePOp ?ms ?A = Inr A'"
    by (simp add: POpActor_run_def POpActor_behaviour_def CollatePOp_def dispatch_def handle_message_def
        Collate_onStart_def Collate_onTuple_def)
  then obtain A' where "POpActor_run CollatePOp ?ms ?A = Inr A'" by blast
  with collate_result_never_set [OF this] show ?thesis by (simp add: sample_collate_def)
qed

section \<open>Sending to a connected operator\<close>

lemma send_connected:
  "connected_to S c \<Longrightarrow> c \<noteq> ''SegmentCache'' \<Longrightarrow> c \<noteq> ''DeltaCache'' \<Longrightarrow>
   send msg c S = emit (Anon_send (handle_of S c) msg) S"
  by (auto simp: send_def connected_to_def handle_of_def local_get_def split: option.splits)

lemma emit_connected [simp]:
  "connected_to (emit a S) c = connected_to S c" "handle_of (emit a S) c = handle_of S c"
  "connected (emit a S) = connected S" "op_complete (emit a S) = op_complete S"
  "op_fields (emit a S) = op_fields S" "op_name (emit a S) = op_name S"
  "projectColumnNames (emit a S) = projectColumnNames S" "segmentCacheActor (emit a S) = segmentCacheActor S"
  "announced (emit a S) = announced S" "rootActor (emit a S) = rootActor S" "op_consumers (emit a S) = op_consumers S"
  by (simp_all add: emit_def connected_to_def handle_of_def connected_def announced_def to_consumers_def list_all_iff)

lemma notifyComplete_announced:
  "connected S \<Longrightarrow> \<not> op_complete S \<Longrightarrow>
   \<exists>T. notifyComplete clear S = Inr T \<and> trace T = trace S @ announced S"
  by (simp add: notifyComplete_connected announced_def)

end
