(* ===== verification/Split_Operator.thy ===== *)
theory Split_Operator
  imports Operators
begin

text \<open>
  The split operator (\<^verbatim>\<open>split/SplitPOp.cpp\<close>): it buffers tuple sets and, when there are enough rows
  or its producers are complete, cuts every column into as many pieces as it has consumers and sends the
  \<open>i\<close>-th pieces of the columns to the \<open>i\<close>-th consumer.

  The calls on Arrow's arrays are the fields of the record \<open>arrow_arrays\<close>.  The operator takes chunk 0
  of every column of the combined table; a column without rows may have no chunk, and then that is
  undefined.
\<close>

section \<open>The operator\<close>

record 'a arrow_arrays =
  array_Slice :: "'a \<Rightarrow> nat \<Rightarrow> nat option \<Rightarrow> 'a"
  first_chunk :: "'a \<Rightarrow> 'a option"

record 't Split =
  consumerVec :: "string list"
  inputTupleSet :: "'t TupleSet option"

definition DefaultBufferSize :: nat where
  "DefaultBufferSize = 10000"

definition Split_clear :: "'t Split \<Rightarrow> 't Split" where
  "Split_clear st = st\<lparr>inputTupleSet := None\<rparr>"

definition Split_produce :: "string \<Rightarrow> ('h, 't, 'd, 't Split) POp \<Rightarrow> ('h, 't, 'd, 't Split) POp" where
  "Split_produce n S =
     (let S1 = PhysicalOp_produce n S
      in S1\<lparr>op_fields := (op_fields S1)\<lparr>consumerVec := consumerVec (op_fields S1) @ [n]\<rparr>\<rparr>)"

text \<open>\<open>bufferInput\<close> returns an error of \<open>append\<close>, and then keeps the buffer as it is.\<close>

definition bufferInput ::
  "('t, 'a) arrow \<Rightarrow> 't TupleSet \<Rightarrow> 't Split \<Rightarrow> (string option \<times> 't Split) result" where
  "bufferInput A tupleSet st =
     (case inputTupleSet st of
        None \<Rightarrow> Inr (None, st\<lparr>inputTupleSet := Some tupleSet\<rparr>)
      | Some input \<Rightarrow>
          rbind (TupleSet_append A [tupleSet] input) (\<lambda>(e, input').
            Inr (e, st\<lparr>inputTupleSet := Some input'\<rparr>)))"

definition splitArray :: "('t, 'a) arrow \<Rightarrow> 'a arrow_arrays \<Rightarrow> 'a \<Rightarrow> nat \<Rightarrow> 'a list result" where
  "splitArray A X array n =
     (if n = 0 then Inl (UndefinedBehaviour ''division by zero'')
      else
        let splitSize = array_length A array div n
        in Inr (map (\<lambda>i. let offset = i * splitSize
                         in if i < n - 1 then array_Slice X array offset (Some splitSize)
                            else array_Slice X array offset None) [0..<n]))"

definition split_column :: "('t, 'a) arrow \<Rightarrow> 'a arrow_arrays \<Rightarrow> nat \<Rightarrow> 'a \<Rightarrow> 'a list result" where
  "split_column A X n column =
     (case first_chunk X column of
        None \<Rightarrow> Inl (UndefinedBehaviour ''chunk(0) of a column without chunks'')
      | Some inputArray \<Rightarrow> splitArray A X inputArray n)"

definition Split_split ::
  "('t, 'a) arrow \<Rightarrow> 'a arrow_arrays \<Rightarrow> 't Split \<Rightarrow> (string + 't TupleSet list) result" where
  "Split_split A X st =
     (case inputTupleSet st of
        None \<Rightarrow> Inr (Inl ''No input tupleSet to split'')
      | Some input \<Rightarrow>
          rbind (deref_table input) (\<lambda>inputTable.
            case CombineChunks A inputTable of
              Inl e \<Rightarrow> Inr (Inl e)
            | Inr combinedTable \<Rightarrow>
                let n = length (consumerVec st);
                    columns = map (table_column A combinedTable) [0..<num_columns A combinedTable]
                in rbind (rmap (split_column A X n) columns) (\<lambda>splits.
                     Inr (Inr (map (\<lambda>i. Some (Table_Make A
                       (zip (field_names A inputTable) (map (\<lambda>s. s ! i) splits)))) [0..<n])))))"

definition Split_send :: "'t TupleSet list \<Rightarrow> ('h, 't, 'd, 't Split) POp \<Rightarrow> ('h, 't, 'd, 't Split) POp" where
  "Split_send tupleSets S =
     fold (\<lambda>(consumer, ts). send (TupleMessage (Some ts) (op_name S)) consumer)
       (zip (consumerVec (op_fields S)) tupleSets) S"

text \<open>The callers of \<open>splitAndSend\<close> ignore its error.\<close>

definition splitAndSend :: "('t, 'a) arrow \<Rightarrow> 'a arrow_arrays \<Rightarrow> ('h, 't, 'd, 't Split) handler" where
  "splitAndSend A X S =
     rbind (Split_split A X (op_fields S)) (\<lambda>e. case e of
       Inl _ \<Rightarrow> Inr S
     | Inr tupleSets \<Rightarrow>
         let S1 = Split_send tupleSets S in Inr (S1\<lparr>op_fields := Split_clear (op_fields S1)\<rparr>))"

definition buffered_rows :: "('t, 'a) arrow \<Rightarrow> 't Split \<Rightarrow> nat option" where
  "buffered_rows A st = map_option (TupleSet_numRows A) (inputTupleSet st)"

definition Split_onStart :: "('h, 't, 'd, 't Split) handler" where
  "Split_onStart S = Inr S"

definition Split_onTuple ::
  "('t, 'a) arrow \<Rightarrow> 'a arrow_arrays \<Rightarrow> 't TupleSet \<Rightarrow> string \<Rightarrow> ('h, 't, 'd, 't Split) handler" where
  "Split_onTuple A X tupleSet sndr S =
     (if TupleSet_numRows A tupleSet = 0 then Inr S
      else rbind (bufferInput A tupleSet (op_fields S)) (\<lambda>(e, st).
        let S1 = S\<lparr>op_fields := st\<rparr>;
            S2 = (case e of Some msg \<Rightarrow> notifyError msg S1 | None \<Rightarrow> S1)
        in case buffered_rows A (op_fields S2) of
             Some rows \<Rightarrow>
               if rows \<ge> DefaultBufferSize * length (consumerVec (op_fields S2)) then splitAndSend A X S2
               else Inr S2
           | None \<Rightarrow> Inr S2))"

definition Split_finish :: "('t, 'a) arrow \<Rightarrow> 'a arrow_arrays \<Rightarrow> ('h, 't, 'd, 't Split) handler" where
  "Split_finish A X S =
     rbind (case buffered_rows A (op_fields S) of
              Some rows \<Rightarrow> if rows > 0 then splitAndSend A X S else Inr S
            | None \<Rightarrow> Inr S)
       (notifyComplete Split_clear)"

definition Split_onComplete :: "('t, 'a) arrow \<Rightarrow> 'a arrow_arrays \<Rightarrow> ('h, 't, 'd, 't Split) handler" where
  "Split_onComplete A X = when_all_complete (Split_finish A X)"

text \<open>
  \<open>onReceive\<close> has its own message for other types: its format string has two fields and one argument,
  so that formatting it throws.
\<close>

definition Split_onReceive ::
  "('t, 'a) arrow \<Rightarrow> 'a arrow_arrays \<Rightarrow> ('h, 't, 'd) Message \<Rightarrow> ('h, 't, 'd, 't Split) handler" where
  "Split_onReceive A X msg S =
     (case msg of
        StartMessage _ \<Rightarrow> Split_onStart S
      | TupleMessage p s \<Rightarrow> with_tuples (Split_onTuple A X) p s S
      | CompleteMessage _ \<Rightarrow> Split_onComplete A X S
      | _ \<Rightarrow> Inl (RuntimeError ''argument not found''))"

definition SplitPOp :: "('t, 'a) arrow \<Rightarrow> 'a arrow_arrays \<Rightarrow> ('h, 't, 'd, 't Split) operator_methods" where
  "SplitPOp A X = \<lparr>onReceive = Split_onReceive A X\<rparr>"

section \<open>What is relied on of Arrow's arrays\<close>

definition array_values :: "('t, 'a) arrow \<Rightarrow> 'a \<Rightarrow> arrow_scalar list" where
  "array_values A a = map (array_value A a) [0..<array_length A a]"

definition arrays_ok :: "('t, 'a) arrow \<Rightarrow> 'a arrow_arrays \<Rightarrow> bool" where
  "arrays_ok A X \<longleftrightarrow>
     (\<forall>a off len. off + len \<le> array_length A a \<longrightarrow>
        array_values A (array_Slice X a off (Some len)) = take len (drop off (array_values A a))) \<and>
     (\<forall>a off. off \<le> array_length A a \<longrightarrow> array_values A (array_Slice X a off None) = drop off (array_values A a))"

text \<open>
  \<open>CombineChunks\<close> keeps the fields and the values: chunk 0 of a column of the result has all values of
  the column, and only a column without values may have no chunk.
\<close>

definition combine_ok :: "('t, 'a) arrow \<Rightarrow> 'a arrow_arrays \<Rightarrow> bool" where
  "combine_ok A X \<longleftrightarrow>
     (\<forall>t u. CombineChunks A t = Inr u \<longrightarrow> field_names A u = field_names A t \<and>
        (\<forall>c < length (field_names A t). case first_chunk X (table_column A u c) of
           None \<Rightarrow> array_values A (table_column A t c) = []
         | Some a \<Rightarrow> array_values A a = array_values A (table_column A t c)))"

definition list_arrays :: "(type_id \<times> arrow_scalar list) arrow_arrays" where
  "list_arrays = \<lparr>array_Slice = (\<lambda>(ty, vs) off len.
       (ty, case len of None \<Rightarrow> drop off vs | Some l \<Rightarrow> take l (drop off vs))), first_chunk = (\<lambda>(ty, vs). if vs = [] then None else Some (ty, vs))\<rparr>"

lemma list_values: "array_values list_arrow (ty, vs) = vs"
  by (simp add: array_values_def list_arrow_def map_nth)

lemma list_arrays_ok: "arrays_ok list_arrow list_arrays"
  by (auto simp: arrays_ok_def list_arrays_def list_values)

lemma list_combine_ok: "combine_ok list_arrow list_arrays"
proof -
  have "CombineChunks list_arrow = Inr" by (simp add: list_arrow_def)
  moreover have "case first_chunk list_arrays a of None \<Rightarrow> array_values list_arrow a = []
      | Some b \<Rightarrow> array_values list_arrow b = array_values list_arrow a" for a
    by (cases a) (simp add: list_arrays_def list_values)
  ultimately show ?thesis by (simp add: combine_ok_def)
qed

section \<open>Nothing is lost by splitting\<close>

lemma array_values_length [simp]: "length (array_values A a) = array_length A a"
  by (simp add: array_values_def)

lemma concat_take_pieces:
  "k * m \<le> length xs \<Longrightarrow> concat (map (\<lambda>i. take m (drop (i * m) xs)) [0..<k]) = take (k * m) xs"
proof (induction k)
  case (Suc k)
  then have "k * m + m \<le> length xs" by simp
  with Suc show ?case using take_add [of "k * m" m xs] by (simp add: add.commute)
qed simp

lemma splitArray_pieces:
  assumes "arrays_ok A X" and "0 < n"
  shows "\<exists>ps. splitArray A X a n = Inr ps \<and> length ps = n \<and>
    concat (map (array_values A) ps) = array_values A a \<and>
    (\<forall>i < n. length (array_values A (ps ! i)) = (let m = array_length A a div n in
       if i < n - 1 then m else array_length A a - (n - 1) * m))"
proof -
  let ?m = "array_length A a div n" and ?v = "array_values A a"
  have n: "[0..<n] = [0..<n - 1] @ [n - 1]" using assms(2) by (metis Suc_diff_1 less_eq_nat.simps(1) upt_Suc_append)
  have fit: "(n - 1) * ?m \<le> array_length A a"
    by (meson diff_le_self dual_order.trans mult_le_mono1 times_div_less_eq_dividend)
  have piece: "array_values A (array_Slice X a (i * ?m) (Some ?m)) = take ?m (drop (i * ?m) ?v)" if "i < n - 1" for i
  proof -
    have "i * ?m + ?m \<le> (n - 1) * ?m" using that by (metis add.commute mult_Suc mult_le_mono1 Suc_leI)
    from order_trans [OF this fit]
    have "i * ?m + ?m \<le> array_length A a" .
    with assms(1) show ?thesis by (simp add: arrays_ok_def)
  qed
  have last: "array_values A (array_Slice X a ((n - 1) * ?m) None) = drop ((n - 1) * ?m) ?v"
    using assms(1) fit by (simp add: arrays_ok_def)
  let ?ps = "map (\<lambda>i. if i < n - 1 then array_Slice X a (i * ?m) (Some ?m) else array_Slice X a (i * ?m) None) [0..<n]"
  have "concat (map (array_values A) ?ps)
      = concat (map (\<lambda>i. take ?m (drop (i * ?m) ?v)) [0..<n - 1]) @ drop ((n - 1) * ?m) ?v"
    unfolding n using piece last by (auto intro!: arg_cong [where f = concat] map_cong)
  also have "\<dots> = ?v"
    using concat_take_pieces [of "n - 1" ?m ?v] fit by simp
  finally have "concat (map (array_values A) ?ps) = ?v" .
  moreover have "length (array_values A (?ps ! i)) = (if i < n - 1 then ?m else array_length A a - (n - 1) * ?m)"
    if "i < n" for i
  proof (cases "i < n - 1")
    case True
    have "i * ?m + ?m \<le> (n - 1) * ?m" using True by (metis add.commute mult_Suc mult_le_mono1 Suc_leI)
    with fit have "?m \<le> array_length A a - i * ?m" by simp
    with True that piece [OF True] show ?thesis
      by (simp del: array_values_length) simp
  next
    case False
    with that have "i = n - 1" by simp
    with that last show ?thesis by (simp del: array_values_length) simp
  qed
  ultimately show ?thesis
    using assms(2) by (intro exI [of _ ?ps]) (simp add: splitArray_def Let_def del: array_values_length)
qed

lemma rmap_split_column:
  assumes "arrays_ok A X" and "0 < n" and "\<forall>c \<in> set cs. first_chunk X c = Some (g c)"
  shows "\<exists>splits. rmap (split_column A X n) cs = Inr splits \<and> length splits = length cs \<and>
    (\<forall>j < length cs. splitArray A X (g (cs ! j)) n = Inr (splits ! j) \<and> length (splits ! j) = n)"
  using assms(3)
proof (induction cs)
  case (Cons c cs)
  then obtain splits where s: "rmap (split_column A X n) cs = Inr splits" "length splits = length cs"
    "\<forall>j < length cs. splitArray A X (g (cs ! j)) n = Inr (splits ! j) \<and> length (splits ! j) = n" by auto
  from splitArray_pieces [OF assms(1,2)] obtain ps where
    "splitArray A X (g c) n = Inr ps" "length ps = n" by blast
  moreover from this Cons.prems have "split_column A X n c = Inr ps" by (simp add: split_column_def)
  ultimately show ?case using s
    by (intro exI [of _ "ps # splits"]) (auto simp: nth_Cons split: nat.splits)
qed simp

text \<open>
  C28.  Splitting a buffered table that has rows among \<open>n > 0\<close> consumers gives \<open>n\<close> tables with the same
  fields, whose columns, put together again in the order of the consumers, are the columns of the buffered
  table; and all columns are cut at the same rows, so that every row goes to one consumer as a whole.
\<close>

theorem split_keeps_every_row:
  assumes "arrow_ok A" and "arrays_ok A X" and "combine_ok A X" and "consumerVec st \<noteq> []"
    and "inputTupleSet st = Some (Some t)" and "CombineChunks A t = Inr u" and "0 < num_rows A t"
    and "\<forall>c < length (field_names A t). array_length A (table_column A t c) = num_rows A t"
  shows "\<exists>outs. Split_split A X st = Inr (Inr (map Some outs)) \<and> length outs = length (consumerVec st) \<and>
    (\<forall>p \<in> set outs. field_names A p = field_names A t) \<and>
    (\<forall>c < length (field_names A t). concat (map (\<lambda>p. array_values A (table_column A p c)) outs)
        = array_values A (table_column A t c)) \<and>
    (\<forall>c < length (field_names A t). \<forall>c' < length (field_names A t). \<forall>p \<in> set outs.
        array_length A (table_column A p c) = array_length A (table_column A p c'))"
proof -
  let ?n = "length (consumerVec st)" and ?f = "field_names A t"
  have n: "0 < ?n" using assms(4) by simp
  have fu: "field_names A u = ?f" and chunk: "\<And>c. c < length ?f \<Longrightarrow> case first_chunk X (table_column A u c) of
      None \<Rightarrow> array_values A (table_column A t c) = []
    | Some a \<Rightarrow> array_values A a = array_values A (table_column A t c)"
    using assms(3,6) unfolding combine_ok_def by blast+
  have cols: "num_columns A u = length ?f" using assms(1) fu by (simp add: arrow_ok_def)
  let ?g = "\<lambda>c. the (first_chunk X c)"
  have g: "first_chunk X (table_column A u c) = Some (?g (table_column A u c))"
      "array_values A (?g (table_column A u c)) = array_values A (table_column A t c)"
      "array_length A (?g (table_column A u c)) = num_rows A t" if c: "c < length ?f" for c
  proof -
    have len: "length (array_values A (table_column A t c)) = num_rows A t" using assms(8) c by simp
    with assms(7) have "array_values A (table_column A t c) \<noteq> []" by (metis less_irrefl list.size(3))
    with chunk [OF c] show *: "first_chunk X (table_column A u c) = Some (?g (table_column A u c))"
      by (auto split: option.splits)
    show eq: "array_values A (?g (table_column A u c)) = array_values A (table_column A t c)"
      using chunk [OF c] by (subst (asm) *) simp
    show "array_length A (?g (table_column A u c)) = num_rows A t"
      using arg_cong [OF eq, of length] len by simp
  qed
  let ?cs = "map (table_column A u) [0..<num_columns A u]"
  have "\<forall>c \<in> set ?cs. first_chunk X c = Some (?g c)" using g(1) by (simp add: cols)
  from rmap_split_column [OF assms(2) n this] obtain splits where
    s: "rmap (split_column A X ?n) ?cs = Inr splits" "length splits = length ?f"
    "\<And>j. j < length ?f \<Longrightarrow> splitArray A X (?g (table_column A u j)) ?n = Inr (splits ! j) \<and> length (splits ! j) = ?n"
    by (auto simp: cols)
  let ?row = "\<lambda>i. zip ?f (map (\<lambda>s. s ! i) splits)"
  define outs where "outs = map (\<lambda>i. Table_Make A (?row i)) [0..<?n]"
  have names: "field_names A (Table_Make A (?row i)) = ?f" for i
    using assms(1) s(2) by (simp add: arrow_ok_def)
  have col: "table_column A (Table_Make A (?row i)) c = splits ! c ! i" if "c < length ?f" for i c
  proof -
    have "c < length (?row i)" using that s(2) by simp
    then have "table_column A (Table_Make A (?row i)) c = snd (?row i ! c)"
      using assms(1) unfolding arrow_ok_def by blast
    with that s(2) show ?thesis by simp
  qed
  note pieces = splitArray_pieces [OF assms(2) n]
  have whole: "concat (map (\<lambda>p. array_values A (table_column A p c)) outs) = array_values A (table_column A t c)"
    if "c < length ?f" for c
  proof -
    have "map (\<lambda>p. array_values A (table_column A p c)) outs = map (array_values A) (splits ! c)"
      using s(3) [OF that] by (intro nth_equalityI) (simp_all add: outs_def col [OF that])
    with pieces [of "?g (table_column A u c)"] s(3) [OF that] g(2) [OF that] show ?thesis by auto
  qed
  have aligned: "array_length A (table_column A (outs ! i) c) = array_length A (table_column A (outs ! i) c')"
    if "c < length ?f" "c' < length ?f" "i < ?n" for c c' i
    using pieces [of "?g (table_column A u c)"] pieces [of "?g (table_column A u c')"]
      s(3) [OF that(1)] s(3) [OF that(2)] g(3) [OF that(1)] g(3) [OF that(2)] that
    by (auto simp: outs_def col Let_def)
  have result: "Split_split A X st = Inr (Inr (map Some outs))"
    using s(1) by (simp add: Split_split_def assms(5,6) deref_table_def Let_def outs_def comp_def)
  have len: "length outs = ?n" by (simp add: outs_def)
  show ?thesis
  proof (intro exI [of _ outs] conjI ballI allI impI)
    show "field_names A p = ?f" if "p \<in> set outs" for p
      using that names by (auto simp: outs_def)
    show "array_length A (table_column A p c) = array_length A (table_column A p c')"
      if "c < length ?f" "c' < length ?f" "p \<in> set outs" for c c' p
      using aligned [OF that(1,2)] that(3) len by (metis in_set_conv_nth)
  qed (rule result len whole, assumption?)+
qed

definition sample_split :: "list_table Split" where
  "sample_split = \<lparr>consumerVec = [''x'', ''y'', ''z''], inputTupleSet = Some (Some
     [(''k'', Int32Type, [Int32Scalar 1, Int32Scalar 2, Int32Scalar 3, Int32Scalar 4])])\<rparr>"

theorem split_keeps_every_row_witness:
  "\<exists>outs. Split_split list_arrow list_arrays sample_split = Inr (Inr (map Some outs)) \<and> length outs = 3 \<and>
     concat (map (\<lambda>p. array_values list_arrow (table_column list_arrow p 0)) outs)
       = [Int32Scalar 1, Int32Scalar 2, Int32Scalar 3, Int32Scalar 4]"
proof -
  let ?t = "[(''k'', Int32Type, [Int32Scalar 1, Int32Scalar 2, Int32Scalar 3, Int32Scalar 4])]"
  have t: "inputTupleSet sample_split = Some (Some ?t)" "length (consumerVec sample_split) = 3"
    "CombineChunks list_arrow ?t = Inr ?t" "field_names list_arrow ?t = [''k'']" "0 < num_rows list_arrow ?t"
    "\<forall>c < length (field_names list_arrow ?t). array_length list_arrow (table_column list_arrow ?t c) = num_rows list_arrow ?t"
    "array_values list_arrow (table_column list_arrow ?t 0) = [Int32Scalar 1, Int32Scalar 2, Int32Scalar 3, Int32Scalar 4]"
    by (simp_all add: sample_split_def list_arrow_def array_values_def upt_rec list_rows_def)
  have "consumerVec sample_split \<noteq> []" using t(2) by auto
  from split_keeps_every_row [OF list_arrow_ok list_arrays_ok list_combine_ok this t(1,3,5,6)] obtain outs where
    "Split_split list_arrow list_arrays sample_split = Inr (Inr (map Some outs))" "length outs = 3"
    "\<forall>c < 1. concat (map (\<lambda>p. array_values list_arrow (table_column list_arrow p c)) outs)
        = array_values list_arrow (table_column list_arrow ?t c)"
    unfolding t(2,4) by auto
  with t(7) show ?thesis by (intro exI [of _ outs]) simp
qed

section \<open>The operator completes once\<close>

lemma Split_send_frames: "frames S (Split_send tupleSets S)"
proof -
  have "frames S (fold (\<lambda>(consumer, ts). send (TupleMessage (Some ts) n) consumer) xs S)" for xs S n
  proof (induction xs arbitrary: S)
    case (Cons x xs)
    obtain c ts where "x = (c, ts)" by (cases x)
    then show ?case
      using frames_trans [OF frames_send [of "TupleMessage (Some ts) n" S c] Cons.IH] by simp
  qed simp
  then show ?thesis by (simp add: Split_send_def)
qed

lemma splitAndSend_frames:
  assumes "splitAndSend A X S = Inr T"
  shows "frames S T"
  using assms frames_trans [OF Split_send_frames frames_op_fields]
  unfolding splitAndSend_def by (elim rbindE) (auto simp: Let_def split: sum.splits)

lemma Split_onTuple_frames:
  assumes "Split_onTuple A X ts s S = Inr T"
  shows "frames S T"
proof (cases "TupleSet_numRows A ts = 0")
  case True
  with assms show ?thesis by (simp add: Split_onTuple_def)
next
  case False
  with assms obtain e st where b: "bufferInput A ts (op_fields S) = Inr (e, st)"
    by (auto simp: Split_onTuple_def result_simps)
  define S2 where "S2 = (case e of Some msg \<Rightarrow> notifyError msg (S\<lparr>op_fields := st\<rparr>) | None \<Rightarrow> S\<lparr>op_fields := st\<rparr>)"
  have "frames S S2"
    using frames_trans [OF frames_op_fields frames_notifyError] frames_op_fields
    by (auto simp: S2_def split: option.splits)
  moreover have "(case buffered_rows A (op_fields S2) of
      Some rows \<Rightarrow> if rows \<ge> DefaultBufferSize * length (consumerVec (op_fields S2)) then splitAndSend A X S2
        else Inr S2
    | None \<Rightarrow> Inr S2) = Inr T"
    using assms False b unfolding Split_onTuple_def S2_def Let_def by simp
  then have "S2 = T \<or> splitAndSend A X S2 = Inr T"
    by (auto split: option.splits if_splits)
  ultimately show ?thesis using splitAndSend_frames frames_trans by blast
qed

interpretation split_op: completing_operator "SplitPOp A X" Split_clear for A :: "('t, 'a) arrow" and X
proof
  fix m :: "('h, 't, 'd) Message" and S S' :: "('h, 't, 'd, 't Split) POp"
  assume "onReceive (SplitPOp A X) m S = Inr S'" "\<forall>s. m \<noteq> CompleteMessage s"
  then show "frames S S'"
    by (cases m) (auto simp: SplitPOp_def Split_onReceive_def Split_onStart_def dest!: with_tuples_Inr intro: Split_onTuple_frames)
next
  fix s and S S' :: "('h, 't, 'd, 't Split) POp"
  assume r: "onReceive (SplitPOp A X) (CompleteMessage s) S = Inr S'"
  show "frames S S'" if "op_complete S \<or> \<not> local_allComplete Producer (operatorMap S)"
    using r that by (auto simp: SplitPOp_def Split_onReceive_def Split_onComplete_def when_all_complete_def)
  show "\<exists>T. frames S T \<and> notifyComplete Split_clear T = Inr S'"
    if "\<not> op_complete S" "local_allComplete Producer (operatorMap S)"
  proof -
    from r that have "Split_finish A X S = Inr S'"
      by (simp add: SplitPOp_def Split_onReceive_def Split_onComplete_def when_all_complete_def)
    then obtain T where T: "(case buffered_rows A (op_fields S) of
        Some rows \<Rightarrow> if rows > 0 then splitAndSend A X S else Inr S | None \<Rightarrow> Inr S) = Inr T"
      "notifyComplete Split_clear T = Inr S'"
      unfolding Split_finish_def by (elim rbindE)
    from T(1) have "frames S T"
      by (auto intro: splitAndSend_frames split: option.splits if_splits)
    with T(2) show ?thesis by blast
  qed
qed

end
