(* ===== verification/Row_Access.thy ===== *)
theory Row_Access
  imports Split_Operator
begin

text \<open>
  Reading tables a batch at a time and building arrays from single values: the array appenders
  (\<^verbatim>\<open>fpdb-tuple/ArrayAppenderWrapper.h\<close>), the keys made of the values of a row
  (\<^verbatim>\<open>TupleKey.h\<close>), and the filter through a selection vector
  (\<^verbatim>\<open>fpdb-expression-gandiva/src/Filter.cpp\<close>).  The shuffle and the join operators are built
  from them.

  Arrow's record batches, builders and schemas are the fields of the record \<open>arrow_rows\<close>;
  \<open>rows_ok\<close> collects what is relied on of their documented behaviour, and \<open>row_arrow\<close> is an
  instance on lists of rows.
\<close>

section \<open>Errors as values\<close>

text \<open>
  A function that returns \<^verbatim>\<open>tl::expected\<close> gives an error value or a value, and may also throw.  The
  loops below stop at the first error value.
\<close>

named_theorems expected_simps "laws of tl::expected"

type_synonym 'a expected = "(string + 'a) result"

definition unexpected :: "string \<Rightarrow> 'a expected" where
  "unexpected e = Inr (Inl e)"

definition expect :: "'a \<Rightarrow> 'a expected" where
  "expect x = Inr (Inr x)"

definition ebind :: "'a expected \<Rightarrow> ('a \<Rightarrow> 'b expected) \<Rightarrow> 'b expected" where
  "ebind m f = rbind m (\<lambda>e. case e of Inl msg \<Rightarrow> unexpected msg | Inr x \<Rightarrow> f x)"

fun efold :: "('a \<Rightarrow> 's \<Rightarrow> 's expected) \<Rightarrow> 'a list \<Rightarrow> 's \<Rightarrow> 's expected" where
  "efold f [] s = expect s"
| "efold f (x # xs) s = ebind (f x s) (efold f xs)"

fun emap :: "('a \<Rightarrow> 'b expected) \<Rightarrow> 'a list \<Rightarrow> 'b list expected" where
  "emap f [] = expect []"
| "emap f (x # xs) = ebind (f x) (\<lambda>y. ebind (emap f xs) (\<lambda>ys. expect (y # ys)))"

lemma ebind_simps [simp]:
  "ebind (expect x) f = f x" "ebind (unexpected e) f = unexpected e" "ebind (Inl u) f = Inl u"
  by (simp_all add: ebind_def expect_def unexpected_def)

lemma expect_inject [simp]: "expect x = expect y \<longleftrightarrow> x = y"
  by (simp add: expect_def)

lemma ebind_eq_expect [expected_simps]: "ebind m f = expect y \<longleftrightarrow> (\<exists>x. m = expect x \<and> f x = expect y)"
proof (cases m)
  case (Inr r)
  then show ?thesis by (cases r) (simp_all add: ebind_def expect_def unexpected_def)
qed (simp add: ebind_def expect_def)

lemma efold_append: "efold f (xs @ ys) s = ebind (efold f xs s) (efold f ys)"
proof (induction xs arbitrary: s)
  case (Cons x xs)
  then show ?case by (cases "f x s") (auto simp: ebind_def unexpected_def split: sum.splits)
qed simp

lemma efold_upt:
  assumes "P 0 s" and "\<And>i s. i < n \<Longrightarrow> P i s \<Longrightarrow> \<exists>t. f i s = expect t \<and> P (Suc i) t"
  shows "\<exists>t. efold f [0..<n] s = expect t \<and> P n t"
  using assms
proof (induction n)
  case (Suc n)
  then obtain u where u: "efold f [0..<n] s = expect u" "P n u" by auto
  with Suc.prems(2) [of n u] obtain t where "f n u = expect t" "P (Suc n) t" by auto
  with u(1) show ?case by (simp add: efold_append)
qed simp

lemma emap_expect: "(\<And>x. x \<in> set xs \<Longrightarrow> f x = expect (g x)) \<Longrightarrow> emap f xs = expect (map g xs)"
  by (induction xs) auto

lemma emap_total:
  "(\<And>x. x \<in> set xs \<Longrightarrow> \<exists>y. f x = expect y \<and> P x y) \<Longrightarrow> \<exists>ys. emap f xs = expect ys \<and> list_all2 P xs ys"
proof (induction xs)
  case (Cons x xs)
  then obtain ys where ys: "emap f xs = expect ys" "list_all2 P xs ys" by auto
  from Cons.prems [of x] obtain y where "f x = expect y" "P x y" by auto
  with ys show ?case by simp
qed simp

lemma map_upt_eq_nth: "map f [0..<n] = xs \<Longrightarrow> i < n \<Longrightarrow> f i = xs ! i"
  by auto

section \<open>The Arrow interface\<close>

text \<open>
  A schema is the list of its fields.  \<open>ReadBatches\<close> lists what \<^verbatim>\<open>TableBatchReader::Next\<close>
  returns up to the null batch that ends the table.  \<open>MakeArray\<close> is \<^verbatim>\<open>AppendValues\<close> and
  \<^verbatim>\<open>Finish\<close> of a builder.  \<open>chunk_0\<close> is \<^verbatim>\<open>chunk(0)\<close>, which an
  array without chunks does not have.  \<open>MakeProjector\<close> and
  \<open>SelectRows\<close> are Gandiva's projector of all fields.  The hashes and the equality of floating-point
  numbers are those of the C++ library; \<open>range_order\<close> is the order in which an unordered multimap
  lists the values of a key.
\<close>

record ('t, 'a, 'b) arrow_rows =
  table_schema :: "'t \<Rightarrow> (string \<times> type_id) list"
  Table_FromArrays :: "(string \<times> type_id) list \<Rightarrow> 'a list \<Rightarrow> 't"
  SelectColumns :: "'t \<Rightarrow> nat list \<Rightarrow> string + 't"
  ReadBatches :: "'t \<Rightarrow> nat \<Rightarrow> (string + 'b) list"
  rb_num_rows :: "'b \<Rightarrow> nat"
  rb_names :: "'b \<Rightarrow> string list"
  rb_columns :: "'b \<Rightarrow> 'a list"
  GetFieldIndex :: "string list \<Rightarrow> string \<Rightarrow> nat option"
  IsNull :: "'a \<Rightarrow> nat \<Rightarrow> bool"
  MakeArray :: "type_id \<Rightarrow> arrow_scalar option list \<Rightarrow> string + 'a"
  ChunkedArray :: "type_id \<Rightarrow> 'a list \<Rightarrow> 'a"
  chunk_0 :: "'a \<Rightarrow> 'a option"
  MakeProjector :: "(string \<times> type_id) list \<Rightarrow> string option"
  SelectRows :: "'a list \<Rightarrow> nat list \<Rightarrow> string + 'a list"
  float_equal :: "32 word \<Rightarrow> 32 word \<Rightarrow> bool"
  double_equal :: "64 word \<Rightarrow> 64 word \<Rightarrow> bool"
  std_hash :: "arrow_scalar \<Rightarrow> size_t"
  range_order :: "nat list \<Rightarrow> nat list"

definition of_status :: "string + 'c \<Rightarrow> 'c expected" where
  "of_status r = Inr r"

lemma of_status_simps [simp]: "of_status (Inr x) = expect x" "of_status (Inl e) = unexpected e"
  by (simp_all add: of_status_def expect_def unexpected_def)

definition table_columns :: "('t, 'a) arrow \<Rightarrow> 't \<Rightarrow> 'a list" where
  "table_columns A t = map (table_column A t) [0..<num_columns A t]"

text \<open>The loop over the batches of a table.\<close>

definition for_batches ::
  "('t, 'a, 'b) arrow_rows \<Rightarrow> 't \<Rightarrow> ('b \<Rightarrow> 's \<Rightarrow> 's expected) \<Rightarrow> 's \<Rightarrow> 's expected" where
  "for_batches X t f s = efold (\<lambda>r s. ebind (of_status r) (\<lambda>b. f b s)) (ReadBatches X t DefaultChunkSize) s"

text \<open>The indexes of named columns, with the message for a name without one.\<close>

definition column_indexes ::
  "('t, 'a, 'b) arrow_rows \<Rightarrow> string list \<Rightarrow> (string \<Rightarrow> string) \<Rightarrow> string list \<Rightarrow> nat list expected" where
  "column_indexes X names err columnNames =
     emap (\<lambda>columnName. case GetFieldIndex X names (canonicalize columnName) of
             None \<Rightarrow> unexpected (err columnName) | Some i \<Rightarrow> expect i) columnNames"

text \<open>The first chunks of columns.\<close>

definition first_chunks :: "('t, 'a, 'b) arrow_rows \<Rightarrow> 'a list \<Rightarrow> 'a list result" where
  "first_chunks X columns =
     rmap (\<lambda>a. case chunk_0 X a of Some c \<Rightarrow> Inr c
        | None \<Rightarrow> Inl (UndefinedBehaviour ''chunk of an array without chunks'')) columns"

section \<open>Array appenders\<close>

record ArrayAppender =
  ap_type :: type_id
  ap_buffer :: "arrow_scalar option list"

definition appender_types :: "type_id list" where
  "appender_types = [StringType, Int32Type, Int64Type, DoubleType, Date64Type, BooleanType]"

definition ArrayAppenderBuilder_make :: "type_id \<Rightarrow> ArrayAppender expected" where
  "ArrayAppenderBuilder_make ty =
     (if ty \<in> set appender_types then expect \<lparr>ap_type = ty, ap_buffer = []\<rparr>
      else unexpected (''ArrayAppender not implemented for type '' @ quoted (type_string ty)))"

text \<open>An index past the end is an error value; an array of another type than the appender's is cast.\<close>

definition appendValue ::
  "('t, 'a) arrow \<Rightarrow> ('t, 'a, 'b) arrow_rows \<Rightarrow> 'a \<Rightarrow> nat \<Rightarrow> ArrayAppender \<Rightarrow> ArrayAppender expected" where
  "appendValue A X array i ap =
     (if i \<ge> array_length A array then
        unexpected (''Cannot append value. Source index '' @ string_of_nat i @
          '' outside bounds of source array '' @ string_of_nat (array_length A array))
      else if IsNull X array i then expect (ap\<lparr>ap_buffer := ap_buffer ap @ [None]\<rparr>)
      else if array_type A array \<noteq> ap_type ap then
        Inl (UndefinedBehaviour ''array cast to another type'')
      else expect (ap\<lparr>ap_buffer := ap_buffer ap @ [Some (array_value A array i)]\<rparr>))"

definition ArrayAppender_finalize :: "('t, 'a, 'b) arrow_rows \<Rightarrow> ArrayAppender \<Rightarrow> 'a expected" where
  "ArrayAppender_finalize X ap = of_status (MakeArray X (ap_type ap) (ap_buffer ap))"

definition makeEmptyArray :: "('t, 'a, 'b) arrow_rows \<Rightarrow> type_id \<Rightarrow> 'a expected" where
  "makeEmptyArray X ty = ebind (ArrayAppenderBuilder_make ty) (ArrayAppender_finalize X)"

text \<open>\<open>Filter::evaluateBySelectionVectorStatic\<close> of a record batch of these fields and arrays.\<close>

definition evaluateBySelectionVectorStatic ::
  "('t, 'a, 'b) arrow_rows \<Rightarrow> (string \<times> type_id) list \<Rightarrow> 'a list \<Rightarrow> nat list \<Rightarrow> 'a list expected" where
  "evaluateBySelectionVectorStatic X schema arrays selectionVector =
     (case MakeProjector X schema of
        Some e \<Rightarrow> unexpected e
      | None \<Rightarrow>
          if selectionVector \<noteq> [] then of_status (SelectRows X arrays selectionVector)
          else emap (\<lambda>(n, ty). makeEmptyArray X ty) schema)"

section \<open>Keys\<close>

type_synonym TupleKey = "arrow_scalar list"

definition key_types :: "type_id list" where
  "key_types = [Int16Type, Int32Type, Int64Type, FloatType, DoubleType, Date64Type, StringType]"

text \<open>The element is read without a look at the validity of the value.\<close>

definition TupleKeyElement_make :: "('t, 'a) arrow \<Rightarrow> nat \<Rightarrow> 'a \<Rightarrow> arrow_scalar expected" where
  "TupleKeyElement_make A r array =
     (if array_type A array \<notin> set key_types then
        unexpected (''Unrecognized type '' @ type_string (array_type A array))
      else if r \<ge> array_length A array then Inl (UndefinedBehaviour ''read outside an array'')
      else expect (array_value A array r))"

definition TupleKey_make ::
  "('t, 'a) arrow \<Rightarrow> ('t, 'a, 'b) arrow_rows \<Rightarrow> nat \<Rightarrow> nat list \<Rightarrow> 'b \<Rightarrow> TupleKey expected" where
  "TupleKey_make A X row columnIndices recordBatch =
     emap (\<lambda>c. if c \<ge> length (rb_columns X recordBatch) then Inl (UndefinedBehaviour ''column index out of range'')
               else TupleKeyElement_make A row (rb_columns X recordBatch ! c)) columnIndices"

text \<open>\<open>equals\<close> casts the other element to its own type.\<close>

definition TupleKeyElement_equals ::
  "('t, 'a, 'b) arrow_rows \<Rightarrow> arrow_scalar \<Rightarrow> arrow_scalar \<Rightarrow> bool result" where
  "TupleKeyElement_equals X x y =
     (if scalar_type x \<noteq> scalar_type y then Inl (UndefinedBehaviour ''key element cast to another type'')
      else Inr (case (x, y) of
          (FloatScalar v, FloatScalar w) \<Rightarrow> float_equal X v w
        | (DoubleScalar v, DoubleScalar w) \<Rightarrow> double_equal X v w
        | _ \<Rightarrow> x = y))"

fun TupleKey_equals :: "('t, 'a, 'b) arrow_rows \<Rightarrow> TupleKey \<Rightarrow> TupleKey \<Rightarrow> bool result" where
  "TupleKey_equals X [] other = Inr True"
| "TupleKey_equals X (x # xs) [] = Inl (UndefinedBehaviour ''element past the end of a key'')"
| "TupleKey_equals X (x # xs) (y # ys) =
     rbind (TupleKeyElement_equals X x y) (\<lambda>e. if \<not> e then Inr False else TupleKey_equals X xs ys)"

section \<open>What is relied on of Arrow\<close>

text \<open>
  A cell of an array is its null flag and its value; \<open>shown\<close> hides the value of a null cell.  The rows
  of tables and batches are lists of cells.
\<close>

definition cell :: "('t, 'a) arrow \<Rightarrow> ('t, 'a, 'b) arrow_rows \<Rightarrow> 'a \<Rightarrow> nat \<Rightarrow> bool \<times> arrow_scalar" where
  "cell A X a i = (IsNull X a i, array_value A a i)"

fun shown :: "bool \<times> arrow_scalar \<Rightarrow> arrow_scalar option" where
  "shown (n, v) = (if n then None else Some v)"

definition cells :: "('t, 'a) arrow \<Rightarrow> ('t, 'a, 'b) arrow_rows \<Rightarrow> 'a \<Rightarrow> (bool \<times> arrow_scalar) list" where
  "cells A X a = map (cell A X a) [0..<array_length A a]"

definition row_of :: "('t, 'a) arrow \<Rightarrow> ('t, 'a, 'b) arrow_rows \<Rightarrow> 'a list \<Rightarrow> nat \<Rightarrow> (bool \<times> arrow_scalar) list" where
  "row_of A X as i = map (\<lambda>a. cell A X a i) as"

definition table_rows :: "('t, 'a) arrow \<Rightarrow> ('t, 'a, 'b) arrow_rows \<Rightarrow> 't \<Rightarrow> (bool \<times> arrow_scalar) list list" where
  "table_rows A X t = map (row_of A X (table_columns A t)) [0..<num_rows A t]"

definition batch_rows :: "('t, 'a) arrow \<Rightarrow> ('t, 'a, 'b) arrow_rows \<Rightarrow> 'b \<Rightarrow> (bool \<times> arrow_scalar) list list" where
  "batch_rows A X b = map (row_of A X (rb_columns X b)) [0..<rb_num_rows X b]"

text \<open>Arrays of these types, all of length \<open>n\<close>.\<close>

definition arrays_typed :: "('t, 'a) arrow \<Rightarrow> type_id list \<Rightarrow> nat \<Rightarrow> 'a list \<Rightarrow> bool" where
  "arrays_typed A tys n as \<longleftrightarrow> map (array_type A) as = tys \<and> (\<forall>a \<in> set as. array_length A a = n)"

definition tables_ok :: "('t, 'a) arrow \<Rightarrow> ('t, 'a, 'b) arrow_rows \<Rightarrow> bool" where
  "tables_ok A X \<longleftrightarrow>
     (\<forall>t. map fst (table_schema X t) = field_names A t) \<and>
     (\<forall>t. arrays_typed A (map snd (table_schema X t)) (num_rows A t) (table_columns A t)) \<and>
     (\<forall>t u. schema_Equals A t u \<longleftrightarrow> table_schema X t = table_schema X u) \<and>
     (\<forall>t ts. (\<forall>u \<in> set ts. table_schema X u = table_schema X t) \<longrightarrow>
        (\<exists>r. ConcatenateTables A (t # ts) = Inr r \<and> table_schema X r = table_schema X t \<and>
           table_rows A X r = concat (map (table_rows A X) (t # ts)))) \<and>
     (\<forall>t. \<exists>r. CombineChunks A t = Inr r \<and> table_schema X r = table_schema X t \<and>
        table_rows A X r = table_rows A X t \<and>
        (num_rows A r > 0 \<longrightarrow> (\<forall>a \<in> set (table_columns A r).
           \<exists>c. chunk_0 X a = Some c \<and> array_type A c = array_type A a \<and> cells A X c = cells A X a))) \<and>
     (\<forall>schema n as. arrays_typed A (map snd schema) n as \<longrightarrow> schema \<noteq> [] \<longrightarrow>
        (let t = Table_FromArrays X schema as in table_schema X t = schema \<and> table_columns A t = as)) \<and>
     (\<forall>schema. let t = Table_Make A (map (\<lambda>(n, ty). (n, ChunkedArray X ty [])) schema)
        in table_schema X t = schema \<and> table_rows A X t = [])"

definition builders_ok :: "('t, 'a) arrow \<Rightarrow> ('t, 'a, 'b) arrow_rows \<Rightarrow> bool" where
  "builders_ok A X \<longleftrightarrow>
     (\<forall>a i. i < array_length A a \<longrightarrow> scalar_type (array_value A a i) = array_type A a) \<and>
     (\<forall>ty vs. (\<forall>s. Some s \<in> set vs \<longrightarrow> scalar_type s = ty) \<longrightarrow>
        (\<exists>a. MakeArray X ty vs = Inr a \<and> array_type A a = ty \<and> map shown (cells A X a) = vs)) \<and>
     (\<forall>ty as. (\<forall>a \<in> set as. array_type A a = ty) \<longrightarrow>
        array_type A (ChunkedArray X ty as) = ty \<and>
        cells A X (ChunkedArray X ty as) = concat (map (cells A X) as))"

definition batches_ok :: "('t, 'a) arrow \<Rightarrow> ('t, 'a, 'b) arrow_rows \<Rightarrow> bool" where
  "batches_ok A X \<longleftrightarrow>
     (\<forall>t n. 0 < n \<longrightarrow> (\<exists>bs. ReadBatches X t n = map Inr bs \<and>
        concat (map (batch_rows A X) bs) = table_rows A X t \<and>
        (\<forall>b \<in> set bs. rb_names X b = field_names A t \<and>
           arrays_typed A (map snd (table_schema X t)) (rb_num_rows X b) (rb_columns X b)))) \<and>
     (\<forall>names n. distinct names \<longrightarrow> n \<notin> set names \<longrightarrow> GetFieldIndex X names n = None) \<and>
     (\<forall>names i. distinct names \<longrightarrow> i < length names \<longrightarrow> GetFieldIndex X names (names ! i) = Some i) \<and>
     (\<forall>xs. mset (range_order X xs) = mset xs)"

text \<open>The projector of all fields selects rows; \<open>SelectColumns\<close> selects columns.\<close>

definition selection_ok :: "('t, 'a) arrow \<Rightarrow> ('t, 'a, 'b) arrow_rows \<Rightarrow> bool" where
  "selection_ok A X \<longleftrightarrow>
     (\<forall>schema. MakeProjector X schema = None) \<and>
     (\<forall>tys n as sel. arrays_typed A tys n as \<longrightarrow> sel \<noteq> [] \<longrightarrow> (\<forall>i \<in> set sel. i < n) \<longrightarrow>
        (\<exists>bs. SelectRows X as sel = Inr bs \<and> arrays_typed A tys (length sel) bs \<and>
           map (row_of A X bs) [0..<length sel] = map (row_of A X as) sel)) \<and>
     (\<forall>t cs. (\<forall>c \<in> set cs. c < length (table_schema X t)) \<longrightarrow>
        (\<exists>r. SelectColumns X t cs = Inr r \<and> table_schema X r = map ((!) (table_schema X t)) cs \<and>
           table_columns A r = map ((!) (table_columns A t)) cs))"

definition rows_ok :: "('t, 'a) arrow \<Rightarrow> ('t, 'a, 'b) arrow_rows \<Rightarrow> bool" where
  "rows_ok A X \<longleftrightarrow> tables_ok A X \<and> builders_ok A X \<and> batches_ok A X \<and> selection_ok A X"


text \<open>The laws one by one.\<close>

lemma rows_names: "rows_ok A X \<Longrightarrow> field_names A t = map fst (table_schema X t)"
  by (simp add: rows_ok_def tables_ok_def)

lemma rows_typed: "rows_ok A X \<Longrightarrow> arrays_typed A (map snd (table_schema X t)) (num_rows A t) (table_columns A t)"
  by (simp add: rows_ok_def tables_ok_def)

lemma rows_schema_Equals: "rows_ok A X \<Longrightarrow> schema_Equals A t u \<longleftrightarrow> table_schema X t = table_schema X u"
  by (simp add: rows_ok_def tables_ok_def)

lemma rows_Concatenate:
  assumes "rows_ok A X" and "table_schema X u = table_schema X t"
  shows "\<exists>r. ConcatenateTables A [t, u] = Inr r \<and> table_schema X r = table_schema X t \<and>
    table_rows A X r = table_rows A X t @ table_rows A X u"
proof -
  from assms have "\<forall>v \<in> set [u]. table_schema X v = table_schema X t" by simp
  with assms(1) have "\<exists>r. ConcatenateTables A (t # [u]) = Inr r \<and> table_schema X r = table_schema X t \<and>
      table_rows A X r = concat (map (table_rows A X) (t # [u]))"
    unfolding rows_ok_def tables_ok_def by blast
  then show ?thesis by simp
qed

lemma rows_Combine:
  "rows_ok A X \<Longrightarrow> \<exists>r. CombineChunks A t = Inr r \<and> table_schema X r = table_schema X t \<and>
     table_rows A X r = table_rows A X t \<and>
     (num_rows A r > 0 \<longrightarrow> (\<forall>a \<in> set (table_columns A r).
        \<exists>c. chunk_0 X a = Some c \<and> array_type A c = array_type A a \<and> cells A X c = cells A X a))"
  by (simp add: rows_ok_def tables_ok_def)

lemma rows_FromArrays:
  "rows_ok A X \<Longrightarrow> arrays_typed A (map snd schema) n as \<Longrightarrow> schema \<noteq> [] \<Longrightarrow>
   table_schema X (Table_FromArrays X schema as) = schema \<and> table_columns A (Table_FromArrays X schema as) = as"
  unfolding rows_ok_def tables_ok_def Let_def by blast

lemma rows_empty_table:
  "rows_ok A X \<Longrightarrow> table_schema X (Table_Make A (map (\<lambda>(n, ty). (n, ChunkedArray X ty [])) schema)) = schema \<and>
   table_rows A X (Table_Make A (map (\<lambda>(n, ty). (n, ChunkedArray X ty [])) schema)) = []"
  unfolding rows_ok_def tables_ok_def Let_def by blast

lemma rows_value_type: "rows_ok A X \<Longrightarrow> i < array_length A a \<Longrightarrow> scalar_type (array_value A a i) = array_type A a"
  by (simp add: rows_ok_def builders_ok_def)

lemma rows_MakeArray:
  "rows_ok A X \<Longrightarrow> (\<And>s. Some s \<in> set vs \<Longrightarrow> scalar_type s = ty) \<Longrightarrow>
   \<exists>a. MakeArray X ty vs = Inr a \<and> array_type A a = ty \<and> map shown (cells A X a) = vs"
  by (simp add: rows_ok_def builders_ok_def)

lemma rows_Chunked:
  "rows_ok A X \<Longrightarrow> (\<And>a. a \<in> set as \<Longrightarrow> array_type A a = ty) \<Longrightarrow>
   array_type A (ChunkedArray X ty as) = ty \<and> cells A X (ChunkedArray X ty as) = concat (map (cells A X) as)"
  by (simp add: rows_ok_def builders_ok_def)

lemma rows_Batches:
  "rows_ok A X \<Longrightarrow> 0 < n \<Longrightarrow> \<exists>bs. ReadBatches X t n = map Inr bs \<and>
     concat (map (batch_rows A X) bs) = table_rows A X t \<and>
     (\<forall>b \<in> set bs. rb_names X b = field_names A t \<and>
        arrays_typed A (map snd (table_schema X t)) (rb_num_rows X b) (rb_columns X b))"
  by (simp add: rows_ok_def batches_ok_def)

lemma rows_GetFieldIndex:
  "rows_ok A X \<Longrightarrow> distinct names \<Longrightarrow> i < length names \<Longrightarrow> GetFieldIndex X names (names ! i) = Some i"
  by (simp add: rows_ok_def batches_ok_def)

lemma rows_range_order: "rows_ok A X \<Longrightarrow> mset (range_order X xs) = mset xs"
  by (simp add: rows_ok_def batches_ok_def)

lemma rows_projector: "rows_ok A X \<Longrightarrow> MakeProjector X schema = None"
  by (simp add: rows_ok_def selection_ok_def)

lemma rows_SelectRows:
  "rows_ok A X \<Longrightarrow> arrays_typed A tys n as \<Longrightarrow> sel \<noteq> [] \<Longrightarrow> (\<And>i. i \<in> set sel \<Longrightarrow> i < n) \<Longrightarrow>
   \<exists>bs. SelectRows X as sel = Inr bs \<and> arrays_typed A tys (length sel) bs \<and>
     map (row_of A X bs) [0..<length sel] = map (row_of A X as) sel"
  unfolding rows_ok_def selection_ok_def by blast

lemma rows_SelectColumns:
  "rows_ok A X \<Longrightarrow> (\<And>c. c \<in> set cs \<Longrightarrow> c < length (table_schema X t)) \<Longrightarrow>
   \<exists>r. SelectColumns X t cs = Inr r \<and> table_schema X r = map ((!) (table_schema X t)) cs \<and>
     table_columns A r = map ((!) (table_columns A t)) cs"
  by (simp add: rows_ok_def selection_ok_def)

section \<open>An instance on lists of rows\<close>

text \<open>A table is a schema and its rows of cells; an array is a type and its cells.\<close>

type_synonym row_table = "(string \<times> type_id) list \<times> (bool \<times> arrow_scalar) list list"
type_synonym row_array = "type_id \<times> (bool \<times> arrow_scalar) list"

fun default_scalar :: "type_id \<Rightarrow> arrow_scalar" where
  "default_scalar Int16Type = Int16Scalar 0"
| "default_scalar Int32Type = Int32Scalar 0"
| "default_scalar Int64Type = Int64Scalar 0"
| "default_scalar FloatType = FloatScalar 0"
| "default_scalar DoubleType = DoubleScalar 0"
| "default_scalar BooleanType = BooleanScalar False"
| "default_scalar StringType = StringScalar []"
| "default_scalar Date64Type = Date64Scalar 0"
| "default_scalar Decimal128Type = Decimal128Scalar 0"
| "default_scalar (OtherType s) = OtherScalar s"

definition typed :: "type_id \<Rightarrow> arrow_scalar \<Rightarrow> arrow_scalar" where
  "typed ty s = (if scalar_type s = ty then s else default_scalar ty)"

lemma scalar_type_typed [simp]: "scalar_type (typed ty s) = ty"
  by (cases ty) (simp_all add: typed_def scalar_type_def)

lemma typed_id: "scalar_type s = ty \<Longrightarrow> typed ty s = s"
  by (simp add: typed_def)

definition row_column :: "row_table \<Rightarrow> nat \<Rightarrow> row_array" where
  "row_column t c = (snd (fst t ! c), map (\<lambda>r. r ! c) (snd t))"

definition row_from_arrays :: "(string \<times> type_id) list \<Rightarrow> row_array list \<Rightarrow> row_table" where
  "row_from_arrays schema as =
     (schema, map (\<lambda>i. map (\<lambda>a. snd a ! i) as) [0..<(case as of [] \<Rightarrow> 0 | a # _ \<Rightarrow> length (snd a))])"

definition row_arrow :: "(row_table, row_array) arrow" where
  "row_arrow =
     \<lparr>num_rows = (\<lambda>t. length (snd t)),
      num_columns = (\<lambda>t. length (fst t)),
      field_names = (\<lambda>t. map fst (fst t)),
      schema_Equals = (\<lambda>t u. fst t = fst u),
      GetColumnByName = (\<lambda>t n. map_of (map (\<lambda>c. (fst (fst t ! c), row_column t c)) [0..<length (fst t)]) n),
      table_column = row_column,
      Table_Make = (\<lambda>cols. row_from_arrays (map (\<lambda>(n, a). (n, fst a)) cols) (map snd cols)),
      ConcatenateTables = (\<lambda>ts. case ts of [] \<Rightarrow> Inl ''no tables'' | t # us \<Rightarrow> Inr (fst t, concat (map snd ts))),
      RenameColumns = (\<lambda>t ns. Inr (zip ns (map snd (fst t)), snd t)),
      CombineChunks = Inr,
      Slice = (\<lambda>t off len. (fst t, (case len of None \<Rightarrow> drop off (snd t) | Some l \<Rightarrow> take l (drop off (snd t))))),
      array_length = (\<lambda>a. length (snd a)),
      array_type = fst,
      array_value = (\<lambda>a i. typed (fst a) (snd (snd a ! i))),
      array_buffer_sizes = (\<lambda>a. [of_nat (length (snd a))]),
      float_to_int32 = (\<lambda>w. 0),
      double_to_int32 = (\<lambda>w. 0)\<rparr>"

definition row_access :: "(row_table, row_array, row_table) arrow_rows" where
  "row_access =
     \<lparr>table_schema = fst,
      Table_FromArrays = row_from_arrays,
      SelectColumns = (\<lambda>t cs. Inr (map ((!) (fst t)) cs, map (\<lambda>r. map ((!) r) cs) (snd t))),
      ReadBatches = (\<lambda>t n. if snd t = [] then [] else [Inr t]),
      rb_num_rows = (\<lambda>t. length (snd t)),
      rb_names = (\<lambda>t. map fst (fst t)),
      rb_columns = (\<lambda>t. map (row_column t) [0..<length (fst t)]),
      GetFieldIndex = (\<lambda>names n. case filter (\<lambda>i. names ! i = n) [0..<length names] of [i] \<Rightarrow> Some i | _ \<Rightarrow> None),
      IsNull = (\<lambda>a i. fst (snd a ! i)),
      MakeArray = (\<lambda>ty vs. Inr (ty, map (\<lambda>v. case v of None \<Rightarrow> (True, default_scalar ty) | Some s \<Rightarrow> (False, s)) vs)),
      ChunkedArray = (\<lambda>ty as. (ty, concat (map snd as))),
      chunk_0 = (\<lambda>a. if snd a = [] then None else Some a),
      MakeProjector = (\<lambda>schema. None),
      SelectRows = (\<lambda>as sel. Inr (map (\<lambda>a. (fst a, map ((!) (snd a)) sel)) as)),
      float_equal = (=), double_equal = (=),
      std_hash = (\<lambda>s. case s of Int32Scalar v \<Rightarrow> ucast v | Int64Scalar v \<Rightarrow> v | Date64Scalar v \<Rightarrow> v | _ \<Rightarrow> 0),
      range_order = (\<lambda>xs. xs)\<rparr>"

lemma row_simps:
  fixes t u :: row_table and a :: row_array
  shows "num_rows row_arrow t = length (snd t)" "num_columns row_arrow t = length (fst t)"
  "field_names row_arrow t = map fst (fst t)" "schema_Equals row_arrow t u \<longleftrightarrow> fst t = fst u"
  "table_column row_arrow t = row_column t"
  "Table_Make row_arrow cols = row_from_arrays (map (\<lambda>(n, a). (n, fst a)) cols) (map snd cols)"
  "ConcatenateTables row_arrow (t # us) = Inr (fst t, snd t @ concat (map snd us))"
  "CombineChunks row_arrow t = Inr t"
  "array_length row_arrow a = length (snd a)" "array_type row_arrow = fst"
  "array_value row_arrow a i = typed (fst a) (snd (snd a ! i))"
  "table_schema row_access t = fst t" "Table_FromArrays row_access = row_from_arrays"
  "SelectColumns row_access t cs = Inr (map ((!) (fst t)) cs, map (\<lambda>r. map ((!) r) cs) (snd t))"
  "ReadBatches row_access t k = (if snd t = [] then [] else [Inr t])"
  "rb_num_rows row_access t = length (snd t)" "rb_names row_access t = map fst (fst t)"
  "rb_columns row_access t = map (row_column t) [0..<length (fst t)]"
  "GetFieldIndex row_access names n =
     (case filter (\<lambda>i. names ! i = n) [0..<length names] of [i] \<Rightarrow> Some i | _ \<Rightarrow> None)"
  "IsNull row_access a i = fst (snd a ! i)"
  "MakeArray row_access ty vs =
     Inr (ty, map (\<lambda>v. case v of None \<Rightarrow> (True, default_scalar ty) | Some s \<Rightarrow> (False, s)) vs)"
  "ChunkedArray row_access ty as = (ty, concat (map snd as))"
  "chunk_0 row_access a = (if snd a = [] then None else Some a)" "MakeProjector row_access schema = None"
  "SelectRows row_access as sel = Inr (map (\<lambda>a. (fst a, map ((!) (snd a)) sel)) as)"
  "float_equal row_access = (=)" "double_equal row_access = (=)" "range_order row_access xs = xs"
  by (simp_all add: row_arrow_def row_access_def)

lemmas row_defs = row_simps cell_def cells_def row_of_def table_columns_def

lemma row_table_rows:
  "table_rows row_arrow row_access t =
     map (\<lambda>r. map (\<lambda>c. (fst (r ! c), typed (snd (fst t ! c)) (snd (r ! c)))) [0..<length (fst t)]) (snd t)"
  by (rule nth_equalityI) (simp_all add: table_rows_def row_defs row_column_def)

lemma row_batch_rows: "batch_rows row_arrow row_access t = table_rows row_arrow row_access t"
  by (simp add: batch_rows_def table_rows_def row_defs)

lemma row_cells: "cells row_arrow row_access a = map (\<lambda>x. (fst x, typed (fst a) (snd x))) (snd a)"
  by (rule nth_equalityI) (simp_all add: row_defs)

lemma row_typed: "arrays_typed row_arrow tys n as \<longleftrightarrow> map fst as = tys \<and> (\<forall>a \<in> set as. length (snd a) = n)"
  by (simp add: arrays_typed_def row_simps)

lemma row_from_arrays_columns:
  assumes "arrays_typed row_arrow (map snd schema) n as" and "schema \<noteq> []"
  shows "table_columns row_arrow (row_from_arrays schema as) = as"
proof (rule nth_equalityI)
  from assms have as: "map fst as = map snd schema" "\<forall>a \<in> set as. length (snd a) = n" by (auto simp: row_typed)
  have len: "length as = length schema" using arg_cong [OF as(1), of length] by simp
  then show "length (table_columns row_arrow (row_from_arrays schema as)) = length as"
    by (simp add: row_defs row_from_arrays_def)
  fix c assume "c < length (table_columns row_arrow (row_from_arrays schema as))"
  then have c: "c < length as" by (simp add: row_defs row_from_arrays_def len)
  from assms(2) len obtain a as' where Cons: "as = a # as'" by (cases as) auto
  have l: "length (snd a) = n" "length (snd (as ! c)) = n" using as(2) nth_mem [OF c] by (auto simp: Cons)
  have t: "fst (as ! c) = snd (schema ! c)" using as(1) c len by (metis nth_map)
  have "map (\<lambda>i. map (\<lambda>a. snd a ! i) as ! c) [0..<n] = snd (as ! c)"
    by (rule nth_equalityI) (simp_all add: l c)
  then show "table_columns row_arrow (row_from_arrays schema as) ! c = as ! c"
    using t c len l(1) by (simp add: row_defs row_from_arrays_def row_column_def comp_def Cons prod_eq_iff)
qed

lemma row_tables_ok: "tables_ok row_arrow row_access"
  unfolding tables_ok_def
proof (intro conjI allI impI)
  fix t :: row_table and ts
  assume s: "\<forall>u \<in> set ts. table_schema row_access u = table_schema row_access t"
  have "map (\<lambda>r. map (\<lambda>c. (fst (r ! c), typed (snd (fst t ! c)) (snd (r ! c)))) [0..<length (fst t)]) (concat (map snd ts))
      = concat (map (table_rows row_arrow row_access) ts)"
    using s by (induction ts) (simp_all add: row_table_rows row_simps)
  then show "\<exists>r. ConcatenateTables row_arrow (t # ts) = Inr r \<and> table_schema row_access r = table_schema row_access t \<and>
      table_rows row_arrow row_access r = concat (map (table_rows row_arrow row_access) (t # ts))"
    by (simp add: row_table_rows) (simp add: row_defs)
next
  fix schema :: "(string \<times> type_id) list" and n and as :: "row_array list"
  assume "arrays_typed row_arrow (map snd schema) n as" "schema \<noteq> []"
  from row_from_arrays_columns [OF this]
  show "let t = Table_FromArrays row_access schema as
        in table_schema row_access t = schema \<and> table_columns row_arrow t = as"
    by (simp add: row_simps row_from_arrays_def)
next
  fix schema :: "(string \<times> type_id) list"
  have "map (\<lambda>(n, a). (n, fst a)) (map (\<lambda>(n, ty). (n, ty, [] :: (bool \<times> arrow_scalar) list)) schema) = schema"
    by (simp add: comp_def split_def)
  then show "let t = Table_Make row_arrow (map (\<lambda>(n, ty). (n, ChunkedArray row_access ty [])) schema)
        in table_schema row_access t = schema \<and> table_rows row_arrow row_access t = []"
    by (cases schema) (auto simp: row_table_rows row_simps row_from_arrays_def)
qed (auto simp: row_defs row_column_def arrays_typed_def comp_def intro!: nth_equalityI)

lemma row_builders_ok: "builders_ok row_arrow row_access"
  unfolding builders_ok_def
proof (intro conjI allI impI)
  fix ty and vs :: "arrow_scalar option list"
  assume "\<forall>s. Some s \<in> set vs \<longrightarrow> scalar_type s = ty"
  then have "map shown (map ((\<lambda>x. (fst x, typed ty (snd x))) \<circ>
      (\<lambda>v. case v of None \<Rightarrow> (True, default_scalar ty) | Some s \<Rightarrow> (False, s))) vs) = vs"
    by (induction vs) (auto simp: typed_id split: option.splits)
  then show "\<exists>a. MakeArray row_access ty vs = Inr a \<and> array_type row_arrow a = ty \<and>
      map shown (cells row_arrow row_access a) = vs"
    by (simp add: row_cells) (simp add: row_simps comp_assoc)
next
  fix ty and as :: "row_array list"
  assume t: "\<forall>a \<in> set as. array_type row_arrow a = ty"
  show "array_type row_arrow (ChunkedArray row_access ty as) = ty"
    by (simp add: row_simps)
  have "map (\<lambda>x. (fst x, typed ty (snd x))) (concat (map snd as)) = concat (map (cells row_arrow row_access) as)"
    using t by (induction as) (simp_all add: row_cells row_simps)
  then show "cells row_arrow row_access (ChunkedArray row_access ty as) = concat (map (cells row_arrow row_access) as)"
    by (subst row_cells) (simp add: row_simps)
qed (simp add: row_simps)

lemma filter_nth_distinct:
  assumes "distinct ns" and "i < length ns"
  shows "filter (\<lambda>j. ns ! j = ns ! i) [0..<length ns] = [i]"
proof -
  have "filter (\<lambda>j. ns ! j = ns ! i) [0..<length ns] = filter (\<lambda>j. j = i) [0..<length ns]"
    using assms by (intro filter_cong) (auto simp: nth_eq_iff_index_eq)
  also have "filter (\<lambda>j. j = i) [0..<n] = (if i < n then [i] else [])" for n by (induction n) auto
  then have "filter (\<lambda>j. j = i) [0..<length ns] = [i]" using assms(2) by simp
  finally show ?thesis .
qed

lemma row_batches_ok: "batches_ok row_arrow row_access"
  unfolding batches_ok_def
proof (intro conjI allI impI)
  fix t :: row_table and n :: nat
  have "\<exists>bs. ReadBatches row_access t n = map Inr bs \<and>
        concat (map (batch_rows row_arrow row_access) bs) = table_rows row_arrow row_access t \<and> set bs \<subseteq> {t}"
    by (cases "snd t = []") (auto simp: row_simps row_batch_rows row_table_rows
        intro: exI [of _ "[]"] exI [of _ "[t]"])
  then show "\<exists>bs. ReadBatches row_access t n = map Inr bs \<and>
        concat (map (batch_rows row_arrow row_access) bs) = table_rows row_arrow row_access t \<and>
        (\<forall>b \<in> set bs. rb_names row_access b = field_names row_arrow t \<and>
           arrays_typed row_arrow (map snd (table_schema row_access t)) (rb_num_rows row_access b) (rb_columns row_access b))"
    by (elim ex_forward) (auto simp: row_simps arrays_typed_def row_column_def comp_def
        intro!: nth_equalityI)
next
  fix names :: "string list" and n assume "n \<notin> set names"
  then have "filter (\<lambda>i. names ! i = n) [0..<length names] = []" by (auto simp: filter_empty_conv)
  then show "GetFieldIndex row_access names n = None" by (simp add: row_simps)
next
  fix names :: "string list" and i assume "distinct names" "i < length names"
  from filter_nth_distinct [OF this] show "GetFieldIndex row_access names (names ! i) = Some i"
    by (simp add: row_simps)
qed (simp add: row_simps)

lemma row_selection_ok: "selection_ok row_arrow row_access"
  unfolding selection_ok_def
proof (intro conjI allI impI)
  fix tys n and as :: "row_array list" and sel
  assume "arrays_typed row_arrow tys n as" "\<forall>i \<in> set sel. i < n"
  then show "\<exists>bs. SelectRows row_access as sel = Inr bs \<and> arrays_typed row_arrow tys (length sel) bs \<and>
           map (row_of row_arrow row_access bs) [0..<length sel] = map (row_of row_arrow row_access as) sel"
    by (auto simp: row_simps row_typed row_of_def cell_def row_simps intro!: nth_equalityI)
next
  fix t :: row_table and cs assume "\<forall>c \<in> set cs. c < length (table_schema row_access t)"
  then show "\<exists>r. SelectColumns row_access t cs = Inr r \<and>
      table_schema row_access r = map ((!) (table_schema row_access t)) cs \<and>
      table_columns row_arrow r = map ((!) (table_columns row_arrow t)) cs"
    by (auto simp: row_defs row_column_def intro!: nth_equalityI)
qed (simp add: row_simps)

lemma row_rows_ok: "rows_ok row_arrow row_access"
  by (simp add: rows_ok_def row_tables_ok row_builders_ok row_batches_ok row_selection_ok)

end
