(* ===== verification/Tuple_Index.thy ===== *)
theory Tuple_Index
  imports Row_Access
begin

text \<open>
  Indexes of tuple sets (\<^verbatim>\<open>fpdb-tuple/src/TupleSetIndex.cpp\<close>, \<^verbatim>\<open>TupleSetIndexFinder.cpp\<close>)
  and the kernel and the operator that build them for a hash join
  (\<^verbatim>\<open>join/hashjoin/HashJoinBuildKernel.cpp\<close>, \<^verbatim>\<open>HashJoinBuildPOp.cpp\<close>).  An index maps the
  values of some columns to row numbers.  \<open>index_ok\<close> says that it holds exactly the rows of its tuple
  set, under their keys; all operations keep it, and a search finds the rows with an equal key.
\<close>

section \<open>The index\<close>

text \<open>The unordered multimap is kept as the list of its entries, in the order of insertion.\<close>

record 't TupleSetIndex =
  ti_columnNames :: "string list"
  ti_columnIndexes :: "nat list"
  ti_tupleSet :: "'t TupleSet"
  valueRowMap :: "(TupleKey \<times> nat) list"

definition index_build ::
  "('t, 'a) arrow \<Rightarrow> ('t, 'a, 'b) arrow_rows \<Rightarrow> nat list \<Rightarrow> nat \<Rightarrow> 't \<Rightarrow> (TupleKey \<times> nat) list expected" where
  "index_build A X columnIndexes rowIndexOffset table =
     ebind (for_batches X table (\<lambda>recordBatch st.
         efold (\<lambda>batchRow (m, tableRow).
             ebind (TupleKey_make A X batchRow columnIndexes recordBatch) (\<lambda>tupleKey.
               expect (m @ [(tupleKey, tableRow)], Suc tableRow)))
           [0..<rb_num_rows X recordBatch] st)
         ([], rowIndexOffset))
       (\<lambda>(m, _). expect m)"

definition TupleSetIndex_make ::
  "('t, 'a) arrow \<Rightarrow> ('t, 'a, 'b) arrow_rows \<Rightarrow> string list \<Rightarrow> 't TupleSet \<Rightarrow> 't TupleSetIndex expected" where
  "TupleSetIndex_make A X columnNames tupleSet =
     rbind (deref_table tupleSet) (\<lambda>table.
     ebind (column_indexes X (field_names A table)
         (\<lambda>n. ''Cannot make TupleSetIndex. Column '' @ quoted n @ '' does not exist'') columnNames) (\<lambda>columnIndexes.
     ebind (index_build A X columnIndexes 0 table) (\<lambda>m.
       expect \<lparr>ti_columnNames = columnNames, ti_columnIndexes = columnIndexes, ti_tupleSet = tupleSet,
               valueRowMap = m\<rparr>)))"

definition index_size :: "('t, 'a) arrow \<Rightarrow> 't TupleSetIndex \<Rightarrow> nat" where
  "index_size A ti = TupleSet_numRows A (ti_tupleSet ti)"

text \<open>A table whose columns come in another order is brought into the order of the index.\<close>

definition align_table ::
  "('t, 'a) arrow \<Rightarrow> ('t, 'a, 'b) arrow_rows \<Rightarrow> 't \<Rightarrow> 't \<Rightarrow> 't expected" where
  "align_table A X own table =
     (if schema_Equals A own table then expect table
      else ebind (emap (\<lambda>(n, ty). case GetColumnByName A table n of
             None \<Rightarrow> unexpected ''Schemas not compatible'' | Some a \<Rightarrow> expect a) (table_schema X own)) (\<lambda>arrays.
        expect (Table_FromArrays X (table_schema X own) arrays)))"

text \<open>
  \<open>put\<close> and \<open>merge\<close> return an error and the index.  The entries are inserted before the tables are
  concatenated, so they stay when that fails.
\<close>

definition index_append ::
  "('t, 'a) arrow \<Rightarrow> 't \<Rightarrow> 't \<Rightarrow> 't TupleSetIndex \<Rightarrow> (string option \<times> 't TupleSetIndex) result" where
  "index_append A own table ti =
     (case ConcatenateTables A [own, table] of
        Inl e \<Rightarrow> Inr (Some e, ti) | Inr t \<Rightarrow> Inr (None, ti\<lparr>ti_tupleSet := Some t\<rparr>))"

definition put_entries ::
  "('t, 'a) arrow \<Rightarrow> ('t, 'a, 'b) arrow_rows \<Rightarrow> 't \<Rightarrow> 't \<Rightarrow> 't TupleSetIndex
     \<Rightarrow> ('t \<times> (TupleKey \<times> nat) list) expected" where
  "put_entries A X own table ti =
     ebind (align_table A X own table) (\<lambda>alignedTable.
     ebind (emap (\<lambda>n. case GetFieldIndex X (field_names A alignedTable) n of
         None \<Rightarrow> unexpected (''Cannot add table to TupleSetIndex. Column '' @ quoted n @ '' does not exist'')
       | Some i \<Rightarrow> expect i) (ti_columnNames ti)) (\<lambda>columnIndexes.
       if ti_columnIndexes ti \<noteq> columnIndexes then
         unexpected ''Cannot add table to TupleSetIndex. Incoming column positions are different than exising ones''
       else ebind (index_build A X columnIndexes (num_rows A own) alignedTable) (\<lambda>m. expect (alignedTable, m))))"

definition TupleSetIndex_put ::
  "('t, 'a) arrow \<Rightarrow> ('t, 'a, 'b) arrow_rows \<Rightarrow> 't \<Rightarrow> 't TupleSetIndex \<Rightarrow> (string option \<times> 't TupleSetIndex) result" where
  "TupleSetIndex_put A X table ti =
     rbind (deref_table (ti_tupleSet ti)) (\<lambda>own.
     rbind (put_entries A X own table ti) (\<lambda>e. case e of
         Inl msg \<Rightarrow> Inr (Some msg, ti)
       | Inr (alignedTable, m) \<Rightarrow>
           index_append A own alignedTable (ti\<lparr>valueRowMap := valueRowMap ti @ m\<rparr>)))"

definition TupleSetIndex_merge ::
  "('t, 'a) arrow \<Rightarrow> 't TupleSetIndex \<Rightarrow> 't TupleSetIndex \<Rightarrow> (string option \<times> 't TupleSetIndex) result" where
  "TupleSetIndex_merge A other ti =
     rbind (deref_table (ti_tupleSet ti)) (\<lambda>own.
     rbind (deref_table (ti_tupleSet other)) (\<lambda>table.
       index_append A own table
         (ti\<lparr>valueRowMap := valueRowMap ti @ map (\<lambda>(k, r). (k, r + num_rows A own)) (valueRowMap other)\<rparr>)))"

definition TupleSetIndex_combine ::
  "('t, 'a) arrow \<Rightarrow> 't TupleSetIndex \<Rightarrow> (string option \<times> 't TupleSetIndex) result" where
  "TupleSetIndex_combine A ti =
     rbind (TupleSet_combine A (ti_tupleSet ti)) (\<lambda>(e, ts). Inr (e, ti\<lparr>ti_tupleSet := ts\<rparr>))"

text \<open>
  The lookup.  The multimap compares the key with the entries of one bucket that have its hash; the model
  compares it with all entries, which finds the same rows because equal keys have equal hashes, and the keys of
  an index and of the batches probed against it have the same types, so that no comparison fails.  The order in
  which the multimap lists them is the argument \<open>range_order\<close>.
\<close>

definition TupleSetIndex_find ::
  "('t, 'a, 'b) arrow_rows \<Rightarrow> TupleKey \<Rightarrow> 't TupleSetIndex \<Rightarrow> nat list result" where
  "TupleSetIndex_find X tupleKey ti =
     rbind (rmap (\<lambda>(k, r). rbind (TupleKey_equals X tupleKey k) (\<lambda>e. Inr (if e then [r] else []))) (valueRowMap ti))
       (\<lambda>rs. Inr (range_order X (concat rs)))"

text \<open>The finder: the columns of a batch that hold the key, and the search for a row of the batch.\<close>

definition TupleSetIndexFinder_make ::
  "('t, 'a, 'b) arrow_rows \<Rightarrow> string list \<Rightarrow> 'b \<Rightarrow> nat list expected" where
  "TupleSetIndexFinder_make X probeColumnNames recordBatch =
     column_indexes X (rb_names X recordBatch)
       (\<lambda>n. ''Cannot make TupleSetIndexFinder. Column '' @ quoted n @ '' does not exist'') probeColumnNames"

definition TupleSetIndexFinder_find ::
  "('t, 'a) arrow \<Rightarrow> ('t, 'a, 'b) arrow_rows \<Rightarrow> 't TupleSetIndex \<Rightarrow> nat list \<Rightarrow> 'b \<Rightarrow> nat \<Rightarrow> nat list expected" where
  "TupleSetIndexFinder_find A X ti probeColumnIndexes recordBatch rowIndex =
     ebind (TupleKey_make A X rowIndex probeColumnIndexes recordBatch) (\<lambda>tupleKey.
     rbind (TupleSetIndex_find X tupleKey ti) expect)"

text \<open>\<open>validate\<close>: every row is found under its key.\<close>

definition TupleSetIndex_validate ::
  "('t, 'a) arrow \<Rightarrow> ('t, 'a, 'b) arrow_rows \<Rightarrow> (TupleKey \<Rightarrow> string) \<Rightarrow> 't TupleSetIndex \<Rightarrow> nat expected" where
  "TupleSetIndex_validate A X key_string ti =
     rbind (deref_table (ti_tupleSet ti)) (\<lambda>table.
     for_batches X table (\<lambda>recordBatch tableRow.
       efold (\<lambda>batchRow tableRow.
           ebind (TupleKey_make A X batchRow (ti_columnIndexes ti) recordBatch) (\<lambda>tupleKey.
           rbind (TupleSetIndex_find X tupleKey ti) (\<lambda>indexes.
             if tableRow \<in> set indexes then expect (Suc tableRow)
             else unexpected (''Index invalid. Value found at row '' @ string_of_nat tableRow @ '' is '' @
               quoted (key_string tupleKey) @ '' was not found in the index''))))
         [0..<rb_num_rows X recordBatch] tableRow)
       0)"

section \<open>The build side of a join\<close>

record 't HashJoinBuildKernel =
  bk_columnNames :: "string list"
  tupleSetIndex :: "'t TupleSetIndex option"

definition HashJoinBuildKernel_make :: "string list \<Rightarrow> 't HashJoinBuildKernel result" where
  "HashJoinBuildKernel_make columnNames =
     (if columnNames = [] then Inl (UndefinedBehaviour ''assertion failed: !columnNames.empty()'')
      else Inr \<lparr>bk_columnNames = canonicalize_all columnNames, tupleSetIndex = None\<rparr>)"

definition HashJoinBuildKernel_put ::
  "('t, 'a) arrow \<Rightarrow> ('t, 'a, 'b) arrow_rows \<Rightarrow> 't TupleSet \<Rightarrow> 't HashJoinBuildKernel
     \<Rightarrow> (string option \<times> 't HashJoinBuildKernel) result" where
  "HashJoinBuildKernel_put A X tupleSet k =
     (case tupleSetIndex k of
        None \<Rightarrow> rbind (TupleSetIndex_make A X (bk_columnNames k) tupleSet) (\<lambda>e. case e of
            Inl msg \<Rightarrow> Inr (Some msg, k) | Inr ti \<Rightarrow> Inr (None, k\<lparr>tupleSetIndex := Some ti\<rparr>))
      | Some ti \<Rightarrow> rbind (deref_table tupleSet) (\<lambda>t.
          rbind (TupleSetIndex_put A X t ti) (\<lambda>(e, ti'). Inr (e, k\<lparr>tupleSetIndex := Some ti'\<rparr>))))"

definition HashJoinBuildKernel_size :: "('t, 'a) arrow \<Rightarrow> 't HashJoinBuildKernel \<Rightarrow> nat" where
  "HashJoinBuildKernel_size A k = (case tupleSetIndex k of None \<Rightarrow> 0 | Some ti \<Rightarrow> index_size A ti)"

definition HashJoinBuildKernel_clear :: "'t HashJoinBuildKernel \<Rightarrow> 't HashJoinBuildKernel" where
  "HashJoinBuildKernel_clear k = k\<lparr>tupleSetIndex := None\<rparr>"

text \<open>
  The operator does not build an index: the body of \<open>onTuple\<close> is commented out, and it passes a null
  tuple set on.
\<close>

definition HashJoinBuild_onStart :: "('h, 't, 'd, 't HashJoinBuildKernel) handler" where
  "HashJoinBuild_onStart S = Inr S"

definition HashJoinBuild_onTuple ::
  "('t TupleSet option) \<Rightarrow> string \<Rightarrow> ('h, 't, 'd, 't HashJoinBuildKernel) handler" where
  "HashJoinBuild_onTuple ts sndr S = tell (TupleMessage None (op_name S)) S"

definition HashJoinBuild_onComplete :: "('h, 't, 'd, 't HashJoinBuildKernel) handler" where
  "HashJoinBuild_onComplete = when_all_complete (notifyComplete HashJoinBuildKernel_clear)"

definition HashJoinBuildPOp :: "('h, 't, 'd, 't HashJoinBuildKernel) operator_methods" where
  "HashJoinBuildPOp = \<lparr>onReceive = dispatch HashJoinBuild_onStart HashJoinBuild_onTuple HashJoinBuild_onComplete\<rparr>"


interpretation hash_join_build: completing_operator HashJoinBuildPOp HashJoinBuildKernel_clear
  unfolding HashJoinBuildPOp_def HashJoinBuild_onComplete_def
  by (rule dispatch_completing)
    (auto simp: HashJoinBuild_onStart_def HashJoinBuild_onTuple_def intro: frames_tell frames_refl)

section \<open>What an index holds\<close>

text \<open>The list with its positions, from \<open>k\<close> on.\<close>

definition numbered :: "nat \<Rightarrow> 'k list \<Rightarrow> ('k \<times> nat) list" where
  "numbered k xs = zip xs [k..<k + length xs]"

lemma numbered_Nil [simp]: "numbered k [] = []"
  by (simp add: numbered_def)

lemma numbered_append: "numbered k (xs @ ys) = numbered k xs @ numbered (k + length xs) ys"
proof -
  have "[k..<k + length (xs @ ys)] = [k..<k + length xs] @ [k + length xs..<k + length xs + length ys]"
    by (metis add.assoc le_add1 length_append upt_add_eq_append)
  then show ?thesis by (simp add: numbered_def)
qed

lemma numbered_shift: "map (\<lambda>(x, r). (x, r + j)) (numbered k xs) = numbered (k + j) xs"
  by (rule nth_equalityI) (simp_all add: numbered_def)

lemma set_numbered: "set (numbered k xs) = {(xs ! i, k + i) | i. i < length xs}"
  by (force simp: numbered_def set_zip)

lemma filter_numbered:
  "map snd (filter (\<lambda>(x, r). P x) (numbered k xs)) = map (\<lambda>i. k + i) (filter (\<lambda>i. P (xs ! i)) [0..<length xs])"
proof (induction xs rule: rev_induct)
  case (snoc x xs)
  have "filter (\<lambda>i. P ((xs @ [x]) ! i)) [0..<length xs] = filter (\<lambda>i. P (xs ! i)) [0..<length xs]"
    by (rule filter_cong) (simp_all add: nth_append)
  with snoc show ?case by (simp add: numbered_append) (simp add: numbered_def)
qed simp

definition row_key :: "nat list \<Rightarrow> (bool \<times> arrow_scalar) list \<Rightarrow> TupleKey" where
  "row_key cs r = map (\<lambda>c. snd (r ! c)) cs"

definition keys_match :: "('t, 'a, 'b) arrow_rows \<Rightarrow> TupleKey \<Rightarrow> TupleKey \<Rightarrow> bool" where
  "keys_match X k k' \<longleftrightarrow> TupleKey_equals X k k' = Inr True"

definition index_ok :: "('t, 'a) arrow \<Rightarrow> ('t, 'a, 'b) arrow_rows \<Rightarrow> 't TupleSetIndex \<Rightarrow> bool" where
  "index_ok A X ti \<longleftrightarrow> (\<exists>t. ti_tupleSet ti = Some t \<and>
     (\<forall>c \<in> set (ti_columnIndexes ti). c < length (table_schema X t) \<and> snd (table_schema X t ! c) \<in> set key_types) \<and>
     valueRowMap ti = numbered 0 (map (row_key (ti_columnIndexes ti)) (table_rows A X t)))"

text \<open>The keys of the rows of a batch.\<close>

lemma TupleKey_make_ok:
  assumes "arrays_typed A tys (rb_num_rows X b) (rb_columns X b)" and "r < rb_num_rows X b"
    and "\<forall>c \<in> set cs. c < length tys \<and> tys ! c \<in> set key_types"
  shows "TupleKey_make A X r cs b = expect (row_key cs (batch_rows A X b ! r))"
proof -
  have len: "length (rb_columns X b) = length tys" using assms(1) by (auto simp: arrays_typed_def)
  show ?thesis
    unfolding TupleKey_make_def row_key_def
  proof (rule emap_expect)
    fix c assume "c \<in> set cs"
    with assms len have "c < length (rb_columns X b)" "array_type A (rb_columns X b ! c) = tys ! c"
        "tys ! c \<in> set key_types" "array_length A (rb_columns X b ! c) = rb_num_rows X b"
      by (auto simp: arrays_typed_def)
    then show "(if length (rb_columns X b) \<le> c then Inl (UndefinedBehaviour ''column index out of range'')
        else TupleKeyElement_make A r (rb_columns X b ! c)) = expect (snd (batch_rows A X b ! r ! c))"
      using assms(2) by (simp add: TupleKeyElement_make_def batch_rows_def row_of_def cell_def)
  qed
qed

lemma batch_rows_length [simp]: "length (batch_rows A X b) = rb_num_rows X b"
  by (simp add: batch_rows_def)

lemma table_rows_length [simp]: "length (table_rows A X t) = num_rows A t"
  by (simp add: table_rows_def)

text \<open>A loop over the batches whose step depends on the rows of a batch only.\<close>

lemma for_batches_ok:
  assumes ok: "rows_ok A X" and s: "P [] s"
    and step: "\<And>b ds s. arrays_typed A (map snd (table_schema X t)) (rb_num_rows X b) (rb_columns X b) \<Longrightarrow>
      rb_names X b = field_names A t \<Longrightarrow> P ds s \<Longrightarrow> \<exists>s'. f b s = expect s' \<and> P (ds @ batch_rows A X b) s'"
  shows "\<exists>s'. for_batches X t f s = expect s' \<and> P (table_rows A X t) s'"
proof -
  have "(0 :: nat) < DefaultChunkSize" by (simp add: DefaultChunkSize_def)
  from rows_Batches [OF ok this, of t] obtain bs where bs: "ReadBatches X t DefaultChunkSize = map Inr bs"
      "concat (map (batch_rows A X) bs) = table_rows A X t"
      "\<forall>b \<in> set bs. rb_names X b = field_names A t \<and>
         arrays_typed A (map snd (table_schema X t)) (rb_num_rows X b) (rb_columns X b)" by auto
  have "\<exists>s'. efold (\<lambda>r s. ebind (of_status r) (\<lambda>b. f b s)) (map Inr bs) s = expect s' \<and>
      P (ds @ concat (map (batch_rows A X) bs)) s'" if "P ds s" for ds s
    using bs(3) that
  proof (induction bs arbitrary: ds s)
    case (Cons b bs)
    with step [of b ds s] obtain u where u: "f b s = expect u" "P (ds @ batch_rows A X b) u" by auto
    with Cons.IH [OF _ u(2)] Cons.prems(1) show ?case by simp
  qed simp
  from this [OF s] show ?thesis by (simp add: for_batches_def bs(1,2))
qed

lemma index_build_ok:
  assumes "rows_ok A X" and "\<forall>c \<in> set cs. c < length (table_schema X t) \<and> snd (table_schema X t ! c) \<in> set key_types"
  shows "index_build A X cs k t = expect (numbered k (map (row_key cs) (table_rows A X t)))"
proof -
  let ?f = "\<lambda>b. \<lambda>r (m, row). ebind (TupleKey_make A X r cs b) (\<lambda>key. expect (m @ [(key, row)], Suc row))"
  let ?P = "\<lambda>ds (m, row). m = numbered k (map (row_key cs) ds) \<and> row = k + length ds"
  have "\<exists>s'. for_batches X t (\<lambda>b st. efold (?f b) [0..<rb_num_rows X b] st) ([], k) = expect s' \<and>
      ?P (table_rows A X t) s'"
  proof (rule for_batches_ok [OF assms(1)])
    fix b ds s
    assume b: "arrays_typed A (map snd (table_schema X t)) (rb_num_rows X b) (rb_columns X b)" and P: "?P ds s"
    have "\<exists>s'. efold (?f b) [0..<rb_num_rows X b] s = expect s' \<and> ?P (ds @ take (rb_num_rows X b) (batch_rows A X b)) s'"
    proof (rule efold_upt)
      show "?P (ds @ take 0 (batch_rows A X b)) s" using P by simp
    next
      fix i s assume i: "i < rb_num_rows X b" and P: "?P (ds @ take i (batch_rows A X b)) s"
      have "TupleKey_make A X i cs b = expect (row_key cs (batch_rows A X b ! i))"
        by (rule TupleKey_make_ok [OF b i]) (use assms(2) in auto)
      with i P show "\<exists>t. ?f b i s = expect t \<and> ?P (ds @ take (Suc i) (batch_rows A X b)) t"
        by (cases s) (simp add: take_Suc_conv_app_nth numbered_append, simp add: numbered_def)
    qed
    then show "\<exists>s'. efold (?f b) [0..<rb_num_rows X b] s = expect s' \<and> ?P (ds @ batch_rows A X b) s'" by simp
  qed simp
  then show ?thesis by (auto simp: index_build_def)
qed

section \<open>The operations keep it\<close>

lemma column_indexes_ok:
  assumes "rows_ok A X" and "distinct names" and "\<forall>n \<in> set ns. canonicalize n \<in> set names"
  shows "\<exists>cs. column_indexes X names err ns = expect cs \<and> (\<forall>c \<in> set cs. c < length names) \<and>
    map ((!) names) cs = map canonicalize ns"
proof -
  have "\<exists>cs. column_indexes X names err ns = expect cs \<and> list_all2 (\<lambda>n c. c < length names \<and> names ! c = canonicalize n) ns cs"
    unfolding column_indexes_def
  proof (rule emap_total)
    fix n assume "n \<in> set ns"
    then obtain i where "i < length names" "names ! i = canonicalize n" using assms(3) by (metis in_set_conv_nth)
    with rows_GetFieldIndex [OF assms(1,2), of i] show "\<exists>y. (case GetFieldIndex X names (canonicalize n) of None \<Rightarrow> unexpected (err n)
        | Some i \<Rightarrow> expect i) = expect y \<and> y < length names \<and> names ! y = canonicalize n"
      by auto
  qed
  then show ?thesis
    by (elim ex_forward) (auto simp: list_all2_conv_all_nth in_set_conv_nth intro: nth_equalityI)
qed

lemma TupleSetIndex_make_ok:
  assumes "rows_ok A X" and "distinct (field_names A t)"
    and "\<forall>n \<in> set ns. \<exists>c < length (table_schema X t). fst (table_schema X t ! c) = canonicalize n \<and>
      snd (table_schema X t ! c) \<in> set key_types"
  shows "\<exists>ti. TupleSetIndex_make A X ns (Some t) = expect ti \<and> index_ok A X ti \<and> ti_tupleSet ti = Some t \<and>
    map ((!) (field_names A t)) (ti_columnIndexes ti) = map canonicalize ns"
proof -
  have names: "field_names A t = map fst (table_schema X t)" by (rule rows_names [OF assms(1)])
  have "\<forall>n \<in> set ns. canonicalize n \<in> set (field_names A t)"
  proof
    fix n assume "n \<in> set ns"
    with assms(3) show "canonicalize n \<in> set (field_names A t)" by (metis names length_map nth_map nth_mem)
  qed
  from column_indexes_ok [OF assms(1,2) this] obtain cs where
    cs: "column_indexes X (field_names A t)
        (\<lambda>n. ''Cannot make TupleSetIndex. Column '' @ quoted n @ '' does not exist'') ns = expect cs"
      "\<forall>c \<in> set cs. c < length (field_names A t)" "map ((!) (field_names A t)) cs = map canonicalize ns" by blast
  have key: "\<forall>c \<in> set cs. c < length (table_schema X t) \<and> snd (table_schema X t ! c) \<in> set key_types"
  proof
    fix c assume c: "c \<in> set cs"
    then have "field_names A t ! c \<in> set (map canonicalize ns)" using cs(3) by (metis image_eqI set_map)
    then obtain n where n: "n \<in> set ns" "field_names A t ! c = canonicalize n" by auto
    with assms(3) obtain d where d: "d < length (table_schema X t)" "fst (table_schema X t ! d) = canonicalize n"
        "snd (table_schema X t ! d) \<in> set key_types" by auto
    have "d = c" using n(2) d(1,2) cs(2) c assms(2) by (simp add: names nth_eq_iff_index_eq distinct_map)
      (metis distinct_map inj_on_eq_iff nth_eq_iff_index_eq nth_mem)
    with d show "c < length (table_schema X t) \<and> snd (table_schema X t ! c) \<in> set key_types" by simp
  qed
  show ?thesis
    using cs(1,3) index_build_ok [OF assms(1) key, of 0]
    by (simp add: TupleSetIndex_make_def deref_table_def index_ok_def key)
qed

lemma index_ok_append:
  assumes ok: "rows_ok A X" and ti: "index_ok A X ti" "ti_tupleSet ti = Some own"
    and schema: "table_schema X t = table_schema X own"
    and m: "m = numbered (num_rows A own) (map (row_key (ti_columnIndexes ti)) (table_rows A X t))"
  shows "\<exists>r. index_append A own t (ti\<lparr>valueRowMap := valueRowMap ti @ m\<rparr>) =
      Inr (None, ti\<lparr>valueRowMap := valueRowMap ti @ m, ti_tupleSet := Some r\<rparr>) \<and>
    index_ok A X (ti\<lparr>valueRowMap := valueRowMap ti @ m, ti_tupleSet := Some r\<rparr>) \<and>
    table_schema X r = table_schema X own \<and> table_rows A X r = table_rows A X own @ table_rows A X t"
proof -
  from rows_Concatenate [OF ok schema] obtain r where "ConcatenateTables A [own, t] = Inr r"
      "table_schema X r = table_schema X own" "table_rows A X r = table_rows A X own @ table_rows A X t" by blast
  with ti m show ?thesis by (intro exI [of _ r]) (simp add: index_append_def index_ok_def numbered_append)
qed

lemma TupleSetIndex_merge_ok:
  assumes ok: "rows_ok A X" and ti: "index_ok A X ti" "ti_tupleSet ti = Some own"
    and other: "index_ok A X other" "ti_tupleSet other = Some t"
    and same: "ti_columnIndexes other = ti_columnIndexes ti" "table_schema X t = table_schema X own"
  shows "\<exists>ti' r. TupleSetIndex_merge A other ti = Inr (None, ti') \<and> index_ok A X ti' \<and> ti_tupleSet ti' = Some r \<and>
    ti_columnIndexes ti' = ti_columnIndexes ti \<and> table_schema X r = table_schema X own \<and>
    table_rows A X r = table_rows A X own @ table_rows A X t"
proof -
  have "map (\<lambda>(k, r). (k, r + num_rows A own)) (valueRowMap other) =
      numbered (num_rows A own) (map (row_key (ti_columnIndexes ti)) (table_rows A X t))"
    using other same(1) by (simp add: index_ok_def numbered_shift)
  from index_ok_append [OF ok ti same(2) this] ti(2) other(2) show ?thesis
    by (auto simp: TupleSetIndex_merge_def deref_table_def)
qed

lemma TupleSetIndex_combine_ok:
  assumes ok: "rows_ok A X" and ti: "index_ok A X ti" "ti_tupleSet ti = Some t"
  shows "\<exists>ti' r. TupleSetIndex_combine A ti = Inr (None, ti') \<and> index_ok A X ti' \<and> ti_tupleSet ti' = Some r \<and>
    ti_columnIndexes ti' = ti_columnIndexes ti \<and> valueRowMap ti' = valueRowMap ti \<and>
    table_schema X r = table_schema X t \<and> table_rows A X r = table_rows A X t \<and>
    (num_rows A r > 0 \<longrightarrow> (\<forall>a \<in> set (table_columns A r).
           \<exists>c. chunk_0 X a = Some c \<and> array_type A c = array_type A a \<and> cells A X c = cells A X a))"
proof -
  from rows_Combine [OF ok, of t] obtain r where r: "CombineChunks A t = Inr r" "table_schema X r = table_schema X t"
      "table_rows A X r = table_rows A X t"
      "num_rows A r > 0 \<longrightarrow> (\<forall>a \<in> set (table_columns A r).
           \<exists>c. chunk_0 X a = Some c \<and> array_type A c = array_type A a \<and> cells A X c = cells A X a)"
    by (elim exE conjE) (rule that)
  let ?ti = "ti\<lparr>ti_tupleSet := Some r\<rparr>"
  have "TupleSetIndex_combine A ti = Inr (None, ?ti)"
    by (simp add: TupleSetIndex_combine_def TupleSet_combine_def deref_table_def ti(2) r(1))
  moreover have "index_ok A X ?ti" using ti r(2,3) by (simp add: index_ok_def)
  ultimately show ?thesis using r(2-4) by (intro exI [of _ ?ti] exI [of _ r]) simp
qed

text \<open>A search finds the rows with an equal key, and does not throw if the keys have the same types.\<close>

lemma TupleKey_equals_total:
  "map scalar_type k = map scalar_type k' \<Longrightarrow> \<exists>e. TupleKey_equals X k k' = Inr e"
proof (induction k arbitrary: k')
  case (Cons x xs)
  then obtain y ys where "k' = y # ys" "scalar_type x = scalar_type y" "map scalar_type xs = map scalar_type ys"
    by (cases k') auto
  with Cons.IH [of ys] show ?case
    by (cases "TupleKeyElement_equals X x y") (auto simp: TupleKeyElement_equals_def split: if_splits)
qed (auto intro: exI [of _ True])

lemma TupleSetIndex_find_ok:
  assumes "index_ok A X ti" and "ti_tupleSet ti = Some t"
    and "\<forall>r \<in> set (table_rows A X t). map scalar_type (row_key (ti_columnIndexes ti) r) = map scalar_type k"
  shows "TupleSetIndex_find X k ti = Inr (range_order X
    (filter (\<lambda>i. keys_match X k (row_key (ti_columnIndexes ti) (table_rows A X t ! i))) [0..<num_rows A t]))"
proof -
  let ?m = "numbered 0 (map (row_key (ti_columnIndexes ti)) (table_rows A X t))"
  have "rmap (\<lambda>(k', r). rbind (TupleKey_equals X k k') (\<lambda>e. Inr (if e then [r] else []))) ?m
      = Inr (map (\<lambda>(k', r). if keys_match X k k' then [r] else []) ?m)"
  proof (rule rmap_cong_Inr)
    fix x assume m: "x \<in> set ?m"
    obtain k' r where x: "x = (k', r)" by fastforce
    then have x: "x = (k', r)" "map scalar_type k' = map scalar_type k"
      using m assms(3) by (auto simp: set_numbered simp del: map_eq_conv)
    with TupleKey_equals_total [of k k' X]
    show "(\<lambda>(k', r). rbind (TupleKey_equals X k k') (\<lambda>e. Inr (if e then [r] else []))) x
        = Inr ((\<lambda>(k', r). if keys_match X k k' then [r] else []) x)"
      by (auto simp: keys_match_def)
  qed
  moreover have "concat (map (\<lambda>(k', r). if keys_match X k k' then [r] else []) m)
      = map snd (filter (\<lambda>(k', r). keys_match X k k') m)" for m :: "(TupleKey \<times> nat) list"
    by (induction m) auto
  moreover have "map snd (filter (\<lambda>(k', r). keys_match X k k') ?m)
      = filter (\<lambda>i. keys_match X k (row_key (ti_columnIndexes ti) (table_rows A X t ! i))) [0..<num_rows A t]"
  proof -
    have "map ((+) 0) js = js" for js :: "nat list" by (induction js) auto
    then show ?thesis by (subst filter_numbered) (auto intro!: filter_cong)
  qed
  ultimately show ?thesis
    using assms(1,2) by (simp add: TupleSetIndex_find_def index_ok_def)
qed

end
