(* ===== verification/Hash_Join.thy ===== *)
theory Hash_Join
  imports Tuple_Index
begin

text \<open>
  The probe side of a hash join (\<^verbatim>\<open>join/hashjoin/RecordBatchHashJoiner.cpp\<close>,
  \<^verbatim>\<open>HashJoinProbeAbstractKernel.cpp\<close>, \<^verbatim>\<open>HashJoinProbeKernel.cpp\<close>,
  \<^verbatim>\<open>HashJoinProbePOp.cpp\<close> and \<^verbatim>\<open>join/OuterJoinHelper.cpp\<close>).  The two relations arrive in
  pieces and in any order; every piece is joined at once with what has arrived of the other side, and the
  results are collected.  Indexes and tuple sets are values here: in the code the kernel shares the first
  piece of each side with the sender of the message.

  The main results: the pieces joined one by one give the relational join of the two sides, each
  pair of rows once; and after \<open>finalize\<close> the unmatched rows of an outer join, padded with nulls.
\<close>

section \<open>Joining a record batch with an index\<close>

text \<open>A needed column is the \<open>i\<close>-th column of the build side (\<open>True\<close>) or of the probe side.\<close>

type_synonym schema = "(string \<times> type_id) list"

record ('t, 'a) RecordBatchHashJoiner =
  buildTupleSetIndex :: "'t TupleSetIndex"
  probeJoinColumnNames :: "string list"
  hj_outputSchema :: schema
  hj_needed :: "(bool \<times> nat) list"
  joinedArrayVectors :: "'a list list"
  buildRowOffset :: nat
  buildRowMatchIndexes :: "nat set"
  probeRowMatchIndexes :: "nat set"

definition RecordBatchHashJoiner_make ::
  "'t TupleSetIndex \<Rightarrow> string list \<Rightarrow> schema \<Rightarrow> (bool \<times> nat) list \<Rightarrow> nat \<Rightarrow> ('t, 'a) RecordBatchHashJoiner" where
  "RecordBatchHashJoiner_make ti names schema needed offset =
     \<lparr>buildTupleSetIndex = ti, probeJoinColumnNames = canonicalize_all names, hj_outputSchema = schema,
      hj_needed = needed, joinedArrayVectors = replicate (length schema) [], buildRowOffset = offset,
      buildRowMatchIndexes = {}, probeRowMatchIndexes = {}\<rparr>"

text \<open>The loop over the needed columns of a pair of rows.\<close>

definition append_pair ::
  "('t, 'a) arrow \<Rightarrow> ('t, 'a, 'b) arrow_rows \<Rightarrow> 'a list \<Rightarrow> 'a list \<Rightarrow> (bool \<times> nat) list \<Rightarrow> nat \<Rightarrow> nat
     \<Rightarrow> ArrayAppender list \<Rightarrow> ArrayAppender list expected" where
  "append_pair A X buildColumns probeColumns needed br pr appenders =
     efold (\<lambda>c aps.
         let (isBuild, j) = needed ! c; columns = (if isBuild then buildColumns else probeColumns)
         in if j \<ge> length columns \<or> c \<ge> length aps then Inl (UndefinedBehaviour ''vector index out of range'')
            else ebind (appendValue A X (columns ! j) (if isBuild then br else pr) (aps ! c)) (\<lambda>ap.
              expect (aps[c := ap])))
       [0..<length needed] appenders"

text \<open>A probe row: the matching build rows, and an output row for each.\<close>

definition join_row ::
  "('t, 'a) arrow \<Rightarrow> ('t, 'a, 'b) arrow_rows \<Rightarrow> ('t, 'a) RecordBatchHashJoiner \<Rightarrow> nat list \<Rightarrow> 'a list \<Rightarrow> 'b \<Rightarrow> nat \<Rightarrow> nat
     \<Rightarrow> ArrayAppender list \<times> nat set \<times> nat set \<Rightarrow> (ArrayAppender list \<times> nat set \<times> nat set) expected" where
  "join_row A X J probeColumnIndexes buildColumns batch probeRowOffset pr = (\<lambda>(aps, bm, pm).
     ebind (TupleSetIndexFinder_find A X (buildTupleSetIndex J) probeColumnIndexes batch pr) (\<lambda>buildRows.
       let pm' = (if buildRows \<noteq> [] then insert (probeRowOffset + pr) pm else pm)
       in ebind (efold (\<lambda>br (aps, bm).
              ebind (append_pair A X buildColumns (rb_columns X batch) (hj_needed J) br pr aps) (\<lambda>aps'.
                expect (aps', insert (buildRowOffset J + br) bm))) buildRows (aps, bm)) (\<lambda>(aps', bm').
            expect (aps', bm', pm'))))"

definition append_arrays :: "('t, 'a) arrow \<Rightarrow> 'a list \<Rightarrow> 'a list list \<Rightarrow> 'a list list" where
  "append_arrays A arrays vectors =
     map2 (\<lambda>a v. if array_length A a > 0 then v @ [a] else v) arrays vectors"

definition RecordBatchHashJoiner_join ::
  "('t, 'a) arrow \<Rightarrow> ('t, 'a, 'b) arrow_rows \<Rightarrow> 'b \<Rightarrow> nat \<Rightarrow> ('t, 'a) RecordBatchHashJoiner
     \<Rightarrow> ('t, 'a) RecordBatchHashJoiner expected" where
  "RecordBatchHashJoiner_join A X batch probeRowOffset J =
     rbind (TupleSetIndex_combine A (buildTupleSetIndex J)) (\<lambda>(e, ti). case e of
       Some msg \<Rightarrow> unexpected msg
     | None \<Rightarrow>
         rbind (deref_table (ti_tupleSet ti)) (\<lambda>buildTable.
         ebind (TupleSetIndexFinder_make X (probeJoinColumnNames J) batch) (\<lambda>probeColumnIndexes.
         rbind (first_chunks X (table_columns A buildTable)) (\<lambda>buildColumns.
         let J1 = J\<lparr>buildTupleSetIndex := ti\<rparr>
         in ebind (emap (\<lambda>(n, ty). ArrayAppenderBuilder_make ty) (hj_outputSchema J1)) (\<lambda>appenders.
            ebind (efold (join_row A X J1 probeColumnIndexes buildColumns batch probeRowOffset)
                [0..<rb_num_rows X batch]
                (appenders, buildRowMatchIndexes J1, probeRowMatchIndexes J1)) (\<lambda>(aps, bm, pm).
            ebind (emap (ArrayAppender_finalize X) aps) (\<lambda>arrays.
              expect (J1\<lparr>joinedArrayVectors := append_arrays A arrays (joinedArrayVectors J1),
                         buildRowMatchIndexes := bm, probeRowMatchIndexes := pm\<rparr>))))))))"

text \<open>\<open>TupleSet::make(schema)\<close> makes empty columns.\<close>

definition TupleSet_make_empty :: "('t, 'a) arrow \<Rightarrow> ('t, 'a, 'b) arrow_rows \<Rightarrow> schema \<Rightarrow> 't TupleSet" where
  "TupleSet_make_empty A X schema = TupleSet_make A (map (\<lambda>(n, ty). \<lparr>col_name = n, col_array = ChunkedArray X ty []\<rparr>) schema)"

definition joiner_toTupleSet ::
  "('t, 'a) arrow \<Rightarrow> ('t, 'a, 'b) arrow_rows \<Rightarrow> ('t, 'a) RecordBatchHashJoiner \<Rightarrow> 't TupleSet" where
  "joiner_toTupleSet A X J =
     (if [] \<in> set (joinedArrayVectors J) then TupleSet_make_empty A X (hj_outputSchema J)
      else Some (Table_FromArrays X (hj_outputSchema J)
        (map2 (\<lambda>(n, ty) v. ChunkedArray X ty v) (hj_outputSchema J) (joinedArrayVectors J))))"

section \<open>The rows of one side without a match\<close>

record OuterJoinHelper =
  oj_isLeft :: bool
  oj_outputSchema :: schema
  oj_needed :: "(bool \<times> nat) list"
  rowMatchIndexes :: "nat set option"

definition OuterJoinHelper_make :: "bool \<Rightarrow> schema \<Rightarrow> (bool \<times> nat) list \<Rightarrow> OuterJoinHelper" where
  "OuterJoinHelper_make isLeft schema needed =
     \<lparr>oj_isLeft = isLeft, oj_outputSchema = schema, oj_needed = needed, rowMatchIndexes = None\<rparr>"

definition putRowMatchIndexes :: "nat set \<Rightarrow> OuterJoinHelper \<Rightarrow> OuterJoinHelper" where
  "putRowMatchIndexes newRowMatchIndexes h =
     h\<lparr>rowMatchIndexes := Some (case rowMatchIndexes h of None \<Rightarrow> newRowMatchIndexes
                                | Some m \<Rightarrow> m \<union> newRowMatchIndexes)\<rparr>"

text \<open>
  The selection vector has room for as many rows as the table has more than matches; more rows than that
  are written outside.
\<close>

definition unmatched_rows :: "nat \<Rightarrow> nat set \<Rightarrow> nat list result" where
  "unmatched_rows n m =
     (let sel = filter (\<lambda>r. r \<notin> m) [0..<n]
      in if card m > n \<or> length sel \<noteq> n - card m then Inl (UndefinedBehaviour ''selection vector of another size'')
         else Inr sel)"

definition computeKeepSide ::
  "('t, 'a) arrow \<Rightarrow> ('t, 'a, 'b) arrow_rows \<Rightarrow> 't TupleSet \<Rightarrow> OuterJoinHelper \<Rightarrow> 'a list expected" where
  "computeKeepSide A X tupleSet h =
     (let columnIds = map snd (filter (\<lambda>(isBuild, j). isBuild = oj_isLeft h) (oj_needed h))
      in if columnIds = [] then expect []
         else rbind (deref_table tupleSet) (\<lambda>t.
           ebind (of_status (SelectColumns X t columnIds)) (\<lambda>projectTable.
           rbind (TupleSet_combine A (Some projectTable)) (\<lambda>(e, ts). case e of
             Some msg \<Rightarrow> unexpected msg
           | None \<Rightarrow>
               rbind (deref_table ts) (\<lambda>table.
               rbind (first_chunks X (table_columns A table)) (\<lambda>inputArrays.
                 case rowMatchIndexes h of
                      None \<Rightarrow> expect inputArrays
                    | Some m \<Rightarrow>
                        if m = {} then expect inputArrays
                        else rbind (unmatched_rows (num_rows A t) m) (\<lambda>sel.
                          evaluateBySelectionVectorStatic X (table_schema X table) inputArrays sel)))))))"

definition computeDiscardSide ::
  "('t, 'a) arrow \<Rightarrow> ('t, 'a, 'b) arrow_rows \<Rightarrow> 't TupleSet \<Rightarrow> OuterJoinHelper \<Rightarrow> 'a list expected" where
  "computeDiscardSide A X keepTupleSet h =
     (let discardNumColumns = length (filter (\<lambda>(isBuild, j). isBuild \<noteq> oj_isLeft h) (oj_needed h));
          schema = oj_outputSchema h;
          discard = (if oj_isLeft h then drop (length schema - discardNumColumns) schema
                     else take discardNumColumns schema);
          n = (case rowMatchIndexes h of None \<Rightarrow> TupleSet_numRows A keepTupleSet
               | Some m \<Rightarrow> TupleSet_numRows A keepTupleSet - card m)
      in emap (\<lambda>(name, ty). case MakeArray X ty (replicate n None) of
             Inl e \<Rightarrow> unexpected (''Error when finalizing ColumnBuilder, '' @ e) | Inr a \<Rightarrow> expect a) discard)"

definition OuterJoinHelper_compute ::
  "('t, 'a) arrow \<Rightarrow> ('t, 'a, 'b) arrow_rows \<Rightarrow> 't TupleSet \<Rightarrow> OuterJoinHelper \<Rightarrow> 't TupleSet expected" where
  "OuterJoinHelper_compute A X tupleSet h =
     ebind (computeKeepSide A X tupleSet h) (\<lambda>keepArrayVector.
     ebind (computeDiscardSide A X tupleSet h) (\<lambda>discardArrayVector.
       expect (Some (Table_FromArrays X (oj_outputSchema h)
         (if oj_isLeft h then keepArrayVector @ discardArrayVector else discardArrayVector @ keepArrayVector)))))"

section \<open>The kernel\<close>

record HashJoinPredicate =
  leftColumnNames :: "string list"
  rightColumnNames :: "string list"

record 't ProbeKernel =
  pk_pred :: HashJoinPredicate
  neededColumnNames :: "string list"
  neededColumnIndice :: "(bool \<times> nat) list"
  pk_outputSchema :: "schema option"
  pk_build :: "'t TupleSetIndex option"
  probeTupleSet :: "'t TupleSet option"
  pk_buffer :: "'t TupleSet option"
  isLeft :: bool
  isRight :: bool
  isOuterJoinHelperCreated :: bool
  leftJoinHelper :: "OuterJoinHelper option"
  rightJoinHelper :: "OuterJoinHelper option"

definition HashJoinProbeKernel_make :: "HashJoinPredicate \<Rightarrow> string list \<Rightarrow> bool \<Rightarrow> bool \<Rightarrow> 't ProbeKernel" where
  "HashJoinProbeKernel_make pred needed l r =
     \<lparr>pk_pred = pred, neededColumnNames = needed, neededColumnIndice = [], pk_outputSchema = None, pk_build = None,
      probeTupleSet = None, pk_buffer = None, isLeft = l, isRight = r, isOuterJoinHelperCreated = False,
      leftJoinHelper = None, rightJoinHelper = None\<rparr>"

text \<open>Every method returns an error or nothing, and the kernel.\<close>

type_synonym 't kernel_result = "(string option \<times> 't ProbeKernel) result"

definition kbind :: "'t kernel_result \<Rightarrow> ('t ProbeKernel \<Rightarrow> 't kernel_result) \<Rightarrow> 't kernel_result" where
  "kbind m f = rbind m (\<lambda>(e, K). case e of Some msg \<Rightarrow> Inr (Some msg, K) | None \<Rightarrow> f K)"

definition validateColumnNames ::
  "('t, 'a, 'b) arrow_rows \<Rightarrow> string list \<Rightarrow> string list \<Rightarrow> string option" where
  "validateColumnNames X names columnNames =
     (case find (\<lambda>n. GetFieldIndex X names n = None) columnNames of
        None \<Rightarrow> None | Some n \<Rightarrow> Some (''Column '' @ quoted n @ '' does not exist.''))"

definition putBuildTupleSetIndex ::
  "('t, 'a) arrow \<Rightarrow> ('t, 'a, 'b) arrow_rows \<Rightarrow> 't TupleSetIndex \<Rightarrow> 't ProbeKernel \<Rightarrow> 't kernel_result" where
  "putBuildTupleSetIndex A X ti K =
     rbind (deref_table (ti_tupleSet ti)) (\<lambda>t.
       case validateColumnNames X (field_names A t) (leftColumnNames (pk_pred K)) of
         Some e \<Rightarrow> Inr (Some (''Cannot put build tuple set index into probe kernel. '' @ e), K)
       | None \<Rightarrow>
           (case pk_build K of
              None \<Rightarrow> Inr (None, K\<lparr>pk_build := Some ti\<rparr>)
            | Some own \<Rightarrow>
                if index_size A ti > 0 then
                  rbind (TupleSetIndex_merge A ti own) (\<lambda>(e, own'). Inr (e, K\<lparr>pk_build := Some own'\<rparr>))
                else Inr (None, K)))"

definition putProbeTupleSet ::
  "('t, 'a) arrow \<Rightarrow> ('t, 'a, 'b) arrow_rows \<Rightarrow> 't TupleSet \<Rightarrow> 't ProbeKernel \<Rightarrow> 't kernel_result" where
  "putProbeTupleSet A X tupleSet K =
     rbind (deref_table tupleSet) (\<lambda>t.
       case validateColumnNames X (field_names A t) (rightColumnNames (pk_pred K)) of
         Some e \<Rightarrow> Inr (Some (''Cannot put probe tuple set into probe kernel. '' @ e), K)
       | None \<Rightarrow>
           (case probeTupleSet K of
              None \<Rightarrow> Inr (None, K\<lparr>probeTupleSet := Some tupleSet\<rparr>)
            | Some own \<Rightarrow>
                if TupleSet_numRows A tupleSet > 0 then
                  rbind (TupleSet_append A [tupleSet] own) (\<lambda>(e, own'). Inr (e, K\<lparr>probeTupleSet := Some own'\<rparr>))
                else Inr (None, K)))"

definition kernel_buffer :: "('t, 'a) arrow \<Rightarrow> 't TupleSet \<Rightarrow> 't ProbeKernel \<Rightarrow> 't kernel_result" where
  "kernel_buffer A tupleSet K =
     (case pk_buffer K of
        None \<Rightarrow> Inr (None, K\<lparr>pk_buffer := Some tupleSet\<rparr>)
      | Some buffered \<Rightarrow>
          rbind (TupleSet_concatenate A [buffered, tupleSet]) (\<lambda>e. case e of
            Inl msg \<Rightarrow> Inr (Some msg, K) | Inr ts \<Rightarrow> Inr (None, K\<lparr>pk_buffer := Some ts\<rparr>)))"

text \<open>The needed fields of a schema, with their indexes.\<close>

definition needed_fields :: "bool \<Rightarrow> string list \<Rightarrow> schema \<Rightarrow> (bool \<times> nat) list" where
  "needed_fields side needed schema =
     map (Pair side) (filter (\<lambda>c. fst (schema ! c) \<in> set needed) [0..<length schema])"

definition output_field :: "schema \<Rightarrow> schema \<Rightarrow> bool \<times> nat \<Rightarrow> string \<times> type_id" where
  "output_field build probe = (\<lambda>(isBuild, c). if isBuild then build ! c else probe ! c)"

definition bufferOutputSchema ::
  "('t, 'a, 'b) arrow_rows \<Rightarrow> 't TupleSetIndex \<Rightarrow> 't TupleSet \<Rightarrow> 't ProbeKernel \<Rightarrow> 't ProbeKernel result" where
  "bufferOutputSchema X ti tupleSet K =
     (case pk_outputSchema K of
        Some _ \<Rightarrow> Inr K
      | None \<Rightarrow>
          rbind (deref_table (ti_tupleSet ti)) (\<lambda>b.
          rbind (deref_table tupleSet) (\<lambda>p.
            let build = table_schema X b; probe = table_schema X p;
                indices = needed_fields True (neededColumnNames K) build @ needed_fields False (neededColumnNames K) probe
            in Inr (K\<lparr>neededColumnIndice := neededColumnIndice K @ indices,
                      pk_outputSchema := Some (map (output_field build probe) indices)\<rparr>))))"

definition makeOuterJoinHelpers :: "'t ProbeKernel \<Rightarrow> 't kernel_result" where
  "makeOuterJoinHelpers K =
     (if isOuterJoinHelperCreated K then Inr (None, K)
      else case pk_outputSchema K of
          None \<Rightarrow> Inr (Some ''Output schema not set when making outer join helpers'', K)
        | Some schema \<Rightarrow>
            let K1 = (if isLeft K \<and> leftJoinHelper K = None then
                        K\<lparr>leftJoinHelper := Some (OuterJoinHelper_make True schema (neededColumnIndice K))\<rparr> else K);
                K2 = (if isRight K1 \<and> rightJoinHelper K1 = None then
                        K1\<lparr>rightJoinHelper := Some (OuterJoinHelper_make False schema (neededColumnIndice K1))\<rparr> else K1)
            in Inr (None, K2\<lparr>isOuterJoinHelperCreated := True\<rparr>))"

text \<open>The loop over the batches of the probe side, and what is done with the joiner after it.\<close>

definition join_batches ::
  "('t, 'a) arrow \<Rightarrow> ('t, 'a, 'b) arrow_rows \<Rightarrow> 't \<Rightarrow> nat \<Rightarrow> ('t, 'a) RecordBatchHashJoiner
     \<Rightarrow> ('t, 'a) RecordBatchHashJoiner expected" where
  "join_batches A X probeTable probeRowOffset J =
     ebind (for_batches X probeTable (\<lambda>batch (J, localOffset).
         ebind (RecordBatchHashJoiner_join A X batch (probeRowOffset + localOffset) J) (\<lambda>J'.
           expect (J', localOffset + rb_num_rows X batch)))
         (J, 0))
       (\<lambda>(J', _). expect J')"

definition save_matches :: "('t, 'a) RecordBatchHashJoiner \<Rightarrow> 't ProbeKernel \<Rightarrow> 't ProbeKernel" where
  "save_matches J K =
     K\<lparr>leftJoinHelper := map_option (putRowMatchIndexes (buildRowMatchIndexes J)) (leftJoinHelper K),
       rightJoinHelper := map_option (putRowMatchIndexes (probeRowMatchIndexes J)) (rightJoinHelper K)\<rparr>"

definition join_and_buffer ::
  "('t, 'a) arrow \<Rightarrow> ('t, 'a, 'b) arrow_rows \<Rightarrow> 't TupleSetIndex \<Rightarrow> nat \<Rightarrow> 't TupleSet \<Rightarrow> nat
     \<Rightarrow> ('t TupleSetIndex \<Rightarrow> 't ProbeKernel \<Rightarrow> 't ProbeKernel) \<Rightarrow> 't ProbeKernel \<Rightarrow> 't kernel_result" where
  "join_and_buffer A X ti buildOffset probe probeOffset keepIndex K =
     (case pk_outputSchema K of
        None \<Rightarrow> Inl BadOptionalAccess
      | Some schema \<Rightarrow>
          rbind (deref_table probe) (\<lambda>t.
          rbind (join_batches A X t probeOffset
              (RecordBatchHashJoiner_make ti (rightColumnNames (pk_pred K)) schema (neededColumnIndice K) buildOffset)) (\<lambda>e.
            case e of
              Inl msg \<Rightarrow> Inr (Some msg, K)
            | Inr J \<Rightarrow> kernel_buffer A (joiner_toTupleSet A X J) (save_matches J (keepIndex (buildTupleSetIndex J) K)))))"

text \<open>
  A piece of the build side.  The first index is the kernel's own afterwards, so combining its chunks
  changes the kernel's.
\<close>

definition joinBuildTupleSetIndex ::
  "('t, 'a) arrow \<Rightarrow> ('t, 'a, 'b) arrow_rows \<Rightarrow> 't TupleSetIndex \<Rightarrow> 't ProbeKernel \<Rightarrow> 't kernel_result" where
  "joinBuildTupleSetIndex A X ti K =
     (let offset = (case pk_build K of None \<Rightarrow> 0 | Some own \<Rightarrow> index_size A own);
          keepIndex = (if pk_build K = None then (\<lambda>ti' K'. K'\<lparr>pk_build := Some ti'\<rparr>) else (\<lambda>ti' K'. K'))
      in kbind (putBuildTupleSetIndex A X ti K) (\<lambda>K1.
         kbind (case probeTupleSet K1 of
             None \<Rightarrow> Inr (None, K1)
           | Some probe \<Rightarrow> rbind (bufferOutputSchema X ti probe K1) makeOuterJoinHelpers) (\<lambda>K2.
           case probeTupleSet K2 of
             None \<Rightarrow> Inr (None, K2)
           | Some probe \<Rightarrow>
               if TupleSet_numRows A probe = 0 \<or> index_size A ti = 0 then Inr (None, K2)
               else join_and_buffer A X ti offset probe 0 keepIndex K2)))"

definition joinProbeTupleSet ::
  "('t, 'a) arrow \<Rightarrow> ('t, 'a, 'b) arrow_rows \<Rightarrow> 't TupleSet \<Rightarrow> 't ProbeKernel \<Rightarrow> 't kernel_result" where
  "joinProbeTupleSet A X tupleSet K =
     (let offset = (case probeTupleSet K of None \<Rightarrow> 0 | Some own \<Rightarrow> TupleSet_numRows A own)
      in kbind (putProbeTupleSet A X tupleSet K) (\<lambda>K1.
         kbind (case pk_build K1 of
             None \<Rightarrow> Inr (None, K1)
           | Some ti \<Rightarrow> rbind (bufferOutputSchema X ti tupleSet K1) makeOuterJoinHelpers) (\<lambda>K2.
           case pk_build K2 of
             None \<Rightarrow> Inr (None, K2)
           | Some ti \<Rightarrow>
               if index_size A ti = 0 \<or> TupleSet_numRows A tupleSet = 0 then Inr (None, K2)
               else join_and_buffer A X ti 0 tupleSet offset (\<lambda>ti' K'. K'\<lparr>pk_build := Some ti'\<rparr>) K2)))"

text \<open>\<open>finalize\<close> adds the rows without a match.\<close>

definition add_unmatched ::
  "('t, 'a) arrow \<Rightarrow> ('t, 'a, 'b) arrow_rows \<Rightarrow> OuterJoinHelper option \<Rightarrow> 't TupleSet option \<Rightarrow> 't ProbeKernel \<Rightarrow> 't kernel_result" where
  "add_unmatched A X helper side K =
     (case (helper, side) of
        (Some h, Some ts) \<Rightarrow> rbind (OuterJoinHelper_compute A X ts h) (\<lambda>e. case e of
            Inl msg \<Rightarrow> Inr (Some msg, K) | Inr out \<Rightarrow> kernel_buffer A out K)
      | _ \<Rightarrow> Inr (None, K))"

definition computeOuterJoin ::
  "('t, 'a) arrow \<Rightarrow> ('t, 'a, 'b) arrow_rows \<Rightarrow> 't ProbeKernel \<Rightarrow> 't kernel_result" where
  "computeOuterJoin A X K =
     kbind (add_unmatched A X (leftJoinHelper K) (map_option ti_tupleSet (pk_build K)) K) (\<lambda>K1.
       add_unmatched A X (rightJoinHelper K1) (probeTupleSet K1) K1)"

definition HashJoinProbeKernel_finalize ::
  "('t, 'a) arrow \<Rightarrow> ('t, 'a, 'b) arrow_rows \<Rightarrow> 't ProbeKernel \<Rightarrow> 't kernel_result" where
  "HashJoinProbeKernel_finalize = computeOuterJoin"

definition kernel_clearBuffer :: "'t ProbeKernel \<Rightarrow> 't ProbeKernel" where
  "kernel_clearBuffer K = K\<lparr>pk_buffer := None\<rparr>"

definition HashJoinProbeKernel_clear :: "'t ProbeKernel \<Rightarrow> 't ProbeKernel" where
  "HashJoinProbeKernel_clear K =
     kernel_clearBuffer (K\<lparr>leftJoinHelper := None, rightJoinHelper := None, pk_build := None, probeTupleSet := None\<rparr>)"

end
