(* ===== verification/Hash_Join_Proofs.thy ===== *)
theory Hash_Join_Proofs
  imports Hash_Join
begin

text \<open>
  Correctness of the hash join of \<^verbatim>\<open>Hash_Join\<close>: from the loop over the columns of a pair of rows, over
  the pairs, the rows and the batches, to the pieces of both sides in any order.
\<close>

section \<open>The relational join\<close>

text \<open>The pairs that match, for a row of the right side and for all of them.\<close>

definition row_join :: "('r \<Rightarrow> 'p \<Rightarrow> bool) \<Rightarrow> ('r \<Rightarrow> 'p \<Rightarrow> 'o) \<Rightarrow> 'r list \<Rightarrow> 'p \<Rightarrow> 'o list" where
  "row_join m out B p = map (\<lambda>b. out b p) (filter (\<lambda>b. m b p) B)"

definition rel_join :: "('r \<Rightarrow> 'p \<Rightarrow> bool) \<Rightarrow> ('r \<Rightarrow> 'p \<Rightarrow> 'o) \<Rightarrow> 'r list \<Rightarrow> 'p list \<Rightarrow> 'o list" where
  "rel_join m out B P = concat (map (row_join m out B) P)"

definition matched_left :: "('r \<Rightarrow> 'p \<Rightarrow> bool) \<Rightarrow> 'r list \<Rightarrow> 'p list \<Rightarrow> nat set" where
  "matched_left m B P = {i. i < length B \<and> (\<exists>p \<in> set P. m (B ! i) p)}"

definition matched_right :: "('r \<Rightarrow> 'p \<Rightarrow> bool) \<Rightarrow> 'r list \<Rightarrow> 'p list \<Rightarrow> nat set" where
  "matched_right m B P = {j. j < length P \<and> (\<exists>b \<in> set B. m b (P ! j))}"

lemma rel_join_simps [simp]:
  "rel_join m out B [] = []" "rel_join m out [] P = []"
  "rel_join m out B (P @ Q) = rel_join m out B P @ rel_join m out B Q"
  by (induction P) (auto simp: rel_join_def row_join_def)

lemma rel_join_append_left: "mset (rel_join m out (B @ C) P) = mset (rel_join m out B P) + mset (rel_join m out C P)"
  by (induction P) (auto simp: rel_join_def row_join_def)

lemma matched_left_simps [simp]:
  "matched_left m B [] = {}" "matched_left m [] P = {}"
  "matched_left m B (P @ Q) = matched_left m B P \<union> matched_left m B Q"
  by (auto simp: matched_left_def)

lemma matched_left_append:
  "matched_left m (B @ C) P = matched_left m B P \<union> (\<lambda>i. length B + i) ` matched_left m C P"
proof -
  have "i \<in> (\<lambda>i. length B + i) ` matched_left m C P"
    if "i < length B + length C" "\<not> i < length B" "p \<in> set P" "m (C ! (i - length B)) p" for i p
    using that by (intro image_eqI [of _ _ "i - length B"]) (auto simp: matched_left_def)
  then show ?thesis by (auto simp: matched_left_def nth_append split: if_splits)
qed

lemma matched_swap: "matched_right m B P = matched_left (\<lambda>p b. m b p) P B"
  by (simp add: matched_right_def matched_left_def)

lemma matched_right_simps [simp]:
  "matched_right m [] P = {}" "matched_right m B [] = {}"
  "matched_right m (B @ C) P = matched_right m B P \<union> matched_right m C P"
  by (simp_all add: matched_swap)

lemma matched_right_append:
  "matched_right m B (P @ Q) = matched_right m B P \<union> (\<lambda>j. length P + j) ` matched_right m B Q"
  by (simp add: matched_swap matched_left_append)

lemma matched_right_snoc:
  "matched_right m B (P @ [p]) = matched_right m B P \<union> (if \<exists>b \<in> set B. m b p then {length P} else {})"
  by (auto simp: matched_right_def nth_append less_Suc_eq)

section \<open>Appending pairs of rows\<close>

text \<open>The appenders that hold the output rows \<open>R\<close>.\<close>

definition appenders_of :: "schema \<Rightarrow> arrow_scalar option list list \<Rightarrow> ArrayAppender list" where
  "appenders_of schema R =
     map (\<lambda>c. \<lparr>ap_type = snd (schema ! c), ap_buffer = map (\<lambda>r. r ! c) R\<rparr>) [0..<length schema]"

definition needed_ok :: "schema \<Rightarrow> schema \<Rightarrow> (bool \<times> nat) list \<Rightarrow> bool" where
  "needed_ok bs ps needed \<longleftrightarrow>
     (\<forall>(isBuild, j) \<in> set needed. j < length (if isBuild then bs else ps)) \<and>
     (\<forall>f \<in> set (map (output_field bs ps) needed). snd f \<in> set appender_types)"

definition out_row ::
  "(bool \<times> nat) list \<Rightarrow> (bool \<times> arrow_scalar) list \<Rightarrow> (bool \<times> arrow_scalar) list \<Rightarrow> arrow_scalar option list" where
  "out_row needed b p = map (\<lambda>(isBuild, j). shown ((if isBuild then b else p) ! j)) needed"

lemma appendValue_ok:
  "i < array_length A a \<Longrightarrow> array_type A a = ap_type ap \<Longrightarrow>
   appendValue A X a i ap = expect (ap\<lparr>ap_buffer := ap_buffer ap @ [shown (cell A X a i)]\<rparr>)"
  by (simp add: appendValue_def cell_def)

lemma arrays_typed_nth:
  "arrays_typed A tys n as \<Longrightarrow> i < length as \<Longrightarrow> array_type A (as ! i) = tys ! i \<and> array_length A (as ! i) = n"
  by (auto simp: arrays_typed_def)

lemma arrays_typed_length: "arrays_typed A tys n as \<Longrightarrow> length as = length tys"
  by (auto simp: arrays_typed_def)

lemma append_pair_ok:
  assumes bc: "arrays_typed A (map snd bs) nb bc" "br < nb" and pc: "arrays_typed A (map snd ps) np pc" "pr < np"
    and needed: "needed_ok bs ps needed"
  shows "append_pair A X bc pc needed br pr (appenders_of (map (output_field bs ps) needed) R) =
    expect (appenders_of (map (output_field bs ps) needed) (R @ [out_row needed (row_of A X bc br) (row_of A X pc pr)]))"
    (is "append_pair A X bc pc needed br pr (appenders_of ?schema R) = expect (appenders_of ?schema (R @ [?row]))")
proof -
  let ?aps = "\<lambda>k. map (\<lambda>c. \<lparr>ap_type = snd (?schema ! c),
      ap_buffer = map (\<lambda>r. r ! c) R @ (if c < k then [?row ! c] else [])\<rparr>) [0..<length needed]"
  have lens: "length bc = length bs" "length pc = length ps"
    using arrays_typed_length [OF bc(1)] arrays_typed_length [OF pc(1)] by simp_all
  have "\<exists>aps. append_pair A X bc pc needed br pr (?aps 0) = expect aps \<and> aps = ?aps (length needed)"
    unfolding append_pair_def
  proof (rule efold_upt [where P = "\<lambda>i aps. aps = ?aps i"], simp)
    fix k aps assume k: "k < length needed" and aps: "aps = ?aps k"
    obtain side j where kj: "needed ! k = (side, j)" by fastforce
    let ?col = "(if side then bc else pc) ! j" and ?i = "if side then br else pr"
    have "(side, j) \<in> set needed" using k kj by (metis nth_mem)
    with needed have j: "j < length (if side then bs else ps)" by (auto simp: needed_ok_def)
    have col: "array_type A ?col = snd (?schema ! k)" "?i < array_length A ?col"
      using arrays_typed_nth [OF bc(1), of j] arrays_typed_nth [OF pc(1), of j] j lens bc(2) pc(2) k kj
      by (auto simp: output_field_def)
    have "?row ! k = shown (cell A X ?col ?i)"
      using k kj j lens by (auto simp: out_row_def row_of_def)
    then have "appendValue A X ?col ?i (aps ! k) =
        expect \<lparr>ap_type = snd (?schema ! k), ap_buffer = map (\<lambda>r. r ! k) R @ [?row ! k]\<rparr>"
      using k by (subst appendValue_ok [OF col(2)]) (simp_all only: aps col(1) nth_map_upt length_map, simp_all)
    moreover have "aps[k := \<lparr>ap_type = snd (?schema ! k), ap_buffer = map (\<lambda>r. r ! k) R @ [?row ! k]\<rparr>] = ?aps (Suc k)"
      using k aps by (auto simp: nth_list_update intro!: nth_equalityI)
    moreover have length_aps: "length aps = length needed" using aps by simp
    ultimately show "\<exists>t. (let (isBuild, j) = needed ! k; columns = if isBuild then bc else pc
        in if length columns \<le> j \<or> length aps \<le> k then Inl (UndefinedBehaviour ''vector index out of range'')
           else ebind (appendValue A X (columns ! j) (if isBuild then br else pr) (aps ! k))
                 (\<lambda>ap. expect (aps[k := ap]))) = expect t \<and> t = ?aps (Suc k)"
      using j lens k length_aps by (cases side) (simp_all add: kj)
  qed
  then show ?thesis by (simp add: appenders_of_def)
qed

text \<open>All pairs of a probe row.\<close>

lemma append_pairs_ok:
  assumes bc: "arrays_typed A (map snd bs) nb bc" and pc: "arrays_typed A (map snd ps) np pc" "pr < np"
    and needed: "needed_ok bs ps needed" and "\<forall>br \<in> set rows. br < nb"
  shows "efold (\<lambda>br (aps, bm). ebind (append_pair A X bc pc needed br pr aps) (\<lambda>aps'. expect (aps', insert (off + br) bm)))
      rows (appenders_of (map (output_field bs ps) needed) R, bm) =
    expect (appenders_of (map (output_field bs ps) needed)
        (R @ map (\<lambda>br. out_row needed (row_of A X bc br) (row_of A X pc pr)) rows),
      bm \<union> (\<lambda>br. off + br) ` set rows)"
  using assms(5)
proof (induction rows arbitrary: R bm)
  case (Cons br rows)
  then have "br < nb" by simp
  from append_pair_ok [OF bc this pc needed, of X R] Cons.IH Cons.prems show ?case by simp
qed simp


section \<open>A batch\<close>

text \<open>The sides of a join: their schemas, their key columns and the predicate that names them.\<close>

definition join_setup ::
  "('t, 'a) arrow \<Rightarrow> ('t, 'a, 'b) arrow_rows \<Rightarrow> schema \<Rightarrow> schema \<Rightarrow> nat list \<Rightarrow> nat list \<Rightarrow> HashJoinPredicate \<Rightarrow> bool" where
  "join_setup A X bs ps kb kp pred \<longleftrightarrow>
     rows_ok A X \<and> distinct (map fst bs) \<and> distinct (map fst ps) \<and>
     (\<forall>c \<in> set kb. c < length bs) \<and> (\<forall>c \<in> set kp. c < length ps) \<and>
     map (\<lambda>c. snd (bs ! c)) kb = map (\<lambda>c. snd (ps ! c)) kp \<and>
     (\<forall>c \<in> set kp. snd (ps ! c) \<in> set key_types \<and> canonicalize (fst (ps ! c)) = fst (ps ! c)) \<and>
     leftColumnNames pred = map (\<lambda>c. fst (bs ! c)) kb \<and> rightColumnNames pred = map (\<lambda>c. fst (ps ! c)) kp"

definition match ::
  "('t, 'a, 'b) arrow_rows \<Rightarrow> nat list \<Rightarrow> nat list \<Rightarrow> (bool \<times> arrow_scalar) list \<Rightarrow> (bool \<times> arrow_scalar) list \<Rightarrow> bool" where
  "match X kb kp b p \<longleftrightarrow> keys_match X (row_key kp p) (row_key kb b)"

lemma emap_map_expect: "(\<And>x. x \<in> set xs \<Longrightarrow> f (g x) = expect (h x)) \<Longrightarrow> emap f (map g xs) = expect (map h xs)"
  by (induction xs) auto

lemma finder_columns:
  assumes "rows_ok A X" and "distinct (map fst ps)" and "\<forall>c \<in> set kp. c < length ps \<and> canonicalize (fst (ps ! c)) = fst (ps ! c)"
    and "rb_names X b = map fst ps"
  shows "TupleSetIndexFinder_make X (map (\<lambda>c. fst (ps ! c)) kp) b = expect kp"
proof -
  have "(case GetFieldIndex X (map fst ps) (canonicalize (fst (ps ! c))) of None \<Rightarrow> unexpected err | Some i \<Rightarrow> expect i) = expect c"
    if "c \<in> set kp" for c err
    using rows_GetFieldIndex [OF assms(1,2), of c] assms(3) that by simp
  then show ?thesis
    unfolding TupleSetIndexFinder_make_def column_indexes_def assms(4)
    by (subst emap_map_expect [where h = "\<lambda>c. c"]) simp_all
qed

text \<open>The types of the keys of a table.\<close>

lemma row_key_types:
  assumes "rows_ok A X" and "arrays_typed A tys n as" and "i < n" and "\<forall>c \<in> set cs. c < length tys"
  shows "map scalar_type (row_key cs (row_of A X as i)) = map ((!) tys) cs"
  using assms(4) arrays_typed_nth [OF assms(2)] arrays_typed_length [OF assms(2)] rows_value_type [OF assms(1)] assms(3)
  by (auto simp: row_key_def row_of_def cell_def)

lemma find_batch_row:
  assumes base: "join_setup A X bs ps kb kp pred"
    and ti: "index_ok A X ti" "ti_tupleSet ti = Some t" "ti_columnIndexes ti = kb" "table_schema X t = bs"
    and b: "arrays_typed A (map snd ps) (rb_num_rows X b) (rb_columns X b)" and pr: "pr < rb_num_rows X b"
  shows "TupleSetIndexFinder_find A X ti kp b pr = expect (range_order X
    (filter (\<lambda>i. match X kb kp (table_rows A X t ! i) (batch_rows A X b ! pr)) [0..<num_rows A t]))"
proof -
  from base have ok: "rows_ok A X" and kp: "\<forall>c \<in> set kp. c < length (map snd ps)" "\<forall>c \<in> set kb. c < length (map snd bs)"
      "\<forall>c \<in> set kp. c < length (map snd ps) \<and> map snd ps ! c \<in> set key_types"
      and eq: "map (\<lambda>c. snd (bs ! c)) kb = map (\<lambda>c. snd (ps ! c)) kp"
    by (auto simp: join_setup_def)
  have types: "map ((!) (map snd bs)) kb = map ((!) (map snd ps)) kp"
    using eq kp by (metis (mono_tags, lifting) length_map map_eq_conv nth_map)
  have "map scalar_type (row_key kb r) = map scalar_type (row_key kp (batch_rows A X b ! pr))"
    if "r \<in> set (table_rows A X t)" for r
  proof -
    from that obtain i where "i < num_rows A t" "r = row_of A X (table_columns A t) i" by (auto simp: table_rows_def)
    with row_key_types [OF ok rows_typed [OF ok, of t] this(1), of kb] row_key_types [OF ok b pr kp(1)] kp(2) types pr
    show ?thesis by (simp add: ti(4) batch_rows_def del: map_eq_conv)
  qed
  then have "TupleSetIndex_find X (row_key kp (batch_rows A X b ! pr)) ti = Inr (range_order X
    (filter (\<lambda>i. keys_match X (row_key kp (batch_rows A X b ! pr)) (row_key (ti_columnIndexes ti) (table_rows A X t ! i)))
      [0..<num_rows A t]))"
    by (intro TupleSetIndex_find_ok [OF ti(1,2)]) (simp add: ti(3))
  then show ?thesis
    by (simp add: TupleSetIndexFinder_find_def TupleKey_make_ok [OF b pr kp(3)] ti(3) match_def)
qed

text \<open>The rows of a batch.\<close>

lemma join_rows_ok:
  assumes base: "join_setup A X bs ps kb kp pred"
    and ti: "index_ok A X ti" "ti_tupleSet ti = Some t" "ti_columnIndexes ti = kb" "table_schema X t = bs"
    and bc: "arrays_typed A (map snd bs) (num_rows A t) bc" "map (row_of A X bc) [0..<num_rows A t] = table_rows A X t"
    and b: "arrays_typed A (map snd ps) (rb_num_rows X b) (rb_columns X b)"
    and J: "buildTupleSetIndex J = ti" "hj_needed J = needed" and needed: "needed_ok bs ps needed"
  shows "\<exists>R'. efold (join_row A X J kp bc b poff) [0..<rb_num_rows X b] (appenders_of (map (output_field bs ps) needed) [], bm, pm)
      = expect (appenders_of (map (output_field bs ps) needed) R',
          bm \<union> (\<lambda>i. buildRowOffset J + i) ` matched_left (match X kb kp) (table_rows A X t) (batch_rows A X b),
          pm \<union> (\<lambda>j. poff + j) ` matched_right (match X kb kp) (table_rows A X t) (batch_rows A X b)) \<and>
    mset R' = mset (rel_join (match X kb kp) (out_row needed) (table_rows A X t) (batch_rows A X b))"
proof -
  let ?B = "table_rows A X t" and ?m = "match X kb kp" and ?n = "rb_num_rows X b"
  let ?P = "\<lambda>i. take i (batch_rows A X b)" and ?schema = "map (output_field bs ps) needed"
  define inv where "inv i s \<longleftrightarrow> (\<exists>R'. s = (appenders_of ?schema R',
        bm \<union> (\<lambda>i. buildRowOffset J + i) ` matched_left ?m ?B (?P i),
        pm \<union> (\<lambda>j. poff + j) ` matched_right ?m ?B (?P i)) \<and>
      mset R' = mset (rel_join ?m (out_row needed) ?B (?P i)))" for i s
  have ok: "rows_ok A X" using base by (simp add: join_setup_def)
  have "\<exists>s. efold (join_row A X J kp bc b poff) [0..<?n] (appenders_of ?schema [], bm, pm) = expect s \<and> inv ?n s"
  proof (rule efold_upt)
    show "inv 0 (appenders_of ?schema [], bm, pm)" by (simp add: inv_def)
  next
    fix pr s assume pr: "pr < ?n" and "inv pr s"
    then obtain R' where s: "s = (appenders_of ?schema R',
        bm \<union> (\<lambda>i. buildRowOffset J + i) ` matched_left ?m ?B (?P pr),
        pm \<union> (\<lambda>j. poff + j) ` matched_right ?m ?B (?P pr))"
      and R': "mset R' = mset (rel_join ?m (out_row needed) ?B (?P pr))" by (auto simp: inv_def)
    let ?p = "batch_rows A X b ! pr"
    define hits where "hits = filter (\<lambda>i. ?m (?B ! i) ?p) [0..<num_rows A t]"
    define rows where "rows = range_order X hits"
    have mset_rows: "mset rows = mset hits" by (simp add: rows_def rows_range_order [OF ok])
    then have set_rows: "set rows = set hits" by (rule mset_eq_setD)
    have find: "TupleSetIndexFinder_find A X ti kp b pr = expect rows"
      by (simp add: rows_def hits_def find_batch_row [OF base ti b pr])
    have "\<forall>br \<in> set rows. br < num_rows A t" by (simp add: set_rows hits_def)
    note app = append_pairs_ok [OF bc(1) b pr needed this, of X "buildRowOffset J" R'
        "bm \<union> (\<lambda>i. buildRowOffset J + i) ` matched_left ?m ?B (?P pr)"]
    let ?new = "map (\<lambda>br. out_row needed (row_of A X bc br) (row_of A X (rb_columns X b) pr)) rows"
    have take_Suc: "?P (Suc pr) = ?P pr @ [?p]" using pr by (simp add: take_Suc_conv_app_nth)
    have "row_of A X bc i = ?B ! i" if "i < num_rows A t" for i
      by (rule map_upt_eq_nth [OF bc(2) that])
    then have "image_mset (\<lambda>br. out_row needed (row_of A X bc br) (row_of A X (rb_columns X b) pr)) (mset hits)
        = mset (map (\<lambda>i. out_row needed (?B ! i) ?p) hits)"
      using pr by (auto simp: hits_def batch_rows_def intro!: image_mset_cong)
    also have "map (\<lambda>i. out_row needed (?B ! i) ?p) hits = row_join ?m (out_row needed) ?B ?p"
    proof -
      have "row_join ?m (out_row needed) (map ((!) ?B) js) ?p =
          map (\<lambda>i. out_row needed (?B ! i) ?p) (filter (\<lambda>i. ?m (?B ! i) ?p) js)" for js
        by (induction js) (auto simp: row_join_def)
      from this [of "[0..<num_rows A t]"] show ?thesis
        by (simp add: hits_def map_nth [of ?B, simplified])
    qed
    finally have new: "mset (R' @ ?new) = mset (rel_join ?m (out_row needed) ?B (?P (Suc pr)))"
      by (simp add: take_Suc R' mset_rows rel_join_def)
    have left: "matched_left ?m ?B [?p] = set hits" by (auto simp: matched_left_def hits_def)
    have right: "rows \<noteq> [] \<longleftrightarrow> (\<exists>r \<in> set ?B. ?m r ?p)"
    proof -
      have "rows \<noteq> [] \<longleftrightarrow> set hits \<noteq> {}" by (simp flip: set_rows)
      also have "\<dots> \<longleftrightarrow> (\<exists>i < length ?B. ?m (?B ! i) ?p)" by (auto simp: hits_def)
      finally show ?thesis by (metis in_set_conv_nth)
    qed
    have "join_row A X J kp bc b poff pr s = expect (appenders_of ?schema (R' @ ?new),
        (bm \<union> (\<lambda>i. buildRowOffset J + i) ` matched_left ?m ?B (?P pr)) \<union> (\<lambda>i. buildRowOffset J + i) ` set rows,
        if rows \<noteq> [] then insert (poff + pr) (pm \<union> (\<lambda>j. poff + j) ` matched_right ?m ?B (?P pr))
        else pm \<union> (\<lambda>j. poff + j) ` matched_right ?m ?B (?P pr))"
      by (simp add: join_row_def J s find app)
    moreover have "inv (Suc pr) (appenders_of ?schema (R' @ ?new),
        (bm \<union> (\<lambda>i. buildRowOffset J + i) ` matched_left ?m ?B (?P pr)) \<union> (\<lambda>i. buildRowOffset J + i) ` set rows,
        if rows \<noteq> [] then insert (poff + pr) (pm \<union> (\<lambda>j. poff + j) ` matched_right ?m ?B (?P pr))
        else pm \<union> (\<lambda>j. poff + j) ` matched_right ?m ?B (?P pr))"
      using pr right new
      by (auto simp: inv_def take_Suc matched_right_snoc image_Un left set_rows simp del: mset_append map_append)
    ultimately show "\<exists>t. join_row A X J kp bc b poff pr s = expect t \<and> inv (Suc pr) t" by blast
  qed
  then show ?thesis by (auto simp: inv_def)
qed


section \<open>The arrays of a join\<close>

text \<open>The joined arrays of the columns hold the rows \<open>R\<close>.\<close>

definition joined_ok ::
  "('t, 'a) arrow \<Rightarrow> ('t, 'a, 'b) arrow_rows \<Rightarrow> schema \<Rightarrow> 'a list list \<Rightarrow> arrow_scalar option list list \<Rightarrow> bool" where
  "joined_ok A X schema vs R \<longleftrightarrow> length vs = length schema \<and> (\<forall>r \<in> set R. length r = length schema) \<and>
     (\<forall>c < length schema. (\<forall>a \<in> set (vs ! c). array_type A a = snd (schema ! c)) \<and>
        map shown (concat (map (cells A X) (vs ! c))) = map (\<lambda>r. r ! c) R \<and> (vs ! c = [] \<longleftrightarrow> R = []))"

definition shown_rows :: "('t, 'a) arrow \<Rightarrow> ('t, 'a, 'b) arrow_rows \<Rightarrow> 't \<Rightarrow> arrow_scalar option list list" where
  "shown_rows A X t = map (map shown) (table_rows A X t)"

text \<open>The values that rows of these schemas have at an output column.\<close>

definition rows_typed_as :: "schema \<Rightarrow> arrow_scalar option list list \<Rightarrow> bool" where
  "rows_typed_as schema R \<longleftrightarrow> (\<forall>r \<in> set R. length r = length schema \<and>
     (\<forall>c < length schema. \<forall>s. r ! c = Some s \<longrightarrow> scalar_type s = snd (schema ! c)))"

lemma appenders_make:
  assumes "\<forall>f \<in> set schema. snd f \<in> set appender_types"
  shows "emap (\<lambda>(n, ty). ArrayAppenderBuilder_make ty) schema = expect (appenders_of schema [])"
proof -
  have "emap (\<lambda>(n, ty). ArrayAppenderBuilder_make ty) schema = expect (map (\<lambda>f. \<lparr>ap_type = snd f, ap_buffer = []\<rparr>) schema)"
    by (rule emap_expect) (use assms in \<open>auto simp: ArrayAppenderBuilder_make_def\<close>)
  also have "map (\<lambda>f. \<lparr>ap_type = snd f, ap_buffer = []\<rparr>) schema = appenders_of schema []"
    by (rule nth_equalityI) (simp_all add: appenders_of_def)
  finally show ?thesis .
qed

lemma appenders_finalize:
  assumes ok: "rows_ok A X" and R: "rows_typed_as schema R"
  shows "\<exists>as. emap (ArrayAppender_finalize X) (appenders_of schema R) = expect as \<and> length as = length schema \<and>
    (\<forall>c < length schema. array_type A (as ! c) = snd (schema ! c) \<and> map shown (cells A X (as ! c)) = map (\<lambda>r. r ! c) R)"
proof -
  have "\<exists>as. emap (ArrayAppender_finalize X) (appenders_of schema R) = expect as \<and>
      list_all2 (\<lambda>ap a. array_type A a = ap_type ap \<and> map shown (cells A X a) = ap_buffer ap) (appenders_of schema R) as"
  proof (rule emap_total)
    fix ap assume "ap \<in> set (appenders_of schema R)"
    then obtain c where c: "c < length schema" and ap: "ap = \<lparr>ap_type = snd (schema ! c), ap_buffer = map (\<lambda>r. r ! c) R\<rparr>"
      by (auto simp: appenders_of_def)
    have "scalar_type s = snd (schema ! c)" if "Some s \<in> set (map (\<lambda>r. r ! c) R)" for s
      using that R c by (auto simp: rows_typed_as_def)
    from rows_MakeArray [OF ok this, where vs = "map (\<lambda>r. r ! c) R"] show "\<exists>a. ArrayAppender_finalize X ap = expect a \<and>
        array_type A a = ap_type ap \<and> map shown (cells A X a) = ap_buffer ap"
      by (auto simp: ap ArrayAppender_finalize_def)
  qed
  then show ?thesis by (elim ex_forward) (auto simp: list_all2_conv_all_nth appenders_of_def)
qed

lemma append_arrays_ok:
  assumes vs: "joined_ok A X schema vs R"
    and as: "length as = length schema" "\<forall>c < length schema. array_type A (as ! c) = snd (schema ! c) \<and>
      map shown (cells A X (as ! c)) = map (\<lambda>r. r ! c) R'" and R': "\<forall>r \<in> set R'. length r = length schema"
  shows "joined_ok A X schema (append_arrays A as vs) (R @ R')"
proof -
  have len: "array_length A (as ! c) = length R'" if "c < length schema" for c
  proof -
    from as(2) that have "map shown (cells A X (as ! c)) = map (\<lambda>r. r ! c) R'" by simp
    from arg_cong [OF this, of length] show ?thesis by (simp add: cells_def)
  qed
  have "append_arrays A as vs ! c = (if R' = [] then vs ! c else vs ! c @ [as ! c])" if "c < length schema" for c
    using that vs as(1) len [OF that] by (auto simp: append_arrays_def joined_ok_def)
  moreover have "length (append_arrays A as vs) = length schema"
    using vs as(1) by (simp add: append_arrays_def joined_ok_def)
  ultimately show ?thesis
    using vs as(2) R' by (auto simp: joined_ok_def)
qed

lemma joined_ok_start: "joined_ok A X schema (replicate (length schema) []) []"
  by (simp add: joined_ok_def)

lemma shown_rows_columns:
  assumes "rows_ok A X" and "length R = num_rows A t" and "\<forall>r \<in> set R. length r = num_columns A t"
    and "\<And>c. c < num_columns A t \<Longrightarrow> map shown (cells A X (table_columns A t ! c)) = map (\<lambda>r. r ! c) R"
  shows "shown_rows A X t = R"
proof (rule nth_equalityI)
  show "length (shown_rows A X t) = length R" by (simp add: shown_rows_def assms(2))
  fix i assume "i < length (shown_rows A X t)"
  then have i: "i < num_rows A t" by (simp add: shown_rows_def)
  have width: "length (table_columns A t) = num_columns A t" by (simp add: table_columns_def)
  show "shown_rows A X t ! i = R ! i"
  proof (rule nth_equalityI)
    show "length (shown_rows A X t ! i) = length (R ! i)"
      using i assms(2,3) by (simp add: shown_rows_def table_rows_def row_of_def width)
    fix c assume "c < length (shown_rows A X t ! i)"
    then have c: "c < num_columns A t" using i by (simp add: shown_rows_def table_rows_def row_of_def width)
    have "array_length A (table_columns A t ! c) = num_rows A t"
      using arrays_typed_nth [OF rows_typed [OF assms(1)]] c width by auto
    with i have "shown (cell A X (table_columns A t ! c) i) = map shown (cells A X (table_columns A t ! c)) ! i"
      by (simp add: cells_def)
    also have "\<dots> = R ! i ! c" using i assms(2) by (simp add: assms(4) [OF c])
    finally show "shown_rows A X t ! i ! c = R ! i ! c"
      using i c by (simp add: shown_rows_def table_rows_def row_of_def width)
  qed
qed

text \<open>A table made of joined arrays, or without any, holds the rows.\<close>

lemma joined_table:
  assumes ok: "rows_ok A X" and J: "joined_ok A X (hj_outputSchema J) (joinedArrayVectors J) R"
    and ne: "hj_outputSchema J \<noteq> []"
  shows "\<exists>t. joiner_toTupleSet A X J = Some t \<and> table_schema X t = hj_outputSchema J \<and> shown_rows A X t = R"
proof (cases "[] \<in> set (joinedArrayVectors J)")
  case True
  then obtain c where "c < length (hj_outputSchema J)" "joinedArrayVectors J ! c = []"
    using J by (auto simp: in_set_conv_nth joined_ok_def)
  then have "R = []" using J by (auto simp: joined_ok_def)
  then show ?thesis
    using True rows_empty_table [OF ok, of "hj_outputSchema J"]
    by (auto simp: joiner_toTupleSet_def TupleSet_make_empty_def TupleSet_make_def shown_rows_def comp_def split_def)
next
  case False
  let ?schema = "hj_outputSchema J" and ?vs = "joinedArrayVectors J"
  let ?as = "map (\<lambda>c. ChunkedArray X (snd (?schema ! c)) (?vs ! c)) [0..<length ?schema]"
  from J have len: "length ?vs = length ?schema" "\<forall>r \<in> set R. length r = length ?schema" by (auto simp: joined_ok_def)
  have as: "array_type A (?as ! c) = snd (?schema ! c) \<and> cells A X (?as ! c) = concat (map (cells A X) (?vs ! c))"
    if "c < length ?schema" for c
    using rows_Chunked [OF ok, of "?vs ! c" "snd (?schema ! c)"] that J
    by (simp add: joined_ok_def)
  have made: "map2 (\<lambda>(n, ty) v. ChunkedArray X ty v) ?schema ?vs = ?as"
    by (rule nth_equalityI) (simp_all add: len(1) split_def)
  have cols: "map shown (cells A X (?as ! c)) = map (\<lambda>r. r ! c) R" if "c < length ?schema" for c
    using as [OF that] that J by (simp add: joined_ok_def)
  have "array_length A (?as ! c) = length R" if "c < length ?schema" for c
    using arg_cong [OF cols [OF that], of length] by (simp add: cells_def del: nth_map)
  then have typed: "arrays_typed A (map snd ?schema) (length R) ?as"
    using as by (auto simp: arrays_typed_def intro!: nth_equalityI)
  let ?t = "Table_FromArrays X ?schema ?as"
  from rows_FromArrays [OF ok typed ne] have t: "table_schema X ?t = ?schema" "table_columns A ?t = ?as" by auto
  have width: "num_columns A ?t = length ?schema"
    using arg_cong [OF t(2), of length] by (simp add: table_columns_def)
  have "hd ?as \<in> set ?as" by (rule hd_in_set) (use ne in simp)
  then have "num_rows A ?t = length R"
    using rows_typed [OF ok, of ?t] typed unfolding t arrays_typed_def by (metis (no_types, lifting))
  then have "shown_rows A X ?t = R"
    using shown_rows_columns [OF ok, of R ?t] cols len(2) by (simp add: width t(2) del: nth_map nth_zip)
  with t(1) False show ?thesis by (simp add: joiner_toTupleSet_def made)
qed


section \<open>The batches of a tuple set\<close>

text \<open>An index on the columns \<open>kb\<close> of a tuple set of this schema with the rows \<open>B\<close>.\<close>

definition index_holds ::
  "('t, 'a) arrow \<Rightarrow> ('t, 'a, 'b) arrow_rows \<Rightarrow> schema \<Rightarrow> nat list \<Rightarrow> (bool \<times> arrow_scalar) list list
     \<Rightarrow> 't TupleSetIndex \<Rightarrow> bool" where
  "index_holds A X bs kb B ti \<longleftrightarrow> index_ok A X ti \<and> ti_columnIndexes ti = kb \<and>
     (\<exists>t. ti_tupleSet ti = Some t \<and> table_schema X t = bs \<and> table_rows A X t = B)"

definition joiner_for ::
  "('t, 'a) arrow \<Rightarrow> ('t, 'a, 'b) arrow_rows \<Rightarrow> schema \<Rightarrow> schema \<Rightarrow> nat list \<Rightarrow> nat list \<Rightarrow> (bool \<times> nat) list
     \<Rightarrow> (bool \<times> arrow_scalar) list list \<Rightarrow> nat \<Rightarrow> ('t, 'a) RecordBatchHashJoiner \<Rightarrow> bool" where
  "joiner_for A X bs ps kb kp needed B off J \<longleftrightarrow> index_holds A X bs kb B (buildTupleSetIndex J) \<and>
     probeJoinColumnNames J = map (\<lambda>c. fst (ps ! c)) kp \<and> hj_outputSchema J = map (output_field bs ps) needed \<and>
     hj_needed J = needed \<and> buildRowOffset J = off"

text \<open>What a joiner has collected after the probe rows \<open>P\<close>.\<close>

definition joiner_has ::
  "('t, 'a) arrow \<Rightarrow> ('t, 'a, 'b) arrow_rows \<Rightarrow> nat list \<Rightarrow> nat list \<Rightarrow> (bool \<times> nat) list
     \<Rightarrow> (bool \<times> arrow_scalar) list list \<Rightarrow> nat \<Rightarrow> (bool \<times> arrow_scalar) list list \<Rightarrow> ('t, 'a) RecordBatchHashJoiner \<Rightarrow> bool" where
  "joiner_has A X kb kp needed B poff P J \<longleftrightarrow>
     (\<exists>R. joined_ok A X (hj_outputSchema J) (joinedArrayVectors J) R \<and>
        mset R = mset (rel_join (match X kb kp) (out_row needed) B P)) \<and>
     buildRowMatchIndexes J = (\<lambda>i. buildRowOffset J + i) ` matched_left (match X kb kp) B P \<and>
     probeRowMatchIndexes J = (\<lambda>j. poff + j) ` matched_right (match X kb kp) B P"

lemma cell_type:
  assumes "rows_ok A X" and "arrays_typed A tys n as" and "i < n" and "c < length tys"
  shows "scalar_type (snd (row_of A X as i ! c)) = tys ! c"
  using assms arrays_typed_nth [OF assms(2), of c] arrays_typed_length [OF assms(2)] rows_value_type [OF assms(1), of i "as ! c"]
  by (simp add: row_of_def cell_def)

lemma out_row_typed:
  assumes ok: "rows_ok A X" and bc: "arrays_typed A (map snd bs) nb bc" "i < nb" and pc: "arrays_typed A (map snd ps) np pc" "j < np"
    and needed: "needed_ok bs ps needed" and c: "c < length needed"
    and s: "out_row needed (row_of A X bc i) (row_of A X pc j) ! c = Some s"
  shows "scalar_type s = snd (map (output_field bs ps) needed ! c)"
proof -
  obtain side k where kc: "needed ! c = (side, k)" by fastforce
  with c have "(side, k) \<in> set needed" by (metis nth_mem)
  with needed have k: "k < length (if side then bs else ps)" by (auto simp: needed_ok_def)
  have "s = snd ((if side then row_of A X bc i else row_of A X pc j) ! k)"
    using s c kc by (cases "(if side then row_of A X bc i else row_of A X pc j) ! k") (simp add: out_row_def split: if_splits)
  with k cell_type [OF ok bc, of k] cell_type [OF ok pc, of k] c kc show ?thesis
    by (auto simp: output_field_def)
qed

lemma rel_join_typed:
  assumes ok: "rows_ok A X" and t: "table_schema X t = bs" and b: "arrays_typed A (map snd ps) (rb_num_rows X b) (rb_columns X b)"
    and needed: "needed_ok bs ps needed"
    and R: "mset R = mset (rel_join m (out_row needed) (table_rows A X t) (batch_rows A X b))"
  shows "rows_typed_as (map (output_field bs ps) needed) R"
  unfolding rows_typed_as_def
proof (intro ballI conjI allI impI)
  fix r assume "r \<in> set R"
  then have "r \<in> set (rel_join m (out_row needed) (table_rows A X t) (batch_rows A X b))"
    using mset_eq_setD [OF R] by simp
  then obtain i j where ij: "i < num_rows A t" "j < rb_num_rows X b"
      and r: "r = out_row needed (row_of A X (table_columns A t) i) (row_of A X (rb_columns X b) j)"
    by (auto simp: rel_join_def row_join_def table_rows_def batch_rows_def)
  show "length r = length (map (output_field bs ps) needed)" by (simp add: r out_row_def)
  fix c s assume "c < length (map (output_field bs ps) needed)" "r ! c = Some s"
  then show "scalar_type s = snd (map (output_field bs ps) needed ! c)"
    using out_row_typed [OF ok rows_typed [OF ok, of t, unfolded t] ij(1) b ij(2) needed, of c s] by (simp add: r)
qed

text \<open>The chunks of a combined table hold its rows.\<close>

lemma first_chunks_ok:
  assumes ok: "rows_ok A X" and n: "num_rows A r > 0"
    and chunks: "\<forall>a \<in> set (table_columns A r). \<exists>c. chunk_0 X a = Some c \<and> array_type A c = array_type A a \<and> cells A X c = cells A X a"
  shows "\<exists>bc. first_chunks X (table_columns A r) = Inr bc \<and>
    arrays_typed A (map snd (table_schema X r)) (num_rows A r) bc \<and>
    map (row_of A X bc) [0..<num_rows A r] = table_rows A X r"
proof -
  let ?g = "\<lambda>a. the (chunk_0 X a)" and ?cols = "table_columns A r"
  have g: "chunk_0 X a \<noteq> None \<and> array_type A (?g a) = array_type A a \<and> cells A X (?g a) = cells A X a"
    if "a \<in> set ?cols" for a
  proof -
    from bspec [OF chunks that] obtain c
      where "chunk_0 X a = Some c \<and> array_type A c = array_type A a \<and> cells A X c = cells A X a" ..
    then show ?thesis by simp
  qed
  note g = g [THEN conjunct1] g [THEN conjunct2, THEN conjunct1] g [THEN conjunct2, THEN conjunct2]
  have 1: "first_chunks X ?cols = Inr (map ?g ?cols)"
    unfolding first_chunks_def by (rule rmap_cong_Inr) (use g(1) in \<open>fastforce split: option.split\<close>)
  have len: "array_length A (?g a) = array_length A a" if "a \<in> set ?cols" for a
    using arg_cong [OF g(3) [OF that], of length] by (simp add: cells_def)
  have 2: "arrays_typed A (map snd (table_schema X r)) (num_rows A r) (map ?g ?cols)"
  proof -
    have "map (array_type A) (map ?g ?cols) = map (array_type A) ?cols" using g(2) by simp
    with rows_typed [OF ok, of r] len show ?thesis by (auto simp: arrays_typed_def simp del: map_map)
  qed
  have "row_of A X (map ?g ?cols) i = row_of A X ?cols i" if i: "i < num_rows A r" for i
  proof -
    have "cell A X (?g a) i = cell A X a i" if a: "a \<in> set ?cols" for a
    proof -
      have "array_length A a = num_rows A r" using rows_typed [OF ok, of r] a by (auto simp: arrays_typed_def)
      then have "cell A X (?g a) i = cells A X (?g a) ! i" "cell A X a i = cells A X a ! i"
        using i len [OF a] by (simp_all add: cells_def)
      then show ?thesis by (simp add: g(3) [OF a])
    qed
    then show ?thesis by (simp add: row_of_def)
  qed
  then have "map (row_of A X (map ?g ?cols)) [0..<num_rows A r] = table_rows A X r"
    by (simp add: table_rows_def)
  with 1 2 show ?thesis by blast
qed

lemma RecordBatchHashJoiner_join_ok:
  assumes base: "join_setup A X bs ps kb kp pred" and needed: "needed_ok bs ps needed" and B: "B \<noteq> []"
    and J: "joiner_for A X bs ps kb kp needed B off J" "joiner_has A X kb kp needed B poff P J"
    and b: "arrays_typed A (map snd ps) (rb_num_rows X b) (rb_columns X b)" "rb_names X b = map fst ps"
  shows "\<exists>J'. RecordBatchHashJoiner_join A X b (poff + length P) J = expect J' \<and>
    joiner_for A X bs ps kb kp needed B off J' \<and> joiner_has A X kb kp needed B poff (P @ batch_rows A X b) J'"
proof -
  let ?schema = "map (output_field bs ps) needed" and ?m = "match X kb kp" and ?Q = "batch_rows A X b"
  have ok: "rows_ok A X" and finder: "TupleSetIndexFinder_make X (map (\<lambda>c. fst (ps ! c)) kp) b = expect kp"
    using base finder_columns [of A X ps kp b] b(2) by (auto simp: join_setup_def)
  from J(1) obtain t where ti: "index_ok A X (buildTupleSetIndex J)" "ti_columnIndexes (buildTupleSetIndex J) = kb"
      "ti_tupleSet (buildTupleSetIndex J) = Some t" "table_schema X t = bs" "table_rows A X t = B"
    and Jf: "probeJoinColumnNames J = map (\<lambda>c. fst (ps ! c)) kp" "hj_outputSchema J = ?schema" "hj_needed J = needed"
      "buildRowOffset J = off"
    by (auto simp: joiner_for_def index_holds_def)
  from TupleSetIndex_combine_ok [OF ok ti(1,3)] obtain ti' r where
    comb: "TupleSetIndex_combine A (buildTupleSetIndex J) = Inr (None, ti')" "index_ok A X ti'" "ti_tupleSet ti' = Some r"
      "ti_columnIndexes ti' = kb" "table_schema X r = bs" "table_rows A X r = B"
    and chunks: "num_rows A r > 0 \<longrightarrow> (\<forall>a \<in> set (table_columns A r).
      \<exists>c. chunk_0 X a = Some c \<and> array_type A c = array_type A a \<and> cells A X c = cells A X a)"
    unfolding ti(2,4,5) by (elim exE conjE) (rule that)
  have "num_rows A r = length B" using comb(6) by (metis table_rows_length)
  then have n: "num_rows A r > 0" using B by simp
  from first_chunks_ok [OF ok n] chunks n obtain bc where bc: "first_chunks X (table_columns A r) = Inr bc"
      "arrays_typed A (map snd bs) (num_rows A r) bc" "map (row_of A X bc) [0..<num_rows A r] = table_rows A X r"
    by (auto simp: comb(5))
  let ?J = "J\<lparr>buildTupleSetIndex := ti'\<rparr>"
  have "buildTupleSetIndex ?J = ti'" "hj_needed ?J = needed" using Jf by simp_all
  from join_rows_ok [OF base comb(2,3,4,5) bc(2,3) b(1) this needed, of "poff + length P" "buildRowMatchIndexes J" "probeRowMatchIndexes J"]
  obtain R' where rows: "efold (join_row A X ?J kp bc b (poff + length P)) [0..<rb_num_rows X b]
        (appenders_of ?schema [], buildRowMatchIndexes J, probeRowMatchIndexes J)
      = expect (appenders_of ?schema R', buildRowMatchIndexes J \<union> (\<lambda>i. off + i) ` matched_left ?m B ?Q,
          probeRowMatchIndexes J \<union> (\<lambda>j. poff + length P + j) ` matched_right ?m B ?Q)"
    and R': "mset R' = mset (rel_join ?m (out_row needed) B ?Q)"
    by (auto simp: comb(6) Jf)
  have typed: "rows_typed_as ?schema R'"
    by (rule rel_join_typed [OF ok comb(5) b(1) needed]) (simp add: comb(6) R')
  from appenders_finalize [OF ok typed] obtain as where
    as: "emap (ArrayAppender_finalize X) (appenders_of ?schema R') = expect as" "length as = length ?schema"
      "\<forall>c < length ?schema. array_type A (as ! c) = snd (?schema ! c) \<and> map shown (cells A X (as ! c)) = map (\<lambda>r. r ! c) R'"
    by blast
  have make: "emap (\<lambda>(n, ty). ArrayAppenderBuilder_make ty) ?schema = expect (appenders_of ?schema [])"
    by (rule appenders_make) (use needed in \<open>simp add: needed_ok_def\<close>)
  let ?J' = "?J\<lparr>joinedArrayVectors := append_arrays A as (joinedArrayVectors J),
      buildRowMatchIndexes := buildRowMatchIndexes J \<union> (\<lambda>i. off + i) ` matched_left ?m B ?Q,
      probeRowMatchIndexes := probeRowMatchIndexes J \<union> (\<lambda>j. poff + length P + j) ` matched_right ?m B ?Q\<rparr>"
  have "RecordBatchHashJoiner_join A X b (poff + length P) J = expect ?J'"
    by (simp add: RecordBatchHashJoiner_join_def comb(1,3) deref_table_def Jf finder bc(1) make rows as(1))
  moreover have "joiner_for A X bs ps kb kp needed B off ?J'"
    using Jf comb by (auto simp: joiner_for_def index_holds_def)
  moreover have "joiner_has A X kb kp needed B poff (P @ ?Q) ?J'"
  proof -
    from J(2) obtain R where R: "joined_ok A X ?schema (joinedArrayVectors J) R"
      "mset R = mset (rel_join ?m (out_row needed) B P)" by (auto simp: joiner_has_def Jf)
    have "\<forall>r \<in> set R'. length r = length ?schema" using typed by (simp add: rows_typed_as_def)
    from append_arrays_ok [OF R(1) as(2,3) this] R(2) R'
    have "\<exists>R. joined_ok A X ?schema (append_arrays A as (joinedArrayVectors J)) R \<and>
        mset R = mset (rel_join ?m (out_row needed) B (P @ ?Q))"
      by (intro exI [of _ "R @ R'"]) simp
    moreover have "(\<lambda>j. poff + length P + j) ` S = (\<lambda>j. poff + j) ` (\<lambda>j. length P + j) ` S" for S
      by (auto simp: image_iff)
    ultimately show ?thesis
      using J(2) by (simp add: joiner_has_def Jf matched_right_append image_Un)
  qed
  ultimately show ?thesis by blast
qed

text \<open>The whole tuple set.\<close>

lemma join_batches_ok:
  assumes base: "join_setup A X bs ps kb kp pred" and needed: "needed_ok bs ps needed" and B: "B \<noteq> []"
    and ti: "index_holds A X bs kb B ti" and p: "table_schema X p = ps"
  shows "\<exists>J. join_batches A X p poff
      (RecordBatchHashJoiner_make ti (rightColumnNames pred) (map (output_field bs ps) needed) needed off) = expect J \<and>
    joiner_for A X bs ps kb kp needed B off J \<and> joiner_has A X kb kp needed B poff (table_rows A X p) J"
proof -
  let ?J = "RecordBatchHashJoiner_make ti (rightColumnNames pred) (map (output_field bs ps) needed) needed off
    :: ('a, 'b) RecordBatchHashJoiner"
  have ok: "rows_ok A X" using base by (simp add: join_setup_def)
  let ?f = "\<lambda>batch (J, localOffset). ebind (RecordBatchHashJoiner_join A X batch (poff + localOffset) J) (\<lambda>J'.
      expect (J', localOffset + rb_num_rows X batch))"
  have names: "rightColumnNames pred = map (\<lambda>c. fst (ps ! c)) kp" "canonicalize_all (rightColumnNames pred) = rightColumnNames pred"
    using base by (simp_all add: join_setup_def canonicalize_all_def)
  define inv where "inv ds s \<longleftrightarrow> snd s = length ds \<and> joiner_for A X bs ps kb kp needed B off (fst s) \<and>
    joiner_has A X kb kp needed B poff ds (fst s)" for ds and s :: "('a, 'b) RecordBatchHashJoiner \<times> nat"
  have "\<exists>s. for_batches X p ?f (?J, 0) = expect s \<and> inv (table_rows A X p) s"
  proof (rule for_batches_ok [OF ok])
    show "inv [] (?J, 0)"
      using ti names joined_ok_start [of A X "map (output_field bs ps) needed"]
      by (auto simp: inv_def joiner_for_def joiner_has_def RecordBatchHashJoiner_make_def)
  next
    fix b ds and s :: "('a, 'b) RecordBatchHashJoiner \<times> nat"
    assume "arrays_typed A (map snd (table_schema X p)) (rb_num_rows X b) (rb_columns X b)"
      "rb_names X b = field_names A p" "inv ds s"
    with RecordBatchHashJoiner_join_ok [OF base needed B, of off "fst s" poff ds b] rows_names [OF ok, of p]
    show "\<exists>s'. ?f b s = expect s' \<and> inv (ds @ batch_rows A X b) s'"
      by (cases s) (auto simp: inv_def p)
  qed
  then show ?thesis by (auto simp: join_batches_def inv_def)
qed

end
