(* ===== verification/Hash_Join_Kernel.thy ===== *)
theory Hash_Join_Kernel
  imports Hash_Join_Proofs
begin

text \<open>
  The kernel of the hash join over a whole run: pieces of the build side and of the probe side in any
  order, then \<open>finalize\<close>.  \<open>kernel_inv\<close> is the invariant of a run: the sides hold all rows that
  have arrived, the buffer holds their relational join, and the helpers of the outer joins know the rows
  that have found a match.
\<close>

section \<open>Runs\<close>

datatype 't piece = Build_piece "'t TupleSetIndex" | Probe_piece "'t TupleSet"

definition kernel_step ::
  "('t, 'a) arrow \<Rightarrow> ('t, 'a, 'b) arrow_rows \<Rightarrow> 't piece \<Rightarrow> 't ProbeKernel \<Rightarrow> 't kernel_result" where
  "kernel_step A X piece K =
     (case piece of Build_piece ti \<Rightarrow> joinBuildTupleSetIndex A X ti K | Probe_piece ts \<Rightarrow> joinProbeTupleSet A X ts K)"

fun kernel_run ::
  "('t, 'a) arrow \<Rightarrow> ('t, 'a, 'b) arrow_rows \<Rightarrow> 't piece list \<Rightarrow> 't ProbeKernel \<Rightarrow> 't kernel_result" where
  "kernel_run A X [] K = Inr (None, K)"
| "kernel_run A X (p # ps) K = kbind (kernel_step A X p K) (kernel_run A X ps)"

text \<open>The rows a piece brings, and those in the buffer.\<close>

definition set_rows :: "('t, 'a) arrow \<Rightarrow> ('t, 'a, 'b) arrow_rows \<Rightarrow> 't TupleSet \<Rightarrow> (bool \<times> arrow_scalar) list list" where
  "set_rows A X ts = (case ts of None \<Rightarrow> [] | Some t \<Rightarrow> table_rows A X t)"

definition build_rows :: "('t, 'a) arrow \<Rightarrow> ('t, 'a, 'b) arrow_rows \<Rightarrow> 't piece list \<Rightarrow> (bool \<times> arrow_scalar) list list" where
  "build_rows A X ps = concat (map (\<lambda>p. case p of Build_piece ti \<Rightarrow> set_rows A X (ti_tupleSet ti) | Probe_piece _ \<Rightarrow> []) ps)"

definition probe_rows :: "('t, 'a) arrow \<Rightarrow> ('t, 'a, 'b) arrow_rows \<Rightarrow> 't piece list \<Rightarrow> (bool \<times> arrow_scalar) list list" where
  "probe_rows A X ps = concat (map (\<lambda>p. case p of Build_piece _ \<Rightarrow> [] | Probe_piece ts \<Rightarrow> set_rows A X ts) ps)"

definition kernel_rows :: "('t, 'a) arrow \<Rightarrow> ('t, 'a, 'b) arrow_rows \<Rightarrow> 't ProbeKernel \<Rightarrow> arrow_scalar option list list" where
  "kernel_rows A X K = (case pk_buffer K of Some (Some t) \<Rightarrow> shown_rows A X t | _ \<Rightarrow> [])"

section \<open>The invariant\<close>

definition table_holds ::
  "('t, 'a) arrow \<Rightarrow> ('t, 'a, 'b) arrow_rows \<Rightarrow> schema \<Rightarrow> (bool \<times> arrow_scalar) list list \<Rightarrow> 't TupleSet \<Rightarrow> bool" where
  "table_holds A X s rows ts \<longleftrightarrow> (\<exists>t. ts = Some t \<and> table_schema X t = s \<and> table_rows A X t = rows)"

definition kernel_sides ::
  "('t, 'a) arrow \<Rightarrow> ('t, 'a, 'b) arrow_rows \<Rightarrow> schema \<Rightarrow> schema \<Rightarrow> nat list \<Rightarrow>
   (bool \<times> arrow_scalar) list list \<Rightarrow> (bool \<times> arrow_scalar) list list \<Rightarrow> 't ProbeKernel \<Rightarrow> bool" where
  "kernel_sides A X bs ps kb B P K \<longleftrightarrow>
     (case pk_build K of None \<Rightarrow> B = [] | Some ti \<Rightarrow> index_holds A X bs kb B ti) \<and>
     (case probeTupleSet K of None \<Rightarrow> P = [] | Some ts \<Rightarrow> table_holds A X ps P ts)"

definition all_needed :: "string list \<Rightarrow> schema \<Rightarrow> schema \<Rightarrow> (bool \<times> nat) list" where
  "all_needed names bs ps = needed_fields True names bs @ needed_fields False names ps"

definition out_schema :: "string list \<Rightarrow> schema \<Rightarrow> schema \<Rightarrow> schema" where
  "out_schema names bs ps = map (output_field bs ps) (all_needed names bs ps)"

definition buffer_holds ::
  "('t, 'a) arrow \<Rightarrow> ('t, 'a, 'b) arrow_rows \<Rightarrow> schema \<Rightarrow> arrow_scalar option list multiset \<Rightarrow> 't ProbeKernel \<Rightarrow> bool" where
  "buffer_holds A X s S K \<longleftrightarrow> (case pk_buffer K of None \<Rightarrow> S = {#}
     | Some ts \<Rightarrow> \<exists>t. ts = Some t \<and> table_schema X t = s \<and> mset (shown_rows A X t) = S)"

definition helper_holds :: "bool \<Rightarrow> bool \<Rightarrow> schema \<Rightarrow> (bool \<times> nat) list \<Rightarrow> nat set \<Rightarrow> OuterJoinHelper option \<Rightarrow> bool" where
  "helper_holds wanted side s needed M h \<longleftrightarrow> (if wanted then
       \<exists>h'. h = Some h' \<and> oj_isLeft h' = side \<and> oj_outputSchema h' = s \<and> oj_needed h' = needed \<and>
         (case rowMatchIndexes h' of None \<Rightarrow> M = {} | Some m \<Rightarrow> m = M)
     else h = None)"

text \<open>The configuration of a kernel, its results before both sides have arrived, and after.\<close>

definition kernel_config :: "HashJoinPredicate \<Rightarrow> string list \<Rightarrow> bool \<Rightarrow> bool \<Rightarrow> 't ProbeKernel \<Rightarrow> bool" where
  "kernel_config pred names l r K \<longleftrightarrow> pk_pred K = pred \<and> neededColumnNames K = names \<and> isLeft K = l \<and> isRight K = r"

definition kernel_blank :: "'t ProbeKernel \<Rightarrow> bool" where
  "kernel_blank K \<longleftrightarrow> neededColumnIndice K = [] \<and> pk_outputSchema K = None \<and> pk_buffer K = None \<and>
     \<not> isOuterJoinHelperCreated K \<and> leftJoinHelper K = None \<and> rightJoinHelper K = None"

definition kernel_results ::
  "('t, 'a) arrow \<Rightarrow> ('t, 'a, 'b) arrow_rows \<Rightarrow> schema \<Rightarrow> schema \<Rightarrow> string list \<Rightarrow> bool \<Rightarrow> bool \<Rightarrow>
   arrow_scalar option list multiset \<Rightarrow> nat set \<Rightarrow> nat set \<Rightarrow> 't ProbeKernel \<Rightarrow> bool" where
  "kernel_results A X bs ps names l r S L R K \<longleftrightarrow>
     neededColumnIndice K = all_needed names bs ps \<and> pk_outputSchema K = Some (out_schema names bs ps) \<and>
     isOuterJoinHelperCreated K \<and> buffer_holds A X (out_schema names bs ps) S K \<and>
     helper_holds l True (out_schema names bs ps) (all_needed names bs ps) L (leftJoinHelper K) \<and>
     helper_holds r False (out_schema names bs ps) (all_needed names bs ps) R (rightJoinHelper K)"

definition kernel_inv ::
  "('t, 'a) arrow \<Rightarrow> ('t, 'a, 'b) arrow_rows \<Rightarrow> schema \<Rightarrow> schema \<Rightarrow> nat list \<Rightarrow> nat list \<Rightarrow> HashJoinPredicate \<Rightarrow>
   string list \<Rightarrow> bool \<Rightarrow> bool \<Rightarrow> (bool \<times> arrow_scalar) list list \<Rightarrow> (bool \<times> arrow_scalar) list list \<Rightarrow>
   't ProbeKernel \<Rightarrow> bool" where
  "kernel_inv A X bs ps kb kp pred names l r B P K \<longleftrightarrow>
     kernel_config pred names l r K \<and> kernel_sides A X bs ps kb B P K \<and>
     (if pk_build K \<noteq> None \<and> probeTupleSet K \<noteq> None then
        kernel_results A X bs ps names l r (mset (rel_join (match X kb kp) (out_row (all_needed names bs ps)) B P))
          (matched_left (match X kb kp) B P) (matched_right (match X kb kp) B P) K
      else kernel_blank K)"

text \<open>What a join of these sides needs of the names: some column, of types that can be appended.\<close>

definition names_ok :: "string list \<Rightarrow> schema \<Rightarrow> schema \<Rightarrow> bool" where
  "names_ok names bs ps \<longleftrightarrow> all_needed names bs ps \<noteq> [] \<and>
     (\<forall>f \<in> set (bs @ ps). fst f \<in> set names \<longrightarrow> snd f \<in> set appender_types)"

lemma needed_ok_all: "names_ok names bs ps \<Longrightarrow> needed_ok bs ps (all_needed names bs ps)"
  by (auto simp: names_ok_def needed_ok_def all_needed_def needed_fields_def output_field_def)

section \<open>Putting a piece\<close>

lemma validate_ok:
  assumes "rows_ok A X" and "distinct (map fst s)" and "\<forall>c \<in> set cs. c < length s"
  shows "validateColumnNames X (map fst s) (map (\<lambda>c. fst (s ! c)) cs) = None"
proof -
  have "GetFieldIndex X (map fst s) (fst (s ! c)) \<noteq> None" if "c \<in> set cs" for c
    using rows_GetFieldIndex [OF assms(1,2), of c] assms(3) that by simp
  then have "find (\<lambda>n. GetFieldIndex X (map fst s) n = None) (map (\<lambda>c. fst (s ! c)) cs) = None"
    by (simp add: find_None_iff)
  then show ?thesis by (simp add: validateColumnNames_def)
qed

lemma index_size_holds: "index_holds A X bs kb B ti \<Longrightarrow> index_size A ti = length B"
  by (auto simp: index_holds_def index_size_def TupleSet_numRows_def)

lemma table_size_holds: "table_holds A X s P ts \<Longrightarrow> TupleSet_numRows A ts = length P"
  by (auto simp: table_holds_def TupleSet_numRows_def)

lemma putBuild_ok:
  assumes base: "join_setup A X bs ps kb kp pred" and K: "pk_pred K = pred" "kernel_sides A X bs ps kb B P K"
    and ti: "index_holds A X bs kb C ti"
  shows "\<exists>ti'. putBuildTupleSetIndex A X ti K = Inr (None, K\<lparr>pk_build := Some ti'\<rparr>) \<and>
    index_holds A X bs kb (B @ C) ti' \<and> (pk_build K = None \<longrightarrow> ti' = ti)"
proof -
  have ok: "rows_ok A X" using base by (simp add: join_setup_def)
  from ti obtain t where t: "ti_tupleSet ti = Some t" "table_schema X t = bs" "table_rows A X t = C"
    "index_ok A X ti" "ti_columnIndexes ti = kb" by (auto simp: index_holds_def)
  have names: "field_names A t = map fst bs" using rows_names [OF ok, of t] t(2) by simp
  have valid: "validateColumnNames X (field_names A t) (leftColumnNames (pk_pred K)) = None"
    using validate_ok [OF ok, of bs kb] base by (simp add: names K(1) join_setup_def)
  note put = putBuildTupleSetIndex_def t(1) deref_table_def valid index_size_holds [OF ti]
  show ?thesis
  proof (cases "pk_build K")
    case None
    then show ?thesis using K(2) ti by (simp add: put kernel_sides_def)
  next
    case (Some own)
    with K(2) obtain u where u: "index_ok A X own" "ti_columnIndexes own = kb" "ti_tupleSet own = Some u"
      "table_schema X u = bs" "table_rows A X u = B" by (auto simp: kernel_sides_def index_holds_def)
    show ?thesis
    proof (cases "C = []")
      case True
      have "K = K\<lparr>pk_build := Some own\<rparr>" using Some by simp
      with True Some u show ?thesis by (intro exI [of _ own]) (simp add: put index_holds_def)
    next
      case False
      from TupleSetIndex_merge_ok [OF ok u(1,3) t(4,1)] u t obtain own' v where
        "TupleSetIndex_merge A ti own = Inr (None, own')" "index_ok A X own'" "ti_tupleSet own' = Some v"
        "ti_columnIndexes own' = kb" "table_schema X v = bs" "table_rows A X v = B @ C" by auto
      with False Some show ?thesis by (auto simp: put index_holds_def)
    qed
  qed
qed

lemma concatenate_ok:
  assumes "rows_ok A X" and "table_schema X u = table_schema X t"
  shows "\<exists>v. TupleSet_concatenate A [Some t, Some u] = Inr (Inr (Some v)) \<and> table_schema X v = table_schema X t \<and>
    table_rows A X v = table_rows A X t @ table_rows A X u"
  using rows_Concatenate [OF assms] assms(2)
  by (auto simp: TupleSet_concatenate_def rows_schema_Equals [OF assms(1)])

lemma putProbe_ok:
  assumes base: "join_setup A X bs ps kb kp pred" and K: "pk_pred K = pred" "kernel_sides A X bs ps kb B P K"
    and ts: "table_holds A X ps Q ts"
  shows "\<exists>ts'. putProbeTupleSet A X ts K = Inr (None, K\<lparr>probeTupleSet := Some ts'\<rparr>) \<and> table_holds A X ps (P @ Q) ts'"
proof -
  have ok: "rows_ok A X" using base by (simp add: join_setup_def)
  from ts obtain t where t: "ts = Some t" "table_schema X t = ps" "table_rows A X t = Q" by (auto simp: table_holds_def)
  have names: "field_names A t = map fst ps" using rows_names [OF ok, of t] t(2) by simp
  have valid: "validateColumnNames X (field_names A t) (rightColumnNames (pk_pred K)) = None"
    using validate_ok [OF ok, of ps kp] base by (simp add: names K(1) join_setup_def)
  note put = putProbeTupleSet_def t(1) deref_table_def valid
  have size: "TupleSet_numRows A (Some t) = length Q" using table_size_holds [OF ts] by (simp add: t(1))
  show ?thesis
  proof (cases "probeTupleSet K")
    case None
    then show ?thesis using K(2) ts by (intro exI [of _ "Some t"]) (simp add: put kernel_sides_def t(1))
  next
    case (Some own)
    with K(2) obtain u where u: "own = Some u" "table_schema X u = ps" "table_rows A X u = P"
      by (auto simp: kernel_sides_def table_holds_def)
    show ?thesis
    proof (cases "Q = []")
      case True
      have "K = K\<lparr>probeTupleSet := Some own\<rparr>" using Some by simp
      with True Some u show ?thesis by (intro exI [of _ own]) (simp add: put size table_holds_def)
    next
      case False
      from concatenate_ok [OF ok, of t u] u t obtain v where
        "TupleSet_concatenate A [Some u, Some t] = Inr (Inr (Some v))" "table_schema X v = ps" "table_rows A X v = P @ Q" by auto
      with False Some u(1) show ?thesis by (auto simp: put size table_holds_def TupleSet_append_def)
    qed
  qed
qed

section \<open>The results\<close>

text \<open>Before the first join the schema is fixed and the helpers are made.\<close>

lemma prepare_ok:
  assumes K: "kernel_config pred names l r K"
    and res: "kernel_results A X bs ps names l r S L R K \<or> kernel_blank K \<and> S = {#} \<and> L = {} \<and> R = {}"
    and ti: "index_holds A X bs kb B ti" and ts: "table_holds A X ps P ts"
  shows "\<exists>K'. rbind (bufferOutputSchema X ti ts K) makeOuterJoinHelpers = Inr (None, K') \<and>
    kernel_config pred names l r K' \<and> pk_build K' = pk_build K \<and> probeTupleSet K' = probeTupleSet K \<and>
    kernel_results A X bs ps names l r S L R K'"
proof (cases "pk_outputSchema K")
  case (Some s)
  then have "kernel_results A X bs ps names l r S L R K" using res by (auto simp: kernel_blank_def)
  with Some K show ?thesis by (simp add: bufferOutputSchema_def makeOuterJoinHelpers_def kernel_results_def)
next
  case None
  then have blank: "kernel_blank K" "S = {#}" "L = {}" "R = {}" using res by (auto simp: kernel_results_def)
  from ti obtain t where t: "ti_tupleSet ti = Some t" "table_schema X t = bs" by (auto simp: index_holds_def)
  from ts obtain p where p: "ts = Some p" "table_schema X p = ps" by (auto simp: table_holds_def)
  let ?n = "all_needed names bs ps" and ?s = "out_schema names bs ps"
  let ?K1 = "K\<lparr>neededColumnIndice := ?n, pk_outputSchema := Some ?s\<rparr>"
  let ?K2 = "?K1\<lparr>leftJoinHelper := (if l then Some (OuterJoinHelper_make True ?s ?n) else None),
      rightJoinHelper := (if r then Some (OuterJoinHelper_make False ?s ?n) else None), isOuterJoinHelperCreated := True\<rparr>"
  have "bufferOutputSchema X ti ts K = Inr ?K1"
    using blank(1) K None by (simp add: bufferOutputSchema_def t p deref_table_def kernel_blank_def kernel_config_def
        all_needed_def out_schema_def)
  moreover have "makeOuterJoinHelpers ?K1 = Inr (None, ?K2)"
    using blank(1) K by (cases l; cases r) (simp_all add: makeOuterJoinHelpers_def kernel_blank_def kernel_config_def)
  moreover have "kernel_results A X bs ps names l r S L R ?K2"
    using blank by (simp add: kernel_results_def kernel_blank_def buffer_holds_def helper_holds_def OuterJoinHelper_make_def)
  moreover have "kernel_config pred names l r ?K2" using K by (simp add: kernel_config_def)
  ultimately show ?thesis by (intro exI [of _ ?K2]) simp
qed

lemma kernel_buffer_ok:
  assumes ok: "rows_ok A X" and K: "buffer_holds A X s S K" and t: "table_schema X t = s"
  shows "\<exists>ts. kernel_buffer A (Some t) K = Inr (None, K\<lparr>pk_buffer := Some ts\<rparr>) \<and>
    buffer_holds A X s (S + mset (shown_rows A X t)) (K\<lparr>pk_buffer := Some ts\<rparr>)"
proof (cases "pk_buffer K")
  case None
  then show ?thesis using K t by (auto simp: kernel_buffer_def buffer_holds_def)
next
  case (Some b)
  with K obtain u where u: "b = Some u" "table_schema X u = s" "mset (shown_rows A X u) = S"
    by (auto simp: buffer_holds_def)
  from concatenate_ok [OF ok, of t u] u t obtain v where "TupleSet_concatenate A [Some u, Some t] = Inr (Inr (Some v))"
    "table_schema X v = s" "table_rows A X v = table_rows A X u @ table_rows A X t" by auto
  with Some u show ?thesis by (auto simp: kernel_buffer_def buffer_holds_def shown_rows_def)
qed

lemma helper_put:
  "helper_holds w side s needed M h \<Longrightarrow> helper_holds w side s needed (M \<union> N) (map_option (putRowMatchIndexes N) h)"
  by (cases w; cases h; cases "rowMatchIndexes (the h)") (simp_all add: helper_holds_def putRowMatchIndexes_def)

text \<open>A join of an index with a tuple set adds their pairs.\<close>

lemma join_and_buffer_ok:
  assumes base: "join_setup A X bs ps kb kp pred" and names: "names_ok names bs ps"
    and K: "pk_pred K = pred" "kernel_results A X bs ps names l r S L R K"
    and ti: "index_holds A X bs kb C ti" "C \<noteq> []" and ts: "table_holds A X ps Q ts"
    and keep: "\<And>ti'. \<exists>b. keepIndex ti' K = K\<lparr>pk_build := b ti'\<rparr>"
  shows "\<exists>ti' K'. join_and_buffer A X ti off ts poff keepIndex K = Inr (None, K') \<and> index_holds A X bs kb C ti' \<and>
    pk_build K' = pk_build (keepIndex ti' K) \<and> probeTupleSet K' = probeTupleSet K \<and>
    (\<forall>q n l' r'. kernel_config q n l' r' K' = kernel_config q n l' r' K) \<and>
    kernel_results A X bs ps names l r
      (S + mset (rel_join (match X kb kp) (out_row (all_needed names bs ps)) C Q))
      (L \<union> (\<lambda>i. off + i) ` matched_left (match X kb kp) C Q)
      (R \<union> (\<lambda>j. poff + j) ` matched_right (match X kb kp) C Q) K'"
proof -
  let ?n = "all_needed names bs ps" and ?s = "out_schema names bs ps" and ?m = "match X kb kp"
  have ok: "rows_ok A X" using base by (simp add: join_setup_def)
  have s: "?s = map (output_field bs ps) ?n" "?s \<noteq> []" using names by (auto simp: out_schema_def names_ok_def)
  from ts obtain t where t: "ts = Some t" "table_schema X t = ps" "table_rows A X t = Q" by (auto simp: table_holds_def)
  from join_batches_ok [OF base needed_ok_all [OF names] ti(2,1) t(2), of poff off] obtain J where
    J: "join_batches A X t poff (RecordBatchHashJoiner_make ti (rightColumnNames pred) ?s ?n off) = expect J"
      "joiner_for A X bs ps kb kp ?n C off J" "joiner_has A X kb kp ?n C poff Q J"
    by (auto simp: s(1) t(3))
  from J(2) have Jf: "hj_outputSchema J = ?s" "buildRowOffset J = off" "index_holds A X bs kb C (buildTupleSetIndex J)"
    by (auto simp: joiner_for_def s(1))
  from J(3) obtain rs where rs: "joined_ok A X ?s (joinedArrayVectors J) rs" "mset rs = mset (rel_join ?m (out_row ?n) C Q)"
    and matches: "buildRowMatchIndexes J = (\<lambda>i. off + i) ` matched_left ?m C Q"
      "probeRowMatchIndexes J = (\<lambda>j. poff + j) ` matched_right ?m C Q" by (auto simp: joiner_has_def Jf)
  from joined_table [OF ok, of J rs] rs s(2) obtain u where u: "joiner_toTupleSet A X J = Some u" "table_schema X u = ?s"
    "shown_rows A X u = rs" by (auto simp: Jf)
  let ?K = "save_matches J (keepIndex (buildTupleSetIndex J) K)"
  obtain b where b: "keepIndex (buildTupleSetIndex J) K = K\<lparr>pk_build := b\<rparr>" using keep by blast
  have "buffer_holds A X ?s S ?K" using K(2) by (simp add: b kernel_results_def buffer_holds_def save_matches_def)
  from kernel_buffer_ok [OF ok this u(2)] obtain ts' where
    buf: "kernel_buffer A (Some u) ?K = Inr (None, ?K\<lparr>pk_buffer := Some ts'\<rparr>)"
      "buffer_holds A X ?s (S + mset (shown_rows A X u)) (?K\<lparr>pk_buffer := Some ts'\<rparr>)" by blast
  let ?K' = "?K\<lparr>pk_buffer := Some ts'\<rparr>"
  have "join_and_buffer A X ti off ts poff keepIndex K = Inr (None, ?K')"
    using K by (simp add: join_and_buffer_def kernel_results_def t(1) deref_table_def J(1) expect_def u(1) buf(1)
        flip: K(1) s(1)) (simp add: J(1) [unfolded expect_def] u(1) buf(1) K(1))
  moreover have "kernel_results A X bs ps names l r (S + mset (rel_join ?m (out_row ?n) C Q))
      (L \<union> (\<lambda>i. off + i) ` matched_left ?m C Q) (R \<union> (\<lambda>j. poff + j) ` matched_right ?m C Q) ?K'"
    using K(2) buf(2) by (simp add: kernel_results_def u(3) rs(2) b save_matches_def helper_put matches)
  moreover have "pk_build ?K' = pk_build (keepIndex (buildTupleSetIndex J) K)" "probeTupleSet ?K' = probeTupleSet K"
    "kernel_config q n l' r' ?K' = kernel_config q n l' r' K" for q n l' r'
    by (simp_all add: save_matches_def b kernel_config_def)
  ultimately show ?thesis using Jf(3) by blast
qed


section \<open>Steps\<close>

lemma kernel_inv_sides:
  assumes inv: "kernel_inv A X bs ps kb kp pred names l r B P K" and both: "pk_build K = None \<or> probeTupleSet K = None"
  shows "B = [] \<or> P = []"
  using assms by (auto simp: kernel_inv_def kernel_sides_def)

lemma kernel_inv_results:
  assumes "kernel_inv A X bs ps kb kp pred names l r B P K"
  shows "kernel_results A X bs ps names l r (mset (rel_join (match X kb kp) (out_row (all_needed names bs ps)) B P))
      (matched_left (match X kb kp) B P) (matched_right (match X kb kp) B P) K \<or>
    kernel_blank K \<and> mset (rel_join (match X kb kp) (out_row (all_needed names bs ps)) B P) = {#} \<and>
      matched_left (match X kb kp) B P = {} \<and> matched_right (match X kb kp) B P = {}"
  using kernel_inv_sides [OF assms] assms by (auto simp: kernel_inv_def split: if_splits)

lemma build_step:
  assumes base: "join_setup A X bs ps kb kp pred" and names: "names_ok names bs ps"
    and inv: "kernel_inv A X bs ps kb kp pred names l r B P K" and ti: "index_holds A X bs kb C ti"
  shows "\<exists>K'. joinBuildTupleSetIndex A X ti K = Inr (None, K') \<and> kernel_inv A X bs ps kb kp pred names l r (B @ C) P K' \<and>
    pk_build K' \<noteq> None \<and> (probeTupleSet K' = None) = (probeTupleSet K = None)"
proof -
  let ?m = "match X kb kp" and ?out = "out_row (all_needed names bs ps)"
  from inv have K: "kernel_config pred names l r K" "pk_pred K = pred" "kernel_sides A X bs ps kb B P K"
    by (auto simp: kernel_inv_def kernel_config_def)
  from putBuild_ok [OF base K(2,3) ti] obtain ti1 where
    put: "putBuildTupleSetIndex A X ti K = Inr (None, K\<lparr>pk_build := Some ti1\<rparr>)" "index_holds A X bs kb (B @ C) ti1"
      "pk_build K = None \<longrightarrow> ti1 = ti" by (elim exE conjE) (rule that)
  let ?K1 = "K\<lparr>pk_build := Some ti1\<rparr>"
  let ?keep = "if pk_build K = None then (\<lambda>ti' K'. K'\<lparr>pk_build := Some ti'\<rparr>) else (\<lambda>ti' K'. K')"
  let ?off = "case pk_build K of None \<Rightarrow> 0 | Some own \<Rightarrow> index_size A own"
  have off: "?off = length B" using K(3) by (auto simp: kernel_sides_def index_size_holds split: option.splits)
  show ?thesis
  proof (cases "probeTupleSet K")
    case None
    then have "kernel_inv A X bs ps kb kp pred names l r (B @ C) P ?K1"
      using inv put(2) by (simp add: kernel_inv_def kernel_config_def kernel_sides_def kernel_blank_def)
    with None show ?thesis by (simp add: joinBuildTupleSetIndex_def put(1) kbind_def)
  next
    case (Some probe)
    have probe: "table_holds A X ps P probe" using K(3) Some by (simp add: kernel_sides_def)
    let ?S = "mset (rel_join ?m ?out B P)" and ?L = "matched_left ?m B P" and ?R = "matched_right ?m B P"
    have c1: "kernel_config pred names l r ?K1" using K(1) by (simp add: kernel_config_def)
    have r1: "kernel_results A X bs ps names l r ?S ?L ?R ?K1 \<or> kernel_blank ?K1 \<and> ?S = {#} \<and> ?L = {} \<and> ?R = {}"
      using kernel_inv_results [OF inv] by (simp add: kernel_results_def buffer_holds_def kernel_blank_def)
    from prepare_ok [OF c1 r1 ti probe] obtain K2 where
      K2: "rbind (bufferOutputSchema X ti probe ?K1) makeOuterJoinHelpers = Inr (None, K2)"
        "kernel_config pred names l r K2" "pk_build K2 = Some ti1" "probeTupleSet K2 = Some probe"
        "kernel_results A X bs ps names l r ?S ?L ?R K2" using Some by auto
    have upto: "joinBuildTupleSetIndex A X ti K =
        (if TupleSet_numRows A probe = 0 \<or> index_size A ti = 0 then Inr (None, K2)
         else join_and_buffer A X ti ?off probe 0 ?keep K2)"
      by (simp add: joinBuildTupleSetIndex_def Let_def put(1) kbind_def Some K2(1,4))
    show ?thesis
    proof (cases "P = [] \<or> C = []")
      case True
      then have "kernel_inv A X bs ps kb kp pred names l r (B @ C) P K2"
        using K2 put(2) probe by (auto simp: kernel_inv_def kernel_sides_def)
      with True K2 Some show ?thesis
        by (simp add: upto table_size_holds [OF probe] index_size_holds [OF ti])
    next
      case False
      have keep: "\<exists>b. ?keep ti' K2 = K2\<lparr>pk_build := b ti'\<rparr>" for ti'
        by (cases "pk_build K = None") (auto simp: K2(3) intro: exI [of _ "\<lambda>_. Some ti1"])
      have "pk_pred K2 = pred" using K2(2) by (simp add: kernel_config_def)
      from join_and_buffer_ok [where keepIndex = ?keep and K = K2 and off = "length B" and poff = 0,
          OF base names this K2(5) ti _ probe keep] False obtain ti' K' where
        K': "join_and_buffer A X ti (length B) probe 0 ?keep K2 = Inr (None, K')" "index_holds A X bs kb C ti'"
          "pk_build K' = pk_build (?keep ti' K2)" "probeTupleSet K' = Some probe" "kernel_config pred names l r K'"
          "kernel_results A X bs ps names l r (?S + mset (rel_join ?m ?out C P))
             (?L \<union> (\<lambda>i. length B + i) ` matched_left ?m C P) (?R \<union> (\<lambda>j. 0 + j) ` matched_right ?m C P) K'"
        using K2(2,4) by auto
      have b: "\<exists>ti''. pk_build K' = Some ti'' \<and> index_holds A X bs kb (B @ C) ti''"
        using K'(2,3) put K(3) K2(3) by (cases "pk_build K") (auto simp: kernel_sides_def)
      then have "kernel_inv A X bs ps kb kp pred names l r (B @ C) P K'"
        using K'(4,5,6) probe
        by (auto simp: kernel_inv_def kernel_sides_def rel_join_append_left matched_left_append)
      with K'(1,4) b False Some show ?thesis
        by (auto simp: upto off table_size_holds [OF probe] index_size_holds [OF ti])
    qed
  qed
qed

lemma probe_step:
  assumes base: "join_setup A X bs ps kb kp pred" and names: "names_ok names bs ps"
    and inv: "kernel_inv A X bs ps kb kp pred names l r B P K" and ts: "table_holds A X ps Q ts"
  shows "\<exists>K'. joinProbeTupleSet A X ts K = Inr (None, K') \<and> kernel_inv A X bs ps kb kp pred names l r B (P @ Q) K' \<and>
    probeTupleSet K' \<noteq> None \<and> (pk_build K' = None) = (pk_build K = None)"
proof -
  let ?m = "match X kb kp" and ?out = "out_row (all_needed names bs ps)"
  from inv have K: "kernel_config pred names l r K" "pk_pred K = pred" "kernel_sides A X bs ps kb B P K"
    by (auto simp: kernel_inv_def kernel_config_def)
  from putProbe_ok [OF base K(2,3) ts] obtain ts1 where
    put: "putProbeTupleSet A X ts K = Inr (None, K\<lparr>probeTupleSet := Some ts1\<rparr>)" "table_holds A X ps (P @ Q) ts1" by (elim exE conjE) (rule that)
  let ?K1 = "K\<lparr>probeTupleSet := Some ts1\<rparr>"
  let ?keep = "\<lambda>ti' K'. K'\<lparr>pk_build := Some ti'\<rparr>"
  let ?off = "case probeTupleSet K of None \<Rightarrow> 0 | Some own \<Rightarrow> TupleSet_numRows A own"
  have off: "?off = length P" using K(3) by (auto simp: kernel_sides_def table_size_holds split: option.splits)
  show ?thesis
  proof (cases "pk_build K")
    case None
    then have "kernel_inv A X bs ps kb kp pred names l r B (P @ Q) ?K1"
      using inv put(2) by (simp add: kernel_inv_def kernel_config_def kernel_sides_def kernel_blank_def)
    with None show ?thesis by (simp add: joinProbeTupleSet_def put(1) kbind_def)
  next
    case (Some ti)
    have ti: "index_holds A X bs kb B ti" using K(3) Some by (simp add: kernel_sides_def)
    let ?S = "mset (rel_join ?m ?out B P)" and ?L = "matched_left ?m B P" and ?R = "matched_right ?m B P"
    have c1: "kernel_config pred names l r ?K1" using K(1) by (simp add: kernel_config_def)
    have r1: "kernel_results A X bs ps names l r ?S ?L ?R ?K1 \<or> kernel_blank ?K1 \<and> ?S = {#} \<and> ?L = {} \<and> ?R = {}"
      using kernel_inv_results [OF inv] by (simp add: kernel_results_def buffer_holds_def kernel_blank_def)
    from prepare_ok [OF c1 r1 ti ts] obtain K2 where
      K2: "rbind (bufferOutputSchema X ti ts ?K1) makeOuterJoinHelpers = Inr (None, K2)"
        "kernel_config pred names l r K2" "pk_build K2 = Some ti" "probeTupleSet K2 = Some ts1"
        "kernel_results A X bs ps names l r ?S ?L ?R K2" using Some by auto
    have upto: "joinProbeTupleSet A X ts K =
        (if index_size A ti = 0 \<or> TupleSet_numRows A ts = 0 then Inr (None, K2)
         else join_and_buffer A X ti 0 ts ?off ?keep K2)"
      by (simp add: joinProbeTupleSet_def Let_def put(1) kbind_def Some K2(1,3))
    show ?thesis
    proof (cases "B = [] \<or> Q = []")
      case True
      then have "kernel_inv A X bs ps kb kp pred names l r B (P @ Q) K2"
        using K2 put(2) ti by (auto simp: kernel_inv_def kernel_sides_def)
      with True K2 Some show ?thesis
        by (simp add: upto table_size_holds [OF ts] index_size_holds [OF ti])
    next
      case False
      have keep: "\<exists>b. ?keep ti' K2 = K2\<lparr>pk_build := b ti'\<rparr>" for ti' by (intro exI [of _ Some]) simp
      have "pk_pred K2 = pred" using K2(2) by (simp add: kernel_config_def)
      from join_and_buffer_ok [where keepIndex = ?keep and K = K2 and off = 0 and poff = "length P",
          OF base names this K2(5) ti _ ts keep] False obtain ti' K' where
        K': "join_and_buffer A X ti 0 ts (length P) ?keep K2 = Inr (None, K')" "index_holds A X bs kb B ti'"
          "pk_build K' = Some ti'" "probeTupleSet K' = Some ts1" "kernel_config pred names l r K'"
          "kernel_results A X bs ps names l r (?S + mset (rel_join ?m ?out B Q))
             (?L \<union> (\<lambda>i. 0 + i) ` matched_left ?m B Q) (?R \<union> (\<lambda>j. length P + j) ` matched_right ?m B Q) K'"
        using K2(2,4) by auto
      then have "kernel_inv A X bs ps kb kp pred names l r B (P @ Q) K'"
        using put(2) by (auto simp: kernel_inv_def kernel_sides_def matched_right_append)
      with K'(1,3,4) False Some show ?thesis
        by (auto simp: upto off table_size_holds [OF ts] index_size_holds [OF ti])
    qed
  qed
qed

text \<open>The pieces of a run: indexes and tuple sets of the schemas of the two sides.\<close>

definition piece_ok ::
  "('t, 'a) arrow \<Rightarrow> ('t, 'a, 'b) arrow_rows \<Rightarrow> schema \<Rightarrow> schema \<Rightarrow> nat list \<Rightarrow> 't piece \<Rightarrow> bool" where
  "piece_ok A X bs ps kb p \<longleftrightarrow> (case p of
       Build_piece ti \<Rightarrow> index_holds A X bs kb (set_rows A X (ti_tupleSet ti)) ti
     | Probe_piece ts \<Rightarrow> table_holds A X ps (set_rows A X ts) ts)"

lemma kernel_run_ok:
  assumes base: "join_setup A X bs ps kb kp pred" and names: "names_ok names bs ps"
    and "\<forall>p \<in> set pieces. piece_ok A X bs ps kb p" and "kernel_inv A X bs ps kb kp pred names l r B P K"
  shows "\<exists>K'. kernel_run A X pieces K = Inr (None, K') \<and>
    kernel_inv A X bs ps kb kp pred names l r (B @ build_rows A X pieces) (P @ probe_rows A X pieces) K' \<and>
    (pk_build K' = None \<longleftrightarrow> pk_build K = None \<and> (\<forall>ti. Build_piece ti \<notin> set pieces)) \<and>
    (probeTupleSet K' = None \<longleftrightarrow> probeTupleSet K = None \<and> (\<forall>ts. Probe_piece ts \<notin> set pieces))"
  using assms(3,4)
proof (induction pieces arbitrary: B P K)
  case Nil
  then show ?case by (simp add: build_rows_def probe_rows_def)
next
  case (Cons p pieces)
  show ?case
  proof (cases p)
    case (Build_piece ti)
    with Cons.prems have "index_holds A X bs kb (set_rows A X (ti_tupleSet ti)) ti" by (simp add: piece_ok_def)
    from build_step [OF base names Cons.prems(2) this] obtain K1 where
      K1: "joinBuildTupleSetIndex A X ti K = Inr (None, K1)"
        "kernel_inv A X bs ps kb kp pred names l r (B @ set_rows A X (ti_tupleSet ti)) P K1" "pk_build K1 \<noteq> None"
        "(probeTupleSet K1 = None) = (probeTupleSet K = None)" by (elim exE conjE) (rule that)
    from Cons.IH [OF _ K1(2)] Cons.prems(1) K1(1,3,4) show ?thesis
      by (auto simp: kernel_step_def kbind_def Build_piece build_rows_def probe_rows_def)
  next
    case (Probe_piece ts)
    with Cons.prems have "table_holds A X ps (set_rows A X ts) ts" by (simp add: piece_ok_def)
    from probe_step [OF base names Cons.prems(2) this] obtain K1 where
      K1: "joinProbeTupleSet A X ts K = Inr (None, K1)"
        "kernel_inv A X bs ps kb kp pred names l r B (P @ set_rows A X ts) K1" "probeTupleSet K1 \<noteq> None"
        "(pk_build K1 = None) = (pk_build K = None)" by (elim exE conjE) (rule that)
    from Cons.IH [OF _ K1(2)] Cons.prems(1) K1(1,3,4) show ?thesis
      by (auto simp: kernel_step_def kbind_def Probe_piece build_rows_def probe_rows_def)
  qed
qed

lemma kernel_inv_make: "kernel_inv A X bs ps kb kp pred names l r [] [] (HashJoinProbeKernel_make pred names l r)"
  by (simp add: kernel_inv_def kernel_config_def kernel_sides_def kernel_blank_def HashJoinProbeKernel_make_def)

end
