(* ===== verification/Outer_Join.thy ===== *)
theory Outer_Join
  imports Hash_Join_Kernel
begin

text \<open>
  The end of a hash join: the helpers of the outer joins add the rows that have found no match, padded with
  nulls (\<^verbatim>\<open>join/OuterJoinHelper.cpp\<close>), and the result of the whole kernel is the inner or outer join
  of the two relations, whatever the order of the pieces.
\<close>

section \<open>The columns of one side\<close>

definition kept_columns :: "bool \<Rightarrow> (bool \<times> nat) list \<Rightarrow> nat list" where
  "kept_columns side needed = map snd (filter (\<lambda>(isBuild, j). isBuild = side) needed)"

definition pad :: "bool \<Rightarrow> (bool \<times> nat) list \<Rightarrow> (bool \<times> arrow_scalar) list \<Rightarrow> arrow_scalar option list" where
  "pad side needed r = map (\<lambda>(isBuild, j). if isBuild = side then shown (r ! j) else None) needed"

text \<open>The rows outside \<open>M\<close>.\<close>

definition unmatched :: "nat \<Rightarrow> nat set \<Rightarrow> nat list" where
  "unmatched n M = filter (\<lambda>i. i \<notin> M) [0..<n]"

lemma unmatched_rows_ok:
  assumes "M \<subseteq> {0..<n}"
  shows "unmatched_rows n M = Inr (unmatched n M)" and "length (unmatched n M) = n - card M"
proof -
  have "set (unmatched n M) = {0..<n} - M" by (auto simp: unmatched_def)
  then have "card ({0..<n} - M) = length (unmatched n M)" by (metis distinct_card distinct_filter distinct_upt unmatched_def)
  with assms show l: "length (unmatched n M) = n - card M"
    by (simp add: card_Diff_subset finite_subset [OF assms])
  have "card M \<le> n" using card_mono [OF _ assms] by simp
  with l show "unmatched_rows n M = Inr (unmatched n M)" by (simp add: unmatched_rows_def unmatched_def)
qed

lemma unmatched_filter:
  "map f (map ((!) V) (unmatched (length V) {i. i < length V \<and> Q (V ! i)})) = map f (filter (\<lambda>v. \<not> Q v) V)"
proof -
  have "filter (\<lambda>v. \<not> Q v) (map ((!) V) js) = map ((!) V) (filter (\<lambda>i. \<not> Q (V ! i)) js)" for js
    by (induction js) auto
  from this [of "[0..<length V]"] have "filter (\<lambda>v. \<not> Q v) V = map ((!) V) (filter (\<lambda>i. \<not> Q (V ! i)) [0..<length V])"
    by (simp add: map_nth)
  also have "filter (\<lambda>i. \<not> Q (V ! i)) [0..<length V] = unmatched (length V) {i. i < length V \<and> Q (V ! i)}"
    unfolding unmatched_def by (rule filter_cong) auto
  finally show ?thesis by simp
qed

lemma arrays_typed_empty:
  assumes ok: "rows_ok A X" and "\<forall>f \<in> set s. snd f \<in> set appender_types"
  shows "\<exists>as. emap (\<lambda>(n, ty). makeEmptyArray X ty) s = expect as \<and> arrays_typed A (map snd s) 0 as"
proof -
  have "\<exists>as. emap (\<lambda>(n, ty). makeEmptyArray X ty) s = expect as \<and>
      list_all2 (\<lambda>f a. array_type A a = snd f \<and> array_length A a = 0) s as"
  proof (rule emap_total)
    fix f assume f: "f \<in> set s"
    from rows_MakeArray [OF ok, of "[]" "snd f"] obtain a where
      a: "MakeArray X (snd f) [] = Inr a" "array_type A a = snd f" "cells A X a = []" by auto
    from f assms(2) have "snd f \<in> set appender_types" by simp
    with a show "\<exists>y. (case f of (n, ty) \<Rightarrow> makeEmptyArray X ty) = expect y \<and> array_type A y = snd f \<and> array_length A y = 0"
      by (cases f) (simp add: makeEmptyArray_def ArrayAppenderBuilder_make_def ArrayAppender_finalize_def cells_def)
  qed
  then show ?thesis
    by (elim ex_forward) (auto simp: arrays_typed_def list_all2_conv_all_nth in_set_conv_nth intro!: nth_equalityI)
qed

text \<open>The filter through a selection vector.\<close>

lemma evaluate_selection_ok:
  assumes ok: "rows_ok A X" and as: "arrays_typed A (map snd s) n as" and types: "\<forall>f \<in> set s. snd f \<in> set appender_types"
    and sel: "\<forall>i \<in> set sel. i < n"
  shows "\<exists>us. evaluateBySelectionVectorStatic X s as sel = expect us \<and> arrays_typed A (map snd s) (length sel) us \<and>
    (\<forall>i < length sel. row_of A X us i = row_of A X as (sel ! i))"
proof (cases "sel = []")
  case True
  with arrays_typed_empty [OF ok types] show ?thesis
    by (auto simp: evaluateBySelectionVectorStatic_def rows_projector [OF ok])
next
  case False
  from rows_SelectRows [OF ok as False] sel obtain us where
    us: "SelectRows X as sel = Inr us" "arrays_typed A (map snd s) (length sel) us"
      "map (row_of A X us) [0..<length sel] = map (row_of A X as) sel" by blast
  have "row_of A X us i = row_of A X as (sel ! i)" if "i < length sel" for i
    using map_upt_eq_nth [OF us(3) that] that by simp
  with False us(1,2) show ?thesis
    by (simp add: evaluateBySelectionVectorStatic_def rows_projector [OF ok])
qed

text \<open>The arrays of the side whose rows are kept.\<close>

lemma computeKeepSide_ok:
  assumes ok: "rows_ok A X" and ts: "table_holds A X s V ts" "V \<noteq> []"
    and h: "case rowMatchIndexes h of None \<Rightarrow> M = {} | Some m \<Rightarrow> m = M" and M: "M \<subseteq> {0..<length V}"
    and cs: "kept_columns (oj_isLeft h) (oj_needed h) = cs" "\<forall>c \<in> set cs. c < length s \<and> snd (s ! c) \<in> set appender_types"
  shows "\<exists>as. computeKeepSide A X ts h = expect as \<and> arrays_typed A (map (\<lambda>c. snd (s ! c)) cs) (length (unmatched (length V) M)) as \<and>
    (\<forall>i < length (unmatched (length V) M).
       map shown (row_of A X as i) = map (\<lambda>c. shown (V ! (unmatched (length V) M ! i) ! c)) cs)"
proof (cases "cs = []")
  case True
  then show ?thesis using cs(1) by (simp add: computeKeepSide_def kept_columns_def arrays_typed_def row_of_def)
next
  case False
  let ?sel = "unmatched (length V) M" and ?s = "map ((!) s) cs"
  from ts obtain t where t: "ts = Some t" "table_schema X t = s" "table_rows A X t = V" by (auto simp: table_holds_def)
  have n: "num_rows A t = length V" using t(3) by (metis table_rows_length)
  from rows_SelectColumns [OF ok, of cs t] cs(2) obtain p where
    p: "SelectColumns X t cs = Inr p" "table_schema X p = ?s" "table_columns A p = map ((!) (table_columns A t)) cs"
    by (auto simp: t(2))
  have width: "length (table_columns A t) = length s"
    using arrays_typed_length [OF rows_typed [OF ok, of t]] by (simp add: t(2))
  have "hd (table_columns A p) \<in> set (table_columns A p)" by (rule hd_in_set) (use False p(3) in simp)
  moreover have "set (table_columns A p) \<subseteq> set (table_columns A t)" using cs(2) by (auto simp: p(3) width)
  ultimately have "num_rows A p = num_rows A t"
    using rows_typed [OF ok, of p] rows_typed [OF ok, of t] unfolding arrays_typed_def by (metis subsetD)
  then have np: "num_rows A p = length V" by (simp add: n)
  from rows_Combine [OF ok, of p] obtain r where r: "CombineChunks A p = Inr r" "table_schema X r = ?s"
      "table_rows A X r = table_rows A X p" and chunks: "num_rows A r > 0 \<longrightarrow> (\<forall>a \<in> set (table_columns A r).
        \<exists>c. chunk_0 X a = Some c \<and> array_type A c = array_type A a \<and> cells A X c = cells A X a)"
    unfolding p(2) by (elim exE conjE) (rule that)
  have nr: "num_rows A r = length V" using np r(3) by (metis table_rows_length)
  then have pos: "num_rows A r > 0" using ts(2) by simp
  from first_chunks_ok [OF ok pos mp [OF chunks pos]] obtain as where
    as: "first_chunks X (table_columns A r) = Inr as" "arrays_typed A (map snd ?s) (length V) as"
      "map (row_of A X as) [0..<length V] = table_rows A X r"
    by (auto simp: r(2) nr)
  have row: "row_of A X as i = map (\<lambda>c. V ! i ! c) cs" if i: "i < length V" for i
  proof -
    have "row_of A X as i = table_rows A X p ! i" using map_upt_eq_nth [OF as(3) i] r(3) by simp
    also have "\<dots> = map (\<lambda>c. row_of A X (table_columns A t) i ! c) cs"
      using i np cs(2) width by (auto simp: table_rows_def row_of_def p(3))
    also have "row_of A X (table_columns A t) i = V ! i"
      by (rule map_upt_eq_nth [OF t(3) [unfolded table_rows_def]]) (simp add: n i)
    finally show ?thesis .
  qed
  have types: "map snd ?s = map (\<lambda>c. snd (s ! c)) cs" by simp
  note as2 = as(2) [unfolded types]
  have upto: "computeKeepSide A X ts h = (case rowMatchIndexes h of None \<Rightarrow> expect as
      | Some m \<Rightarrow> if m = {} then expect as
        else rbind (unmatched_rows (length V) m) (evaluateBySelectionVectorStatic X ?s as))"
    using False cs(1) by (simp add: computeKeepSide_def kept_columns_def t(1) deref_table_def p(1) TupleSet_combine_def r(1,2) as(1) n
        cong: option.case_cong if_cong)
  show ?thesis
  proof (cases "M = {}")
    case True
    then have "computeKeepSide A X ts h = expect as" using h by (auto simp: upto split: option.splits)
    moreover have "?sel = [0..<length V]" by (simp add: True unmatched_def)
    ultimately show ?thesis using as2 row by (simp add: comp_def)
  next
    case False
    then have up: "computeKeepSide A X ts h = evaluateBySelectionVectorStatic X ?s as ?sel"
      using h unmatched_rows_ok(1) [OF M] by (auto simp: upto split: option.splits)
    have in_range: "\<forall>i \<in> set ?sel. i < length V" by (auto simp: unmatched_def)
    have "\<forall>f \<in> set ?s. snd f \<in> set appender_types" using cs(2) by auto
    from evaluate_selection_ok [OF ok as(2) this in_range] obtain us where
      us: "evaluateBySelectionVectorStatic X ?s as ?sel = expect us" "arrays_typed A (map snd ?s) (length ?sel) us"
        "\<forall>i < length ?sel. row_of A X us i = row_of A X as (?sel ! i)" by blast
    have "map shown (row_of A X us i) = map (\<lambda>c. shown (V ! (?sel ! i) ! c)) cs" if "i < length ?sel" for i
      using us(3) that row [of "?sel ! i"] in_range by (simp add: comp_def)
    with us(1) us(2) [unfolded types] show ?thesis by (simp add: up)
  qed
qed

text \<open>The nulls of the other side.\<close>

lemma null_arrays_ok:
  assumes ok: "rows_ok A X"
  shows "\<exists>as. emap (\<lambda>(name, ty). case MakeArray X ty (replicate n None) of
        Inl e \<Rightarrow> unexpected (''Error when finalizing ColumnBuilder, '' @ e) | Inr a \<Rightarrow> expect a) s = expect as \<and>
    arrays_typed A (map snd s) n as \<and> (\<forall>i < n. map shown (row_of A X as i) = replicate (length s) None)"
proof -
  have "\<exists>as. emap (\<lambda>(name, ty). case MakeArray X ty (replicate n None) of
        Inl e \<Rightarrow> unexpected (''Error when finalizing ColumnBuilder, '' @ e) | Inr a \<Rightarrow> expect a) s = expect as \<and>
      list_all2 (\<lambda>f a. array_type A a = snd f \<and> map shown (cells A X a) = replicate n None) s as"
  proof (rule emap_total)
    fix f assume "f \<in> set s"
    from rows_MakeArray [OF ok, of "replicate n None" "snd f"] show "\<exists>a. (case f of (name, ty) \<Rightarrow>
        case MakeArray X ty (replicate n None) of Inl e \<Rightarrow> unexpected (''Error when finalizing ColumnBuilder, '' @ e)
        | Inr a \<Rightarrow> expect a) = expect a \<and> array_type A a = snd f \<and> map shown (cells A X a) = replicate n None"
      by (cases f) auto
  qed
  then obtain as where as: "emap (\<lambda>(name, ty). case MakeArray X ty (replicate n None) of
        Inl e \<Rightarrow> unexpected (''Error when finalizing ColumnBuilder, '' @ e) | Inr a \<Rightarrow> expect a) s = expect as"
    and all: "list_all2 (\<lambda>f a. array_type A a = snd f \<and> map shown (cells A X a) = replicate n None) s as" by blast
  have len: "array_length A a = n" if "a \<in> set as" for a
  proof -
    from that all have "map shown (cells A X a) = replicate n None"
      by (auto simp: list_all2_conv_all_nth in_set_conv_nth)
    from arg_cong [OF this, of length] show ?thesis by (simp add: cells_def)
  qed
  have "shown (cell A X (as ! c) i) = None" if "c < length as" "i < n" for c i
  proof -
    have "map shown (cells A X (as ! c)) = replicate n None" "array_length A (as ! c) = n"
      using all that(1) len [of "as ! c"] by (auto simp: list_all2_conv_all_nth)
    then have "map shown (cells A X (as ! c)) ! i = None" using that(2) by simp
    then show ?thesis using that(2) \<open>array_length A (as ! c) = n\<close> by (simp add: cells_def)
  qed
  then have "\<forall>i < n. map shown (row_of A X as i) = replicate (length s) None"
    using list_all2_lengthD [OF all] by (auto simp: row_of_def intro!: nth_equalityI)
  moreover have "arrays_typed A (map snd s) n as"
    using all len by (auto simp: arrays_typed_def list_all2_conv_all_nth intro!: nth_equalityI)
  ultimately show ?thesis using as by blast
qed

lemma table_of_arrays:
  assumes ok: "rows_ok A X" and "arrays_typed A (map snd s) n as" and "s \<noteq> []"
  shows "table_schema X (Table_FromArrays X s as) = s \<and>
    shown_rows A X (Table_FromArrays X s as) = map (\<lambda>i. map shown (row_of A X as i)) [0..<n]"
proof -
  let ?t = "Table_FromArrays X s as"
  from rows_FromArrays [OF assms] have t: "table_schema X ?t = s" "table_columns A ?t = as" by auto
  have "hd as \<in> set as" by (rule hd_in_set) (use arrays_typed_length [OF assms(2)] assms(3) in auto)
  then have "num_rows A ?t = n"
    using rows_typed [OF ok, of ?t] assms(2) unfolding t arrays_typed_def by metis
  then show ?thesis by (simp add: t shown_rows_def table_rows_def)
qed


text \<open>The unmatched rows, padded.\<close>

lemma compute_ok:
  assumes ok: "rows_ok A X" and names: "names_ok names bs ps"
    and ts: "table_holds A X (if side then bs else ps) V ts" "V \<noteq> []"
    and h: "oj_isLeft h = side" "oj_outputSchema h = out_schema names bs ps" "oj_needed h = all_needed names bs ps"
      "case rowMatchIndexes h of None \<Rightarrow> M = {} | Some m \<Rightarrow> m = M" and M: "M \<subseteq> {0..<length V}"
  shows "\<exists>t. OuterJoinHelper_compute A X ts h = expect (Some t) \<and> table_schema X t = out_schema names bs ps \<and>
    shown_rows A X t = map (\<lambda>i. pad side (all_needed names bs ps) (V ! i)) (unmatched (length V) M)"
proof -
  let ?sel = "unmatched (length V) M" and ?n = "all_needed names bs ps" and ?s = "out_schema names bs ps"
  define I J where "I = filter (\<lambda>c. fst (bs ! c) \<in> set names) [0..<length bs]"
    and "J = filter (\<lambda>c. fst (ps ! c) \<in> set names) [0..<length ps]"
  have n: "?n = map (Pair True) I @ map (Pair False) J" by (simp add: all_needed_def needed_fields_def I_def J_def)
  have s: "?s = map ((!) bs) I @ map ((!) ps) J" by (simp add: out_schema_def n output_field_def)
  define cs ds where "cs = (if side then I else J)" and "ds = (if side then J else I)"
  have kept: "kept_columns (oj_isLeft h) (oj_needed h) = cs"
    by (cases side) (simp_all add: h(1,3) kept_columns_def n cs_def comp_def)
  have cs: "\<forall>c \<in> set cs. c < length (if side then bs else ps) \<and> snd ((if side then bs else ps) ! c) \<in> set appender_types"
    using names by (auto simp: cs_def I_def J_def names_ok_def)
  from computeKeepSide_ok [OF ok ts h(4) M kept cs] obtain ks where
    ks: "computeKeepSide A X ts h = expect ks"
      "arrays_typed A (map (\<lambda>c. snd ((if side then bs else ps) ! c)) cs) (length ?sel) ks"
      "\<forall>i < length ?sel. map shown (row_of A X ks i) = map (\<lambda>c. shown (V ! (?sel ! i) ! c)) cs" by blast
  let ?d = "map ((!) (if side then ps else bs)) ds"
  from null_arrays_ok [OF ok, of "length ?sel" ?d] obtain ns where
    ns: "emap (\<lambda>(name, ty). case MakeArray X ty (replicate (length ?sel) None) of
          Inl e \<Rightarrow> unexpected (''Error when finalizing ColumnBuilder, '' @ e) | Inr a \<Rightarrow> expect a) ?d = expect ns"
      "arrays_typed A (map snd ?d) (length ?sel) ns"
      "\<forall>i < length ?sel. map shown (row_of A X ns i) = replicate (length ?d) None" by blast
  have "length (filter (\<lambda>(isBuild, j). isBuild \<noteq> side) ?n) = length ds"
    by (cases side) (simp_all add: n ds_def comp_def)
  moreover have "(if side then drop (length ?s - length ds) ?s else take (length ds) ?s) = ?d"
    by (cases side) (simp_all add: s ds_def)
  moreover have "(case rowMatchIndexes h of None \<Rightarrow> TupleSet_numRows A ts | Some m \<Rightarrow> TupleSet_numRows A ts - card m) = length ?sel"
    using h(4) unmatched_rows_ok(2) [OF M] table_size_holds [OF ts(1)] by (auto split: option.splits)
  ultimately have discard: "computeDiscardSide A X ts h = expect ns"
    using ns(1) by (simp add: computeDiscardSide_def h(1-3))
  let ?as = "if side then ks @ ns else ns @ ks"
  have "arrays_typed A (map snd ?s) (length ?sel) ?as"
    using ks(2) ns(2) by (cases side) (auto simp: arrays_typed_def s cs_def ds_def)
  moreover have "?s \<noteq> []" using names by (simp add: names_ok_def out_schema_def)
  ultimately have "table_schema X (Table_FromArrays X ?s ?as) = ?s \<and> shown_rows A X (Table_FromArrays X ?s ?as) =
      map (\<lambda>i. map shown (row_of A X ?as i)) [0..<length ?sel]" by (rule table_of_arrays [OF ok])
  moreover have "map (\<lambda>i. map shown (row_of A X ?as i)) [0..<length ?sel] = map (\<lambda>i. pad side ?n (V ! i)) ?sel"
  proof (rule nth_equalityI)
    fix i assume "i < length (map (\<lambda>i. map shown (row_of A X ?as i)) [0..<length ?sel])"
    then have i: "i < length ?sel" by simp
    have "map shown (row_of A X ?as i) = pad side ?n (V ! (?sel ! i))"
      using ks(3) ns(3) i
      by (cases side) (simp_all add: row_of_def pad_def n cs_def ds_def comp_def map_replicate_const)
    then show "map (\<lambda>i. map shown (row_of A X ?as i)) [0..<length ?sel] ! i = map (\<lambda>i. pad side ?n (V ! i)) ?sel ! i"
      using i by simp
  qed simp
  ultimately show ?thesis
    using ks(1) discard by (simp add: OuterJoinHelper_compute_def h(1,2))
qed

lemma add_unmatched_ok:
  assumes ok: "rows_ok A X" and names: "names_ok names bs ps"
    and h: "helper_holds w side (out_schema names bs ps) (all_needed names bs ps) {i. i < length V \<and> Q (V ! i)} h"
    and ts: "table_holds A X (if side then bs else ps) V ts" "w \<longrightarrow> V \<noteq> []"
    and K: "buffer_holds A X (out_schema names bs ps) S K"
  shows "\<exists>ts'. add_unmatched A X h (Some ts) K = Inr (None, K\<lparr>pk_buffer := ts'\<rparr>) \<and>
    buffer_holds A X (out_schema names bs ps)
      (S + (if w then mset (map (pad side (all_needed names bs ps)) (filter (\<lambda>v. \<not> Q v) V)) else {#})) (K\<lparr>pk_buffer := ts'\<rparr>)"
proof (cases w)
  case False
  then show ?thesis using h K by (intro exI [of _ "pk_buffer K"]) (simp add: helper_holds_def add_unmatched_def)
next
  case True
  let ?M = "{i. i < length V \<and> Q (V ! i)}"
  from True h obtain h' where h': "h = Some h'" "oj_isLeft h' = side" "oj_outputSchema h' = out_schema names bs ps"
      "oj_needed h' = all_needed names bs ps" "case rowMatchIndexes h' of None \<Rightarrow> ?M = {} | Some m \<Rightarrow> m = ?M"
    by (auto simp: helper_holds_def)
  have "?M \<subseteq> {0..<length V}" by auto
  from compute_ok [OF ok names ts(1) _ h'(2-5) this] True ts(2) obtain t where
    t: "OuterJoinHelper_compute A X ts h' = expect (Some t)" "table_schema X t = out_schema names bs ps"
      "shown_rows A X t = map (\<lambda>i. pad side (all_needed names bs ps) (V ! i)) (unmatched (length V) ?M)" by blast
  have rows: "shown_rows A X t = map (pad side (all_needed names bs ps)) (filter (\<lambda>v. \<not> Q v) V)"
    unfolding t(3) using unmatched_filter [of "pad side (all_needed names bs ps)" V Q] by (simp add: comp_def)
  from kernel_buffer_ok [OF ok K t(2)] obtain ts' where
    "kernel_buffer A (Some t) K = Inr (None, K\<lparr>pk_buffer := Some ts'\<rparr>)"
    "buffer_holds A X (out_schema names bs ps) (S + mset (shown_rows A X t)) (K\<lparr>pk_buffer := Some ts'\<rparr>)"
    by (elim exE conjE) (rule that)
  then show ?thesis
    using True by (intro exI [of _ "Some ts'"]) (simp add: add_unmatched_def h'(1) t(1) [unfolded expect_def] rows)
qed

section \<open>The whole join\<close>

text \<open>C38. The hash join kernel computes the join of the relations.\<close>

theorem hash_join_computes_the_join:
  assumes base: "join_setup A X bs ps kb kp pred" and names: "names_ok names bs ps"
    and pieces: "\<forall>p \<in> set pieces. piece_ok A X bs ps kb p"
    and both: "Build_piece ti0 \<in> set pieces" "Probe_piece ts0 \<in> set pieces"
    and B: "B = build_rows A X pieces" "l \<longrightarrow> B \<noteq> []" and P: "P = probe_rows A X pieces" "r \<longrightarrow> P \<noteq> []"
  shows "\<exists>K K'. kernel_run A X pieces (HashJoinProbeKernel_make pred names l r) = Inr (None, K) \<and>
    HashJoinProbeKernel_finalize A X K = Inr (None, K') \<and>
    mset (kernel_rows A X K') =
      mset (rel_join (match X kb kp) (out_row (all_needed names bs ps)) B P) +
      (if l then mset (map (pad True (all_needed names bs ps)) (filter (\<lambda>b. \<not> (\<exists>p \<in> set P. match X kb kp b p)) B)) else {#}) +
      (if r then mset (map (pad False (all_needed names bs ps)) (filter (\<lambda>p. \<not> (\<exists>b \<in> set B. match X kb kp b p)) P)) else {#})"
proof -
  let ?m = "match X kb kp" and ?n = "all_needed names bs ps" and ?s = "out_schema names bs ps"
  have ok: "rows_ok A X" using base by (simp add: join_setup_def)
  from kernel_run_ok [OF base names pieces kernel_inv_make, of l r] both obtain K where
    K: "kernel_run A X pieces (HashJoinProbeKernel_make pred names l r) = Inr (None, K)"
      "kernel_inv A X bs ps kb kp pred names l r B P K" "pk_build K \<noteq> None" "probeTupleSet K \<noteq> None"
    by (auto simp: B(1) P(1))
  from K(2-4) obtain ti ts where sides: "pk_build K = Some ti" "index_holds A X bs kb B ti"
      "probeTupleSet K = Some ts" "table_holds A X ps P ts"
    and res: "kernel_results A X bs ps names l r (mset (rel_join ?m (out_row ?n) B P)) (matched_left ?m B P) (matched_right ?m B P) K"
    by (auto simp: kernel_inv_def kernel_sides_def)
  have build: "table_holds A X (if True then bs else ps) B (ti_tupleSet ti)"
    and probe: "table_holds A X (if False then bs else ps) P ts"
    using sides by (auto simp: index_holds_def table_holds_def)
  from res have buf: "buffer_holds A X ?s (mset (rel_join ?m (out_row ?n) B P)) K"
    and left: "helper_holds l True ?s ?n {i. i < length B \<and> (\<exists>p \<in> set P. ?m (B ! i) p)} (leftJoinHelper K)"
    and right: "helper_holds r False ?s ?n {j. j < length P \<and> (\<exists>b \<in> set B. ?m b (P ! j))} (rightJoinHelper K)"
    by (simp_all add: kernel_results_def matched_left_def matched_right_def)
  from add_unmatched_ok [where Q = "\<lambda>b. \<exists>p \<in> set P. ?m b p", OF ok names left build B(2) buf] obtain t1 where
    1: "add_unmatched A X (leftJoinHelper K) (Some (ti_tupleSet ti)) K = Inr (None, K\<lparr>pk_buffer := t1\<rparr>)"
      "buffer_holds A X ?s (mset (rel_join ?m (out_row ?n) B P) +
        (if l then mset (map (pad True ?n) (filter (\<lambda>b. \<not> (\<exists>p \<in> set P. ?m b p)) B)) else {#})) (K\<lparr>pk_buffer := t1\<rparr>)"
    by (elim exE conjE) (rule that)
  have "rightJoinHelper K = rightJoinHelper (K\<lparr>pk_buffer := t1\<rparr>)" by simp
  from add_unmatched_ok [where Q = "\<lambda>p. \<exists>b \<in> set B. ?m b p", OF ok names right probe P(2) 1(2)] obtain t2 where
    2: "add_unmatched A X (rightJoinHelper K) (Some ts) (K\<lparr>pk_buffer := t1\<rparr>) = Inr (None, K\<lparr>pk_buffer := t1, pk_buffer := t2\<rparr>)"
      "buffer_holds A X ?s (mset (rel_join ?m (out_row ?n) B P) +
        (if l then mset (map (pad True ?n) (filter (\<lambda>b. \<not> (\<exists>p \<in> set P. ?m b p)) B)) else {#}) +
        (if r then mset (map (pad False ?n) (filter (\<lambda>p. \<not> (\<exists>b \<in> set B. ?m b p)) P)) else {#}))
        (K\<lparr>pk_buffer := t1, pk_buffer := t2\<rparr>)"
    by (elim exE conjE) (rule that)
  have "HashJoinProbeKernel_finalize A X K = Inr (None, K\<lparr>pk_buffer := t1, pk_buffer := t2\<rparr>)"
    by (simp add: HashJoinProbeKernel_finalize_def computeOuterJoin_def sides(1,3) 1(1) kbind_def 2(1) [simplified])
  moreover have "mset (kernel_rows A X K1) = S" if "buffer_holds A X ?s S K1" for S and K1 :: "'a ProbeKernel"
    using that by (auto simp: buffer_holds_def kernel_rows_def split: option.splits)
  ultimately show ?thesis using K(1) 2(2) by blast
qed


text \<open>
  A full outer join of two relations in two pieces each: the keys 1 and 2 match, 3 and 4 do not.
\<close>

definition sample_pred :: HashJoinPredicate where
  "sample_pred = \<lparr>leftColumnNames = [''k''], rightColumnNames = [''j'']\<rparr>"

definition int_cell :: "int32 \<Rightarrow> bool \<times> arrow_scalar" where
  "int_cell v = (False, Int32Scalar v)"

definition sample_build :: "(bool \<times> arrow_scalar) list list \<Rightarrow> row_table" where
  "sample_build rows = ([(''k'', Int32Type), (''v'', Int32Type)], rows)"

definition sample_probe :: "(bool \<times> arrow_scalar) list list \<Rightarrow> row_table" where
  "sample_probe rows = ([(''j'', Int32Type)], rows)"

definition sample_index :: "(bool \<times> arrow_scalar) list list \<Rightarrow> row_table TupleSetIndex" where
  "sample_index rows = \<lparr>ti_columnNames = [''k''], ti_columnIndexes = [0], ti_tupleSet = Some (sample_build rows),
     valueRowMap = numbered 0 (map (\<lambda>r. [snd (r ! 0)]) rows)\<rparr>"

definition sample_pieces :: "row_table piece list" where
  "sample_pieces =
     [Build_piece (sample_index [[int_cell 1, int_cell 10], [int_cell 3, int_cell 30]]),
      Probe_piece (Some (sample_probe [[int_cell 1], [int_cell 2]])),
      Build_piece (sample_index [[int_cell 2, int_cell 20]]),
      Probe_piece (Some (sample_probe [[int_cell 4], [int_cell 1]]))]"

lemma sample_setup:
  "join_setup row_arrow row_access [(''k'', Int32Type), (''v'', Int32Type)] [(''j'', Int32Type)] [0] [0] sample_pred"
  by (simp add: join_setup_def row_rows_ok sample_pred_def key_types_def canonicalize_def tolower_def of_char_def)

lemma sample_pieces_ok:
  "\<forall>p \<in> set sample_pieces. piece_ok row_arrow row_access [(''k'', Int32Type), (''v'', Int32Type)] [(''j'', Int32Type)] [0] p"
  by (simp add: sample_pieces_def piece_ok_def index_holds_def table_holds_def set_rows_def index_ok_def sample_index_def
      sample_build_def sample_probe_def row_simps row_table_rows int_cell_def typed_def scalar_type_def row_key_def
      key_types_def)

theorem hash_join_computes_the_join_witness:
  "\<exists>K K'. kernel_run row_arrow row_access sample_pieces
      (HashJoinProbeKernel_make sample_pred [''v'', ''j''] True True) = Inr (None, K) \<and>
    HashJoinProbeKernel_finalize row_arrow row_access K = Inr (None, K') \<and>
    mset (kernel_rows row_arrow row_access K') =
      {#[Some (Int32Scalar 10), Some (Int32Scalar 1)], [Some (Int32Scalar 10), Some (Int32Scalar 1)],
        [Some (Int32Scalar 20), Some (Int32Scalar 2)], [Some (Int32Scalar 30), None], [None, Some (Int32Scalar 4)]#}"
proof -
  have names: "names_ok [''v'', ''j''] [(''k'', Int32Type), (''v'', Int32Type)] [(''j'', Int32Type)]"
    by (simp add: names_ok_def all_needed_def needed_fields_def appender_types_def)
  have both: "Build_piece (sample_index [[int_cell 2, int_cell 20]]) \<in> set sample_pieces"
    "Probe_piece (Some (sample_probe [[int_cell 4], [int_cell 1]])) \<in> set sample_pieces"
    by (simp_all add: sample_pieces_def)
  have rows: "build_rows row_arrow row_access sample_pieces =
      [[int_cell 1, int_cell 10], [int_cell 3, int_cell 30], [int_cell 2, int_cell 20]]"
    "probe_rows row_arrow row_access sample_pieces = [[int_cell 1], [int_cell 2], [int_cell 4], [int_cell 1]]"
    by (simp_all add: sample_pieces_def build_rows_def probe_rows_def set_rows_def sample_index_def sample_build_def
        sample_probe_def row_table_rows int_cell_def typed_def scalar_type_def)
  from hash_join_computes_the_join [OF sample_setup names sample_pieces_ok both refl _ refl, of True True]
  show ?thesis
    unfolding rows
    by (simp add: rel_join_def row_join_def match_def keys_match_def row_key_def TupleKeyElement_equals_def int_cell_def
        scalar_type_def out_row_def pad_def all_needed_def needed_fields_def add_mset_commute)
qed

end
