(* ===== verification/Semi_Join.thy ===== *)
theory Semi_Join
  imports Outer_Join
begin

text \<open>
  The semi join (\<^verbatim>\<open>join/hashjoin/RecordBatchHashSemiJoiner.cpp\<close>,
  \<^verbatim>\<open>HashSemiJoinProbeKernel.cpp\<close>) and the probe operator
  (\<^verbatim>\<open>HashJoinProbePOp.cpp\<close>).  The semi join keeps the build rows that some probe row matches.  To skip a
  key found before, the joiner looks the first row of the key up among the rows saved; it saves row numbers
  with the offset of the piece added, and looks the number up without.  With offset 0 the test is exact; for
  a piece of the build side that comes later it skips keys that have not been found, and rows are lost.
  \<open>semi_joiner_ok\<close> gives the rows a joiner saves, \<open>semi_matches_exact\<close> the case of offset 0.
\<close>

section \<open>The joiner and the kernel\<close>

record 't RecordBatchHashSemiJoiner =
  sj_index :: "'t TupleSetIndex"
  sj_names :: "string list"
  rowIndexOffset :: nat
  sj_matches :: "nat set"

definition RecordBatchHashSemiJoiner_make :: "'t TupleSetIndex \<Rightarrow> string list \<Rightarrow> nat \<Rightarrow> 't RecordBatchHashSemiJoiner" where
  "RecordBatchHashSemiJoiner_make ti names offset =
     \<lparr>sj_index = ti, sj_names = names, rowIndexOffset = offset, sj_matches = {}\<rparr>"

definition save_row :: "nat \<Rightarrow> nat list \<Rightarrow> nat set \<Rightarrow> nat set" where
  "save_row offset buildRows m =
     (case buildRows of
        [] \<Rightarrow> m
      | r0 # _ \<Rightarrow> if r0 \<in> m then m else fold (\<lambda>r. insert (r + offset)) buildRows m)"

definition RecordBatchHashSemiJoiner_join ::
  "('t, 'a) arrow \<Rightarrow> ('t, 'a, 'b) arrow_rows \<Rightarrow> 'b \<Rightarrow> 't RecordBatchHashSemiJoiner \<Rightarrow> 't RecordBatchHashSemiJoiner expected" where
  "RecordBatchHashSemiJoiner_join A X batch J =
     rbind (TupleSetIndex_combine A (sj_index J)) (\<lambda>(e, ti). case e of
       Some msg \<Rightarrow> unexpected msg
     | None \<Rightarrow>
         ebind (TupleSetIndexFinder_make X (sj_names J) batch) (\<lambda>columns.
         ebind (efold (\<lambda>pr m. ebind (TupleSetIndexFinder_find A X ti columns batch pr) (\<lambda>buildRows.
                 expect (save_row (rowIndexOffset J) buildRows m)))
             [0..<rb_num_rows X batch] (sj_matches J)) (\<lambda>m.
           expect (J\<lparr>sj_index := ti, sj_matches := m\<rparr>))))"

definition semi_join_batches ::
  "('t, 'a) arrow \<Rightarrow> ('t, 'a, 'b) arrow_rows \<Rightarrow> 't \<Rightarrow> 't RecordBatchHashSemiJoiner \<Rightarrow> 't RecordBatchHashSemiJoiner expected" where
  "semi_join_batches A X probeTable J = for_batches X probeTable (RecordBatchHashSemiJoiner_join A X) J"

text \<open>The fields of the abstract kernel, and the matching rows.\<close>

record 't SemiKernel =
  sk_kernel :: "'t ProbeKernel"
  sk_matches :: "nat set"

definition HashSemiJoinProbeKernel_make :: "HashJoinPredicate \<Rightarrow> string list \<Rightarrow> 't SemiKernel" where
  "HashSemiJoinProbeKernel_make pred names = \<lparr>sk_kernel = HashJoinProbeKernel_make pred names False False, sk_matches = {}\<rparr>"

type_synonym 't semi_result = "(string option \<times> 't SemiKernel) result"

definition sbind :: "'t kernel_result \<Rightarrow> nat set \<Rightarrow> ('t ProbeKernel \<Rightarrow> 't semi_result) \<Rightarrow> 't semi_result" where
  "sbind r m f = rbind r (\<lambda>(e, K). case e of
     Some msg \<Rightarrow> Inr (Some msg, \<lparr>sk_kernel = K, sk_matches = m\<rparr>) | None \<Rightarrow> f K)"

definition semi_join_and_save ::
  "('t, 'a) arrow \<Rightarrow> ('t, 'a, 'b) arrow_rows \<Rightarrow> 't TupleSetIndex \<Rightarrow> nat \<Rightarrow> 't TupleSet \<Rightarrow>
   ('t TupleSetIndex \<Rightarrow> 't ProbeKernel \<Rightarrow> 't ProbeKernel) \<Rightarrow> nat set \<Rightarrow> 't ProbeKernel \<Rightarrow> 't semi_result" where
  "semi_join_and_save A X ti offset probe keepIndex m K =
     rbind (deref_table probe) (\<lambda>t.
     rbind (semi_join_batches A X t (RecordBatchHashSemiJoiner_make ti (rightColumnNames (pk_pred K)) offset)) (\<lambda>e.
       case e of
         Inl msg \<Rightarrow> Inr (Some msg, \<lparr>sk_kernel = K, sk_matches = m\<rparr>)
       | Inr J \<Rightarrow> Inr (None, \<lparr>sk_kernel = keepIndex (sj_index J) K, sk_matches = m \<union> sj_matches J\<rparr>)))"

definition semi_joinBuildTupleSetIndex ::
  "('t, 'a) arrow \<Rightarrow> ('t, 'a, 'b) arrow_rows \<Rightarrow> 't TupleSetIndex \<Rightarrow> 't SemiKernel \<Rightarrow> 't semi_result" where
  "semi_joinBuildTupleSetIndex A X ti S =
     (let K = sk_kernel S; m = sk_matches S;
          offset = (case pk_build K of None \<Rightarrow> 0 | Some own \<Rightarrow> index_size A own);
          keepIndex = (if pk_build K = None then (\<lambda>ti' K'. K'\<lparr>pk_build := Some ti'\<rparr>) else (\<lambda>ti' K'. K'))
      in sbind (putBuildTupleSetIndex A X ti K) m (\<lambda>K1.
           case probeTupleSet K1 of
             None \<Rightarrow> Inr (None, \<lparr>sk_kernel = K1, sk_matches = m\<rparr>)
           | Some probe \<Rightarrow>
               rbind (bufferOutputSchema X ti probe K1) (\<lambda>K2.
                 if TupleSet_numRows A probe = 0 \<or> index_size A ti = 0 then
                   Inr (None, \<lparr>sk_kernel = K2, sk_matches = m\<rparr>)
                 else semi_join_and_save A X ti offset probe keepIndex m K2)))"

definition semi_joinProbeTupleSet ::
  "('t, 'a) arrow \<Rightarrow> ('t, 'a, 'b) arrow_rows \<Rightarrow> 't TupleSet \<Rightarrow> 't SemiKernel \<Rightarrow> 't semi_result" where
  "semi_joinProbeTupleSet A X tupleSet S =
     (let K = sk_kernel S; m = sk_matches S
      in sbind (putProbeTupleSet A X tupleSet K) m (\<lambda>K1.
           case pk_build K1 of
             None \<Rightarrow> Inr (None, \<lparr>sk_kernel = K1, sk_matches = m\<rparr>)
           | Some ti \<Rightarrow>
               rbind (bufferOutputSchema X ti tupleSet K1) (\<lambda>K2.
                 if index_size A ti = 0 \<or> TupleSet_numRows A tupleSet = 0 then
                   Inr (None, \<lparr>sk_kernel = K2, sk_matches = m\<rparr>)
                 else semi_join_and_save A X ti 0 tupleSet (\<lambda>ti' K'. K'\<lparr>pk_build := Some ti'\<rparr>) m K2)))"

text \<open>\<open>finalize\<close> filters the build side; the result of combining its chunks is not looked at.\<close>

definition makeSelectionVector :: "nat set \<Rightarrow> nat list" where
  "makeSelectionVector m = sorted_list_of_set m"

definition semi_finalize ::
  "('t, 'a) arrow \<Rightarrow> ('t, 'a, 'b) arrow_rows \<Rightarrow> 't SemiKernel \<Rightarrow> 't semi_result" where
  "semi_finalize A X S =
     (let K = sk_kernel S; m = sk_matches S
      in case pk_build K of
           None \<Rightarrow> Inr (None, S)
         | Some ti \<Rightarrow>
             if index_size A ti = 0 then Inr (None, S)
             else rbind (TupleSetIndex_combine A ti) (\<lambda>(_, ti').
               rbind (deref_table (ti_tupleSet ti')) (\<lambda>inputTable.
               rbind (rmap (\<lambda>(_, j). if j \<ge> num_columns A inputTable then
                       Inl (UndefinedBehaviour ''column index out of range'')
                     else Inr (table_column A inputTable j)) (filter fst (neededColumnIndice K))) (\<lambda>columns.
               rbind (first_chunks X columns) (\<lambda>arrays.
                 let K1 = K\<lparr>pk_build := Some ti'\<rparr>; S1 = \<lparr>sk_kernel = K1, sk_matches = m\<rparr>
                 in case pk_outputSchema K of
                      None \<Rightarrow> Inr (Some ''Output schema not set yet during finalize'', S1)
                    | Some schema \<Rightarrow>
                        if length arrays \<noteq> length schema then
                          Inl (UndefinedBehaviour ''record batch without the arrays of its schema'')
                        else rbind (evaluateBySelectionVectorStatic X schema arrays (makeSelectionVector m)) (\<lambda>e.
                          case e of
                            Inl msg \<Rightarrow> Inr (Some msg, S1)
                          | Inr filtered \<Rightarrow>
                              rbind (kernel_buffer A (Some (Table_FromArrays X schema filtered)) K1) (\<lambda>(e, K2).
                                Inr (e, \<lparr>sk_kernel = K2, sk_matches = m\<rparr>))))))))"

definition HashSemiJoinProbeKernel_clear :: "'t SemiKernel \<Rightarrow> 't SemiKernel" where
  "HashSemiJoinProbeKernel_clear S =
     \<lparr>sk_kernel = kernel_clearBuffer ((sk_kernel S)\<lparr>pk_build := None, probeTupleSet := None\<rparr>), sk_matches = {}\<rparr>"

section \<open>The probe operator\<close>

datatype JoinType = INNER | LEFT | RIGHT | FULL | SEMI | OTHER_JOIN nat

datatype 't AbstractKernel = Plain_kernel "'t ProbeKernel" | Semi_kernel "'t SemiKernel"

record 't HashJoinProbe =
  hp_kernel :: "'t AbstractKernel"
  sentResult :: bool
  totalNumberOfTuples :: int32

definition HashJoinProbe_make :: "HashJoinPredicate \<Rightarrow> string list \<Rightarrow> JoinType \<Rightarrow> 't HashJoinProbe result" where
  "HashJoinProbe_make pred names joinType =
     rbind (case joinType of
         INNER \<Rightarrow> Inr (Plain_kernel (HashJoinProbeKernel_make pred names False False))
       | LEFT \<Rightarrow> Inr (Plain_kernel (HashJoinProbeKernel_make pred names True False))
       | RIGHT \<Rightarrow> Inr (Plain_kernel (HashJoinProbeKernel_make pred names False True))
       | FULL \<Rightarrow> Inr (Plain_kernel (HashJoinProbeKernel_make pred names True True))
       | SEMI \<Rightarrow> Inr (Semi_kernel (HashSemiJoinProbeKernel_make pred names))
       | OTHER_JOIN n \<Rightarrow> Inl (RuntimeError (''Unsupported hash join type, '' @ string_of_nat n)))
       (\<lambda>k. Inr \<lparr>hp_kernel = k, sentResult = False, totalNumberOfTuples = 0\<rparr>)"

definition kernel_joinBuild ::
  "('t, 'a) arrow \<Rightarrow> ('t, 'a, 'b) arrow_rows \<Rightarrow> 't TupleSetIndex \<Rightarrow> 't AbstractKernel
     \<Rightarrow> (string option \<times> 't AbstractKernel) result" where
  "kernel_joinBuild A X ti k =
     (case k of
        Plain_kernel K \<Rightarrow> rbind (joinBuildTupleSetIndex A X ti K) (\<lambda>(e, K'). Inr (e, Plain_kernel K'))
      | Semi_kernel S \<Rightarrow> rbind (semi_joinBuildTupleSetIndex A X ti S) (\<lambda>(e, S'). Inr (e, Semi_kernel S')))"

fun abstract_buffer :: "'t AbstractKernel \<Rightarrow> 't TupleSet option" where
  "abstract_buffer (Plain_kernel K) = pk_buffer K"
| "abstract_buffer (Semi_kernel S) = pk_buffer (sk_kernel S)"

fun abstract_clearBuffer :: "'t AbstractKernel \<Rightarrow> 't AbstractKernel" where
  "abstract_clearBuffer (Plain_kernel K) = Plain_kernel (kernel_clearBuffer K)"
| "abstract_clearBuffer (Semi_kernel S) = Semi_kernel (S\<lparr>sk_kernel := kernel_clearBuffer (sk_kernel S)\<rparr>)"

fun abstract_clear :: "'t AbstractKernel \<Rightarrow> 't AbstractKernel" where
  "abstract_clear (Plain_kernel K) = Plain_kernel (HashJoinProbeKernel_clear K)"
| "abstract_clear (Semi_kernel S) = Semi_kernel (HashSemiJoinProbeKernel_clear S)"

definition HashJoinProbe_clear :: "'t HashJoinProbe \<Rightarrow> 't HashJoinProbe" where
  "HashJoinProbe_clear st = st\<lparr>hp_kernel := abstract_clear (hp_kernel st)\<rparr>"

definition HashJoinProbe_send :: "('t, 'a) arrow \<Rightarrow> bool \<Rightarrow> ('h, 't, 'd, 't HashJoinProbe) handler" where
  "HashJoinProbe_send A force S =
     (case abstract_buffer (hp_kernel (op_fields S)) of
        None \<Rightarrow> Inr S
      | Some ts \<Rightarrow>
          let numRows = TupleSet_numRows A ts
          in if numRows \<ge> DefaultBufferSize \<or> force \<and> numRows > 0 then
               rbind (tell (TupleMessage (Some ts) (op_name S)) S) (\<lambda>S1.
                 Inr (S1\<lparr>op_fields := (op_fields S1)\<lparr>sentResult := True,
                   hp_kernel := abstract_clearBuffer (hp_kernel (op_fields S1))\<rparr>\<rparr>))
             else Inr S)"

text \<open>
  Probe tuple sets are not joined: the body of \<open>onTuple\<close> and the end of \<open>onComplete\<close> are commented out.
  An index is still joined.
\<close>

definition HashJoinProbe_onStart :: "('h, 't, 'd, 't HashJoinProbe) handler" where
  "HashJoinProbe_onStart S = Inr S"

definition HashJoinProbe_onTuple :: "'t TupleSet option \<Rightarrow> string \<Rightarrow> ('h, 't, 'd, 't HashJoinProbe) handler" where
  "HashJoinProbe_onTuple ts sndr S = tell (TupleMessage None (op_name S)) S"

definition HashJoinProbe_onHashTable ::
  "('t, 'a) arrow \<Rightarrow> ('t, 'a, 'b) arrow_rows \<Rightarrow> 't TupleSetIndex \<Rightarrow> ('h, 't, 'd, 't HashJoinProbe) handler" where
  "HashJoinProbe_onHashTable A X ti S =
     rbind (kernel_joinBuild A X ti (hp_kernel (op_fields S))) (\<lambda>(e, k).
       let S1 = S\<lparr>op_fields := (op_fields S)\<lparr>hp_kernel := k\<rparr>\<rparr>;
           S2 = (case e of None \<Rightarrow> S1 | Some msg \<Rightarrow> notifyError (msg @ '', '' @ op_name S1) S1)
       in HashJoinProbe_send A False S2)"

definition HashJoinProbe_onComplete :: "('h, 't, 'd, 't HashJoinProbe) handler" where
  "HashJoinProbe_onComplete = when_all_complete (notifyComplete HashJoinProbe_clear)"

text \<open>\<open>index_of\<close> reads the index of a \<open>TupleSetIndexMessage\<close>.\<close>

definition HashJoinProbePOp ::
  "('t, 'a) arrow \<Rightarrow> ('t, 'a, 'b) arrow_rows \<Rightarrow> ('d \<Rightarrow> 't TupleSetIndex) \<Rightarrow> ('h, 't, 'd, 't HashJoinProbe) operator_methods" where
  "HashJoinProbePOp A X index_of =
     \<lparr>onReceive = (\<lambda>message S. case message of
         DataMessage TupleSetIndexMessage d _ \<Rightarrow> HashJoinProbe_onHashTable A X (index_of d) S
       | _ \<Rightarrow> dispatch HashJoinProbe_onStart HashJoinProbe_onTuple HashJoinProbe_onComplete message S)\<rparr>"

lemma HashJoinProbe_send_frames: "HashJoinProbe_send A force S = Inr T \<Longrightarrow> frames S T"
  unfolding HashJoinProbe_send_def Let_def
  by (auto simp: result_simps split: option.splits if_splits intro!: frames_update_fields intro: frames_tell)

lemma HashJoinProbe_onHashTable_frames: "HashJoinProbe_onHashTable A X ti S = Inr T \<Longrightarrow> frames S T"
  unfolding HashJoinProbe_onHashTable_def Let_def
proof (elim rbindE, clarify)
  fix e k
  assume "HashJoinProbe_send A False (case e of None \<Rightarrow> S\<lparr>op_fields := (op_fields S)\<lparr>hp_kernel := k\<rparr>\<rparr>
      | Some msg \<Rightarrow> notifyError (msg @ '', '' @ op_name (S\<lparr>op_fields := (op_fields S)\<lparr>hp_kernel := k\<rparr>\<rparr>))
          (S\<lparr>op_fields := (op_fields S)\<lparr>hp_kernel := k\<rparr>\<rparr>)) = Inr T"
  from HashJoinProbe_send_frames [OF this] show "frames S T"
    by (cases e) (auto intro: frames_trans [OF frames_op_fields] frames_trans [OF frames_trans [OF frames_op_fields frames_notifyError]])
qed

lemma HashJoinProbe_plain:
  "completing_operator \<lparr>onReceive = dispatch HashJoinProbe_onStart HashJoinProbe_onTuple HashJoinProbe_onComplete\<rparr> HashJoinProbe_clear"
  unfolding HashJoinProbe_onComplete_def
  by (rule dispatch_completing)
    (auto simp: HashJoinProbe_onStart_def HashJoinProbe_onTuple_def intro: frames_tell frames_refl)

interpretation hash_join_probe: completing_operator "HashJoinProbePOp A X index_of" HashJoinProbe_clear
  for A :: "('t, 'a) arrow" and X and index_of :: "'d \<Rightarrow> 't TupleSetIndex"
proof
  fix m :: "('c, 't, 'd) Message" and S S' :: "('c, 't, 'd, 't HashJoinProbe) POp"
  assume r: "onReceive (HashJoinProbePOp A X index_of) m S = Inr S'" and m: "\<forall>s. m \<noteq> CompleteMessage s"
  show "frames S S'"
  proof (cases "\<exists>d s. m = DataMessage TupleSetIndexMessage d s")
    case True
    then obtain d s where "m = DataMessage TupleSetIndexMessage d s" by blast
    with r show ?thesis by (simp add: HashJoinProbePOp_def HashJoinProbe_onHashTable_frames)
  next
    case False
    then have "dispatch HashJoinProbe_onStart HashJoinProbe_onTuple HashJoinProbe_onComplete m S = Inr S'"
      using r by (simp add: HashJoinProbePOp_def split: Message.splits DataMessageClass.splits)
    with completing_operator.other_frames [OF HashJoinProbe_plain, of m S S'] m show ?thesis by simp
  qed
next
  fix s and S S' :: "('c, 't, 'd, 't HashJoinProbe) POp"
  assume "onReceive (HashJoinProbePOp A X index_of) (CompleteMessage s) S = Inr S'"
  then have "dispatch HashJoinProbe_onStart HashJoinProbe_onTuple HashJoinProbe_onComplete (CompleteMessage s) S = Inr S'"
    by (simp add: HashJoinProbePOp_def)
  with completing_operator.early_frames [OF HashJoinProbe_plain, of s S S']
    completing_operator.last_completes [OF HashJoinProbe_plain, of s S S']
  show "op_complete S \<or> \<not> local_allComplete Producer (operatorMap S) \<Longrightarrow> frames S S'"
    "\<not> op_complete S \<Longrightarrow> local_allComplete Producer (operatorMap S) \<Longrightarrow>
     \<exists>T. frames S T \<and> notifyComplete HashJoinProbe_clear T = Inr S'" by auto
qed

section \<open>What a joiner finds\<close>

text \<open>
  The rows saved for the probe rows \<open>P\<close>, where \<open>mt\<close> is the comparison of the keys and the rows of
  the index are \<open>B\<close>.
\<close>

definition rows_found ::
  "('t, 'a, 'b) arrow_rows \<Rightarrow> ('r \<Rightarrow> 'p \<Rightarrow> bool) \<Rightarrow> 'r list \<Rightarrow> 'p \<Rightarrow> nat list" where
  "rows_found X mt B p = range_order X (filter (\<lambda>i. mt (B ! i) p) [0..<length B])"

definition semi_matches ::
  "('t, 'a, 'b) arrow_rows \<Rightarrow> ('r \<Rightarrow> 'p \<Rightarrow> bool) \<Rightarrow> nat \<Rightarrow> 'r list \<Rightarrow> 'p list \<Rightarrow> nat set" where
  "semi_matches X mt off B P = fold (\<lambda>p. save_row off (rows_found X mt B p)) P {}"

lemma semi_matches_simps [simp]:
  "semi_matches X mt off B [] = {}"
  "semi_matches X mt off B (P @ [p]) = save_row off (rows_found X mt B p) (semi_matches X mt off B P)"
  by (simp_all add: semi_matches_def)

lemma set_rows_found: "rows_ok A X \<Longrightarrow> set (rows_found X mt B p) = matched_left mt B [p]"
  using mset_eq_setD [OF rows_range_order [of A X "filter (\<lambda>i. mt (B ! i) p) [0..<length B]"]]
  by (auto simp: rows_found_def matched_left_def)

lemma fold_insert: "fold (\<lambda>r. insert (r + off)) rs m = m \<union> (\<lambda>r. r + off) ` set rs"
  by (induction rs arbitrary: m) auto

text \<open>The joiner computes this.\<close>

lemma semi_joiner_ok:
  assumes base: "join_setup A X bs ps kb kp pred" and ti: "index_holds A X bs kb B ti" and p: "table_schema X p = ps"
  shows "\<exists>J. semi_join_batches A X p (RecordBatchHashSemiJoiner_make ti (rightColumnNames pred) off) = expect J \<and>
    index_holds A X bs kb B (sj_index J) \<and> sj_matches J = semi_matches X (match X kb kp) off B (table_rows A X p)"
proof -
  let ?mt = "match X kb kp"
  have ok: "rows_ok A X" and names: "rightColumnNames pred = map (\<lambda>c. fst (ps ! c)) kp"
    using base by (simp_all add: join_setup_def)
  define inv where "inv ds J \<longleftrightarrow> sj_names J = rightColumnNames pred \<and> rowIndexOffset J = off \<and>
    index_holds A X bs kb B (sj_index J) \<and> sj_matches J = semi_matches X ?mt off B ds" for ds and J :: "'a RecordBatchHashSemiJoiner"
  have "\<exists>J. for_batches X p (RecordBatchHashSemiJoiner_join A X) (RecordBatchHashSemiJoiner_make ti (rightColumnNames pred) off)
      = expect J \<and> inv (table_rows A X p) J"
  proof (rule for_batches_ok [OF ok])
    show "inv [] (RecordBatchHashSemiJoiner_make ti (rightColumnNames pred) off)"
      using ti by (simp add: inv_def RecordBatchHashSemiJoiner_make_def)
  next
    fix b ds and J :: "'a RecordBatchHashSemiJoiner"
    assume b: "arrays_typed A (map snd (table_schema X p)) (rb_num_rows X b) (rb_columns X b)"
      "rb_names X b = field_names A p" and J: "inv ds J"
    have bt: "arrays_typed A (map snd ps) (rb_num_rows X b) (rb_columns X b)" using b(1) by (simp add: p)
    have finder: "TupleSetIndexFinder_make X (sj_names J) b = expect kp"
      using finder_columns [of A X ps kp b] base b(2) J rows_names [OF ok, of p]
      by (simp add: inv_def names join_setup_def p)
    from J obtain t where t: "index_ok A X (sj_index J)" "ti_columnIndexes (sj_index J) = kb" "ti_tupleSet (sj_index J) = Some t"
      "table_schema X t = bs" "table_rows A X t = B" by (auto simp: inv_def index_holds_def)
    from TupleSetIndex_combine_ok [OF ok t(1,3)] obtain ti' r where
      comb: "TupleSetIndex_combine A (sj_index J) = Inr (None, ti')" "index_ok A X ti'" "ti_tupleSet ti' = Some r"
        "ti_columnIndexes ti' = kb" "table_schema X r = bs" "table_rows A X r = B"
      unfolding t(2,4,5) by (elim exE conjE) (rule that)
    let ?Q = "batch_rows A X b"
    let ?f = "\<lambda>pr m. ebind (TupleSetIndexFinder_find A X ti' kp b pr) (\<lambda>buildRows. expect (save_row off buildRows m))"
    have len: "num_rows A r = length B" using comb(6) by (metis table_rows_length)
    have "\<exists>m. efold ?f [0..<rb_num_rows X b] (sj_matches J) = expect m \<and>
        m = semi_matches X ?mt off B (ds @ take (rb_num_rows X b) ?Q)"
    proof (rule efold_upt [where P = "\<lambda>i m. m = semi_matches X ?mt off B (ds @ take i ?Q)"])
      show "sj_matches J = semi_matches X ?mt off B (ds @ take 0 ?Q)" using J by (simp add: inv_def)
    next
      fix pr m assume pr: "pr < rb_num_rows X b" and m: "m = semi_matches X ?mt off B (ds @ take pr ?Q)"
      have "ds @ take (Suc pr) ?Q = (ds @ take pr ?Q) @ [?Q ! pr]" using pr by (simp add: take_Suc_conv_app_nth)
      then have "semi_matches X ?mt off B (ds @ take (Suc pr) ?Q) = save_row off (rows_found X ?mt B (?Q ! pr)) m"
        using semi_matches_simps(2) [of X ?mt off B "ds @ take pr ?Q"] by (simp only: m)
      with find_batch_row [OF base comb(2,3,4,5) bt pr]
      show "\<exists>t. ?f pr m = expect t \<and> t = semi_matches X ?mt off B (ds @ take (Suc pr) ?Q)"
        by (simp add: comb(6) len rows_found_def)
    qed
    with J finder comb show "\<exists>J'. RecordBatchHashSemiJoiner_join A X b J = expect J' \<and> inv (ds @ ?Q) J'"
      by (auto simp: RecordBatchHashSemiJoiner_join_def inv_def index_holds_def)
  qed
  then show ?thesis by (auto simp: semi_join_batches_def inv_def)
qed

section \<open>Without an offset the matches are exact\<close>

text \<open>
  The rows of a key are saved all at once, so a saved row tells that its key has been found: two keys with
  an equal one in common are equal to the same keys.
\<close>

lemma save_row_exact:
  assumes m: "m = matched_left mt B P" and set: "set rows = matched_left mt B [p]"
    and eq: "\<And>b b' q q'. mt b q \<Longrightarrow> mt b q' \<Longrightarrow> mt b' q \<Longrightarrow> mt b' q'"
  shows "save_row 0 rows m = matched_left mt B (P @ [p])"
proof (cases rows)
  case Nil
  with set have "matched_left mt B [p] = {}" by simp
  with Nil m show ?thesis by (simp add: save_row_def)
next
  case (Cons r rs)
  then have r: "r < length B" "mt (B ! r) p" using set by (auto simp: matched_left_def)
  show ?thesis
  proof (cases "r \<in> m")
    case True
    then obtain q where q: "q \<in> set P" "mt (B ! r) q" by (auto simp: m matched_left_def)
    have "matched_left mt B [p] \<subseteq> m"
      using eq [OF r(2) q(2)] q(1) by (auto simp: m matched_left_def)
    with True Cons m show ?thesis by (auto simp: save_row_def)
  next
    case False
    with Cons have "save_row 0 rows m = m \<union> set rows" using fold_insert [of 0 rows m] by (simp add: save_row_def)
    with set m show ?thesis by simp
  qed
qed

lemma semi_matches_exact:
  assumes ok: "rows_ok A X" and eq: "\<And>b b' q q'. mt b q \<Longrightarrow> mt b q' \<Longrightarrow> mt b' q \<Longrightarrow> mt b' q'"
  shows "semi_matches X mt 0 B P = matched_left mt B P"
proof (induction P rule: rev_induct)
  case (snoc p P)
  from save_row_exact [OF snoc set_rows_found [OF ok] eq] show ?case by (simp del: matched_left_simps(3))
qed simp

lemma semi_matches_range:
  assumes ok: "rows_ok A X"
  shows "semi_matches X mt off B P \<subseteq> {off..<off + length B}"
proof (induction P rule: rev_induct)
  case (snoc p P)
  have "set (rows_found X mt B p) \<subseteq> {0..<length B}" by (auto simp: set_rows_found [OF ok] matched_left_def)
  with snoc show ?case by (auto simp: save_row_def fold_insert split: list.splits)
qed simp

text \<open>Equal keys, for an equality of floating-point numbers that is symmetric and transitive, as IEEE 754's is.\<close>

definition float_laws :: "('t, 'a, 'b) arrow_rows \<Rightarrow> bool" where
  "float_laws X \<longleftrightarrow> symp (float_equal X) \<and> transp (float_equal X) \<and> symp (double_equal X) \<and> transp (double_equal X)"

lemma TupleKeyElement_equals_iff:
  "TupleKeyElement_equals X x y = Inr True \<longleftrightarrow>
     (\<exists>v w. x = FloatScalar v \<and> y = FloatScalar w \<and> float_equal X v w) \<or>
     (\<exists>v w. x = DoubleScalar v \<and> y = DoubleScalar w \<and> double_equal X v w) \<or>
     x = y \<and> scalar_type x \<notin> {FloatType, DoubleType}"
  by (cases x; cases y) (auto simp: TupleKeyElement_equals_def scalar_type_def)

lemma element_equals_shared:
  assumes "float_laws X" and "TupleKeyElement_equals X q b = Inr True" and "TupleKeyElement_equals X q' b = Inr True"
    and "TupleKeyElement_equals X q b' = Inr True"
  shows "TupleKeyElement_equals X q' b' = Inr True"
proof -
  have float: "float_equal X v' w'" if "float_equal X v w" "float_equal X v' w" "float_equal X v w'" for v v' w w'
    using assms(1) that unfolding float_laws_def by (meson sympD transpD)
  have double: "double_equal X v' w'" if "double_equal X v w" "double_equal X v' w" "double_equal X v w'" for v v' w w'
    using assms(1) that unfolding float_laws_def by (meson sympD transpD)
  from assms(2) consider
      v w where "q = FloatScalar v" "b = FloatScalar w" "float_equal X v w"
    | v w where "q = DoubleScalar v" "b = DoubleScalar w" "double_equal X v w"
    | "q = b" "scalar_type q \<notin> {FloatType, DoubleType}"
    unfolding TupleKeyElement_equals_iff by blast
  then show ?thesis
  proof cases
    case 1
    with assms(3,4) show ?thesis by (auto simp: TupleKeyElement_equals_iff scalar_type_def intro: float)
  next
    case 2
    with assms(3,4) show ?thesis by (auto simp: TupleKeyElement_equals_iff scalar_type_def intro: double)
  next
    case 3
    then have "q' = b" "b' = q" using assms(3,4) by (auto simp: TupleKeyElement_equals_iff scalar_type_def)
    with 3 show ?thesis by (simp add: TupleKeyElement_equals_iff)
  qed
qed

lemma keys_match_Cons:
  "keys_match X (x # xs) (y # ys) \<longleftrightarrow> TupleKeyElement_equals X x y = Inr True \<and> keys_match X xs ys"
  by (cases "TupleKeyElement_equals X x y") (auto simp: keys_match_def)

lemma keys_match_shared:
  assumes "float_laws X" and "length q = length q'" and "length b = length b'" and "length q = length b"
    and "keys_match X q b" and "keys_match X q' b" and "keys_match X q b'"
  shows "keys_match X q' b'"
  using assms(2-)
proof (induction q q' arbitrary: b b' rule: list_induct2')
  case (4 x xs y ys)
  obtain c cs where c: "b = c # cs" using "4.prems"(3) by (cases b) auto
  obtain d ds where d: "b' = d # ds" using "4.prems"(2) c by (cases b') auto
  note b = c d
  have "TupleKeyElement_equals X y d = Inr True"
    by (rule element_equals_shared [OF assms(1), of x c]) (use "4.prems"(4-6) in \<open>simp_all add: b keys_match_Cons\<close>)
  moreover have "keys_match X ys ds"
    by (rule "4.IH" [of cs]) (use "4.prems" in \<open>simp_all add: b keys_match_Cons\<close>)
  ultimately show ?case by (simp add: b keys_match_Cons)
qed (auto simp: keys_match_def)

lemma match_shared:
  assumes "float_laws X" and "length kb = length kp"
    and "match X kb kp b q" and "match X kb kp b q'" and "match X kb kp b' q"
  shows "match X kb kp b' q'"
  using keys_match_shared [OF assms(1), of "row_key kp q" "row_key kp q'" "row_key kb b" "row_key kb b'"] assms(2-)
  by (simp add: match_def row_key_def)

end
