(* ===== verification/Semi_Join_Proofs.thy ===== *)
theory Semi_Join_Proofs
  imports Semi_Join
begin

text \<open>
  The semi join over a run of pieces, and \<open>finalize\<close>.  While every piece is joined at offset 0, the
  kernel gives the build rows that have a match, once each and in order.  That is so unless a piece of the
  build side comes after rows of both sides; then rows are lost.
\<close>

section \<open>Runs\<close>

definition semi_step ::
  "('t, 'a) arrow \<Rightarrow> ('t, 'a, 'b) arrow_rows \<Rightarrow> 't piece \<Rightarrow> 't SemiKernel \<Rightarrow> 't semi_result" where
  "semi_step A X piece S =
     (case piece of Build_piece ti \<Rightarrow> semi_joinBuildTupleSetIndex A X ti S | Probe_piece ts \<Rightarrow> semi_joinProbeTupleSet A X ts S)"

fun semi_run ::
  "('t, 'a) arrow \<Rightarrow> ('t, 'a, 'b) arrow_rows \<Rightarrow> 't piece list \<Rightarrow> 't SemiKernel \<Rightarrow> 't semi_result" where
  "semi_run A X [] S = Inr (None, S)"
| "semi_run A X (p # ps) S = rbind (semi_step A X p S) (\<lambda>(e, S'). case e of
     Some msg \<Rightarrow> Inr (Some msg, S') | None \<Rightarrow> semi_run A X ps S')"

definition semi_rows :: "('t, 'a) arrow \<Rightarrow> ('t, 'a, 'b) arrow_rows \<Rightarrow> 't SemiKernel \<Rightarrow> arrow_scalar option list list" where
  "semi_rows A X S = kernel_rows A X (sk_kernel S)"

section \<open>The invariant\<close>

text \<open>The schema and the needed columns are fixed when both sides have arrived.\<close>

definition semi_schema :: "string list \<Rightarrow> schema \<Rightarrow> schema \<Rightarrow> bool \<Rightarrow> 't ProbeKernel \<Rightarrow> bool" where
  "semi_schema names bs ps fixed K \<longleftrightarrow> (if fixed then
       neededColumnIndice K = all_needed names bs ps \<and> pk_outputSchema K = Some (out_schema names bs ps)
     else neededColumnIndice K = [] \<and> pk_outputSchema K = None)"

definition semi_inv ::
  "('t, 'a) arrow \<Rightarrow> ('t, 'a, 'b) arrow_rows \<Rightarrow> schema \<Rightarrow> schema \<Rightarrow> nat list \<Rightarrow> HashJoinPredicate \<Rightarrow> string list \<Rightarrow>
   (bool \<times> arrow_scalar) list list \<Rightarrow> (bool \<times> arrow_scalar) list list \<Rightarrow> nat set \<Rightarrow> 't SemiKernel \<Rightarrow> bool" where
  "semi_inv A X bs ps kb pred names B P M S \<longleftrightarrow>
     (let K = sk_kernel S in
      pk_pred K = pred \<and> neededColumnNames K = names \<and> pk_buffer K = None \<and> kernel_sides A X bs ps kb B P K \<and>
      semi_schema names bs ps (pk_build K \<noteq> None \<and> probeTupleSet K \<noteq> None) K \<and> sk_matches S = M)"

lemma semi_inv_make: "semi_inv A X bs ps kb pred names [] [] {} (HashSemiJoinProbeKernel_make pred names)"
  by (simp add: semi_inv_def HashSemiJoinProbeKernel_make_def HashJoinProbeKernel_make_def kernel_sides_def semi_schema_def)

lemma bufferOutputSchema_ok:
  assumes "index_holds A X bs kb B ti" and "table_holds A X ps P ts" and "neededColumnNames K = names"
    and "semi_schema names bs ps fixed K"
  shows "bufferOutputSchema X ti ts K =
    Inr (K\<lparr>neededColumnIndice := all_needed names bs ps, pk_outputSchema := Some (out_schema names bs ps)\<rparr>)"
proof -
  from assms(1,2) obtain t p where "ti_tupleSet ti = Some t" "table_schema X t = bs" "ts = Some p" "table_schema X p = ps"
    by (auto simp: index_holds_def table_holds_def)
  with assms(3,4) show ?thesis
    by (cases fixed) (simp_all add: bufferOutputSchema_def semi_schema_def deref_table_def all_needed_def out_schema_def)
qed

lemma semi_join_and_save_ok:
  assumes base: "join_setup A X bs ps kb kp pred" and K: "pk_pred K = pred"
    and ti: "index_holds A X bs kb B ti" and ts: "table_holds A X ps P ts"
  shows "\<exists>ti'. semi_join_and_save A X ti off ts keepIndex m K =
      Inr (None, \<lparr>sk_kernel = keepIndex ti' K, sk_matches = m \<union> semi_matches X (match X kb kp) off B P\<rparr>) \<and>
    index_holds A X bs kb B ti'"
proof -
  from ts obtain p where p: "ts = Some p" "table_schema X p = ps" "table_rows A X p = P" by (auto simp: table_holds_def)
  from semi_joiner_ok [OF base ti p(2), of off] obtain J where
    "semi_join_batches A X p (RecordBatchHashSemiJoiner_make ti (rightColumnNames pred) off) = expect J"
    "index_holds A X bs kb B (sj_index J)" "sj_matches J = semi_matches X (match X kb kp) off B P"
    unfolding p(3) by (elim exE conjE) (rule that)
  then show ?thesis by (auto simp: semi_join_and_save_def p(1) deref_table_def K expect_def)
qed

lemma semi_matches_empty: "rows_ok A X \<Longrightarrow> semi_matches X mt off [] P = {}"
  using semi_matches_range [of A X mt off "[]" P] by simp

lemma semi_build_step:
  assumes base: "join_setup A X bs ps kb kp pred"
    and inv: "semi_inv A X bs ps kb pred names B P M S" and ti: "index_holds A X bs kb C ti"
  shows "\<exists>S'. semi_joinBuildTupleSetIndex A X ti S = Inr (None, S') \<and>
    semi_inv A X bs ps kb pred names (B @ C) P (M \<union> semi_matches X (match X kb kp) (length B) C P) S' \<and>
    pk_build (sk_kernel S') \<noteq> None \<and> (probeTupleSet (sk_kernel S') = None) = (probeTupleSet (sk_kernel S) = None)"
proof -
  let ?K = "sk_kernel S"
  have ok: "rows_ok A X" using base by (simp add: join_setup_def)
  from inv have K: "pk_pred ?K = pred" "neededColumnNames ?K = names" "pk_buffer ?K = None"
      "kernel_sides A X bs ps kb B P ?K" "sk_matches S = M"
      and schema: "semi_schema names bs ps (pk_build ?K \<noteq> None \<and> probeTupleSet ?K \<noteq> None) ?K"
    by (simp_all add: semi_inv_def Let_def)
  from putBuild_ok [OF base K(1,4) ti] obtain ti1 where
    put: "putBuildTupleSetIndex A X ti ?K = Inr (None, ?K\<lparr>pk_build := Some ti1\<rparr>)" "index_holds A X bs kb (B @ C) ti1"
      "pk_build ?K = None \<longrightarrow> ti1 = ti" by (elim exE conjE) (rule that)
  let ?K1 = "?K\<lparr>pk_build := Some ti1\<rparr>"
  let ?keep = "if pk_build ?K = None then (\<lambda>ti' K'. K'\<lparr>pk_build := Some ti'\<rparr>) else (\<lambda>ti' K'. K')"
  have off: "(case pk_build ?K of None \<Rightarrow> 0 | Some own \<Rightarrow> index_size A own) = length B"
    using K(4) by (auto simp: kernel_sides_def index_size_holds split: option.splits)
  show ?thesis
  proof (cases "probeTupleSet ?K")
    case None
    then have "P = []" using K(4) by (simp add: kernel_sides_def)
    with None K put(2) schema show ?thesis
      by (simp add: semi_joinBuildTupleSetIndex_def put(1) sbind_def semi_inv_def kernel_sides_def semi_schema_def)
  next
    case (Some probe)
    have probe: "table_holds A X ps P probe" using K(4) Some by (simp add: kernel_sides_def)
    let ?K2 = "?K1\<lparr>neededColumnIndice := all_needed names bs ps, pk_outputSchema := Some (out_schema names bs ps)\<rparr>"
    have buf: "bufferOutputSchema X ti probe ?K1 = Inr ?K2"
      by (rule bufferOutputSchema_ok [OF ti probe, where fixed = "pk_build ?K \<noteq> None \<and> probeTupleSet ?K \<noteq> None"])
        (use K(2) schema in \<open>simp_all add: semi_schema_def\<close>)
    have upto: "semi_joinBuildTupleSetIndex A X ti S =
        (if TupleSet_numRows A probe = 0 \<or> index_size A ti = 0 then Inr (None, \<lparr>sk_kernel = ?K2, sk_matches = M\<rparr>)
         else semi_join_and_save A X ti (length B) probe ?keep M ?K2)"
      by (simp add: semi_joinBuildTupleSetIndex_def Let_def put(1) sbind_def Some buf off K(5))
    have inv2: "semi_inv A X bs ps kb pred names (B @ C) P M' \<lparr>sk_kernel = ?K2\<lparr>pk_build := Some ti2\<rparr>, sk_matches = M'\<rparr>"
      if "index_holds A X bs kb (B @ C) ti2" for ti2 M'
      using K that probe Some by (simp add: semi_inv_def kernel_sides_def semi_schema_def)
    show ?thesis
    proof (cases "P = [] \<or> C = []")
      case True
      then have "semi_matches X (match X kb kp) (length B) C P = {}" by (auto simp: semi_matches_empty [OF ok])
      moreover have "semi_inv A X bs ps kb pred names (B @ C) P M \<lparr>sk_kernel = ?K2, sk_matches = M\<rparr>"
        using K put(2) probe Some by (simp add: semi_inv_def kernel_sides_def semi_schema_def)
      ultimately show ?thesis using True Some
        by (simp add: upto table_size_holds [OF probe] index_size_holds [OF ti])
    next
      case False
      have "pk_pred ?K2 = pred" using K(1) by simp
      from semi_join_and_save_ok [OF base this ti probe, of "length B" ?keep M] obtain ti' where
        saved: "semi_join_and_save A X ti (length B) probe ?keep M ?K2 =
          Inr (None, \<lparr>sk_kernel = ?keep ti' ?K2, sk_matches = M \<union> semi_matches X (match X kb kp) (length B) C P\<rparr>)"
          "index_holds A X bs kb C ti'" by (elim exE conjE) (rule that)
      obtain ti2 where keep: "?keep ti' ?K2 = ?K2\<lparr>pk_build := Some ti2\<rparr>" "index_holds A X bs kb (B @ C) ti2"
      proof (cases "pk_build ?K")
        case None
        then have "B = []" using K(4) by (simp add: kernel_sides_def)
        with None saved(2) show thesis by (intro that [of ti']) simp_all
      next
        case (Some own)
        with put(2) show thesis by (intro that [of ti1]) simp_all
      qed
      from False saved(1) inv2 [OF keep(2)] Some show ?thesis
        unfolding keep(1) by (simp add: upto table_size_holds [OF probe] index_size_holds [OF ti])
    qed
  qed
qed

lemma semi_probe_step:
  assumes base: "join_setup A X bs ps kb kp pred"
    and inv: "semi_inv A X bs ps kb pred names B P M S" and ts: "table_holds A X ps Q ts"
  shows "\<exists>S'. semi_joinProbeTupleSet A X ts S = Inr (None, S') \<and>
    semi_inv A X bs ps kb pred names B (P @ Q) (M \<union> semi_matches X (match X kb kp) 0 B Q) S' \<and>
    probeTupleSet (sk_kernel S') \<noteq> None \<and> (pk_build (sk_kernel S') = None) = (pk_build (sk_kernel S) = None)"
proof -
  let ?K = "sk_kernel S"
  have ok: "rows_ok A X" using base by (simp add: join_setup_def)
  from inv have K: "pk_pred ?K = pred" "neededColumnNames ?K = names" "pk_buffer ?K = None"
      "kernel_sides A X bs ps kb B P ?K" "sk_matches S = M"
      and schema: "semi_schema names bs ps (pk_build ?K \<noteq> None \<and> probeTupleSet ?K \<noteq> None) ?K"
    by (simp_all add: semi_inv_def Let_def)
  from putProbe_ok [OF base K(1,4) ts] obtain ts1 where
    put: "putProbeTupleSet A X ts ?K = Inr (None, ?K\<lparr>probeTupleSet := Some ts1\<rparr>)" "table_holds A X ps (P @ Q) ts1"
    by (elim exE conjE) (rule that)
  let ?K1 = "?K\<lparr>probeTupleSet := Some ts1\<rparr>"
  show ?thesis
  proof (cases "pk_build ?K")
    case None
    then have "B = []" using K(4) by (simp add: kernel_sides_def)
    with None K put(2) schema show ?thesis
      by (simp add: semi_matches_empty [OF ok] semi_joinProbeTupleSet_def put(1) sbind_def semi_inv_def kernel_sides_def semi_schema_def)
  next
    case (Some ti)
    have ti: "index_holds A X bs kb B ti" using K(4) Some by (simp add: kernel_sides_def)
    let ?K2 = "?K1\<lparr>neededColumnIndice := all_needed names bs ps, pk_outputSchema := Some (out_schema names bs ps)\<rparr>"
    have buf: "bufferOutputSchema X ti ts ?K1 = Inr ?K2"
      by (rule bufferOutputSchema_ok [OF ti ts, where fixed = "pk_build ?K \<noteq> None \<and> probeTupleSet ?K \<noteq> None"])
        (use K(2) schema in \<open>simp_all add: semi_schema_def\<close>)
    have upto: "semi_joinProbeTupleSet A X ts S =
        (if index_size A ti = 0 \<or> TupleSet_numRows A ts = 0 then Inr (None, \<lparr>sk_kernel = ?K2, sk_matches = M\<rparr>)
         else semi_join_and_save A X ti 0 ts (\<lambda>ti' K'. K'\<lparr>pk_build := Some ti'\<rparr>) M ?K2)"
      by (simp add: semi_joinProbeTupleSet_def Let_def put(1) sbind_def Some buf K(5))
    have inv2: "semi_inv A X bs ps kb pred names B (P @ Q) M' \<lparr>sk_kernel = ?K2\<lparr>pk_build := Some ti2\<rparr>, sk_matches = M'\<rparr>"
      if "index_holds A X bs kb B ti2" for ti2 M'
      using K that put(2) by (simp add: semi_inv_def kernel_sides_def semi_schema_def)
    show ?thesis
    proof (cases "B = [] \<or> Q = []")
      case True
      then have "semi_matches X (match X kb kp) 0 B Q = {}" by (auto simp: semi_matches_empty [OF ok])
      moreover have "semi_inv A X bs ps kb pred names B (P @ Q) M \<lparr>sk_kernel = ?K2, sk_matches = M\<rparr>"
        using K put(2) ti Some by (simp add: semi_inv_def kernel_sides_def semi_schema_def)
      ultimately show ?thesis using True Some
        by (simp add: upto table_size_holds [OF ts] index_size_holds [OF ti])
    next
      case False
      have "pk_pred ?K2 = pred" using K(1) by simp
      from semi_join_and_save_ok [OF base this ti ts, of 0 "\<lambda>ti' K'. K'\<lparr>pk_build := Some ti'\<rparr>" M] obtain ti' where
        saved: "semi_join_and_save A X ti 0 ts (\<lambda>ti' K'. K'\<lparr>pk_build := Some ti'\<rparr>) M ?K2 =
          Inr (None, \<lparr>sk_kernel = ?K2\<lparr>pk_build := Some ti'\<rparr>, sk_matches = M \<union> semi_matches X (match X kb kp) 0 B Q\<rparr>)"
          "index_holds A X bs kb B ti'" by (elim exE conjE) (rule that)
      from False saved(1) inv2 [OF saved(2)] Some show ?thesis
        by (simp add: upto table_size_holds [OF ts] index_size_holds [OF ti])
    qed
  qed
qed

section \<open>Whole runs\<close>

text \<open>The rows saved by a run that starts with the build rows \<open>B\<close> and the probe rows \<open>P\<close>.\<close>

fun run_matches ::
  "('t, 'a) arrow \<Rightarrow> ('t, 'a, 'b) arrow_rows \<Rightarrow> nat list \<Rightarrow> nat list \<Rightarrow> (bool \<times> arrow_scalar) list list \<Rightarrow>
   (bool \<times> arrow_scalar) list list \<Rightarrow> 't piece list \<Rightarrow> nat set" where
  "run_matches A X kb kp B P [] = {}"
| "run_matches A X kb kp B P (Build_piece ti # pieces) =
     (let C = set_rows A X (ti_tupleSet ti)
      in semi_matches X (match X kb kp) (length B) C P \<union> run_matches A X kb kp (B @ C) P pieces)"
| "run_matches A X kb kp B P (Probe_piece ts # pieces) =
     (let Q = set_rows A X ts
      in semi_matches X (match X kb kp) 0 B Q \<union> run_matches A X kb kp B (P @ Q) pieces)"

lemma semi_run_ok:
  assumes base: "join_setup A X bs ps kb kp pred"
    and "\<forall>p \<in> set pieces. piece_ok A X bs ps kb p" and "semi_inv A X bs ps kb pred names B P M S"
  shows "\<exists>S'. semi_run A X pieces S = Inr (None, S') \<and>
    semi_inv A X bs ps kb pred names (B @ build_rows A X pieces) (P @ probe_rows A X pieces)
      (M \<union> run_matches A X kb kp B P pieces) S' \<and>
    (pk_build (sk_kernel S') = None \<longleftrightarrow> pk_build (sk_kernel S) = None \<and> (\<forall>ti. Build_piece ti \<notin> set pieces)) \<and>
    (probeTupleSet (sk_kernel S') = None \<longleftrightarrow> probeTupleSet (sk_kernel S) = None \<and> (\<forall>ts. Probe_piece ts \<notin> set pieces))"
  using assms(2,3)
proof (induction pieces arbitrary: B P M S)
  case Nil
  then show ?case by (simp add: build_rows_def probe_rows_def)
next
  case (Cons p pieces)
  show ?case
  proof (cases p)
    case (Build_piece ti)
    with Cons.prems have "index_holds A X bs kb (set_rows A X (ti_tupleSet ti)) ti" by (simp add: piece_ok_def)
    from semi_build_step [OF base Cons.prems(2) this] obtain S1 where
      S1: "semi_joinBuildTupleSetIndex A X ti S = Inr (None, S1)"
        "semi_inv A X bs ps kb pred names (B @ set_rows A X (ti_tupleSet ti)) P
           (M \<union> semi_matches X (match X kb kp) (length B) (set_rows A X (ti_tupleSet ti)) P) S1"
        "pk_build (sk_kernel S1) \<noteq> None" "(probeTupleSet (sk_kernel S1) = None) = (probeTupleSet (sk_kernel S) = None)"
      by (elim exE conjE) (rule that)
    from Cons.IH [OF _ S1(2)] Cons.prems(1) S1(1,3,4) show ?thesis
      by (auto simp: semi_step_def Build_piece build_rows_def probe_rows_def Let_def Un_assoc)
  next
    case (Probe_piece ts)
    with Cons.prems have "table_holds A X ps (set_rows A X ts) ts" by (simp add: piece_ok_def)
    from semi_probe_step [OF base Cons.prems(2) this] obtain S1 where
      S1: "semi_joinProbeTupleSet A X ts S = Inr (None, S1)"
        "semi_inv A X bs ps kb pred names B (P @ set_rows A X ts)
           (M \<union> semi_matches X (match X kb kp) 0 B (set_rows A X ts)) S1"
        "probeTupleSet (sk_kernel S1) \<noteq> None" "(pk_build (sk_kernel S1) = None) = (pk_build (sk_kernel S) = None)"
      by (elim exE conjE) (rule that)
    from Cons.IH [OF _ S1(2)] Cons.prems(1) S1(1,3,4) show ?thesis
      by (auto simp: semi_step_def Probe_piece build_rows_def probe_rows_def Let_def Un_assoc)
  qed
qed

section \<open>Finalize\<close>

definition build_row :: "(bool \<times> nat) list \<Rightarrow> (bool \<times> arrow_scalar) list \<Rightarrow> arrow_scalar option list" where
  "build_row needed b = map (\<lambda>(_, c). shown (b ! c)) needed"

lemma rmap_nth: "rmap f xs = Inr ys \<Longrightarrow> i < length xs \<Longrightarrow> f (xs ! i) = Inr (ys ! i)"
  by (induction xs arbitrary: ys i) (auto simp: result_simps nth_Cons' less_Suc_eq_0_disj)

lemma first_chunks_select:
  assumes "first_chunks X as = Inr bs" and "\<forall>c \<in> set cs. c < length as"
  shows "first_chunks X (map ((!) as) cs) = Inr (map ((!) bs) cs)"
  unfolding first_chunks_def
  by (rule rmap_map_Inr) (use rmap_nth [OF assms(1) [unfolded first_chunks_def]] assms(2) in simp)

lemma semi_finalize_ok:
  assumes base: "join_setup A X bs ps kb kp pred" and names: "names_ok names bs ps" "needed_fields False names ps = []"
    and inv: "semi_inv A X bs ps kb pred names B P M S"
    and sides: "pk_build (sk_kernel S) \<noteq> None" "probeTupleSet (sk_kernel S) \<noteq> None" and M: "M \<subseteq> {0..<length B}"
  shows "\<exists>S'. semi_finalize A X S = Inr (None, S') \<and>
    semi_rows A X S' = map (\<lambda>i. build_row (all_needed names bs ps) (B ! i)) (sorted_list_of_set M)"
proof -
  let ?K = "sk_kernel S" and ?s = "out_schema names bs ps" and ?n = "all_needed names bs ps" and ?sel = "sorted_list_of_set M"
  have ok: "rows_ok A X" using base by (simp add: join_setup_def)
  from sides obtain ti where ti: "pk_build ?K = Some ti" by blast
  with inv sides(2) have K: "pk_buffer ?K = None" "index_holds A X bs kb B ti" "sk_matches S = M"
      "neededColumnIndice ?K = ?n" "pk_outputSchema ?K = Some ?s"
    by (simp_all add: semi_inv_def Let_def kernel_sides_def semi_schema_def)
  show ?thesis
  proof (cases "B = []")
    case True
    with M ti K(1) index_size_holds [OF K(2)] show ?thesis
      by (simp add: semi_finalize_def semi_rows_def kernel_rows_def)
  next
    case False
    define cs where "cs = filter (\<lambda>c. fst (bs ! c) \<in> set names) [0..<length bs]"
    have n: "?n = map (Pair True) cs" by (simp add: all_needed_def names(2)) (simp add: needed_fields_def cs_def)
    have s: "?s = map ((!) bs) cs" by (simp add: out_schema_def n output_field_def)
    from K(2) obtain t where t: "index_ok A X ti" "ti_tupleSet ti = Some t" "ti_columnIndexes ti = kb"
      "table_schema X t = bs" "table_rows A X t = B" by (auto simp: index_holds_def)
    from TupleSetIndex_combine_ok [OF ok t(1,2)] obtain ti' r where
      comb: "TupleSetIndex_combine A ti = Inr (None, ti')" "ti_tupleSet ti' = Some r" "table_schema X r = bs" "table_rows A X r = B"
      and chunks: "num_rows A r > 0 \<longrightarrow> (\<forall>a \<in> set (table_columns A r).
           \<exists>c. chunk_0 X a = Some c \<and> array_type A c = array_type A a \<and> cells A X c = cells A X a)"
      unfolding t(4,5) by (elim exE conjE) (rule that)
    have nr: "num_rows A r = length B" using arg_cong [OF comb(4), of length] by simp
    then have pos: "num_rows A r > 0" using False by simp
    from first_chunks_ok [OF ok pos mp [OF chunks pos]] obtain bc where
      bc: "first_chunks X (table_columns A r) = Inr bc" "arrays_typed A (map snd bs) (length B) bc"
        "map (row_of A X bc) [0..<length B] = B"
      unfolding comb(3,4) nr by (elim exE conjE) (rule that)
    have width: "length (table_columns A r) = length bs"
      using arrays_typed_length [OF rows_typed [OF ok, of r]] by (simp add: comb(3))
    have cs: "\<forall>c \<in> set cs. c < length bs" by (simp add: cs_def)
    have lenbc: "length bc = length bs" using arrays_typed_length [OF bc(2)] by simp
    let ?as = "map ((!) bc) cs"
    have arrays: "first_chunks X (map ((!) (table_columns A r)) cs) = Inr ?as"
      by (rule first_chunks_select [OF bc(1)]) (simp add: width cs)
    have "table_columns A r ! c = table_column A r c \<and> c < num_columns A r" if "c \<in> set cs" for c
      using cs width that by (simp add: table_columns_def)
    then have columns: "rmap (\<lambda>(_, j). if j \<ge> num_columns A r then Inl (UndefinedBehaviour ''column index out of range'')
        else Inr (table_column A r j)) (filter fst ?n) = Inr (map ((!) (table_columns A r)) cs)"
      unfolding n by (simp add: filter_map comp_def) (rule rmap_map_Inr, force)
    have typed: "arrays_typed A (map snd ?s) (length B) ?as"
      using bc(2) cs lenbc arrays_typed_nth [OF bc(2)] by (auto simp: arrays_typed_def s)
    have types: "\<forall>f \<in> set ?s. snd f \<in> set appender_types" using names(1) by (auto simp: names_ok_def s cs_def)
    have fin: "finite M" using M by (rule finite_subset) simp
    then have range: "\<forall>i \<in> set ?sel. i < length B" using M by auto
    from evaluate_selection_ok [OF ok typed types range] obtain us where
      us: "evaluateBySelectionVectorStatic X ?s ?as ?sel = expect us" "arrays_typed A (map snd ?s) (length ?sel) us"
        "\<forall>i < length ?sel. row_of A X us i = row_of A X ?as (?sel ! i)" by blast
    have "?s \<noteq> []" using names(1) by (simp add: names_ok_def out_schema_def)
    from table_of_arrays [OF ok us(2) this] have out:
      "shown_rows A X (Table_FromArrays X ?s us) = map (\<lambda>i. map shown (row_of A X us i)) [0..<length ?sel]" by simp
    have row: "map shown (row_of A X ?as i) = build_row ?n (B ! i)" if i: "i < length B" for i
    proof -
      have "B ! i = map (\<lambda>a. cell A X a i) bc" using map_upt_eq_nth [OF bc(3) i] by (simp add: row_of_def)
      then show ?thesis using cs lenbc by (simp add: row_of_def build_row_def n)
    qed
    have "shown_rows A X (Table_FromArrays X ?s us) = map (\<lambda>i. build_row ?n (B ! i)) ?sel"
      unfolding out by (rule nth_equalityI) (use us(3) row range in simp_all)
    moreover have "length ?as = length ?s" by (simp add: s)
    ultimately show ?thesis using False ti K(1) index_size_holds [OF K(2)]
      by (simp add: semi_finalize_def Let_def K(3-5) comb(1,2) deref_table_def columns arrays makeSelectionVector_def
          us(1) [unfolded expect_def] kernel_buffer_def semi_rows_def kernel_rows_def)
  qed
qed

section \<open>The rows with a match\<close>

text \<open>No piece of the build side comes after rows of both sides.\<close>

definition build_in_time :: "('t, 'a) arrow \<Rightarrow> ('t, 'a, 'b) arrow_rows \<Rightarrow> 't piece list \<Rightarrow> bool" where
  "build_in_time A X pieces \<longleftrightarrow> (\<forall>k < length pieces. \<forall>ti. pieces ! k = Build_piece ti \<longrightarrow>
     build_rows A X (take k pieces) = [] \<or> probe_rows A X (take k pieces) = [])"

lemma run_matches_exact:
  assumes ok: "rows_ok A X" and eq: "\<And>b b' q q'. match X kb kp b q \<Longrightarrow> match X kb kp b q' \<Longrightarrow> match X kb kp b' q \<Longrightarrow> match X kb kp b' q'"
    and "\<forall>k < length pieces. \<forall>ti. pieces ! k = Build_piece ti \<longrightarrow>
      B @ build_rows A X (take k pieces) = [] \<or> P @ probe_rows A X (take k pieces) = []"
  shows "matched_left (match X kb kp) B P \<union> run_matches A X kb kp B P pieces =
    matched_left (match X kb kp) (B @ build_rows A X pieces) (P @ probe_rows A X pieces)"
  using assms(3)
proof (induction pieces arbitrary: B P)
  case Nil
  then show ?case by (simp add: build_rows_def probe_rows_def)
next
  case (Cons p pieces)
  let ?m = "match X kb kp"
  have exact: "semi_matches X ?m 0 C Q = matched_left ?m C Q" for C Q by (rule semi_matches_exact [OF ok eq])
  show ?case
  proof (cases p)
    case (Build_piece ti)
    let ?C = "set_rows A X (ti_tupleSet ti)"
    have "B = [] \<or> P = []" using Cons.prems by (auto simp: Build_piece build_rows_def probe_rows_def)
    then have "matched_left ?m B P \<union> semi_matches X ?m (length B) ?C P = matched_left ?m (B @ ?C) P"
      using exact [of ?C P] by auto
    moreover have "matched_left ?m (B @ ?C) P \<union> run_matches A X kb kp (B @ ?C) P pieces =
        matched_left ?m ((B @ ?C) @ build_rows A X pieces) (P @ probe_rows A X pieces)"
    proof (rule Cons.IH, intro allI impI)
      fix k ti' assume "k < length pieces" and "pieces ! k = Build_piece ti'"
      then show "(B @ ?C) @ build_rows A X (take k pieces) = [] \<or> P @ probe_rows A X (take k pieces) = []"
        using Cons.prems [rule_format, of "Suc k" ti'] by (simp add: Build_piece build_rows_def probe_rows_def)
    qed
    ultimately show ?thesis by (simp add: Build_piece build_rows_def probe_rows_def Let_def flip: Un_assoc)
  next
    case (Probe_piece ts)
    let ?Q = "set_rows A X ts"
    have "matched_left ?m B (P @ ?Q) \<union> run_matches A X kb kp B (P @ ?Q) pieces =
        matched_left ?m (B @ build_rows A X pieces) ((P @ ?Q) @ probe_rows A X pieces)"
    proof (rule Cons.IH, intro allI impI)
      fix k ti' assume "k < length pieces" and "pieces ! k = Build_piece ti'"
      then show "B @ build_rows A X (take k pieces) = [] \<or> (P @ ?Q) @ probe_rows A X (take k pieces) = []"
        using Cons.prems [rule_format, of "Suc k" ti'] by (simp add: Probe_piece build_rows_def probe_rows_def)
    qed
    then show ?thesis by (simp add: Probe_piece build_rows_def probe_rows_def Let_def exact flip: Un_assoc)
  qed
qed

lemma matched_rows_in_order:
  "map (\<lambda>i. f (B ! i)) (sorted_list_of_set (matched_left mt B P)) = map f (filter (\<lambda>b. \<exists>p \<in> set P. mt b p) B)"
proof -
  let ?Q = "\<lambda>b. \<exists>p \<in> set P. mt b p"
  have "matched_left mt B P = set (filter (\<lambda>i. ?Q (B ! i)) [0..<length B])" by (auto simp: matched_left_def)
  then have "sorted_list_of_set (matched_left mt B P) = filter (\<lambda>i. ?Q (B ! i)) [0..<length B]"
    by (simp only: sorted_list_of_set.idem_if_sorted_distinct distinct_filter distinct_upt sorted_wrt_filter sorted_wrt_upt sorted_upt)
  moreover have "map f (filter ?Q B) = map f (filter ?Q (map ((!) B) [0..<length B]))" by (simp add: map_nth)
  ultimately show ?thesis by (simp add: filter_map comp_def)
qed

text \<open>C39. The semi join gives the build rows that some probe row matches, each once and in their order,
  when no piece of the build side comes after rows of both sides.\<close>

theorem semi_join_keeps_matching_rows:
  assumes base: "join_setup A X bs ps kb kp pred" and eq: "float_laws X"
    and names: "names_ok names bs ps" "needed_fields False names ps = []"
    and pieces: "\<forall>p \<in> set pieces. piece_ok A X bs ps kb p" "build_in_time A X pieces"
    and both: "Build_piece ti0 \<in> set pieces" "Probe_piece ts0 \<in> set pieces"
  shows "\<exists>S S'. semi_run A X pieces (HashSemiJoinProbeKernel_make pred names) = Inr (None, S) \<and>
    semi_finalize A X S = Inr (None, S') \<and>
    semi_rows A X S' = map (build_row (all_needed names bs ps))
      (filter (\<lambda>b. \<exists>p \<in> set (probe_rows A X pieces). match X kb kp b p) (build_rows A X pieces))"
proof -
  let ?B = "build_rows A X pieces" and ?P = "probe_rows A X pieces" and ?m = "match X kb kp"
  have ok: "rows_ok A X" using base by (simp add: join_setup_def)
  have "map (\<lambda>c. snd (bs ! c)) kb = map (\<lambda>c. snd (ps ! c)) kp" using base by (simp add: join_setup_def)
  from arg_cong [OF this, of length] have len: "length kb = length kp" by simp
  from semi_run_ok [OF base pieces(1) semi_inv_make, of names] both obtain S where
    S: "semi_run A X pieces (HashSemiJoinProbeKernel_make pred names) = Inr (None, S)"
      "semi_inv A X bs ps kb pred names ?B ?P (run_matches A X kb kp [] [] pieces) S"
      "pk_build (sk_kernel S) \<noteq> None" "probeTupleSet (sk_kernel S) \<noteq> None" by auto
  have "matched_left ?m [] [] \<union> run_matches A X kb kp [] [] pieces = matched_left ?m ([] @ ?B) ([] @ ?P)"
  proof (rule run_matches_exact [OF ok])
    show "match X kb kp b' q'" if "match X kb kp b q" "match X kb kp b q'" "match X kb kp b' q" for b b' q q'
      using match_shared [OF eq len that] .
  qed (use pieces(2) in \<open>simp add: build_in_time_def\<close>)
  then have "run_matches A X kb kp [] [] pieces = matched_left ?m ?B ?P" by simp
  moreover have "matched_left ?m ?B ?P \<subseteq> {0..<length ?B}" by (auto simp: matched_left_def)
  ultimately have "run_matches A X kb kp [] [] pieces \<subseteq> {0..<length ?B}" "run_matches A X kb kp [] [] pieces = matched_left ?m ?B ?P"
    by simp_all
  with semi_finalize_ok [OF base names S(2-4)] matched_rows_in_order [of "build_row (all_needed names bs ps)" ?B ?m ?P] S(1)
  show ?thesis by simp
qed

text \<open>
  The keys 1 and 2 have a match, 3 has not.  The names must be those of build columns only.
\<close>

definition semi_pieces :: "row_table piece list" where
  "semi_pieces =
     [Build_piece (sample_index [[int_cell 1, int_cell 10], [int_cell 3, int_cell 30]]),
      Build_piece (sample_index [[int_cell 2, int_cell 20], [int_cell 1, int_cell 11]]),
      Probe_piece (Some (sample_probe [[int_cell 2], [int_cell 1]])),
      Probe_piece (Some (sample_probe [[int_cell 1]]))]"

lemmas sample_piece_simps = piece_ok_def index_holds_def table_holds_def set_rows_def index_ok_def sample_index_def
  sample_build_def sample_probe_def row_simps row_table_rows int_cell_def typed_def scalar_type_def row_key_def key_types_def

lemma semi_pieces_ok:
  "\<forall>p \<in> set semi_pieces. piece_ok row_arrow row_access [(''k'', Int32Type), (''v'', Int32Type)] [(''j'', Int32Type)] [0] p"
  by (simp add: semi_pieces_def sample_piece_simps)

lemma sample_float_laws: "float_laws row_access"
  by (simp add: float_laws_def row_simps sympI transpI)

lemma sample_semi_names:
  "names_ok [''v''] [(''k'', Int32Type), (''v'', Int32Type)] [(''j'', Int32Type)]"
  "needed_fields False [''v''] [(''j'', Int32Type)] = []"
  "all_needed [''v''] [(''k'', Int32Type), (''v'', Int32Type)] [(''j'', Int32Type)] = [(True, 1)]"
  by (simp_all add: names_ok_def all_needed_def needed_fields_def appender_types_def)

lemmas sample_match = match_def keys_match_def row_key_def TupleKeyElement_equals_def int_cell_def scalar_type_def

theorem semi_join_keeps_matching_rows_witness:
  "\<exists>S S'. semi_run row_arrow row_access semi_pieces (HashSemiJoinProbeKernel_make sample_pred [''v'']) = Inr (None, S) \<and>
    semi_finalize row_arrow row_access S = Inr (None, S') \<and>
    semi_rows row_arrow row_access S' = [[Some (Int32Scalar 10)], [Some (Int32Scalar 20)], [Some (Int32Scalar 11)]]"
proof -
  have rows: "build_rows row_arrow row_access semi_pieces =
      [[int_cell 1, int_cell 10], [int_cell 3, int_cell 30], [int_cell 2, int_cell 20], [int_cell 1, int_cell 11]]"
    "probe_rows row_arrow row_access semi_pieces = [[int_cell 2], [int_cell 1], [int_cell 1]]"
    by (simp_all add: semi_pieces_def build_rows_def probe_rows_def sample_piece_simps)
  have time: "build_in_time row_arrow row_access semi_pieces"
    unfolding build_in_time_def
  proof (intro allI impI)
    fix k ti assume k: "k < length semi_pieces" and p: "semi_pieces ! k = Build_piece ti"
    from k have "k = 0 \<or> k = 1 \<or> k = 2 \<or> k = 3" unfolding semi_pieces_def by simp linarith
    with p show "build_rows row_arrow row_access (take k semi_pieces) = [] \<or> probe_rows row_arrow row_access (take k semi_pieces) = []"
      by (auto simp: semi_pieces_def build_rows_def probe_rows_def)
  qed
  have both: "Build_piece (sample_index [[int_cell 1, int_cell 10], [int_cell 3, int_cell 30]]) \<in> set semi_pieces"
    "Probe_piece (Some (sample_probe [[int_cell 1]])) \<in> set semi_pieces"
    by (simp_all add: semi_pieces_def)
  from semi_join_keeps_matching_rows [OF sample_setup sample_float_laws sample_semi_names(1,2) semi_pieces_ok time both]
  show ?thesis
    unfolding rows sample_semi_names(3)
    by (simp add: sample_match build_row_def)
qed

section \<open>A later piece of the build side\<close>

lemma rows_found_only:
  assumes ok: "rows_ok A X" and "i < length C" and "\<And>j. j < length C \<Longrightarrow> mt (C ! j) p \<longleftrightarrow> j = i"
  shows "rows_found X mt C p = [i]"
proof -
  have "filter (\<lambda>j. mt (C ! j) p) [0..<length C] = filter (\<lambda>j. j = i) [0..<length C]"
    by (rule filter_cong) (simp_all add: assms(3))
  also have "\<dots> = [i]" using assms(2) by (intro sorted_distinct_set_unique) (auto simp: sorted_wrt_filter)
  finally have "filter (\<lambda>j. mt (C ! j) p) [0..<length C] = [i]" .
  with rows_range_order [OF ok, of "[i]"] show ?thesis by (simp add: rows_found_def)
qed

lemma rows_found_none:
  assumes ok: "rows_ok A X" and "\<forall>b \<in> set B. \<not> mt b p"
  shows "rows_found X mt B p = []"
proof -
  have "filter (\<lambda>j. mt (B ! j) p) [0..<length B] = []" using assms(2) by (auto simp: filter_empty_conv)
  with rows_range_order [OF ok, of "[]"] show ?thesis by (simp add: rows_found_def)
qed

text \<open>
  C40.  A piece of the build side that comes after rows of both sides can lose rows: let the first piece of
  the build side have \<open>d > 0\<close> rows, none of which matches, and let row \<open>i\<close> of the second be the only match of
  one probe row, and row \<open>i + d\<close> the only match of the probe row after it.  The joiner saves row \<open>i\<close> under the
  number \<open>i + d\<close>, and when it looks for row \<open>i + d\<close> it finds that number among the rows saved: the result has
  row \<open>i\<close> only, although both rows have a match.
\<close>

theorem semi_join_loses_rows:
  assumes base: "join_setup A X bs ps kb kp pred" and names: "names_ok names bs ps" "needed_fields False names ps = []"
    and pieces: "\<forall>p \<in> set [Probe_piece ts, Build_piece ti0, Build_piece ti1]. piece_ok A X bs ps kb p"
    and rows: "set_rows A X ts = [p0, p1]" "set_rows A X (ti_tupleSet ti0) = B0" "set_rows A X (ti_tupleSet ti1) = C"
    and none: "\<forall>b \<in> set B0. \<not> match X kb kp b p0 \<and> \<not> match X kb kp b p1" and d: "0 < length B0"
    and i: "i + length B0 < length C"
    and only: "\<forall>j < length C. (match X kb kp (C ! j) p0 \<longleftrightarrow> j = i) \<and> (match X kb kp (C ! j) p1 \<longleftrightarrow> j = i + length B0)"
  shows "\<exists>S S'. semi_run A X [Probe_piece ts, Build_piece ti0, Build_piece ti1] (HashSemiJoinProbeKernel_make pred names)
      = Inr (None, S) \<and> semi_finalize A X S = Inr (None, S') \<and>
    semi_rows A X S' = [build_row (all_needed names bs ps) (C ! i)] \<and>
    filter (\<lambda>b. \<exists>p \<in> {p0, p1}. match X kb kp b p) (B0 @ C) = [C ! i, C ! (i + length B0)]"
proof -
  let ?d = "length B0" and ?m = "match X kb kp" and ?ps = "[Probe_piece ts, Build_piece ti0, Build_piece ti1]"
  have ok: "rows_ok A X" using base by (simp add: join_setup_def)
  have sides: "build_rows A X ?ps = B0 @ C" "probe_rows A X ?ps = [p0, p1]"
    by (simp_all add: build_rows_def probe_rows_def rows)
  have found: "rows_found X ?m B0 p0 = []" "rows_found X ?m B0 p1 = []"
      "rows_found X ?m C p0 = [i]" "rows_found X ?m C p1 = [i + ?d]"
    using none only i by (auto intro!: rows_found_none [OF ok] rows_found_only [OF ok])
  have M: "run_matches A X kb kp [] [] ?ps = {i + ?d}"
    by (simp add: rows Let_def semi_matches_empty [OF ok]) (simp add: semi_matches_def found save_row_def)
  from semi_run_ok [OF base pieces semi_inv_make, of names] obtain S where
    S: "semi_run A X ?ps (HashSemiJoinProbeKernel_make pred names) = Inr (None, S)"
      "semi_inv A X bs ps kb pred names (B0 @ C) [p0, p1] {i + ?d} S"
      "pk_build (sk_kernel S) \<noteq> None" "probeTupleSet (sk_kernel S) \<noteq> None"
    unfolding sides M by auto
  have "{i + ?d} \<subseteq> {0..<length (B0 @ C)}" using i by simp
  from semi_finalize_ok [OF base names S(2-4) this] obtain S' where
    "semi_finalize A X S = Inr (None, S')" "semi_rows A X S' = [build_row (all_needed names bs ps) (C ! i)]"
    by (auto simp: nth_append)
  moreover have "filter (\<lambda>b. \<exists>p \<in> {p0, p1}. ?m b p) (B0 @ C) = [C ! i, C ! (i + ?d)]"
  proof -
    have "filter (\<lambda>b. \<exists>p \<in> {p0, p1}. ?m b p) (map ((!) C) [0..<length C]) =
        map ((!) C) (filter (\<lambda>j. j = i \<or> j = i + ?d) [0..<length C])"
      unfolding filter_map comp_def using only by (intro arg_cong [where f = "map _"] filter_cong) auto
    also have "filter (\<lambda>j. j = i \<or> j = i + ?d) [0..<length C] = [i, i + ?d]"
      using i d by (intro sorted_distinct_set_unique) (auto simp: sorted_wrt_filter)
    finally show ?thesis using none by (simp add: map_nth filter_empty_conv)
  qed
  ultimately show ?thesis using S(1) by blast
qed

text \<open>
  The keys 1 and 2 of the probe side match the rows 0 and 1 of the second piece of the build side; the
  first piece has one row.
\<close>

definition late_pieces :: "row_table piece list" where
  "late_pieces =
     [Probe_piece (Some (sample_probe [[int_cell 1], [int_cell 2]])),
      Build_piece (sample_index [[int_cell 9, int_cell 90]]),
      Build_piece (sample_index [[int_cell 1, int_cell 10], [int_cell 2, int_cell 20]])]"

lemma late_pieces_ok:
  "\<forall>p \<in> set late_pieces. piece_ok row_arrow row_access [(''k'', Int32Type), (''v'', Int32Type)] [(''j'', Int32Type)] [0] p"
  by (simp add: late_pieces_def sample_piece_simps)

theorem semi_join_loses_rows_witness:
  "\<exists>S S'. semi_run row_arrow row_access late_pieces (HashSemiJoinProbeKernel_make sample_pred [''v'']) = Inr (None, S) \<and>
    semi_finalize row_arrow row_access S = Inr (None, S') \<and> semi_rows row_arrow row_access S' = [[Some (Int32Scalar 10)]]"
proof -
  let ?C = "[[int_cell 1, int_cell 10], [int_cell 2, int_cell 20]]" and ?B = "[[int_cell 9, int_cell 90]]"
  have rows: "set_rows row_arrow row_access (Some (sample_probe [[int_cell 1], [int_cell 2]])) = [[int_cell 1], [int_cell 2]]"
    "set_rows row_arrow row_access (ti_tupleSet (sample_index ?B)) = ?B"
    "set_rows row_arrow row_access (ti_tupleSet (sample_index ?C)) = ?C"
    by (simp_all add: sample_piece_simps)
  have keys: "match row_access [0] [0] [int_cell k, v] [int_cell q] \<longleftrightarrow> k = q" for k q v by (simp add: sample_match)
  have none: "\<forall>b \<in> set ?B. \<not> match row_access [0] [0] b [int_cell 1] \<and> \<not> match row_access [0] [0] b [int_cell 2]"
    by (simp add: keys)
  have only: "\<forall>j < length ?C. (match row_access [0] [0] (?C ! j) [int_cell 1] \<longleftrightarrow> j = 0) \<and>
      (match row_access [0] [0] (?C ! j) [int_cell 2] \<longleftrightarrow> j = 0 + length ?B)"
    by (auto simp: keys less_Suc_eq)
  have "0 < length ?B" "0 + length ?B < length ?C" by simp_all
  from semi_join_loses_rows [OF sample_setup sample_semi_names(1,2) late_pieces_ok [unfolded late_pieces_def] rows none this only]
  obtain S S' where "semi_run row_arrow row_access late_pieces (HashSemiJoinProbeKernel_make sample_pred [''v'']) = Inr (None, S)"
    "semi_finalize row_arrow row_access S = Inr (None, S')"
    "semi_rows row_arrow row_access S' = [build_row [(True, 1)] (?C ! 0)]"
    unfolding sample_semi_names(3) late_pieces_def [symmetric] by (elim exE conjE) (rule that)
  moreover have "build_row [(True, 1)] (?C ! 0) = [Some (Int32Scalar 10)]" by (simp add: build_row_def int_cell_def)
  ultimately show ?thesis by auto
qed

end
