(* ===== verification/LRU_Policy.thy ===== *)
theory LRU_Policy
  imports Segment_Cache
begin

text \<open>
  The least-recently-used policy (\<^verbatim>\<open>fpdb-cache/src/policy/LRUCachingPolicy.cpp\<close>).
  \<^verbatim>\<open>usageQueue_\<close> is a \<^verbatim>\<open>std::list\<close> whose iterators
  \<^verbatim>\<open>keyIndexMap_\<close> stores.  A list node has an identity, here a number: the queue is a list of
  numbered keys, and an iterator is the number of its node, which stays valid while the node is in
  the queue.  The policy never changes metadata, so the heap is read only.
\<close>

record LRUCachingPolicy = CachingPolicy +
  usageQueue :: "(nat \<times> SegmentKey) list"
  keyIndexMap :: "(SegmentKey \<times> nat) list"
  nextNode :: nat

type_synonym 'd lru_state = "'d heap \<times> LRUCachingPolicy"

definition LRU_make :: "size_t \<Rightarrow> LRUCachingPolicy" where
  "LRU_make ms =
     \<lparr>policyType = LRU, maxSize = ms, freeSize = ms, segmentSizeMap = [],
      usageQueue = [], keyIndexMap = [], nextNode = 0\<rparr>"

definition LRU_eraseLRU :: "LRUCachingPolicy \<Rightarrow> LRUCachingPolicy result" where
  "LRU_eraseLRU p =
     (if usageQueue p = [] then Inl (UndefinedBehaviour ''back() of an empty usageQueue_'')
      else Inr (p\<lparr>keyIndexMap := um_erase kid (kid (snd (last (usageQueue p)))) (keyIndexMap p),
                  usageQueue := butlast (usageQueue p)\<rparr>))"

text \<open>\<open>erase\<close>: the node the index points at leaves the queue, and the index entry goes.\<close>

definition LRU_erase :: "SegmentKey \<Rightarrow> LRUCachingPolicy \<Rightarrow> LRUCachingPolicy result" where
  "LRU_erase k p =
     (case um_find kid (kid k) (keyIndexMap p) of
        None \<Rightarrow> Inr (p\<lparr>keyIndexMap := um_erase kid (kid k) (keyIndexMap p)\<rparr>)
      | Some n \<Rightarrow>
          if n \<notin> fst ` set (usageQueue p) then
            Inl (UndefinedBehaviour ''erase of a dangling iterator'')
          else Inr (p\<lparr>usageQueue := filter (\<lambda>x. fst x \<noteq> n) (usageQueue p),
                      keyIndexMap := um_erase kid (kid k) (keyIndexMap p)\<rparr>))"

text \<open>
  The \<^verbatim>\<open>while (freeSize_ < segmentSize)\<close> loop of \<open>onStore\<close>; each round removes the last
  node of the queue, and asking for the last node of an empty queue is undefined.
\<close>

function LRU_evict ::
  "'d heap \<Rightarrow> size_t \<Rightarrow> LRUCachingPolicy \<Rightarrow> SegmentKey list \<Rightarrow>
   (LRUCachingPolicy \<times> SegmentKey list) result" where
  "LRU_evict h sz p removable =
     (if freeSize p < sz then
        rbind (LRU_eraseLRU p) (\<lambda>p1.
          rbind (meta h (snd (last (usageQueue p)))) (\<lambda>m.
            LRU_evict h sz (p1\<lparr>freeSize := freeSize p1 + md_size m\<rparr>)
              (removable @ [snd (last (usageQueue p))])))
      else Inr (p, removable))"
  by pat_completeness auto
termination
  by (relation "measure (\<lambda>(h, sz, p, r). length (usageQueue p))")
    (auto simp: LRU_eraseLRU_def split: if_splits)

declare LRU_evict.simps [simp del]

definition LRU_onStore ::
  "SegmentKey \<Rightarrow> 'd lru_state \<Rightarrow> (SegmentKey list option \<times> 'd lru_state) result" where
  "LRU_onStore key = (\<lambda>(h, p).
     rbind (meta h key) (\<lambda>m.
       let segmentSize = md_size m
       in if maxSize p < segmentSize then Inr (None, (h, p))
          else rbind (LRU_evict h segmentSize p []) (\<lambda>(p1, removable).
            Inr (Some removable,
                 (h, p1\<lparr>usageQueue := (nextNode p1, key) # usageQueue p1,
                        keyIndexMap := um_emplace kid key (nextNode p1) (keyIndexMap p1),
                        nextNode := nextNode p1 + 1,
                        freeSize := freeSize p1 - segmentSize\<rparr>)))))"

definition LRU_onLoad :: "SegmentKey \<Rightarrow> 'd lru_state \<Rightarrow> 'd lru_state result" where
  "LRU_onLoad key = (\<lambda>(h, p).
     case um_find kid (kid key) (keyIndexMap p) of
       None \<Rightarrow> Inr (h, p)
     | Some n \<Rightarrow>
         (case List.find (\<lambda>x. fst x = n) (usageQueue p) of
            None \<Rightarrow> Inl (UndefinedBehaviour ''splice of a dangling iterator'')
          | Some x \<Rightarrow>
              Inr (h, p\<lparr>usageQueue := x # filter (\<lambda>y. fst y \<noteq> n) (usageQueue p)\<rparr>)))"

definition LRU_onRemove :: "SegmentKey \<Rightarrow> 'd lru_state \<Rightarrow> 'd lru_state result" where
  "LRU_onRemove key = (\<lambda>(h, p). rbind (LRU_erase key p) (\<lambda>p1. Inr (h, p1)))"

definition LRU_onToCache ::
  "SegmentKey list \<Rightarrow> 'd lru_state \<Rightarrow> (SegmentKey list \<times> 'd lru_state) result" where
  "LRU_onToCache segmentKeys s = Inr (segmentKeys, s)"

definition LRU_getKeysetInCachePolicy :: "'d lru_state \<Rightarrow> SegmentKey list" where
  "LRU_getKeysetInCachePolicy = (\<lambda>(h, p). map snd (usageQueue p))"

definition LRU_onNewQuery :: "'d lru_state \<Rightarrow> 'd lru_state" where
  "LRU_onNewQuery s = s"

definition LRU_vtable :: "'d lru_state policy_vtable" where
  "LRU_vtable =
     \<lparr>vt_onLoad = LRU_onLoad, vt_onStore = LRU_onStore, vt_onRemove = LRU_onRemove,
      vt_onToCache = LRU_onToCache, vt_onNewQuery = LRU_onNewQuery,
      vt_getKeysetInCachePolicy = LRU_getKeysetInCachePolicy\<rparr>"

lemma LRU_vtable_sel [simp]:
  "vt_onLoad LRU_vtable = LRU_onLoad" "vt_onStore LRU_vtable = LRU_onStore"
  "vt_onNewQuery LRU_vtable = LRU_onNewQuery" "vt_onRemove LRU_vtable = LRU_onRemove"
  "vt_getKeysetInCachePolicy LRU_vtable = LRU_getKeysetInCachePolicy" "vt_onToCache LRU_vtable = LRU_onToCache"
  by (simp_all add: LRU_vtable_def)

section \<open>The invariant\<close>

text \<open>
  Structure: node numbers are distinct and below the counter, keys are distinct, and the index maps
  exactly the queued keys to their nodes.  Accounting: the free size and the sizes of the queued
  keys add up to the capacity.
\<close>

definition LRU_index_ok :: "LRUCachingPolicy \<Rightarrow> bool" where
  "LRU_index_ok p \<longleftrightarrow>
     (\<forall>k n. um_find kid k (keyIndexMap p) = Some n \<longleftrightarrow>
            (\<exists>x. (n, x) \<in> set (usageQueue p) \<and> kid x = k))"

definition LRU_struct :: "LRUCachingPolicy \<Rightarrow> bool" where
  "LRU_struct p \<longleftrightarrow>
     us_wf fst (usageQueue p) \<and> us_wf (kid \<circ> snd) (usageQueue p) \<and>
     (\<forall>x \<in> set (usageQueue p). fst x < nextNode p \<and> key_metadata (snd x) \<noteq> None) \<and>
     LRU_index_ok p"

definition LRU_used :: "'d heap \<Rightarrow> LRUCachingPolicy \<Rightarrow> nat" where
  "LRU_used h p = sum_sizes (ksize h) (map snd (usageQueue p))"

fun LRU_inv :: "'d lru_state \<Rightarrow> bool" where
  "LRU_inv (h, p) \<longleftrightarrow>
     LRU_struct p \<and> unat (freeSize p) + LRU_used h p = unat (maxSize p)"

lemma LRU_inv_make: "LRU_inv (h, LRU_make ms)"
  by (simp add: LRU_make_def LRU_struct_def LRU_index_ok_def LRU_used_def um_find_def us_find_def)

lemma LRU_struct_eraseLRU:
  assumes "LRU_struct p" and "LRU_eraseLRU p = Inr p'"
  shows "LRU_struct p'"
proof -
  from assms(2) obtain q n x where q: "usageQueue p = q @ [(n, x)]"
    and p': "p' = p\<lparr>keyIndexMap := um_erase kid (kid x) (keyIndexMap p), usageQueue := q\<rparr>"
    by (cases "usageQueue p" rule: rev_cases) (auto simp: LRU_eraseLRU_def)
  from assms(1) q have x: "kid x \<notin> us_keys (kid \<circ> snd) q"
    and idx: "LRU_index_ok p"
    by (auto simp: LRU_struct_def us_wf_def us_keys_def)
  have "LRU_index_ok p'"
    unfolding LRU_index_ok_def
  proof (intro allI)
    fix k n'
    have "(\<exists>y. (n', y) \<in> set q \<and> kid y = k) \<longleftrightarrow>
          k \<noteq> kid x \<and> (\<exists>y. (n', y) \<in> set (usageQueue p) \<and> kid y = k)"
      using x q by (force simp: us_keys_def)
    then show "um_find kid k (keyIndexMap p') = Some n' \<longleftrightarrow>
          (\<exists>y. (n', y) \<in> set (usageQueue p') \<and> kid y = k)"
      using idx by (simp add: p' LRU_index_ok_def container_simps)
  qed
  with assms(1) q show ?thesis
    by (auto simp: p' LRU_struct_def us_wf_def)
qed

lemma LRU_evict_spec:
  assumes "LRU_evict h sz p rs = Inr (p', rs')" and "LRU_struct p"
    and "unat (freeSize p) + LRU_used h p \<le> unat (maxSize p)"
  shows "LRU_struct p'"
    and "unat (freeSize p') + LRU_used h p' = unat (freeSize p) + LRU_used h p"
    and "maxSize p' = maxSize p" and "nextNode p' = nextNode p"
    and "\<not> freeSize p' < sz"
    and "\<exists>ev. rs' = rs @ ev \<and> map snd (usageQueue p) = map snd (usageQueue p') @ rev ev \<and>
          unat (freeSize p') = unat (freeSize p) + sum_sizes (ksize h) ev \<and>
          (ev \<noteq> [] \<longrightarrow> unat (freeSize p) + sum_sizes (ksize h) (butlast ev) < unat sz)"
proof -
  have "LRU_struct p' \<and> unat (freeSize p') + LRU_used h p' = unat (freeSize p) + LRU_used h p \<and>
      maxSize p' = maxSize p \<and> nextNode p' = nextNode p \<and> \<not> freeSize p' < sz \<and>
      (\<exists>ev. rs' = rs @ ev \<and> map snd (usageQueue p) = map snd (usageQueue p') @ rev ev \<and>
          unat (freeSize p') = unat (freeSize p) + sum_sizes (ksize h) ev \<and>
          (ev \<noteq> [] \<longrightarrow> unat (freeSize p) + sum_sizes (ksize h) (butlast ev) < unat sz))"
    using assms
  proof (induction h sz p rs rule: LRU_evict.induct)
    case (1 h sz p rs)
    show ?case
    proof (cases "freeSize p < sz")
      case False
      with "1.prems" show ?thesis by (simp add: LRU_evict.simps [of h sz p])
    next
      case True
      define x where "x = snd (last (usageQueue p))"
      from "1.prems"(1) True obtain p1 m where e: "LRU_eraseLRU p = Inr p1"
        and m: "meta h x = Inr m"
        and rec: "LRU_evict h sz (p1\<lparr>freeSize := freeSize p1 + md_size m\<rparr>) (rs @ [x]) = Inr (p', rs')"
        by (auto simp: LRU_evict.simps [of h sz p] result_simps x_def)
      let ?p2 = "p1\<lparr>freeSize := freeSize p1 + md_size m\<rparr>"
      from e obtain q n where q: "usageQueue p = q @ [(n, x)]"
        and p1: "p1 = p\<lparr>keyIndexMap := um_erase kid (kid x) (keyIndexMap p), usageQueue := q\<rparr>"
        by (cases "usageQueue p" rule: rev_cases) (auto simp: LRU_eraseLRU_def x_def)
      have sz: "md_size m = ksize h x" using m by (rule meta_ksize)
      have used: "LRU_used h p = LRU_used h p1 + unat (ksize h x)"
        using q by (simp add: LRU_used_def p1)
      have free: "unat (freeSize ?p2) = unat (freeSize p) + unat (ksize h x)"
        using "1.prems"(3) used sz by (simp add: p1 unat_add_le [of _ _ "maxSize p"])
      have st: "LRU_struct ?p2"
        using LRU_struct_eraseLRU [OF "1.prems"(2) e] by (simp add: LRU_struct_def LRU_index_ok_def)
      have le: "unat (freeSize ?p2) + LRU_used h ?p2 \<le> unat (maxSize ?p2)"
        using "1.prems"(3) used free by (simp add: LRU_used_def p1)
      from "1.IH" [OF True e m [unfolded x_def] rec [unfolded x_def] st le] obtain ev where IH: "LRU_struct p'"
        "unat (freeSize p') + LRU_used h p' = unat (freeSize ?p2) + LRU_used h ?p2"
        "maxSize p' = maxSize p" "nextNode p' = nextNode p" "\<not> freeSize p' < sz"
        "rs' = (rs @ [x]) @ ev" "map snd q = map snd (usageQueue p') @ rev ev"
        "unat (freeSize p') = unat (freeSize ?p2) + sum_sizes (ksize h) ev"
        "ev \<noteq> [] \<longrightarrow> unat (freeSize ?p2) + sum_sizes (ksize h) (butlast ev) < unat sz"
        by (auto simp: p1 x_def)
      have "map snd (usageQueue p) = map snd (usageQueue p') @ rev (x # ev)"
        using q IH(7) by simp
      moreover have "unat (freeSize p) + sum_sizes (ksize h) (butlast (x # ev)) < unat sz"
        using True IH(9) free by (auto simp: word_less_nat_alt)
      ultimately show ?thesis
        using IH free used by (auto simp: LRU_used_def p1 intro!: exI [of _ "x # ev"])
    qed
  qed
  then show "LRU_struct p'"
    and "unat (freeSize p') + LRU_used h p' = unat (freeSize p) + LRU_used h p"
    and "maxSize p' = maxSize p" and "nextNode p' = nextNode p" and "\<not> freeSize p' < sz"
    and "\<exists>ev. rs' = rs @ ev \<and> map snd (usageQueue p) = map snd (usageQueue p') @ rev ev \<and>
          unat (freeSize p') = unat (freeSize p) + sum_sizes (ksize h) ev \<and>
          (ev \<noteq> [] \<longrightarrow> unat (freeSize p) + sum_sizes (ksize h) (butlast ev) < unat sz)"
    by blast+
qed

text \<open>With the accounting in place the loop stops before the queue is empty.\<close>

lemma LRU_evict_total:
  assumes "LRU_struct p" and "unat (freeSize p) + LRU_used h p = unat (maxSize p)"
    and "sz \<le> maxSize p"
  shows "\<exists>p' rs'. LRU_evict h sz p rs = Inr (p', rs')"
  using assms
proof (induction h sz p rs rule: LRU_evict.induct)
  case (1 h sz p rs)
  show ?case
  proof (cases "freeSize p < sz")
    case False
    then show ?thesis by (simp add: LRU_evict.simps [of h sz p])
  next
    case True
    define x where "x = snd (last (usageQueue p))"
    have "usageQueue p \<noteq> []"
    proof
      assume "usageQueue p = []"
      with "1.prems"(2) have "freeSize p = maxSize p" by (simp add: LRU_used_def word_unat_eq_iff)
      with True "1.prems"(3) show False by simp
    qed
    then obtain q n where q: "usageQueue p = q @ [(n, x)]"
      by (cases "usageQueue p" rule: rev_cases) (auto simp: x_def)
    define p1 where "p1 = p\<lparr>keyIndexMap := um_erase kid (kid x) (keyIndexMap p), usageQueue := q\<rparr>"
    have e: "LRU_eraseLRU p = Inr p1" using q by (simp add: LRU_eraseLRU_def p1_def)
    have "key_metadata x \<noteq> None" using "1.prems"(1) q by (auto simp: LRU_struct_def)
    then obtain m where m: "meta h x = Inr m" and sz: "md_size m = ksize h x"
      using meta_Some by blast
    let ?p2 = "p1\<lparr>freeSize := freeSize p1 + md_size m\<rparr>"
    have used: "LRU_used h p = LRU_used h p1 + unat (ksize h x)"
      using q by (simp add: LRU_used_def p1_def)
    have "unat (freeSize ?p2) = unat (freeSize p) + unat (ksize h x)"
      using "1.prems"(2) used sz by (simp add: p1_def unat_add_le [of _ _ "maxSize p"])
    then have "unat (freeSize ?p2) + LRU_used h ?p2 = unat (maxSize ?p2)"
      using "1.prems"(2) used by (simp add: LRU_used_def p1_def)
    moreover have "LRU_struct ?p2"
      using LRU_struct_eraseLRU [OF "1.prems"(1) e] by (simp add: LRU_struct_def LRU_index_ok_def)
    ultimately show ?thesis
      using "1.IH" [OF True e m [unfolded x_def]] "1.prems"(3) True e m
      by (simp add: LRU_evict.simps [of h sz p] p1_def x_def)
  qed
qed

section \<open>Every operation keeps the invariant\<close>

lemma find_node:
  assumes "us_wf fst q" and "(n, x) \<in> set q"
  shows "List.find (\<lambda>y. fst y = n) q = Some (n, x)"
  using us_find_wf [OF assms] by (simp add: us_find_def)

lemma mset_move_front:
  assumes "us_wf fst q" and "(n, x) \<in> set q"
  shows "mset ((n, x) # filter (\<lambda>y. fst y \<noteq> n) q) = mset q"
  using assms
proof (induction q)
  case (Cons y q)
  show ?case
  proof (cases "fst y = n")
    case True
    then have "n \<notin> fst ` set q" using Cons.prems(1) by (simp add: us_keys_def)
    then have "\<forall>z \<in> set q. fst z \<noteq> n" by (metis imageI)
    with True have "y = (n, x)" and "filter (\<lambda>z. fst z \<noteq> n) q = q"
      using Cons.prems(2) by auto
    with True show ?thesis by simp
  next
    case False
    with Cons show ?thesis by auto
  qed
qed simp

text \<open>A policy whose queue is a permutation of a good one, with the same index, is good.\<close>

lemma LRU_inv_permute:
  assumes "LRU_inv (h, p)" and "mset q = mset (usageQueue p)"
  shows "LRU_inv (h, p\<lparr>usageQueue := q\<rparr>)"
proof -
  have st: "set q = set (usageQueue p)" using assms(2) by (rule mset_eq_setD)
  have wf: "us_wf f q = us_wf f (usageQueue p)" for f :: "nat \<times> SegmentKey \<Rightarrow> 'k"
    using assms(2) unfolding us_wf_def by (metis mset_eq_imp_distinct_iff mset_map)
  have "sum_sizes (ksize h) (map snd q) = sum_sizes (ksize h) (map snd (usageQueue p))"
    using assms(2) by (intro sum_sizes_mset) simp
  with assms(1) st wf [of fst] wf [of "kid \<circ> snd"] show ?thesis
    by (simp add: LRU_struct_def LRU_index_ok_def LRU_used_def)
qed

lemma LRU_index_None:
  assumes "LRU_index_ok p"
  shows "um_find kid k (keyIndexMap p) = None \<longleftrightarrow> k \<notin> us_keys (kid \<circ> snd) (usageQueue p)"
proof -
  have "um_find kid k (keyIndexMap p) = None \<longleftrightarrow> (\<forall>n. um_find kid k (keyIndexMap p) \<noteq> Some n)"
    by auto
  also have "\<dots> \<longleftrightarrow> (\<forall>n. \<not> (\<exists>x. (n, x) \<in> set (usageQueue p) \<and> kid x = k))"
    using assms by (simp add: LRU_index_ok_def)
  also have "\<dots> \<longleftrightarrow> k \<notin> us_keys (kid \<circ> snd) (usageQueue p)"
    by (force simp: us_keys_def)
  finally show ?thesis .
qed

lemma LRU_onLoad_cases:
  assumes "LRU_inv (h, p)"
  shows "LRU_onLoad k (h, p) = Inr (h, p) \<and> kid k \<notin> us_keys (kid \<circ> snd) (usageQueue p) \<or>
     (\<exists>n x. (n, x) \<in> set (usageQueue p) \<and> kid x = kid k \<and>
        LRU_onLoad k (h, p)
          = Inr (h, p\<lparr>usageQueue := (n, x) # filter (\<lambda>y. fst y \<noteq> n) (usageQueue p)\<rparr>))"
proof (cases "um_find kid (kid k) (keyIndexMap p)")
  case None
  with assms have "kid k \<notin> us_keys (kid \<circ> snd) (usageQueue p)"
    using LRU_index_None by (simp add: LRU_struct_def)
  with None show ?thesis by (simp add: LRU_onLoad_def)
next
  case (Some n)
  with assms obtain x where x: "(n, x) \<in> set (usageQueue p)" "kid x = kid k"
    by (auto simp: LRU_struct_def LRU_index_ok_def)
  moreover have "us_wf fst (usageQueue p)" using assms by (simp add: LRU_struct_def)
  ultimately have "LRU_onLoad k (h, p)
      = Inr (h, p\<lparr>usageQueue := (n, x) # filter (\<lambda>y. fst y \<noteq> n) (usageQueue p)\<rparr>)"
    using Some find_node [of "usageQueue p" n x] by (simp add: LRU_onLoad_def)
  with x show ?thesis by blast
qed

lemma LRU_onLoad_inv:
  assumes "LRU_inv s" and "LRU_onLoad k s = Inr s'"
  shows "LRU_inv s'" and "us_keys kid (LRU_getKeysetInCachePolicy s')
    = us_keys kid (LRU_getKeysetInCachePolicy s)"
proof -
  obtain h p where s: "s = (h, p)" by (cases s)
  have wf: "us_wf fst (usageQueue p)" using assms(1) by (simp add: s LRU_struct_def)
  consider "s' = s" | n x where "(n, x) \<in> set (usageQueue p)"
    "s' = (h, p\<lparr>usageQueue := (n, x) # filter (\<lambda>y. fst y \<noteq> n) (usageQueue p)\<rparr>)"
    using LRU_onLoad_cases [of h p k] assms by (auto simp: s)
  then have "LRU_inv s' \<and> us_keys kid (LRU_getKeysetInCachePolicy s')
    = us_keys kid (LRU_getKeysetInCachePolicy s)"
  proof cases
    case 1
    with assms(1) show ?thesis by simp
  next
    case 2
    let ?q = "(n, x) # filter (\<lambda>y. fst y \<noteq> n) (usageQueue p)"
    from mset_move_front [OF wf 2(1)] have m: "mset ?q = mset (usageQueue p)" .
    from 2(2) have s': "s' = (h, p\<lparr>usageQueue := ?q\<rparr>)" .
    have "us_keys kid (map snd ?q) = us_keys kid (map snd (usageQueue p))"
      unfolding us_keys_def set_map mset_eq_setD [OF m] ..
    with LRU_inv_permute [OF assms(1) [unfolded s] m] show ?thesis
      unfolding s' s by (simp add: LRU_getKeysetInCachePolicy_def)
  qed
  then show "LRU_inv s'" and "us_keys kid (LRU_getKeysetInCachePolicy s')
    = us_keys kid (LRU_getKeysetInCachePolicy s)" by blast+
qed

lemma LRU_struct_push:
  assumes "LRU_struct p" and "kid k \<notin> us_keys (kid \<circ> snd) (usageQueue p)"
    and "key_metadata k \<noteq> None"
  shows "LRU_struct (p\<lparr>usageQueue := (nextNode p, k) # usageQueue p,
           keyIndexMap := um_emplace kid k (nextNode p) (keyIndexMap p),
           nextNode := nextNode p + 1, freeSize := f\<rparr>)"
proof -
  have idx: "LRU_index_ok p" using assms(1) by (simp add: LRU_struct_def)
  have none: "um_find kid (kid k) (keyIndexMap p) = None"
    using LRU_index_None [OF idx] assms(2) by simp
  then have fresh: "kid k \<notin> um_keys kid (keyIndexMap p)"
    by (simp add: um_find_None)
  have "nextNode p \<notin> us_keys fst (usageQueue p)"
    using assms(1) by (auto simp: LRU_struct_def us_keys_def)
  moreover have "LRU_index_ok (p\<lparr>usageQueue := (nextNode p, k) # usageQueue p,
           keyIndexMap := um_emplace kid k (nextNode p) (keyIndexMap p),
           nextNode := nextNode p + 1, freeSize := f\<rparr>)"
    unfolding LRU_index_ok_def
  proof (intro allI)
    fix k' n'
    have "um_find kid k' (um_emplace kid k (nextNode p) (keyIndexMap p)) = Some n' \<longleftrightarrow>
        k' = kid k \<and> n' = nextNode p \<or> um_find kid k' (keyIndexMap p) = Some n'"
      using fresh none by (auto simp: um_find_emplace)
    then show "um_find kid k' (keyIndexMap (p\<lparr>usageQueue := (nextNode p, k) # usageQueue p,
           keyIndexMap := um_emplace kid k (nextNode p) (keyIndexMap p),
           nextNode := nextNode p + 1, freeSize := f\<rparr>)) = Some n' \<longleftrightarrow>
        (\<exists>x. (n', x) \<in> set (usageQueue (p\<lparr>usageQueue := (nextNode p, k) # usageQueue p,
           keyIndexMap := um_emplace kid k (nextNode p) (keyIndexMap p),
           nextNode := nextNode p + 1, freeSize := f\<rparr>)) \<and> kid x = k')"
      using idx by (auto simp: LRU_index_ok_def)
  qed
  ultimately show ?thesis
    using assms by (auto simp: LRU_struct_def less_SucI)
qed

text \<open>
  What a store of a key the policy does not hold does: a segment larger than the cache is refused
  and nothing changes; otherwise the policy evicts a suffix of the queue, the least recently used
  keys, no longer than needed, and puts the key in front.
\<close>

lemma LRU_onStore_spec:
  assumes inv: "LRU_inv (h, p)" and md: "key_metadata k \<noteq> None"
    and new: "kid k \<notin> us_keys kid (LRU_getKeysetInCachePolicy (h, p))"
  shows "if maxSize p < ksize h k then LRU_onStore k (h, p) = Inr (None, (h, p))
    else \<exists>ev kept p'. LRU_onStore k (h, p) = Inr (Some ev, (h, p')) \<and> LRU_inv (h, p') \<and>
      map snd (usageQueue p) = kept @ rev ev \<and> map snd (usageQueue p') = k # kept \<and>
      maxSize p' = maxSize p \<and>
      unat (freeSize p') + unat (ksize h k) = unat (freeSize p) + sum_sizes (ksize h) ev \<and>
      (ev \<noteq> [] \<longrightarrow> unat (freeSize p) + sum_sizes (ksize h) (butlast ev) < unat (ksize h k))"
proof (cases "maxSize p < ksize h k")
  case True
  obtain m where m: "meta h k = Inr m" and sz: "md_size m = ksize h k" using meta_Some [OF md] by blast
  with True show ?thesis by (simp add: LRU_onStore_def)
next
  case False
  obtain m where m: "meta h k = Inr m" and sz: "md_size m = ksize h k" using meta_Some [OF md] by blast
  have st: "LRU_struct p" and acc: "unat (freeSize p) + LRU_used h p = unat (maxSize p)"
    using inv by simp_all
  obtain p1 ev where ev: "LRU_evict h (ksize h k) p [] = Inr (p1, ev)"
    using LRU_evict_total [OF st acc, of "ksize h k" "[]"] False by (auto simp: not_less)
  note E = LRU_evict_spec [OF ev st eq_refl [OF acc]]
  have q: "map snd (usageQueue p) = map snd (usageQueue p1) @ rev ev"
    and fr: "unat (freeSize p1) = unat (freeSize p) + sum_sizes (ksize h) ev"
    and mn: "ev \<noteq> [] \<longrightarrow> unat (freeSize p) + sum_sizes (ksize h) (butlast ev) < unat (ksize h k)"
    using E(6) by auto
  define p' where "p' = p1\<lparr>usageQueue := (nextNode p1, k) # usageQueue p1,
     keyIndexMap := um_emplace kid k (nextNode p1) (keyIndexMap p1),
     nextNode := nextNode p1 + 1, freeSize := freeSize p1 - ksize h k\<rparr>"
  have on: "LRU_onStore k (h, p) = Inr (Some ev, (h, p'))"
    using m sz False ev by (simp add: LRU_onStore_def p'_def)
  have "set (map snd (usageQueue p1)) \<subseteq> set (map snd (usageQueue p))" using q by simp
  with new have "kid k \<notin> us_keys (kid \<circ> snd) (usageQueue p1)"
    by (force simp: LRU_getKeysetInCachePolicy_def us_keys_def)
  then have "LRU_struct p'" unfolding p'_def by (rule LRU_struct_push [OF E(1) _ md])
  moreover have sub: "unat (freeSize p') = unat (freeSize p1) - unat (ksize h k)"
    and le: "unat (ksize h k) \<le> unat (freeSize p1)"
    using E(5) by (simp_all add: p'_def unat_sub_le word_le_nat_alt not_less)
  moreover have "LRU_used h p' = unat (ksize h k) + LRU_used h p1"
    by (simp add: LRU_used_def p'_def)
  ultimately have "LRU_inv (h, p')" using E(2,3) acc by (simp add: p'_def)
  then show ?thesis
    using False on q fr mn sub le E(3)
    by (auto simp: p'_def intro!: exI [of _ ev] exI [of _ p'] exI [of _ "map snd (usageQueue p1)"])
qed

lemma LRU_onStore_accept_inv:
  assumes "LRU_inv s" and new: "kid k \<notin> us_keys kid (LRU_getKeysetInCachePolicy s)"
    and st: "LRU_onStore k s = Inr (r, s')"
  shows "LRU_inv s'" and "us_keys kid (LRU_getKeysetInCachePolicy s') =
     (case r of None \<Rightarrow> us_keys kid (LRU_getKeysetInCachePolicy s)
      | Some ev \<Rightarrow> insert (kid k) (us_keys kid (LRU_getKeysetInCachePolicy s) - us_keys kid ev))"
proof -
  obtain h p where s: "s = (h, p)" by (cases s)
  have md: "key_metadata k \<noteq> None" using st by (cases "key_metadata k") (auto simp: s LRU_onStore_def meta_def)
  have wf: "us_wf kid (map snd (usageQueue p))" using assms(1) by (simp add: s LRU_struct_def us_wf_def)
  note S = LRU_onStore_spec [OF assms(1) [unfolded s] md new [unfolded s]]
  have "LRU_inv s' \<and> us_keys kid (LRU_getKeysetInCachePolicy s') =
     (case r of None \<Rightarrow> us_keys kid (LRU_getKeysetInCachePolicy s)
      | Some ev \<Rightarrow> insert (kid k) (us_keys kid (LRU_getKeysetInCachePolicy s) - us_keys kid ev))"
  proof (cases "maxSize p < ksize h k")
    case True
    with S st assms(1) show ?thesis by (simp add: s)
  next
    case False
    with S obtain ev kept p' where on: "LRU_onStore k (h, p) = Inr (Some ev, (h, p'))"
      and i: "LRU_inv (h, p')" and q: "map snd (usageQueue p) = kept @ rev ev"
      and q': "map snd (usageQueue p') = k # kept"
      by (simp only: if_False) (elim exE conjE, rule that, assumption+)
    from on st have r: "r = Some ev" and s': "s' = (h, p')" by (simp_all add: s)
    have "us_keys kid kept \<inter> us_keys kid ev = {}"
      using wf by (auto simp: q us_wf_def us_keys_def)
    then show ?thesis
      using i by (auto simp: r s' s LRU_getKeysetInCachePolicy_def q q' us_keys_def)
  qed
  then show "LRU_inv s'" and "us_keys kid (LRU_getKeysetInCachePolicy s') =
     (case r of None \<Rightarrow> us_keys kid (LRU_getKeysetInCachePolicy s)
      | Some ev \<Rightarrow> insert (kid k) (us_keys kid (LRU_getKeysetInCachePolicy s) - us_keys kid ev))"
    by simp_all
qed

interpretation lru: caching_policy LRU_vtable LRU_inv
proof (unfold_locales, goal_cases)
  case (1 p k p')
  then show ?case using LRU_onLoad_inv [of p k p'] by simp
next
  case (2 p k p')
  then show ?case using LRU_onStore_accept_inv [of p k None p'] by simp
next
  case (3 p k rs p')
  then show ?case using LRU_onStore_accept_inv [of p k "Some rs" p'] by simp
next
  case (4 p)
  then show ?case by (simp add: LRU_onNewQuery_def)
next
  case (5 p ks ks' p')
  then show ?case by (simp add: LRU_onToCache_def)
qed

section \<open>What removing a key does\<close>

lemma LRU_erase_spec:
  assumes "LRU_struct p" and "(n, x) \<in> set (usageQueue p)" and "kid x = kid k"
  shows "LRU_erase k p = Inr (p\<lparr>usageQueue := filter (\<lambda>y. fst y \<noteq> n) (usageQueue p),
           keyIndexMap := um_erase kid (kid k) (keyIndexMap p)\<rparr>)"
proof -
  have "um_find kid (kid k) (keyIndexMap p) = Some n"
    using assms by (auto simp: LRU_struct_def LRU_index_ok_def)
  moreover have "n \<in> fst ` set (usageQueue p)" using assms(2) by force
  ultimately show ?thesis by (simp add: LRU_erase_def)
qed

lemma LRU_onRemove_spec:
  assumes "LRU_inv (h, p)" and "kid k \<in> us_keys kid (LRU_getKeysetInCachePolicy (h, p))"
  shows "\<exists>n x p'. (n, x) \<in> set (usageQueue p) \<and> kid x = kid k \<and> LRU_onRemove k (h, p) = Inr (h, p') \<and>
    usageQueue p' = filter (\<lambda>y. fst y \<noteq> n) (usageQueue p) \<and> freeSize p' = freeSize p \<and>
    maxSize p' = maxSize p \<and> LRU_used h p' + unat (ksize h x) = LRU_used h p"
proof -
  from assms(2) obtain n x where x: "(n, x) \<in> set (usageQueue p)" "kid x = kid k"
    by (auto simp: LRU_getKeysetInCachePolicy_def us_keys_def)
  have st: "LRU_struct p" using assms(1) by simp
  then have "mset ((n, x) # filter (\<lambda>y. fst y \<noteq> n) (usageQueue p)) = mset (usageQueue p)"
    using x(1) by (intro mset_move_front) (simp_all add: LRU_struct_def)
  then have "mset (map snd ((n, x) # filter (\<lambda>y. fst y \<noteq> n) (usageQueue p)))
      = mset (map snd (usageQueue p))"
    unfolding mset_map by (rule arg_cong)
  from sum_sizes_mset [OF this, of "ksize h"] show ?thesis
    using x LRU_erase_spec [OF st x] by (fastforce simp: LRU_onRemove_def LRU_used_def)
qed

section \<open>Properties\<close>

text \<open>
  C1.  A store of a segment the policy does not hold.  A segment larger than the whole cache is
  refused and nothing changes.  Any other segment is accepted, without undefined behaviour: the
  policy reports as removable a suffix of its usage queue, least recently used first, that is
  minimal (without its last element the segment would not have fitted), the key becomes the most
  recently used one, the order of the others is unchanged, and the accounting of the free size stays
  exact.
\<close>

theorem LRU_store_evicts_least_recently_used:
  assumes "LRU_inv (h, p)" and "key_metadata k \<noteq> None"
    and "kid k \<notin> us_keys kid (LRU_getKeysetInCachePolicy (h, p))"
  shows "if maxSize p < ksize h k then LRU_onStore k (h, p) = Inr (None, (h, p))
    else \<exists>ev kept p'. LRU_onStore k (h, p) = Inr (Some ev, (h, p')) \<and> LRU_inv (h, p') \<and>
      map snd (usageQueue p) = kept @ rev ev \<and> map snd (usageQueue p') = k # kept \<and>
      maxSize p' = maxSize p \<and>
      unat (freeSize p') + unat (ksize h k) = unat (freeSize p) + sum_sizes (ksize h) ev \<and>
      (ev \<noteq> [] \<longrightarrow> unat (freeSize p) + sum_sizes (ksize h) (butlast ev) < unat (ksize h k))"
  using LRU_onStore_spec [OF assms] .

definition lru_two :: LRUCachingPolicy where
  "lru_two = \<lparr>policyType = LRU, maxSize = 30, freeSize = 0, segmentSizeMap = [],
     usageQueue = [(1, sample_key 1 ''y''), (0, sample_key 0 ''x'')],
     keyIndexMap = [(sample_key 0 ''x'', 0), (sample_key 1 ''y'', 1)], nextNode = 2\<rparr>"

lemma lru_two_inv: "LRU_inv (sample_heap, lru_two)"
  by (auto simp: lru_two_def LRU_struct_def LRU_index_ok_def LRU_used_def um_find_def us_find_def)

text \<open>The example: a cache of 30 bytes with \<open>x\<close> (10) and \<open>y\<close> (20) evicts \<open>x\<close> for \<open>z\<close> (10).\<close>

theorem LRU_store_evicts_least_recently_used_witness:
  "\<exists>ev kept p'. LRU_onStore (sample_key 0 ''z'') (sample_heap, lru_two)
      = Inr (Some ev, (sample_heap, p')) \<and>
     [sample_key 1 ''y'', sample_key 0 ''x''] = kept @ rev ev \<and>
     map snd (usageQueue p') = sample_key 0 ''z'' # kept \<and> ev \<noteq> []"
proof -
  have "kid (sample_key 0 ''z'') \<notin> us_keys kid (LRU_getKeysetInCachePolicy (sample_heap, lru_two))"
    by (simp add: LRU_getKeysetInCachePolicy_def lru_two_def)
  from LRU_store_evicts_least_recently_used [OF lru_two_inv _ this]
  obtain ev kept p' where r: "LRU_onStore (sample_key 0 ''z'') (sample_heap, lru_two)
      = Inr (Some ev, (sample_heap, p'))"
    "map snd (usageQueue lru_two) = kept @ rev ev" "map snd (usageQueue p') = sample_key 0 ''z'' # kept"
    "unat (freeSize p') + 10 = unat (freeSize lru_two) + sum_sizes (ksize sample_heap) ev"
    by (auto simp: lru_two_def)
  from r(4) have "ev \<noteq> []" by (auto simp: lru_two_def)
  with r show ?thesis by (auto simp: lru_two_def)
qed

text \<open>
  C4.  A segment cache with the least-recently-used policy, from the empty cache and after any sequence
  of loads, stores of segments it does not hold, \<open>toCache\<close> filters and new queries, passes the
  program's own consistency check, and its segments fit: the free size and the sizes of the keys in the
  policy add up to the configured capacity.  A store of a segment that is held, which nothing in
  \<^verbatim>\<open>SegmentCacheActor::store\<close> rules out, is not one of these operations: it makes the
  check fail later, as \<open>Cache_Actor\<close> proves.  The witness fills a cache and evicts.
\<close>

theorem LRU_cache_run_consistent:
  assumes "cache_reachable LRU_vtable (SegmentCache_make (h, LRU_make ms)) c"
  shows "checkCacheConsistencyWithCachePolicy LRU_vtable c = Inr () \<and> LRU_inv (cachingPolicy c)"
proof -
  have e: "us_keys kid (vt_getKeysetInCachePolicy LRU_vtable (h, LRU_make ms)) = {}"
    by (simp add: LRU_getKeysetInCachePolicy_def LRU_make_def)
  from lru.reachable_good [OF assms lru.good_make [OF LRU_inv_make e]]
  have "lru.good c" .
  with lru.good_consistent show ?thesis by (simp add: lru.good_def)
qed

theorem LRU_cache_run_consistent_witness:
  "\<exists>c. cache_reachable LRU_vtable (SegmentCache_make (sample_heap, LRU_make 30)) c \<and>
     map snd (cacheMap c) = [2 :: nat, 3] \<and> checkCacheConsistencyWithCachePolicy LRU_vtable c = Inr ()"
proof -
  let ?x = "sample_key 0 ''x''" and ?y = "sample_key 1 ''y''" and ?z = "sample_key 0 ''z''"
  let ?c0 = "SegmentCache_make (sample_heap, LRU_make 30)"
  let ?p = "\<lambda>q i n. (sample_heap, (LRU_make 30)\<lparr>freeSize := (if n = 1 then 20 else 0), usageQueue := q, keyIndexMap := i, nextNode := n\<rparr>)"
  let ?c1 = "?c0\<lparr>cachingPolicy := ?p [(0, ?x)] [(?x, 0)] 1, cacheMap := [(?x, 1 :: nat)]\<rparr>"
  let ?c2 = "?c0\<lparr>cachingPolicy := ?p [(1, ?y), (0, ?x)] [(?x, 0), (?y, 1)] 2, cacheMap := [(?x, 1 :: nat), (?y, 2)]\<rparr>"
  let ?c3 = "?c0\<lparr>cachingPolicy := ?p [(2, ?z), (1, ?y)] [(?y, 1), (?z, 2)] 3, cacheMap := [(?y, 2 :: nat), (?z, 3)]\<rparr>"
  have fits: "LRU_evict h sz p r = Inr (p, r)" if "\<not> freeSize p < sz"
    for h :: "int heap" and sz p r using that by (subst LRU_evict.simps) simp
  have evicts: "LRU_evict h sz p r = rbind (LRU_eraseLRU p) (\<lambda>p1. rbind (meta h (snd (last (usageQueue p)))) (\<lambda>m.
      LRU_evict h sz (p1\<lparr>freeSize := freeSize p1 + md_size m\<rparr>) (r @ [snd (last (usageQueue p))])))"
    if "freeSize p < sz" for h :: "int heap" and sz p r using that by (subst LRU_evict.simps) simp
  note sims = SegmentCache_store_def SegmentCache_make_def LRU_make_def LRU_onStore_def LRU_eraseLRU_def erase_all_def
    um_emplace_def us_emplace_def um_find_def us_find_def um_erase_def us_erase_def SegmentMetadata_make_def
  have "SegmentCache_store LRU_vtable ?x 1 ?c0 = Inr ?c1" by (simp add: sims fits)
  then have s1: "cache_step LRU_vtable ?c0 ?c1" by (rule cache_step.store [rotated]) (simp add: SegmentCache_make_def)
  have "SegmentCache_store LRU_vtable ?y 2 ?c1 = Inr ?c2" by (simp add: sims fits)
  then have s2: "cache_step LRU_vtable ?c1 ?c2" by (rule cache_step.store [rotated]) simp
  have "SegmentCache_store LRU_vtable ?z 3 ?c2 = Inr ?c3" by (simp add: sims fits evicts)
  then have s3: "cache_step LRU_vtable ?c2 ?c3" by (rule cache_step.store [rotated]) simp
  have run: "cache_reachable LRU_vtable ?c0 ?c3"
    by (rule cache_reachable.step [OF cache_reachable.step [OF cache_reachable.step [OF cache_reachable.start s1] s2] s3])
  from LRU_cache_run_consistent [OF run] have "checkCacheConsistencyWithCachePolicy LRU_vtable ?c3 = Inr ()" ..
  moreover have "map snd (cacheMap ?c3) = [2, 3]" by simp
  ultimately show ?thesis using run by (intro exI [of _ ?c3] conjI)
qed

text \<open>
  C5.  In a reachable cache, a store of a segment that the cache does not hold and that fits into the
  capacity succeeds, and the next load of an equal key returns the stored data; neither operation throws
  or is undefined.  (A store of a segment the cache holds would leave the old data:
  \<^verbatim>\<open>map_.emplace\<close> does not overwrite.)
\<close>

theorem LRU_cache_store_load:
  assumes "cache_reachable LRU_vtable (SegmentCache_make (h0, LRU_make ms)) c"
    and "cachingPolicy c = (h, p)" and "key_metadata k \<noteq> None" and "ksize h k \<le> maxSize p"
    and "kid k \<notin> um_keys kid (cacheMap c)" and "kid k' = kid k"
  shows "\<exists>c' c''. SegmentCache_store LRU_vtable k d c = Inr c' \<and>
           SegmentCache_load LRU_vtable k' c' = Inr (Inr d, c'')"
proof -
  have e: "us_keys kid (vt_getKeysetInCachePolicy LRU_vtable (h0, LRU_make ms)) = {}"
    by (simp add: LRU_getKeysetInCachePolicy_def LRU_make_def)
  have g: "lru.good c" by (rule lru.reachable_good [OF assms(1) lru.good_make [OF LRU_inv_make e]])
  then have i: "LRU_inv (h, p)"
    and n: "kid k \<notin> us_keys kid (LRU_getKeysetInCachePolicy (h, p))"
    using assms(2,5) by (simp_all add: lru.good_def cache_agrees_def)
  have "\<not> maxSize p < ksize h k" using assms(4) by (simp add: not_less)
  with LRU_onStore_spec [OF i assms(3) n]
  obtain ev p' where on: "LRU_onStore k (h, p) = Inr (Some ev, (h, p'))" and i': "LRU_inv (h, p')"
    by (simp only: if_False) (elim exE conjE, rule that, assumption+)
  then obtain c' where st: "SegmentCache_store LRU_vtable k d c = Inr c'"
    and c': "cachingPolicy c' = (h, p')"
    by (simp add: SegmentCache_store_def assms(2))
  obtain p'' where "LRU_onLoad k' (h, p') = Inr (h, p'')"
    using LRU_onLoad_cases [OF i', of k'] by auto
  then obtain r c'' where ld: "SegmentCache_load LRU_vtable k' c' = Inr (r, c'')"
    by (cases "um_find kid (kid k') (cacheMap c')")
      (simp_all add: SegmentCache_load_def c')
  have "vt_onStore LRU_vtable k (cachingPolicy c) = Inr (Some ev, (h, p'))"
    using on by (simp add: assms(2))
  from lru.load_after_store [OF g assms(5) st this ld assms(6)] st ld show ?thesis by blast
qed

theorem LRU_cache_store_load_witness:
  "\<exists>c' c''. SegmentCache_store LRU_vtable (sample_key 0 ''z'') (7 :: nat)
       (SegmentCache_make (sample_heap, LRU_make 30)) = Inr c' \<and>
     SegmentCache_load LRU_vtable (sample_key 5 ''z'') c' = Inr (Inr 7, c'')"
  by (rule LRU_cache_store_load [OF cache_reachable.start, of _ _ sample_heap "LRU_make 30"])
    (simp_all add: SegmentCache_make_def LRU_make_def)

text \<open>
  \<open>onRemove\<close> of a key the policy holds takes the key out of the queue but leaves the
  free size as it was: afterwards the free size and the queued sizes fall short of the capacity by
  exactly the size of the removed segment.
\<close>

theorem LRU_onRemove_leaks_free_size:
  assumes "LRU_inv (h, p)" and "kid k \<in> us_keys kid (LRU_getKeysetInCachePolicy (h, p))"
  shows "\<exists>n x p'. (n, x) \<in> set (usageQueue p) \<and> kid x = kid k \<and>
    LRU_onRemove k (h, p) = Inr (h, p') \<and>
    usageQueue p' = filter (\<lambda>y. fst y \<noteq> n) (usageQueue p) \<and> freeSize p' = freeSize p \<and>
    unat (freeSize p') + LRU_used h p' + unat (ksize h x) = unat (maxSize p')"
  using LRU_onRemove_spec [OF assms] assms(1) by fastforce

theorem LRU_onRemove_leaks_free_size_witness:
  "\<exists>p'. LRU_onRemove (sample_key 1 ''y'') (sample_heap, lru_two) = Inr (sample_heap, p') \<and>
     freeSize p' = 0 \<and> unat (freeSize p') + LRU_used sample_heap p' \<noteq> unat (maxSize p')"
proof -
  have "kid (sample_key 1 ''y'') \<in> us_keys kid (LRU_getKeysetInCachePolicy (sample_heap, lru_two))"
    by (simp add: LRU_getKeysetInCachePolicy_def lru_two_def)
  from LRU_onRemove_leaks_free_size [OF lru_two_inv this]
  obtain n x p' where r: "LRU_onRemove (sample_key 1 ''y'') (sample_heap, lru_two)
      = Inr (sample_heap, p')" "freeSize p' = freeSize lru_two" "(n, x) \<in> set (usageQueue lru_two)"
      "kid x = kid (sample_key 1 ''y'')"
     "unat (freeSize p') + LRU_used sample_heap p' + unat (ksize sample_heap x) = unat (maxSize p')"
    by blast
  then have "ksize sample_heap x = 20" by (auto simp: lru_two_def)
  with r show ?thesis by (auto simp: lru_two_def)
qed

end
