(* ===== verification/Std_Algorithms.thy ===== *)
theory Std_Algorithms
  imports Hermes_Prelude
begin

text \<open>
  The algorithms of the C++ standard library the program uses: \<^verbatim>\<open>std::sort\<close> with a comparator
  that may throw, and \<^verbatim>\<open>std::find\<close> followed by an \<^verbatim>\<open>erase\<close> of the
  position found.  The standard leaves the order of equivalent elements after a sort open; the
  insertion sort here is one of the allowed behaviours, and the lemmas only use that the result is
  a sorted permutation.
\<close>

fun sort_insert :: "('a \<Rightarrow> 'a \<Rightarrow> bool result) \<Rightarrow> 'a \<Rightarrow> 'a list \<Rightarrow> 'a list result" where
  "sort_insert cmp x [] = Inr [x]"
| "sort_insert cmp x (y # ys) =
     rbind (cmp x y) (\<lambda>b.
       if b then Inr (x # y # ys)
       else rbind (sort_insert cmp x ys) (\<lambda>zs. Inr (y # zs)))"

fun std_sort :: "('a \<Rightarrow> 'a \<Rightarrow> bool result) \<Rightarrow> 'a list \<Rightarrow> 'a list result" where
  "std_sort cmp [] = Inr []"
| "std_sort cmp (x # xs) = rbind (std_sort cmp xs) (sort_insert cmp x)"

text \<open>\<^verbatim>\<open>v.erase(std::find(v.begin(), v.end(), x))\<close> with elements compared by \<open>f\<close>.\<close>

fun erase_found :: "('a \<Rightarrow> 'b) \<Rightarrow> 'b \<Rightarrow> 'a list \<Rightarrow> 'a list result" where
  "erase_found f b [] = Inl (UndefinedBehaviour ''erase(end())'')"
| "erase_found f b (x # xs) =
     (if f x = b then Inr xs else rbind (erase_found f b xs) (\<lambda>ys. Inr (x # ys)))"

section \<open>Sorting\<close>

text \<open>A strict weak order, the requirement of the standard on a comparator.\<close>

definition strict_weak :: "('a \<Rightarrow> 'a \<Rightarrow> bool) \<Rightarrow> 'a set \<Rightarrow> bool" where
  "strict_weak lt A \<longleftrightarrow>
     (\<forall>x \<in> A. \<forall>y \<in> A. lt x y \<longrightarrow> \<not> lt y x) \<and>
     (\<forall>x \<in> A. \<forall>y \<in> A. \<forall>z \<in> A. \<not> lt y x \<longrightarrow> \<not> lt z y \<longrightarrow> \<not> lt z x)"

lemma strict_weak_cong:
  assumes "\<And>x y. x \<in> A \<Longrightarrow> y \<in> A \<Longrightarrow> lt x y = lt' x y"
  shows "strict_weak lt A = strict_weak lt' A"
  unfolding strict_weak_def using assms by (simp cong: ball_cong)

lemma strict_weak_trans:
  assumes "strict_weak lt A" and "x \<in> A" and "y \<in> A" and "z \<in> A"
    and "\<not> lt y x" and "\<not> lt z y"
  shows "\<not> lt z x"
  using assms unfolding strict_weak_def by blast

lemma strict_weak_subset: "strict_weak lt A \<Longrightarrow> B \<subseteq> A \<Longrightarrow> strict_weak lt B"
  unfolding strict_weak_def by (meson subset_iff)

lemma sort_insert_spec:
  assumes "\<forall>y \<in> set ys. cmp x y = Inr (lt x y)"
    and "strict_weak lt (insert x (set ys))" and "sorted_wrt (\<lambda>a b. \<not> lt b a) ys"
  shows "\<exists>zs. sort_insert cmp x ys = Inr zs \<and> mset zs = mset (x # ys) \<and>
           sorted_wrt (\<lambda>a b. \<not> lt b a) zs"
  using assms
proof (induction ys)
  case Nil
  then show ?case by simp
next
  case (Cons y ys)
  have le: "cmp x y = Inr (lt x y)" using Cons.prems(1) by simp
  show ?case
  proof (cases "lt x y")
    case True
    with Cons.prems(2) have yx: "\<not> lt y x" by (auto simp: strict_weak_def)
    have "\<not> lt z x" if "z \<in> set ys" for z
    proof -
      have "\<not> lt z y" using Cons.prems(3) that by simp
      then show ?thesis by (intro strict_weak_trans [OF Cons.prems(2) _ _ _ yx]) (use that in auto)
    qed
    with True Cons.prems(3) le yx show ?thesis by simp
  next
    case False
    have "strict_weak lt (insert x (set ys))"
      by (rule strict_weak_subset [OF Cons.prems(2)]) auto
    then obtain zs where zs: "sort_insert cmp x ys = Inr zs" "mset zs = mset (x # ys)"
      "sorted_wrt (\<lambda>a b. \<not> lt b a) zs"
      using Cons.IH Cons.prems by auto
    then have "set zs = insert x (set ys)" by (metis list.simps(15) mset_eq_setD)
    with zs False Cons.prems(3) le show ?thesis by auto
  qed
qed

lemma std_sort_spec:
  assumes "\<forall>x \<in> set xs. \<forall>y \<in> set xs. cmp x y = Inr (lt x y)" and "strict_weak lt (set xs)"
  shows "\<exists>zs. std_sort cmp xs = Inr zs \<and> mset zs = mset xs \<and> sorted_wrt (\<lambda>a b. \<not> lt b a) zs"
  using assms
proof (induction xs)
  case Nil
  then show ?case by simp
next
  case (Cons x xs)
  have "strict_weak lt (set xs)" by (rule strict_weak_subset [OF Cons.prems(2)]) auto
  with Cons obtain zs where zs: "std_sort cmp xs = Inr zs" "mset zs = mset xs"
    "sorted_wrt (\<lambda>a b. \<not> lt b a) zs" by auto
  from zs(2) have "set zs = set xs" by (rule mset_eq_setD)
  with Cons.prems have le: "\<forall>y \<in> set zs. cmp x y = Inr (lt x y)"
    and sw: "strict_weak lt (insert x (set zs))"
    by auto
  from sort_insert_spec [where lt = lt and cmp = cmp and x = x, OF le sw zs(3)] zs(1,2) show ?case by auto
qed

lemma sort_insert_mset: "sort_insert cmp x ys = Inr zs \<Longrightarrow> mset zs = mset (x # ys)"
  by (induction ys arbitrary: zs) (auto simp: result_simps split: if_splits)

lemma std_sort_mset: "std_sort cmp xs = Inr zs \<Longrightarrow> mset zs = mset xs"
  by (induction xs arbitrary: zs) (auto simp: result_simps dest!: sort_insert_mset)

lemma erase_found_Inr:
  "erase_found f b xs = Inr ys \<Longrightarrow>
     \<exists>us x vs. xs = us @ x # vs \<and> ys = us @ vs \<and> f x = b \<and> b \<notin> f ` set us"
proof (induction xs arbitrary: ys)
  case (Cons x xs)
  show ?case
  proof (cases "f x = b")
    case True
    with Cons.prems show ?thesis by (intro exI [of _ "[]"]) auto
  next
    case False
    with Cons.prems obtain ys' where "erase_found f b xs = Inr ys'" "ys = x # ys'"
      by (auto simp: result_simps)
    with Cons.IH [of ys'] obtain us z vs where
      "xs = us @ z # vs" "ys' = us @ vs" "f z = b" "b \<notin> f ` set us" by blast
    with False \<open>ys = x # ys'\<close> show ?thesis
      by (intro exI [of _ "x # us"] exI [of _ z] exI [of _ vs]) auto
  qed
qed simp

lemma erase_found_total: "b \<in> f ` set xs \<Longrightarrow> \<exists>ys. erase_found f b xs = Inr ys"
  by (induction xs) auto

end
