(* ===== verification/Belady_Policy.thy ===== *)
theory Belady_Policy
  imports Segment_Cache Std_Algorithms
begin

text \<open>
  Belady's policy, which plans the content of the cache from the known sequence of queries
  (\<^verbatim>\<open>fpdb-cache/src/policy/BeladyCachingPolicy.cpp\<close> and
  \<^verbatim>\<open>BeladyCachingPolicyHelper.cpp\<close>).  The helper is a global
  \<^verbatim>\<open>shared_ptr\<close>, here an option next to the policy, and using it while it is null is
  undefined.  A \<^verbatim>\<open>std::set<int>\<close> is a strictly increasing list.

  The code multiplies sizes by the floating-point constants 0.99 and 0.01 and truncates.  The two
  roundings are the fields of \<open>belady_float\<close>; \<open>belady_float_ok\<close> says what the properties
  use of them, within the range where IEEE arithmetic gives the exact quotient.
\<close>

record belady_float =
  bf_099 :: "size_t \<Rightarrow> size_t"
  bf_001 :: "size_t \<Rightarrow> int"

definition belady_float_ok :: "belady_float \<Rightarrow> bool" where
  "belady_float_ok F \<longleftrightarrow>
     (\<forall>m. unat m \<le> 2 ^ 40 \<longrightarrow> 100 * unat (bf_099 F m) \<le> 99 * unat m) \<and>
     (\<forall>s. unat s \<le> 2 ^ 24 \<longrightarrow> bf_001 F s = int (unat s div 100))"

section \<open>The helper\<close>

record BeladyHelper =
  bh_segmentSizeMap :: "(SegmentKey \<times> size_t) list"
  queryNumToInvolvedSegments :: "(int \<times> SegmentKey list) list"
  segmentKeysToInvolvedQueryNums :: "(SegmentKey \<times> int list) list"
  currentQueryNum :: int

fun set_insert :: "int \<Rightarrow> int list \<Rightarrow> int list" where
  "set_insert q [] = [q]"
| "set_insert q (x # xs) =
     (if q < x then q # x # xs else if q = x then x # xs else x # set_insert q xs)"

definition addToSegmentQueryNumMappings :: "int \<Rightarrow> SegmentKey \<Rightarrow> BeladyHelper \<Rightarrow> BeladyHelper" where
  "addToSegmentQueryNumMappings q k b =
     b\<lparr>queryNumToInvolvedSegments :=
         (case um_find id q (queryNumToInvolvedSegments b) of
            Some ks \<Rightarrow> um_assign id q (us_emplace kid k ks) (queryNumToInvolvedSegments b)
          | None \<Rightarrow> um_emplace id q [k] (queryNumToInvolvedSegments b)),
       segmentKeysToInvolvedQueryNums :=
         (case um_find kid (kid k) (segmentKeysToInvolvedQueryNums b) of
            Some qs \<Rightarrow> um_assign kid k (set_insert q qs) (segmentKeysToInvolvedQueryNums b)
          | None \<Rightarrow> um_emplace kid k [q] (segmentKeysToInvolvedQueryNums b))\<rparr>"

definition bh_setSegmentSizeMap :: "(SegmentKey \<times> size_t) list \<Rightarrow> BeladyHelper \<Rightarrow> BeladyHelper" where
  "bh_setSegmentSizeMap m b = b\<lparr>bh_segmentSizeMap := m\<rparr>"

definition bh_getSegmentSize :: "BeladyHelper \<Rightarrow> SegmentKey \<Rightarrow> size_t result" where
  "bh_getSegmentSize b k =
     (case um_find kid (kid k) (bh_segmentSizeMap b) of
        Some s \<Rightarrow> Inr s
      | None \<Rightarrow> Inl (RuntimeError
          (''Segment key not found in getSegmentSize: '' @ SegmentKey_toString k)))"

text \<open>\<^verbatim>\<open>upper_bound\<close> is the first element of the set above the query; \<open>-1\<close> stands for none.\<close>

definition querySegmentNextUsedIn :: "BeladyHelper \<Rightarrow> SegmentKey \<Rightarrow> int \<Rightarrow> int result" where
  "querySegmentNextUsedIn b k q =
     (case um_find kid (kid k) (segmentKeysToInvolvedQueryNums b) of
        Some qs \<Rightarrow> (case List.find (\<lambda>x. q < x) qs of Some x \<Rightarrow> Inr x | None \<Rightarrow> Inr (- 1))
      | None \<Rightarrow> Inl (RuntimeError (''Error, '' @ SegmentKey_toString k
          @ '' next query requested but never should have been used'')))"

definition getSegmentsInQuery :: "BeladyHelper \<Rightarrow> int \<Rightarrow> SegmentKey list result" where
  "getSegmentsInQuery b q =
     (case um_find id q (queryNumToInvolvedSegments b) of
        Some ks \<Rightarrow> Inr ks
      | None \<Rightarrow> Inl (RuntimeError (''Error, '' @ string_of_int q
          @ '' not populated in segmentKeysToInvolvedQueryNums_ in MiniCatalogue.cpp'')))"

definition getCurrentQueryNum :: "BeladyHelper \<Rightarrow> int" where
  "getCurrentQueryNum b = currentQueryNum b"

definition setCurrentQueryNum :: "int \<Rightarrow> BeladyHelper \<Rightarrow> BeladyHelper" where
  "setCurrentQueryNum q b = b\<lparr>currentQueryNum := q\<rparr>"

section \<open>The policy\<close>

record BeladyCachingPolicy = CachingPolicy +
  keysInCache :: "SegmentKey list"
  queryNumToKeysInCache :: "(int \<times> SegmentKey list) list"
  numQueries :: int

type_synonym 'd belady_state = "'d heap \<times> BeladyHelper option \<times> BeladyCachingPolicy"

definition deref_helper :: "BeladyHelper option \<Rightarrow> BeladyHelper result" where
  "deref_helper hb = (case hb of Some b \<Rightarrow> Inr b
     | None \<Rightarrow> Inl (UndefinedBehaviour ''null helper_ dereferenced''))"

definition lessKeyValue :: "BeladyHelper option \<Rightarrow> SegmentKey \<Rightarrow> SegmentKey \<Rightarrow> bool result" where
  "lessKeyValue hb key1 key2 =
     rbind (deref_helper hb) (\<lambda>b.
     rbind (querySegmentNextUsedIn b key1 (getCurrentQueryNum b)) (\<lambda>key1NextUse.
     rbind (querySegmentNextUsedIn b key2 (getCurrentQueryNum b)) (\<lambda>key2NextUse.
       if key1NextUse = key2NextUse then
         rbind (bh_getSegmentSize b key1) (\<lambda>key1Size.
         rbind (bh_getSegmentSize b key2) (\<lambda>key2Size. Inr (key1Size < key2Size)))
       else if key1NextUse = - 1 \<or> (key2NextUse \<noteq> - 1 \<and> key2NextUse < key1NextUse) then Inr True
       else if key2NextUse = - 1 \<or> (key1NextUse \<noteq> - 1 \<and> key1NextUse < key2NextUse) then Inr False
       else Inl (RuntimeError
         ''Error, lessKeyValue reached code that should not be reachable''))))"

text \<open>The constructor; \<open>base\<close> is the constructed base class.\<close>

definition Belady_make ::
  "'d heap \<Rightarrow> BeladyHelper option \<Rightarrow> CachingPolicy \<Rightarrow> 'd belady_state result" where
  "Belady_make h hb base =
     rbind (deref_helper hb) (\<lambda>b.
       Inr (h, Some (bh_setSegmentSizeMap (segmentSizeMap base) b),
         \<lparr>policyType = BELADY, maxSize = maxSize base, freeSize = freeSize base,
          segmentSizeMap = segmentSizeMap base, keysInCache = [], queryNumToKeysInCache = [],
          numQueries = 0\<rparr>))"

definition Belady_onLoad :: "SegmentKey \<Rightarrow> 'd belady_state \<Rightarrow> 'd belady_state result" where
  "Belady_onLoad key s = Inr s"

definition Belady_erase :: "SegmentKey \<Rightarrow> BeladyCachingPolicy \<Rightarrow> BeladyCachingPolicy result" where
  "Belady_erase key p =
     rbind (erase_found key_ptr (key_ptr key) (keysInCache p)) (\<lambda>ks. Inr (p\<lparr>keysInCache := ks\<rparr>))"

definition Belady_onRemove :: "SegmentKey \<Rightarrow> 'd belady_state \<Rightarrow> 'd belady_state result" where
  "Belady_onRemove key = (\<lambda>(h, hb, p). rbind (Belady_erase key p) (\<lambda>p'. Inr (h, hb, p')))"

text \<open>
  The comparison of the actual with the expected size: the difference wraps in
  \<^verbatim>\<open>size_t\<close>, is cut to an \<^verbatim>\<open>int\<close>, and \<^verbatim>\<open>abs\<close> of the
  least \<^verbatim>\<open>int\<close> is undefined.
\<close>

definition abs_int :: "int \<Rightarrow> int result" where
  "abs_int i = (if i = - (2 ^ 31) then Inl (UndefinedBehaviour ''abs(INT_MIN)'') else Inr \<bar>i\<bar>)"

definition size_check :: "belady_float \<Rightarrow> size_t \<Rightarrow> size_t \<Rightarrow> unit result" where
  "size_check F segmentSize preComputedSize =
     rbind (abs_int (sint (ucast (segmentSize - preComputedSize) :: int32))) (\<lambda>absSizeDiff.
       if absSizeDiff > bf_001 F segmentSize then
         Inl (RuntimeError ''Error, segment has wrong size when compared to expected size'')
       else Inr ())"

text \<open>The keys planned for a query.\<close>

definition planned :: "string \<Rightarrow> BeladyCachingPolicy \<Rightarrow> int \<Rightarrow> SegmentKey list result" where
  "planned msgPrefix p q =
     (case um_find id q (queryNumToKeysInCache p) of
        Some ks \<Rightarrow> Inr ks
      | None \<Rightarrow> Inl (RuntimeError (''Error, '' @ msgPrefix @ string_of_int q
          @ '' not populated in queryNumToKeysInCache_ in BeladyCachingPolicy.cpp'')))"

text \<open>The loop over the cached keys that are not in the plan: it collects them and frees their sizes.\<close>

fun Belady_collect ::
  "'d heap \<Rightarrow> SegmentKey list \<Rightarrow> SegmentKey list \<Rightarrow> SegmentKey list \<Rightarrow> size_t \<Rightarrow>
   (SegmentKey list \<times> size_t) result" where
  "Belady_collect h plan [] removable free = Inr (removable, free)"
| "Belady_collect h plan (k # ks) removable free =
     (if us_find kid (kid k) plan = None then
        rbind (meta h k) (\<lambda>m. Belady_collect h plan ks (removable @ [k]) (free + md_size m))
      else Belady_collect h plan ks removable free)"

definition Belady_onStore ::
  "belady_float \<Rightarrow> SegmentKey \<Rightarrow> 'd belady_state \<Rightarrow> (SegmentKey list option \<times> 'd belady_state) result"
  where
  "Belady_onStore F key = (\<lambda>(h, hb, p).
     rbind (meta h key) (\<lambda>m.
     rbind (getSegmentSize p key) (\<lambda>preComputedSize.
     rbind (size_check F (md_size m) preComputedSize) (\<lambda>_.
       if maxSize p < md_size m then Inr (None, (h, hb, p))
       else
     rbind (deref_helper hb) (\<lambda>b.
     rbind (planned ''query '' p (getCurrentQueryNum b)) (\<lambda>keysThatShouldBeCached.
       if us_find kid (kid key) keysThatShouldBeCached = None then Inr (None, (h, hb, p))
       else if md_size m < freeSize p then
         Inr (Some [], (h, hb, p\<lparr>keysInCache := us_emplace kid key (keysInCache p),
                                  freeSize := freeSize p - md_size m\<rparr>))
       else
     rbind (Belady_collect h keysThatShouldBeCached (keysInCache p) [] (freeSize p))
       (\<lambda>(removable, free).
         let kept = fold (\<lambda>k ks. us_erase kid (kid k) ks) removable (keysInCache p)
         in if free - md_size m < 0 then
              Inl (RuntimeError (''Error, freeSize_ < 0, is: ''
                @ string_of_nat (unat (free - md_size m))))
            else Inr (Some removable,
              (h, hb, p\<lparr>keysInCache := us_emplace kid key kept,
                        freeSize := free - md_size m\<rparr>)))))))))"

definition Belady_onToCache ::
  "SegmentKey list \<Rightarrow> 'd belady_state \<Rightarrow> (SegmentKey list \<times> 'd belady_state) result" where
  "Belady_onToCache segmentKeys = (\<lambda>(h, hb, p).
     rbind (deref_helper hb) (\<lambda>b.
     rbind (planned '''' p (getCurrentQueryNum b)) (\<lambda>keysThatShouldBeCached.
       Inr (filter (\<lambda>k. us_find kid (kid k) keysThatShouldBeCached \<noteq> None) segmentKeys,
            (h, hb, p)))))"

definition Belady_getKeysetInCachePolicy :: "'d belady_state \<Rightarrow> SegmentKey list" where
  "Belady_getKeysetInCachePolicy = (\<lambda>(h, hb, p). keysInCache p)"

definition Belady_onNewQuery :: "'d belady_state \<Rightarrow> 'd belady_state" where
  "Belady_onNewQuery s = s"

definition Belady_vtable :: "belady_float \<Rightarrow> 'd belady_state policy_vtable" where
  "Belady_vtable F =
     \<lparr>vt_onLoad = Belady_onLoad, vt_onStore = Belady_onStore F, vt_onRemove = Belady_onRemove,
      vt_onToCache = Belady_onToCache, vt_onNewQuery = Belady_onNewQuery,
      vt_getKeysetInCachePolicy = Belady_getKeysetInCachePolicy\<rparr>"

section \<open>Planning\<close>

fun assertDecreasingOrderingOfSegmentKeys ::
  "BeladyHelper option \<Rightarrow> SegmentKey list \<Rightarrow> unit result" where
  "assertDecreasingOrderingOfSegmentKeys hb [] =
     Inl (OutOfRange ''vector::at'')"
| "assertDecreasingOrderingOfSegmentKeys hb [k] = Inr ()"
| "assertDecreasingOrderingOfSegmentKeys hb (k1 # k2 # ks) =
     rbind (lessKeyValue hb k1 k2) (\<lambda>b.
       if b then Inl (RuntimeError
         ''Error, identical keys present when generating caching decisions'')
       else assertDecreasingOrderingOfSegmentKeys hb (k2 # ks))"

text \<open>The greedy loop over the candidates, most valuable first.\<close>

fun Belady_choose ::
  "BeladyHelper \<Rightarrow> BeladyCachingPolicy \<Rightarrow> int \<Rightarrow> SegmentKey list \<Rightarrow> size_t \<Rightarrow> SegmentKey list result"
  where
  "Belady_choose b p q [] remaining = Inr []"
| "Belady_choose b p q (k # ks) remaining =
     rbind (getSegmentSize p k) (\<lambda>segmentSize.
     rbind (querySegmentNextUsedIn b k q) (\<lambda>keyNextUse.
       if segmentSize < remaining \<and> keyNextUse \<noteq> - 1 then
         rbind (Belady_choose b p q ks (remaining - segmentSize)) (\<lambda>chosen. Inr (k # chosen))
       else Belady_choose b p q ks remaining))"

text \<open>One round of the loop of \<open>generateCacheDecisions\<close>; the state carries the keys chosen last.\<close>

definition Belady_decide ::
  "belady_float \<Rightarrow> int \<Rightarrow> BeladyHelper option \<times> BeladyCachingPolicy \<times> SegmentKey list \<Rightarrow>
   (BeladyHelper option \<times> BeladyCachingPolicy \<times> SegmentKey list) result" where
  "Belady_decide F queryNum = (\<lambda>(hb, p, lastKeys).
     rbind (deref_helper hb) (\<lambda>b0.
       let b = setCurrentQueryNum queryNum b0
       in rbind (getSegmentsInQuery b queryNum) (\<lambda>keysInCurrentQuery.
            let potential = fold (us_emplace kid) keysInCurrentQuery (fold (us_emplace kid) lastKeys [])
            in rbind (std_sort (lessKeyValue (Some b)) potential) (\<lambda>sorted.
               rbind (Belady_choose b p queryNum (rev sorted) (bf_099 F (maxSize p))) (\<lambda>chosen.
                 Inr (Some b,
                   p\<lparr>queryNumToKeysInCache :=
                       um_emplace id queryNum (fold (us_emplace kid) chosen [])
                         (queryNumToKeysInCache p)\<rparr>,
                   chosen))))))"

definition generateCacheDecisions ::
  "belady_float \<Rightarrow> int \<Rightarrow> 'd belady_state \<Rightarrow> 'd belady_state result" where
  "generateCacheDecisions F n = (\<lambda>(h, hb, p).
     rbind (rfold (Belady_decide F) [1..n] (hb, p\<lparr>numQueries := n\<rparr>, [])) (\<lambda>(hb', p', _).
       Inr (h, hb', p')))"

text \<open>
  \<open>approximateExecutionHitRate\<close>: per query the numbers of hits and misses, and the totals.  The
  formatting of the rates is left out; the first query is reported as all misses and not counted.
\<close>

definition Belady_query_hits ::
  "BeladyHelper \<Rightarrow> BeladyCachingPolicy \<Rightarrow> int \<Rightarrow> (int \<times> nat \<times> nat) list \<times> nat \<times> nat \<Rightarrow>
   ((int \<times> nat \<times> nat) list \<times> nat \<times> nat) result" where
  "Belady_query_hits b p queryNum = (\<lambda>(rows, totalHitNum, totalMissNum).
     rbind (getSegmentsInQuery b queryNum) (\<lambda>keysInCurrentQuery.
       if queryNum = 1 then
         Inr (rows @ [(queryNum, 0, length keysInCurrentQuery)], totalHitNum, totalMissNum)
       else rbind (planned '''' p (queryNum - 1)) (\<lambda>keysCached.
         let hits = length (filter (\<lambda>k. us_find kid (kid k) keysCached \<noteq> None) keysInCurrentQuery);
             misses = length (filter (\<lambda>k. us_find kid (kid k) keysCached = None) keysInCurrentQuery)
         in Inr (rows @ [(queryNum, hits, misses)], totalHitNum + hits, totalMissNum + misses))))"

definition approximateExecutionHitRate ::
  "int \<Rightarrow> int \<Rightarrow> 'd belady_state \<Rightarrow> ((int \<times> nat \<times> nat) list \<times> nat \<times> nat) result" where
  "approximateExecutionHitRate warmBatchSize executeBatchSize = (\<lambda>(h, hb, p).
     if warmBatchSize + executeBatchSize > numQueries p then
       Inl (RuntimeError (''Error, warmBatchSize + executeBatchSize: ''
         @ string_of_int (warmBatchSize + executeBatchSize) @ '', is: less than numQueries_: ''
         @ string_of_int (numQueries p)))
     else rfold (\<lambda>q acc. rbind (deref_helper hb) (\<lambda>b. Belady_query_hits b p q acc))
            [warmBatchSize + 1..numQueries p] ([], 0, 0))"

definition compareExpectedCachedKeysToActual :: "int \<Rightarrow> 'd belady_state \<Rightarrow> unit result" where
  "compareExpectedCachedKeysToActual queryNumberJustFinished = (\<lambda>(h, hb, p).
     rbind (planned '''' p queryNumberJustFinished) (\<lambda>keysThatShouldBeCached.
       if list_ex (\<lambda>k. us_find kid (kid k) (keysInCache p) = None) keysThatShouldBeCached then
         Inl (RuntimeError ''Actual keys in cache missing expected keys in cache'')
       else Inr ()))"

section \<open>The order on keys\<close>

text \<open>The next use and the size of a key, as total functions on the keys the helper knows.\<close>

definition nextUse :: "BeladyHelper \<Rightarrow> int \<Rightarrow> SegmentKey \<Rightarrow> int" where
  "nextUse b q k = (case um_find kid (kid k) (segmentKeysToInvolvedQueryNums b) of
     Some qs \<Rightarrow> (case List.find (\<lambda>x. q < x) qs of Some x \<Rightarrow> x | None \<Rightarrow> - 1) | None \<Rightarrow> - 1)"

definition size_in :: "(SegmentKey \<times> size_t) list \<Rightarrow> SegmentKey \<Rightarrow> size_t" where
  "size_in m k = (case um_find kid (kid k) m of Some s \<Rightarrow> s | None \<Rightarrow> 0)"

definition bless :: "BeladyHelper \<Rightarrow> int \<Rightarrow> SegmentKey \<Rightarrow> SegmentKey \<Rightarrow> bool" where
  "bless b q k1 k2 \<longleftrightarrow>
     (if nextUse b q k1 = nextUse b q k2
      then size_in (bh_segmentSizeMap b) k1 < size_in (bh_segmentSizeMap b) k2
      else nextUse b q k1 = - 1 \<or> (nextUse b q k2 \<noteq> - 1 \<and> nextUse b q k2 < nextUse b q k1))"

definition known :: "BeladyHelper \<Rightarrow> SegmentKey \<Rightarrow> bool" where
  "known b k \<longleftrightarrow> kid k \<in> um_keys kid (segmentKeysToInvolvedQueryNums b) \<and>
     kid k \<in> um_keys kid (bh_segmentSizeMap b)"

lemma querySegmentNextUsedIn_known: "known b k \<Longrightarrow> querySegmentNextUsedIn b k q = Inr (nextUse b q k)"
  by (auto simp: known_def querySegmentNextUsedIn_def nextUse_def um_find_None split: option.splits)

lemma bh_getSegmentSize_known:
  "known b k \<Longrightarrow> bh_getSegmentSize b k = Inr (size_in (bh_segmentSizeMap b) k)"
  by (auto simp: known_def bh_getSegmentSize_def size_in_def um_find_None split: option.splits)

lemma lessKeyValue_known:
  assumes "known b k1" and "known b k2"
  shows "lessKeyValue (Some b) k1 k2 = Inr (bless b (currentQueryNum b) k1 k2)"
  using assms
  by (auto simp: lessKeyValue_def deref_helper_def querySegmentNextUsedIn_known
      bh_getSegmentSize_known bless_def getCurrentQueryNum_def)

lemma bless_strict_weak: "strict_weak (bless b q) A"
  unfolding strict_weak_def bless_def by (auto split: if_splits)

lemma bless_negtrans: "\<not> bless b q y x \<Longrightarrow> \<not> bless b q z y \<Longrightarrow> \<not> bless b q z x"
  using bless_strict_weak [of b q UNIV] unfolding strict_weak_def by blast

lemma bless_setCurrent [simp]: "bless (b\<lparr>currentQueryNum := c\<rparr>) = bless b"
  by (intro ext) (simp add: bless_def nextUse_def)

lemma known_setCurrent [simp]: "known (b\<lparr>currentQueryNum := c\<rparr>) = known b"
  by (intro ext) (simp add: known_def)

lemma nextUse_setCurrent [simp]: "nextUse (b\<lparr>currentQueryNum := c\<rparr>) = nextUse b"
  by (intro ext) (simp add: nextUse_def)

lemma nextUse_kid: "kid k = kid k' \<Longrightarrow> nextUse b q k = nextUse b q k'"
  by (simp add: nextUse_def)

lemma size_in_kid: "size_in m = (\<lambda>i. case um_find kid i m of Some s \<Rightarrow> s | None \<Rightarrow> 0) \<circ> kid"
  by (simp add: fun_eq_iff size_in_def)

lemma bless_kid: "kid k = kid k' \<Longrightarrow> bless b q x k = bless b q x k'"
  by (simp add: bless_def nextUse_def size_in_def)

lemma known_kid: "kid k = kid k' \<Longrightarrow> known b k = known b k'"
  by (simp add: known_def)

section \<open>The plan\<close>

text \<open>
  What a greedy choice \<open>D\<close> from the list \<open>ks\<close> leaves out: a key that is used again and is not
  chosen did not fit beside the chosen keys before it.
\<close>

definition greedy_from ::
  "(SegmentKey \<Rightarrow> size_t) \<Rightarrow> (SegmentKey \<Rightarrow> bool) \<Rightarrow> SegmentKey list \<Rightarrow> nat \<Rightarrow> SegmentKey list \<Rightarrow> bool"
  where
  "greedy_from sz used ks r D \<longleftrightarrow>
     (\<forall>us k vs. ks = us @ k # vs \<longrightarrow> k \<notin> set D \<longrightarrow> used k \<longrightarrow>
        r \<le> unat (sz k) + sum_sizes sz (filter (\<lambda>x. x \<in> set us) D))"

lemma filter_Cons_notin:
  "x \<notin> set D \<Longrightarrow> filter (\<lambda>z. z \<in> set (x # us)) D = filter (\<lambda>z. z \<in> set us) D"
  by (intro filter_cong) auto

lemma greedy_from_take:
  assumes "greedy_from sz used ks r D" and "x \<notin> set D"
  shows "greedy_from sz used (x # ks) (unat (sz x) + r) (x # D)"
  unfolding greedy_from_def
proof (intro allI impI)
  fix us k vs
  assume ks: "x # ks = us @ k # vs" and k: "k \<notin> set (x # D)" "used k"
  then obtain us' where us: "us = x # us'" "ks = us' @ k # vs" by (cases us) auto
  have "r \<le> unat (sz k) + sum_sizes sz (filter (\<lambda>z. z \<in> set us') D)"
    using assms(1) us(2) k unfolding greedy_from_def by auto
  then show "unat (sz x) + r \<le> unat (sz k) + sum_sizes sz (filter (\<lambda>z. z \<in> set us) (x # D))"
    unfolding us(1) filter.simps filter_Cons_notin [OF assms(2)] by simp
qed

lemma greedy_from_skip:
  assumes "greedy_from sz used ks r D" and "x \<notin> set D" and "used x \<Longrightarrow> r \<le> unat (sz x)"
  shows "greedy_from sz used (x # ks) r D"
  unfolding greedy_from_def
proof (intro allI impI)
  fix us k vs
  assume ks: "x # ks = us @ k # vs" and k: "k \<notin> set D" "used k"
  show "r \<le> unat (sz k) + sum_sizes sz (filter (\<lambda>z. z \<in> set us) D)"
  proof (cases us)
    case Nil
    with ks k assms(3) show ?thesis by auto
  next
    case (Cons y us')
    with ks have us: "us = x # us'" "ks = us' @ k # vs" by auto
    have "r \<le> unat (sz k) + sum_sizes sz (filter (\<lambda>z. z \<in> set us') D)"
      using assms(1) us(2) k unfolding greedy_from_def by auto
    then show ?thesis unfolding us(1) filter_Cons_notin [OF assms(2)] .
  qed
qed

lemma Belady_choose_spec:
  assumes "\<forall>k \<in> set ks. known b k" and "segmentSizeMap p = bh_segmentSizeMap b" and "us_wf kid ks"
  shows "\<exists>D. Belady_choose b p q ks r = Inr D \<and> set D \<subseteq> set ks \<and> us_wf kid D \<and>
    (\<forall>k \<in> set D. nextUse b q k \<noteq> - 1) \<and> sum_sizes (size_in (segmentSizeMap p)) D \<le> unat r \<and>
    greedy_from (size_in (segmentSizeMap p)) (\<lambda>k. nextUse b q k \<noteq> - 1) ks (unat r) D"
  using assms
proof (induction ks arbitrary: r)
  case Nil
  then show ?case by (simp add: greedy_from_def)
next
  case (Cons x ks)
  let ?sz = "size_in (segmentSizeMap p)" and ?u = "\<lambda>k. nextUse b q k \<noteq> - 1"
  have sz: "getSegmentSize p x = Inr (?sz x)"
    using Cons.prems(1,2)
    by (auto simp: known_def getSegmentSize_def size_in_def um_find_None split: option.splits)
  have nx: "querySegmentNextUsedIn b x q = Inr (nextUse b q x)"
    using Cons.prems(1) by (simp add: querySegmentNextUsedIn_known)
  have xks: "x \<notin> set ks" using Cons.prems(3) by (auto simp: us_keys_def)
  show ?case
  proof (cases "?sz x < r \<and> ?u x")
    case True
    from Cons.IH [of "r - ?sz x"] Cons.prems obtain D where D:
      "Belady_choose b p q ks (r - ?sz x) = Inr D" "set D \<subseteq> set ks" "us_wf kid D"
      "\<forall>k \<in> set D. ?u k" "sum_sizes ?sz D \<le> unat (r - ?sz x)"
      "greedy_from ?sz ?u ks (unat (r - ?sz x)) D"
      by auto
    have r: "unat r = unat (?sz x) + unat (r - ?sz x)"
      using True less_imp_le [of "?sz x" r] by (simp add: unat_sub_le word_le_nat_alt)
    have "us_wf kid (x # D)" using D(2,3) Cons.prems(3) by (auto simp: us_keys_def)
    moreover have "greedy_from ?sz ?u (x # ks) (unat r) (x # D)"
      unfolding r using D(2) xks by (intro greedy_from_take D(6)) auto
    moreover have "Belady_choose b p q (x # ks) r = Inr (x # D)" using True sz nx D(1) by simp
    ultimately show ?thesis
      using True D(2,4,5) r by (intro exI [of _ "x # D"]) auto
  next
    case False
    from Cons.IH [of r] Cons.prems obtain D where D:
      "Belady_choose b p q ks r = Inr D" "set D \<subseteq> set ks" "us_wf kid D"
      "\<forall>k \<in> set D. ?u k" "sum_sizes ?sz D \<le> unat r" "greedy_from ?sz ?u ks (unat r) D"
      by auto
    have "greedy_from ?sz ?u (x # ks) (unat r) D"
      using False D(2) xks by (intro greedy_from_skip D(6)) (auto simp: not_less word_le_nat_alt)
    moreover have "Belady_choose b p q (x # ks) r = Inr D" using False sz nx D(1) by auto
    ultimately show ?thesis using D by (intro exI [of _ D]) auto
  qed
qed

text \<open>
  The plan of one query: \<open>D\<close> holds candidates only (the keys planned before and the keys of the
  query), each used again after the query, within 99 percent of the capacity; and a candidate that is
  used again and left out did not fit beside the planned keys that are at least as valuable.
\<close>

definition plan_ok ::
  "belady_float \<Rightarrow> BeladyHelper \<Rightarrow> size_t \<Rightarrow> int \<Rightarrow> SegmentKey list \<Rightarrow> SegmentKey list \<Rightarrow> bool" where
  "plan_ok F b ms q cand D \<longleftrightarrow>
     us_wf kid D \<and> us_keys kid D \<subseteq> us_keys kid cand \<and> (\<forall>k \<in> set D. nextUse b q k \<noteq> - 1) \<and>
     sum_sizes (size_in (bh_segmentSizeMap b)) D \<le> unat (bf_099 F ms) \<and>
     (\<forall>k \<in> set cand. nextUse b q k \<noteq> - 1 \<longrightarrow> kid k \<notin> us_keys kid D \<longrightarrow>
        unat (bf_099 F ms) \<le> unat (size_in (bh_segmentSizeMap b) k)
          + sum_sizes (size_in (bh_segmentSizeMap b)) (filter (\<lambda>k'. \<not> bless b q k' k) D))"

lemma sum_sizes_filter_mono:
  "(\<And>x. x \<in> set xs \<Longrightarrow> P x \<Longrightarrow> Q x) \<Longrightarrow> sum_sizes sz (filter P xs) \<le> sum_sizes sz (filter Q xs)"
  by (induction xs) (auto simp: le_Suc_eq intro: add_increasing)

lemma plan_ok_greedy:
  assumes "us_wf kid D" and "set D \<subseteq> set ks" and "\<forall>k \<in> set D. nextUse b q k \<noteq> - 1"
    and "sum_sizes (size_in (bh_segmentSizeMap b)) D \<le> unat (bf_099 F ms)"
    and g: "greedy_from (size_in (bh_segmentSizeMap b)) (\<lambda>k. nextUse b q k \<noteq> - 1) ks
      (unat (bf_099 F ms)) D"
    and s: "sorted_wrt (\<lambda>x y. \<not> bless b q x y) ks" and c: "us_keys kid ks = us_keys kid cand"
  shows "plan_ok F b ms q cand D"
proof -
  let ?sz = "size_in (bh_segmentSizeMap b)"
  have "unat (bf_099 F ms) \<le> unat (?sz k) + sum_sizes ?sz (filter (\<lambda>k'. \<not> bless b q k' k) D)"
    if k: "k \<in> set cand" "nextUse b q k \<noteq> - 1" "kid k \<notin> us_keys kid D" for k
  proof -
    from k(1) c obtain x where x: "x \<in> set ks" "kid x = kid k" by (force simp: us_keys_def)
    then obtain us vs where ks: "ks = us @ x # vs" by (meson split_list)
    have "x \<notin> set D" using k(3) x(2) unfolding us_keys_def by (metis imageI)
    moreover have "nextUse b q x \<noteq> - 1" using k(2) nextUse_kid [OF x(2)] by simp
    ultimately have "unat (bf_099 F ms) \<le> unat (?sz x) + sum_sizes ?sz (filter (\<lambda>z. z \<in> set us) D)"
      using g ks unfolding greedy_from_def by blast
    moreover have "sum_sizes ?sz (filter (\<lambda>z. z \<in> set us) D)
        \<le> sum_sizes ?sz (filter (\<lambda>k'. \<not> bless b q k' k) D)"
    proof (rule sum_sizes_filter_mono)
      fix z assume "z \<in> set us"
      with s ks have "\<not> bless b q z x" by (auto simp: sorted_wrt_append)
      then show "\<not> bless b q z k" using bless_kid [OF x(2)] by blast
    qed
    moreover have "?sz x = ?sz k" using x(2) by (simp add: size_in_def)
    ultimately show ?thesis by simp
  qed
  moreover have "us_keys kid D \<subseteq> us_keys kid cand"
    using assms(2) c by (auto simp: us_keys_def)
  ultimately show ?thesis using assms(1,3,4) by (simp add: plan_ok_def)
qed

lemma Belady_decide_spec:
  assumes "\<forall>k \<in> set lastKeys. known b k" and "um_find id q (queryNumToInvolvedSegments b) = Some segs"
    and "\<forall>k \<in> set segs. known b k" and "segmentSizeMap p = bh_segmentSizeMap b"
  shows "\<exists>D. Belady_decide F q (Some b, p, lastKeys) =
      Inr (Some (b\<lparr>currentQueryNum := q\<rparr>),
           p\<lparr>queryNumToKeysInCache := um_emplace id q D (queryNumToKeysInCache p)\<rparr>, D) \<and>
    plan_ok F b (maxSize p) q (lastKeys @ segs) D \<and> (\<forall>k \<in> set D. known b k)"
proof -
  define b' where "b' = b\<lparr>currentQueryNum := q\<rparr>"
  define pot where "pot = fold (us_emplace kid) segs (fold (us_emplace kid) lastKeys [])"
  have "set pot \<subseteq> set lastKeys \<union> set segs"
    unfolding pot_def using fold_us_emplace_set [of kid segs "fold (us_emplace kid) lastKeys []"]
      fold_us_emplace_set [of kid lastKeys "[]"] by auto
  then have kn: "\<forall>k \<in> set pot. known b' k" using assms(1,3) by (auto simp: b'_def)
  have wf: "us_wf kid pot" unfolding pot_def by (intro fold_us_emplace_us_wf) simp
  have keys: "us_keys kid pot = us_keys kid (lastKeys @ segs)"
    by (simp add: pot_def fold_us_emplace_keys)
  have "\<exists>zs. std_sort (lessKeyValue (Some b')) pot = Inr zs \<and> mset zs = mset pot \<and>
      sorted_wrt (\<lambda>x y. \<not> bless b q y x) zs"
    using kn by (intro std_sort_spec bless_strict_weak)
      (simp add: lessKeyValue_known, simp add: b'_def)
  then obtain zs where zs: "std_sort (lessKeyValue (Some b')) pot = Inr zs" "mset zs = mset pot"
    "sorted_wrt (\<lambda>x y. \<not> bless b q y x) zs" by blast
  have st: "set zs = set pot" using zs(2) by (rule mset_eq_setD)
  have wf': "us_wf kid (rev zs)" using wf us_wf_mset [of "rev zs" pot kid] zs(2) by simp
  have "\<forall>k \<in> set (rev zs). known b' k" using kn st by simp
  from Belady_choose_spec [OF this _ wf', of p q "bf_099 F (maxSize p)"] assms(4)
  obtain D where D: "Belady_choose b' p q (rev zs) (bf_099 F (maxSize p)) = Inr D"
    "set D \<subseteq> set (rev zs)" "us_wf kid D" "\<forall>k \<in> set D. nextUse b q k \<noteq> - 1"
    "sum_sizes (size_in (bh_segmentSizeMap b)) D \<le> unat (bf_099 F (maxSize p))"
    "greedy_from (size_in (bh_segmentSizeMap b)) (\<lambda>k. nextUse b q k \<noteq> - 1) (rev zs)
      (unat (bf_099 F (maxSize p))) D"
    by (auto simp: b'_def)
  have "plan_ok F b (maxSize p) q (lastKeys @ segs) D"
    by (rule plan_ok_greedy [OF D(3,2,4,5,6)])
      (use zs(3) st keys in \<open>auto simp: sorted_wrt_rev us_keys_def\<close>)
  moreover have "\<forall>k \<in> set D. known b k" using D(2) kn st by (auto simp: b'_def)
  moreover have "fold (us_emplace kid) D [] = D" using fold_us_emplace_wf [of kid "[]" D] D(3) by simp
  moreover have "getSegmentsInQuery b' q = Inr segs"
    using assms(2) by (simp add: getSegmentsInQuery_def b'_def)
  ultimately show ?thesis
    using zs(1) D(1) unfolding b'_def pot_def
    by (auto simp: Belady_decide_def deref_helper_def setCurrentQueryNum_def Let_def)
qed

text \<open>The whole plan, by induction over the queries that are left.\<close>

definition plan_of :: "BeladyCachingPolicy \<Rightarrow> int \<Rightarrow> SegmentKey list" where
  "plan_of p q = (case um_find id q (queryNumToKeysInCache p) of Some D \<Rightarrow> D | None \<Rightarrow> [])"

definition segs_of :: "BeladyHelper \<Rightarrow> int \<Rightarrow> SegmentKey list" where
  "segs_of b q = (case um_find id q (queryNumToInvolvedSegments b) of Some ks \<Rightarrow> ks | None \<Rightarrow> [])"

lemma segs_of_Some:
  "um_find id q (queryNumToInvolvedSegments b) \<noteq> None \<Longrightarrow>
     um_find id q (queryNumToInvolvedSegments b) = Some (segs_of b q)"
  by (auto simp: segs_of_def)

lemma plan_ok_setCurrent [simp]: "plan_ok F (b\<lparr>currentQueryNum := c\<rparr>) = plan_ok F b"
  by (intro ext) (simp add: plan_ok_def)

lemma segs_of_setCurrent [simp]: "segs_of (b\<lparr>currentQueryNum := c\<rparr>) = segs_of b"
  by (intro ext) (simp add: segs_of_def)

lemma Belady_decide_loop:
  assumes "\<forall>k \<in> set L. known b k" and "segmentSizeMap p = bh_segmentSizeMap b"
    and "\<forall>q \<in> {a..n}. um_find id q (queryNumToInvolvedSegments b) \<noteq> None \<and>
           (\<forall>k \<in> set (segs_of b q). known b k) \<and> um_find id q (queryNumToKeysInCache p) = None"
  shows "\<exists>b' p' L'. rfold (Belady_decide F) [a..n] (Some b, p, L) = Inr (Some b', p', L') \<and>
    maxSize p' = maxSize p \<and> numQueries p' = numQueries p \<and> segmentSizeMap p' = segmentSizeMap p \<and>
    (\<forall>q. q < a \<longrightarrow>
      um_find id q (queryNumToKeysInCache p') = um_find id q (queryNumToKeysInCache p)) \<and>
    (\<forall>q \<in> {a..n}. um_find id q (queryNumToKeysInCache p') = Some (plan_of p' q) \<and>
       plan_ok F b (maxSize p) q ((if q = a then L else plan_of p' (q - 1)) @ segs_of b q) (plan_of p' q))"
  using assms
proof (induction "nat (n + 1 - a)" arbitrary: a b p L)
  case 0
  then have "{a..n} = {}" "[a..n] = []" by auto
  then show ?case by simp
next
  case (Suc m)
  then have an: "a \<le> n" and m: "m = nat (n + 1 - (a + 1))" by auto
  then have up: "[a..n] = a # [a + 1..n]" by (simp add: upto_rec1)
  have "um_find id a (queryNumToInvolvedSegments b) = Some (segs_of b a)"
    "\<forall>k \<in> set (segs_of b a). known b k" "um_find id a (queryNumToKeysInCache p) = None"
    using bspec [OF Suc.prems(3), of a] an segs_of_Some [of a b] by simp_all
  note a = this
  from Belady_decide_spec [OF Suc.prems(1) a(1,2) Suc.prems(2), of F]
  obtain D where D: "Belady_decide F a (Some b, p, L) =
      Inr (Some (b\<lparr>currentQueryNum := a\<rparr>),
           p\<lparr>queryNumToKeysInCache := um_emplace id a D (queryNumToKeysInCache p)\<rparr>, D)"
    "plan_ok F b (maxSize p) a (L @ segs_of b a) D" "\<forall>k \<in> set D. known b k" by blast
  let ?b = "b\<lparr>currentQueryNum := a\<rparr>"
  let ?p = "p\<lparr>queryNumToKeysInCache := um_emplace id a D (queryNumToKeysInCache p)\<rparr>"
  have fnd: "um_find id q (queryNumToKeysInCache ?p)
      = (if q = a then Some D else um_find id q (queryNumToKeysInCache p))" for q
    using a(3) by (auto simp: um_find_emplace um_find_None)
  have "\<exists>b' p' L'. rfold (Belady_decide F) [a + 1..n] (Some ?b, ?p, D) = Inr (Some b', p', L') \<and>
    maxSize p' = maxSize ?p \<and> numQueries p' = numQueries ?p \<and>
    segmentSizeMap p' = segmentSizeMap ?p \<and>
    (\<forall>q. q < a + 1 \<longrightarrow>
      um_find id q (queryNumToKeysInCache p') = um_find id q (queryNumToKeysInCache ?p)) \<and>
    (\<forall>q \<in> {a + 1..n}. um_find id q (queryNumToKeysInCache p') = Some (plan_of p' q) \<and>
       plan_ok F ?b (maxSize ?p) q ((if q = a + 1 then D else plan_of p' (q - 1)) @ segs_of ?b q)
         (plan_of p' q))"
    by (rule Suc.hyps(1) [OF m]) (use D(3) Suc.prems fnd in auto)
  then obtain b' p' L' where r: "rfold (Belady_decide F) [a + 1..n] (Some ?b, ?p, D) = Inr (Some b', p', L')"
    "maxSize p' = maxSize p" "numQueries p' = numQueries p" "segmentSizeMap p' = segmentSizeMap p"
    and lt: "\<forall>q. q < a + 1 \<longrightarrow>
      um_find id q (queryNumToKeysInCache p') = um_find id q (queryNumToKeysInCache ?p)"
    and ge: "\<forall>q \<in> {a + 1..n}. um_find id q (queryNumToKeysInCache p') = Some (plan_of p' q) \<and>
       plan_ok F b (maxSize p) q ((if q = a + 1 then D else plan_of p' (q - 1)) @ segs_of b q)
         (plan_of p' q)" by auto
  have Da: "um_find id a (queryNumToKeysInCache p') = Some D" "plan_of p' a = D"
    using lt fnd [of a] by (simp_all add: plan_of_def)
  have "um_find id q (queryNumToKeysInCache p') = Some (plan_of p' q) \<and>
       plan_ok F b (maxSize p) q ((if q = a then L else plan_of p' (q - 1)) @ segs_of b q) (plan_of p' q)"
    if "q \<in> {a..n}" for q
  proof (cases "q = a")
    case True
    with Da D(2) show ?thesis by simp
  next
    case False
    with that have q: "q \<in> {a + 1..n}" by auto
    moreover have "(if q = a + 1 then D else plan_of p' (q - 1)) = plan_of p' (q - 1)"
      using Da(2) by simp
    ultimately show ?thesis using False bspec [OF ge q] by simp
  qed
  with lt fnd r D(1) up show ?case by auto
qed

lemma generateCacheDecisions_spec:
  assumes "segmentSizeMap p = bh_segmentSizeMap b"
    and "\<forall>q \<in> {1..n}. um_find id q (queryNumToInvolvedSegments b) \<noteq> None \<and>
           (\<forall>k \<in> set (segs_of b q). known b k) \<and> um_find id q (queryNumToKeysInCache p) = None"
    and "um_find id 0 (queryNumToKeysInCache p) = None"
  shows "\<exists>b' p'. generateCacheDecisions F n (h, Some b, p) = Inr (h, Some b', p') \<and>
    maxSize p' = maxSize p \<and> numQueries p' = n \<and> plan_of p' 0 = [] \<and>
    (\<forall>q \<in> {1..n}. um_find id q (queryNumToKeysInCache p') = Some (plan_of p' q) \<and>
       plan_ok F b (maxSize p) q (plan_of p' (q - 1) @ segs_of b q) (plan_of p' q))"
proof -
  have "\<exists>b' p' L'. rfold (Belady_decide F) [1..n] (Some b, p\<lparr>numQueries := n\<rparr>, [])
      = Inr (Some b', p', L') \<and>
    maxSize p' = maxSize (p\<lparr>numQueries := n\<rparr>) \<and> numQueries p' = numQueries (p\<lparr>numQueries := n\<rparr>) \<and>
    segmentSizeMap p' = segmentSizeMap (p\<lparr>numQueries := n\<rparr>) \<and>
    (\<forall>q. q < 1 \<longrightarrow> um_find id q (queryNumToKeysInCache p')
        = um_find id q (queryNumToKeysInCache (p\<lparr>numQueries := n\<rparr>))) \<and>
    (\<forall>q \<in> {1..n}. um_find id q (queryNumToKeysInCache p') = Some (plan_of p' q) \<and>
       plan_ok F b (maxSize (p\<lparr>numQueries := n\<rparr>)) q
         ((if q = 1 then [] else plan_of p' (q - 1)) @ segs_of b q) (plan_of p' q))"
    by (rule Belady_decide_loop) (use assms in auto)
  then obtain b' p' L' where r: "rfold (Belady_decide F) [1..n] (Some b, p\<lparr>numQueries := n\<rparr>, [])
      = Inr (Some b', p', L')" "maxSize p' = maxSize p" "numQueries p' = n"
    and lt: "um_find id 0 (queryNumToKeysInCache p') = um_find id 0 (queryNumToKeysInCache p)"
    and ge: "\<forall>q \<in> {1..n}. um_find id q (queryNumToKeysInCache p') = Some (plan_of p' q) \<and>
       plan_ok F b (maxSize p) q
         ((if q = 1 then [] else plan_of p' (q - 1)) @ segs_of b q) (plan_of p' q)"
    by auto
  have p0: "plan_of p' 0 = []" using lt assms(3) by (simp add: plan_of_def)
  from p0 have e: "(if q = 1 then [] else plan_of p' (q - 1)) = plan_of p' (q - 1)" for q by simp
  from r ge p0 show ?thesis unfolding e by (auto simp: generateCacheDecisions_def)
qed

section \<open>Storing within the plan\<close>

lemma size_check_bound:
  assumes "belady_float_ok F" and "size_check F s pre = Inr ()" and "unat s \<le> 2 ^ 24"
  shows "99 * unat s \<le> 100 * unat pre"
proof (cases "pre < s")
  case False
  then show ?thesis by (simp add: not_less word_le_nat_alt)
next
  case True
  define d where "d = unat s - unat pre"
  have d: "unat (s - pre) = d" "d \<le> 2 ^ 24"
    using True assms(3) by (simp_all add: d_def unat_sub_le)
  have "uint (s - pre) = int d" using d(1) by (metis uint_nat)
  then have "sint (ucast (s - pre) :: int32) = signed_take_bit 31 (int d)"
    by (simp only: signed_ucast_eq) simp
  moreover have "signed_take_bit 31 (int d) = int d"
    using d(2) by (intro signed_take_bit_int_eq_self) auto
  ultimately have "int d \<le> bf_001 F s"
    using assms(2) d(2) by (simp add: size_check_def abs_int_def split: if_splits)
  also have "\<dots> = int (unat s div 100)" using assms(1,3) by (simp add: belady_float_ok_def)
  finally have "d \<le> unat s div 100" by simp
  then show ?thesis by (simp add: d_def)
qed

lemma fold_us_erase:
  "fold (\<lambda>k ks. us_erase kf (kf k) ks) rs xs = filter (\<lambda>x. kf x \<notin> us_keys kf rs) xs"
  by (induction rs arbitrary: xs) (auto simp: us_erase_def intro!: filter_cong)

lemma Belady_collect_spec:
  assumes "\<forall>k \<in> set ks. key_metadata k \<noteq> None"
    and "unat free + sum_sizes (ksize h) ks \<le> unat (m :: size_t)"
  shows "\<exists>f. Belady_collect h plan ks rs free
      = Inr (rs @ filter (\<lambda>k. kid k \<notin> us_keys kid plan) ks, f) \<and>
    unat f = unat free + sum_sizes (ksize h) (filter (\<lambda>k. kid k \<notin> us_keys kid plan) ks)"
  using assms
proof (induction ks arbitrary: rs free)
  case (Cons k ks)
  show ?case
  proof (cases "kid k \<in> us_keys kid plan")
    case True
    with Cons.IH [of free rs] Cons.prems show ?thesis by (simp add: us_find_None)
  next
    case False
    from Cons.prems(1) obtain x where x: "meta h k = Inr x" "md_size x = ksize h k"
      using meta_Some [of k h] by auto
    have a: "unat (free + ksize h k) = unat free + unat (ksize h k)"
      using Cons.prems(2) by (intro unat_add_le [of _ _ m]) simp
    with Cons.IH [of "free + ksize h k" "rs @ [k]"] Cons.prems False x show ?thesis
      by (simp add: us_find_None add.assoc)
  qed
qed simp

text \<open>What an accepted store does to the keys, whatever the accounting.\<close>

lemma Belady_onStore_keys:
  assumes "Belady_onStore F key (h, hb, p) = Inr (r, s')" and "us_wf kid (keysInCache p)"
  shows "\<exists>p'. s' = (h, hb, p') \<and> us_wf kid (keysInCache p') \<and>
    (case r of None \<Rightarrow> p' = p
     | Some rs \<Rightarrow> us_keys kid (keysInCache p')
         = insert (kid key) (us_keys kid (keysInCache p) - us_keys kid rs))"
proof -
  from assms(1) have "r = None \<and> s' = (h, hb, p) \<or>
      (\<exists>f. r = Some [] \<and> s' = (h, hb, p\<lparr>keysInCache := us_emplace kid key (keysInCache p),
        freeSize := f\<rparr>)) \<or>
      (\<exists>f rs. r = Some rs \<and>
         s' = (h, hb, p\<lparr>keysInCache := us_emplace kid key
            (fold (\<lambda>k ks. us_erase kid (kid k) ks) rs (keysInCache p)),
          freeSize := f\<rparr>))"
    by (auto simp: Belady_onStore_def result_simps Let_def split: if_splits prod.splits)
  moreover have "us_wf kid (us_emplace kid key xs)" if "us_wf kid xs" for xs
    using that by (rule us_wf_emplace)
  moreover have "us_keys kid (filter (\<lambda>x. kid x \<notin> us_keys kid rs) xs) = us_keys kid xs - us_keys kid rs"
    for rs xs by (auto simp: us_keys_def)
  ultimately show ?thesis
    using assms(2) by (auto simp: us_keys_emplace fold_us_erase us_wf_filter)
qed

fun Belady_wf :: "'d belady_state \<Rightarrow> bool" where
  "Belady_wf (h, hb, p) \<longleftrightarrow> us_wf kid (keysInCache p)"

lemma Belady_vtable_sel [simp]:
  "vt_onLoad (Belady_vtable F) = Belady_onLoad" "vt_onStore (Belady_vtable F) = Belady_onStore F"
  "vt_onNewQuery (Belady_vtable F) = Belady_onNewQuery"
  "vt_getKeysetInCachePolicy (Belady_vtable F) = Belady_getKeysetInCachePolicy"
  "vt_onToCache (Belady_vtable F) = Belady_onToCache"
  by (simp_all add: Belady_vtable_def)

interpretation belady: caching_policy "Belady_vtable F" Belady_wf for F
proof (unfold_locales, goal_cases)
  case (1 s k s')
  then show ?case by (simp add: Belady_onLoad_def)
next
  case (2 s k s')
  obtain h hb p where s: "s = (h, hb, p)" by (cases s)
  from Belady_onStore_keys [of F k h hb p None s'] 2 show ?case
    by (auto simp: s Belady_getKeysetInCachePolicy_def)
next
  case (3 s k rs s')
  obtain h hb p where s: "s = (h, hb, p)" by (cases s)
  from Belady_onStore_keys [of F k h hb p "Some rs" s'] 3 show ?case
    by (auto simp: s Belady_getKeysetInCachePolicy_def)
next
  case (4 s)
  then show ?case by (simp add: Belady_onNewQuery_def)
next
  case (5 s ks ks' s')
  obtain h hb p where s: "s = (h, hb, p)" by (cases s)
  from 5 show ?case
    by (auto simp: s Belady_onToCache_def result_simps intro: subseq_map subseq_filter_left)
qed

text \<open>
  The accounting: the sizes of the cached keys and the free size add up to the capacity, and every
  cached key is at most about one percent larger than its precomputed size.
\<close>

fun Belady_acc :: "'d belady_state \<Rightarrow> bool" where
  "Belady_acc (h, hb, p) \<longleftrightarrow>
     us_wf kid (keysInCache p) \<and>
     (\<forall>k \<in> set (keysInCache p). key_metadata k \<noteq> None \<and>
        99 * unat (ksize h k) \<le> 100 * unat (size_in (segmentSizeMap p) k)) \<and>
     unat (freeSize p) + sum_sizes (ksize h) (keysInCache p) = unat (maxSize p)"

definition plans_fit :: "belady_float \<Rightarrow> BeladyCachingPolicy \<Rightarrow> bool" where
  "plans_fit F p \<longleftrightarrow>
     (\<forall>(q, D) \<in> set (queryNumToKeysInCache p). us_wf kid D \<and>
        sum_sizes (size_in (segmentSizeMap p)) D \<le> unat (bf_099 F (maxSize p)))"

lemma sum_sizes_ratio:
  "(\<forall>k \<in> set ks. 99 * unat (f k) \<le> 100 * unat (g k)) \<Longrightarrow> 99 * sum_sizes f ks \<le> 100 * sum_sizes g ks"
  by (induction ks) auto

text \<open>Keys within a plan fit into the cache, with their actual sizes.\<close>

lemma planned_keys_fit:
  assumes F: "belady_float_ok F" and "unat (maxSize p) \<le> 2 ^ 40"
    and "us_wf kid D" and "sum_sizes (size_in (segmentSizeMap p)) D \<le> unat (bf_099 F (maxSize p))"
    and "us_wf kid ks" and "us_keys kid ks \<subseteq> us_keys kid D"
    and "\<forall>k \<in> set ks. 99 * unat (ksize h k) \<le> 100 * unat (size_in (segmentSizeMap p) k)"
  shows "sum_sizes (ksize h) ks \<le> unat (maxSize p)"
proof -
  have "99 * sum_sizes (ksize h) ks \<le> 100 * sum_sizes (size_in (segmentSizeMap p)) ks"
    using assms(7) by (rule sum_sizes_ratio)
  moreover have "sum_sizes (size_in (segmentSizeMap p)) ks \<le> sum_sizes (size_in (segmentSizeMap p)) D"
    unfolding size_in_kid using assms(5,3,6) by (rule sum_sizes_mono_keys)
  moreover have "100 * unat (bf_099 F (maxSize p)) \<le> 99 * unat (maxSize p)"
    using F assms(2) by (simp add: belady_float_ok_def)
  ultimately show ?thesis using assms(4) by linarith
qed

lemma Belady_acc_insert:
  assumes "us_wf kid ks" and "kid key \<notin> us_keys kid ks" and "unat f + sum_sizes (ksize h) ks = unat (maxSize p)"
    and "\<forall>k \<in> insert key (set ks). key_metadata k \<noteq> None \<and>
        99 * unat (ksize h k) \<le> 100 * unat (size_in (segmentSizeMap p) k)"
    and "ksize h key \<le> f"
  shows "Belady_acc (h, hb, p\<lparr>keysInCache := us_emplace kid key ks, freeSize := f - ksize h key\<rparr>)"
proof -
  have "us_emplace kid key ks = ks @ [key]"
    using assms(2) by (simp add: us_emplace_def us_find_None)
  moreover have "us_wf kid (ks @ [key])"
    using assms(1,2) by (auto simp: us_wf_def us_keys_def)
  moreover have "unat (f - ksize h key) + unat (ksize h key) = unat f"
    using assms(5) by (simp add: unat_sub_le word_le_nat_alt)
  ultimately show ?thesis using assms(3,4) by auto
qed

lemma Belady_onStore_acc:
  assumes F: "belady_float_ok F" and mx: "unat (maxSize p) \<le> 2 ^ 40" and pf: "plans_fit F p"
    and acc: "Belady_acc (h, Some b, p)" and new: "kid key \<notin> us_keys kid (keysInCache p)"
    and md: "key_metadata key \<noteq> None" and s24: "unat (ksize h key) \<le> 2 ^ 24"
    and pre: "um_find kid (kid key) (segmentSizeMap p) = Some pre"
    and chk: "size_check F (ksize h key) pre = Inr ()"
    and plan: "um_find id (currentQueryNum b) (queryNumToKeysInCache p) = Some D"
  shows "\<exists>r p'. Belady_onStore F key (h, Some b, p) = Inr (r, (h, Some b, p')) \<and>
    Belady_acc (h, Some b, p') \<and>
    (r = None \<longleftrightarrow> maxSize p < ksize h key \<or> kid key \<notin> us_keys kid D)"
proof -
  obtain m where m: "meta h key = Inr m" "md_size m = ksize h key" using meta_Some [OF md] by blast
  have sz: "getSegmentSize p key = Inr pre" using pre by (simp add: getSegmentSize_def)
  have pl: "planned pr p (getCurrentQueryNum b) = Inr D" for pr
    using plan by (simp add: planned_def getCurrentQueryNum_def)
  have D: "us_wf kid D" "sum_sizes (size_in (segmentSizeMap p)) D \<le> unat (bf_099 F (maxSize p))"
    using pf um_find_Some [OF plan] by (auto simp: plans_fit_def)
  have kb: "99 * unat (ksize h key) \<le> 100 * unat (size_in (segmentSizeMap p) key)"
    using size_check_bound [OF F chk s24] pre by (simp add: size_in_def)
  have acc': "us_wf kid (keysInCache p)"
    "\<forall>k \<in> set (keysInCache p). key_metadata k \<noteq> None \<and>
        99 * unat (ksize h k) \<le> 100 * unat (size_in (segmentSizeMap p) k)"
    "unat (freeSize p) + sum_sizes (ksize h) (keysInCache p) = unat (maxSize p)"
    using acc by auto
  show ?thesis
  proof (cases "maxSize p < ksize h key \<or> kid key \<notin> us_keys kid D")
    case True
    then show ?thesis
      using m sz chk pl acc by (auto simp: Belady_onStore_def deref_helper_def us_find_None)
  next
    case no: False
    show ?thesis
    proof (cases "ksize h key < freeSize p")
      case True
      have "Belady_acc (h, Some b, p\<lparr>keysInCache := us_emplace kid key (keysInCache p),
          freeSize := freeSize p - ksize h key\<rparr>)"
        by (rule Belady_acc_insert) (use acc' new md kb True in auto)
      then show ?thesis
        using m sz chk pl no True by (simp add: Belady_onStore_def deref_helper_def us_find_None)
    next
      case False
      let ?P = "\<lambda>k. kid k \<notin> us_keys kid D"
      let ?kept = "filter (\<lambda>k. \<not> ?P k) (keysInCache p)"
      obtain f where f: "Belady_collect h D (keysInCache p) [] (freeSize p) = Inr (filter ?P (keysInCache p), f)"
        "unat f = unat (freeSize p) + sum_sizes (ksize h) (filter ?P (keysInCache p))"
        using Belady_collect_spec [of "keysInCache p" "freeSize p" h "maxSize p" D "[]"] acc' by auto
      have kept: "fold (\<lambda>k ks. us_erase kid (kid k) ks) (filter ?P (keysInCache p)) (keysInCache p) = ?kept"
        unfolding fold_us_erase by (intro filter_cong) (auto simp: us_keys_def)
      have bal: "unat f + sum_sizes (ksize h) ?kept = unat (maxSize p)"
        using f(2) acc'(3) sum_sizes_filter_compl [of "ksize h" ?P "keysInCache p"] by simp
      have nk: "kid key \<notin> us_keys kid ?kept" using new by (auto simp: us_keys_def)
      have "sum_sizes (ksize h) (key # ?kept) \<le> unat (maxSize p)"
        by (rule planned_keys_fit [OF F mx D])
          (use no nk acc' kb in \<open>auto simp: us_wf_filter us_keys_def\<close>)
      then have le: "ksize h key \<le> f" using bal by (simp add: word_le_nat_alt)
      have "Belady_acc (h, Some b, p\<lparr>keysInCache := us_emplace kid key ?kept,
          freeSize := f - ksize h key\<rparr>)"
        by (rule Belady_acc_insert [OF _ nk bal _ le]) (use acc' md kb in \<open>auto simp: us_wf_filter\<close>)
      then show ?thesis
        using m sz chk pl no False f(1) kept
        by (simp add: Belady_onStore_def deref_helper_def us_find_None)
    qed
  qed
qed

section \<open>Properties\<close>

text \<open>An instance: two queries, the first over \<open>x\<close> and \<open>y\<close>, the second over \<open>x\<close>, in 100 bytes.\<close>

definition sample_float :: belady_float where
  "sample_float = \<lparr>bf_099 = (\<lambda>m. of_nat (unat m * 99 div 100)), bf_001 = (\<lambda>s. int (unat s div 100))\<rparr>"

definition sample_sizes :: "(SegmentKey \<times> size_t) list" where
  "sample_sizes = [(sample_key 0 ''x'', 10), (sample_key 1 ''y'', 20)]"

definition sample_helper :: BeladyHelper where
  "sample_helper =
     addToSegmentQueryNumMappings 2 (sample_key 0 ''x'')
       (addToSegmentQueryNumMappings 1 (sample_key 1 ''y'')
         (addToSegmentQueryNumMappings 1 (sample_key 0 ''x'')
           \<lparr>bh_segmentSizeMap = sample_sizes, queryNumToInvolvedSegments = [],
            segmentKeysToInvolvedQueryNums = [], currentQueryNum = 1\<rparr>))"

definition sample_belady :: BeladyCachingPolicy where
  "sample_belady = \<lparr>policyType = BELADY, maxSize = 100, freeSize = 100, segmentSizeMap = sample_sizes,
     keysInCache = [], queryNumToKeysInCache = [], numQueries = 0\<rparr>"

lemma sample_helper_eval: "sample_helper =
  \<lparr>bh_segmentSizeMap = sample_sizes,
   queryNumToInvolvedSegments = [(1, [sample_key 0 ''x'', sample_key 1 ''y'']), (2, [sample_key 0 ''x''])],
   segmentKeysToInvolvedQueryNums = [(sample_key 0 ''x'', [1, 2]), (sample_key 1 ''y'', [1])],
   currentQueryNum = 1\<rparr>"
  by (simp add: sample_helper_def addToSegmentQueryNumMappings_def um_find_def us_find_def
      um_emplace_def us_emplace_def um_assign_def)

lemma sample_known: "known sample_helper (sample_key 0 ''x'')" "known sample_helper (sample_key 1 ''y'')"
  by (simp_all add: known_def sample_helper_eval sample_sizes_def)

lemma sample_float_ok: "belady_float_ok sample_float"
proof -
  have "unat (of_nat (unat m * 99 div 100) :: size_t) = unat m * 99 div 100" for m :: size_t
  proof -
    have "unat m * 99 div 100 \<le> unat m" by simp
    also have "unat m < 2 ^ LENGTH(64)" by (rule unsigned_less)
    finally show ?thesis by (simp only: unat_of_nat mod_less)
  qed
  moreover have "100 * (unat m * 99 div 100) \<le> 99 * unat m" for m :: size_t
    using times_div_less_eq_dividend [of 100 "unat m * 99"] by simp
  ultimately show ?thesis by (simp add: belady_float_ok_def sample_float_def)
qed

text \<open>What the sample helper plans: \<open>x\<close>, which query 2 uses again, for query 1.\<close>

lemma sample_registered:
  "\<forall>q \<in> {1..2}. um_find id q (queryNumToInvolvedSegments sample_helper) \<noteq> None \<and>
     (\<forall>k \<in> set (segs_of sample_helper q). known sample_helper k)"
proof -
  have "{1..2} = {1, 2 :: int}" by auto
  then show ?thesis
    using sample_known by (simp add: segs_of_def um_find_def us_find_def sample_helper_eval)
qed

text \<open>
  C3.  \<open>generateCacheDecisions\<close>, when every query is registered and all its segments have a known
  size, never throws and plans every query: the keys planned for a query come from those planned for
  the query before and those the query uses; each is used again later; their precomputed sizes add up
  to at most 99 percent of the capacity (a capacity of at most a terabyte, so that the floating-point
  product is exact enough); and every candidate that is used again but not planned would not have
  fitted beside the planned keys that are at least as valuable (next used no later, and at equal next
  use no smaller).
\<close>

theorem generateCacheDecisions_greedy_plan:
  assumes "belady_float_ok F" and "unat (maxSize p) \<le> 2 ^ 40"
    and "segmentSizeMap p = bh_segmentSizeMap b"
    and "\<forall>q \<in> {1..n}. um_find id q (queryNumToInvolvedSegments b) \<noteq> None \<and>
           (\<forall>k \<in> set (segs_of b q). known b k)"
    and "queryNumToKeysInCache p = []"
  shows "\<exists>b' p'. generateCacheDecisions F n (h, Some b, p) = Inr (h, Some b', p') \<and>
    maxSize p' = maxSize p \<and> numQueries p' = n \<and> plan_of p' 0 = [] \<and>
    (\<forall>q \<in> {1..n}. um_find id q (queryNumToKeysInCache p') = Some (plan_of p' q) \<and>
       100 * sum_sizes (size_in (segmentSizeMap p)) (plan_of p' q) \<le> 99 * unat (maxSize p) \<and>
       plan_ok F b (maxSize p) q (plan_of p' (q - 1) @ segs_of b q) (plan_of p' q))"
proof -
  have "um_find id 0 (queryNumToKeysInCache p) = None" "um_find id q (queryNumToKeysInCache p) = None" for q
    using assms(5) by (simp_all add: um_find_None)
  with generateCacheDecisions_spec [of p b n F h] assms(3,4) obtain b' p' where
    g: "generateCacheDecisions F n (h, Some b, p) = Inr (h, Some b', p')" "maxSize p' = maxSize p" "numQueries p' = n"
      "plan_of p' 0 = []"
      "\<forall>q \<in> {1..n}. um_find id q (queryNumToKeysInCache p') = Some (plan_of p' q) \<and>
         plan_ok F b (maxSize p) q (plan_of p' (q - 1) @ segs_of b q) (plan_of p' q)" by auto
  have "100 * sum_sizes (size_in (segmentSizeMap p)) D \<le> 99 * unat (maxSize p)"
    if "plan_ok F b (maxSize p) q cand D" for q cand D
  proof -
    from that assms(3) have "sum_sizes (size_in (segmentSizeMap p)) D \<le> unat (bf_099 F (maxSize p))"
      by (simp add: plan_ok_def)
    moreover have "100 * unat (bf_099 F (maxSize p)) \<le> 99 * unat (maxSize p)"
      using assms(1,2) by (simp add: belady_float_ok_def)
    ultimately show ?thesis by linarith
  qed
  with g show ?thesis by blast
qed

theorem generateCacheDecisions_greedy_plan_witness:
  "\<exists>b' p'. generateCacheDecisions sample_float 2 (sample_heap, Some sample_helper, sample_belady)
     = Inr (sample_heap, Some b', p') \<and>
     kid (sample_key 0 ''x'') \<in> us_keys kid (plan_of p' 1) \<and> kid (sample_key 1 ''y'') \<notin> us_keys kid (plan_of p' 1) \<and>
     100 * sum_sizes (size_in sample_sizes) (plan_of p' 1) \<le> 9900"
proof -
  let ?x = "sample_key 0 ''x''" and ?y = "sample_key 1 ''y''" and ?sz = "size_in sample_sizes"
  have p: "maxSize sample_belady = 100" "segmentSizeMap sample_belady = sample_sizes"
      "bh_segmentSizeMap sample_helper = sample_sizes" "queryNumToKeysInCache sample_belady = []"
    by (simp_all add: sample_belady_def sample_helper_eval)
  have "unat (maxSize sample_belady) \<le> 2 ^ 40" "segmentSizeMap sample_belady = bh_segmentSizeMap sample_helper"
    by (simp_all add: p)
  from generateCacheDecisions_greedy_plan [OF sample_float_ok this sample_registered p(4), of sample_heap]
  obtain b' p' where g: "generateCacheDecisions sample_float 2 (sample_heap, Some sample_helper, sample_belady)
      = Inr (sample_heap, Some b', p')" "plan_of p' 0 = []"
    and all: "\<forall>q \<in> {1..2}. 100 * sum_sizes ?sz (plan_of p' q) \<le> 99 * unat (100 :: size_t) \<and>
      plan_ok sample_float sample_helper 100 q (plan_of p' (q - 1) @ segs_of sample_helper q) (plan_of p' q)"
    unfolding p by (elim exE conjE) (rule that, assumption+, blast)
  have "(1 :: int) \<in> {1..2}" by simp
  note D = conjunct1 [OF bspec [OF all this]] conjunct2 [OF bspec [OF all this]]
  let ?D = "plan_of p' 1"
  have segs: "plan_of p' (1 - 1) @ segs_of sample_helper 1 = [?x, ?y]"
    by (simp add: segs_of_def sample_helper_eval um_find_def us_find_def g(2))
  have next_use: "nextUse sample_helper 1 ?x = 2" "nextUse sample_helper 1 ?y = - 1"
    by (simp_all add: nextUse_def sample_helper_eval um_find_def us_find_def)
  have x: "?sz ?x = 10" by (simp add: size_in_def sample_sizes_def um_find_def us_find_def)
  have y: "kid ?y \<notin> us_keys kid ?D"
  proof
    assume "kid ?y \<in> us_keys kid ?D"
    then obtain k where "k \<in> set ?D" "kid k = kid ?y" by (auto simp: us_keys_def)
    with D(2) next_use(2) nextUse_kid [of k ?y sample_helper 1] show False by (auto simp: plan_ok_def)
  qed
  have "?D \<noteq> []"
  proof
    assume "?D = []"
    with D(2) [unfolded segs] next_use x show False by (simp add: plan_ok_def p sample_float_def)
  qed
  then obtain k where "k \<in> set ?D" by (cases ?D) auto
  then have "kid k \<in> us_keys kid ?D" by (simp add: us_keys_def)
  moreover from this D(2) have "kid k \<in> us_keys kid [?x, ?y]" unfolding plan_ok_def segs by blast
  ultimately have "kid ?x \<in> us_keys kid ?D" using y by (auto simp: us_keys_def)
  with g(1) D(1) y show ?thesis by auto
qed

text \<open>
  C6.  Storing under a plan never overcommits the cache.  With segments of at most 16 MB, a capacity
  of at most a terabyte and a plan within 99 percent of it, a store of a segment the cache does not
  hold and whose size passed the one-percent check never throws; it is refused exactly if the segment
  is larger than the cache or not planned for the query; and afterwards the free size and the sizes
  of the cached segments again add up to the capacity, so that no subtraction of sizes wrapped.
\<close>

theorem Belady_store_never_overcommits:
  assumes "belady_float_ok F" and "unat (maxSize p) \<le> 2 ^ 40" and "plans_fit F p"
    and "Belady_acc (h, Some b, p)" and "kid key \<notin> us_keys kid (keysInCache p)"
    and "key_metadata key \<noteq> None" and "unat (ksize h key) \<le> 2 ^ 24"
    and "um_find kid (kid key) (segmentSizeMap p) = Some pre"
    and "size_check F (ksize h key) pre = Inr ()"
    and "um_find id (currentQueryNum b) (queryNumToKeysInCache p) = Some D"
  shows "\<exists>r p'. Belady_onStore F key (h, Some b, p) = Inr (r, (h, Some b, p')) \<and>
    Belady_acc (h, Some b, p') \<and>
    (r = None \<longleftrightarrow> maxSize p < ksize h key \<or> kid key \<notin> us_keys kid D)"
  by (rule Belady_onStore_acc [OF assms])

theorem Belady_store_never_overcommits_witness:
  "\<exists>r p'. Belady_onStore sample_float (sample_key 0 ''x'')
      (sample_heap, Some sample_helper,
       sample_belady\<lparr>queryNumToKeysInCache := [(1, [sample_key 0 ''x''])]\<rparr>)
     = Inr (r, (sample_heap, Some sample_helper, p')) \<and>
     Belady_acc (sample_heap, Some sample_helper, p') \<and> r \<noteq> None"
proof -
  let ?p = "sample_belady\<lparr>queryNumToKeysInCache := [(1, [sample_key 0 ''x''])]\<rparr>"
  have "\<exists>r p'. Belady_onStore sample_float (sample_key 0 ''x'') (sample_heap, Some sample_helper, ?p)
      = Inr (r, (sample_heap, Some sample_helper, p')) \<and>
    Belady_acc (sample_heap, Some sample_helper, p') \<and>
    (r = None \<longleftrightarrow> maxSize ?p < ksize sample_heap (sample_key 0 ''x'') \<or>
       kid (sample_key 0 ''x'') \<notin> us_keys kid [sample_key 0 ''x''])"
    by (rule Belady_store_never_overcommits [OF sample_float_ok, where pre = 10])
      (simp_all add: sample_belady_def plans_fit_def sample_sizes_def size_in_def um_find_def
        us_find_def sample_float_def size_check_def abs_int_def sample_helper_eval)
  then show ?thesis by (auto simp: sample_belady_def)
qed

text \<open>
  The life of a cache under this policy: the operations of the cache, the planning of a number of
  queries, and the move of the helper to another current query, which the program that drives the
  queries does between them.
\<close>

inductive belady_step ::
  "belady_float \<Rightarrow> ('d belady_state, 'c) SegmentCache \<Rightarrow> ('d belady_state, 'c) SegmentCache \<Rightarrow> bool"
  for F where
  cache: "cache_step (Belady_vtable F) c c' \<Longrightarrow> belady_step F c c'"
| plan: "generateCacheDecisions F n (cachingPolicy c) = Inr s \<Longrightarrow>
    belady_step F c (c\<lparr>cachingPolicy := s\<rparr>)"
| query: "cachingPolicy c = (h, Some b, p) \<Longrightarrow>
    belady_step F c (c\<lparr>cachingPolicy := (h, Some (setCurrentQueryNum q b), p)\<rparr>)"

inductive belady_reachable ::
  "belady_float \<Rightarrow> ('d belady_state, 'c) SegmentCache \<Rightarrow> ('d belady_state, 'c) SegmentCache \<Rightarrow> bool"
  for F c0 where
  start: "belady_reachable F c0 c0"
| step: "belady_reachable F c0 c \<Longrightarrow> belady_step F c c' \<Longrightarrow> belady_reachable F c0 c'"

lemma Belady_decide_keys:
  "Belady_decide F q (hb, p, L) = Inr (hb', p', L') \<Longrightarrow> keysInCache p' = keysInCache p"
  by (auto simp: Belady_decide_def result_simps Let_def)

lemma generateCacheDecisions_keys:
  assumes "generateCacheDecisions F n (h, hb, p) = Inr s"
  shows "\<exists>hb' p'. s = (h, hb', p') \<and> keysInCache p' = keysInCache p"
proof -
  have "rfold (Belady_decide F) qs (hb, p, L) = Inr (hb', p', L') \<Longrightarrow> keysInCache p' = keysInCache p"
    for qs hb p L hb' p' L'
  proof (induction qs arbitrary: hb p L)
    case (Cons q qs)
    then show ?case
      by (auto simp: result_simps dest: Belady_decide_keys)
  qed simp
  from this [of "[1..n]" hb "p\<lparr>numQueries := n\<rparr>" "[]"] assms show ?thesis
    by (auto simp: generateCacheDecisions_def result_simps)
qed

text \<open>Planning and moving to another query leave the keys of the policy alone.\<close>

lemma belady_step_good:
  assumes "belady_step F c c'" and "belady.good F c"
  shows "belady.good F c'"
  using assms
proof (induction rule: belady_step.induct)
  case (cache c c')
  then show ?case by (rule belady.good_step)
next
  case (plan n c s)
  obtain h hb p where c: "cachingPolicy c = (h, hb, p)" by (cases "cachingPolicy c")
  with plan(1) have "generateCacheDecisions F n (h, hb, p) = Inr s" by simp
  from generateCacheDecisions_keys [OF this] obtain hb' p' where "s = (h, hb', p')" "keysInCache p' = keysInCache p"
    by blast
  with plan(2) c show ?case by (simp add: belady.good_def cache_agrees_def Belady_getKeysetInCachePolicy_def)
next
  case (query c h b p q)
  then show ?case by (simp add: belady.good_def cache_agrees_def Belady_getKeysetInCachePolicy_def)
qed

lemma belady_reachable_good: "belady_reachable F c0 c \<Longrightarrow> belady.good F c0 \<Longrightarrow> belady.good F c"
  by (induction rule: belady_reachable.induct) (auto intro: belady_step_good)

text \<open>
  C9.  A segment cache with Belady's policy passes the program's consistency check, that is, cache and
  policy hold the same keys, after any sequence of loads, stores of segments the cache does not hold,
  \<open>toCache\<close> filters, new queries, plans and changes of the current query from the empty cache.
  The witness plans two queries, stores the planned segment and ends with it in the cache.
\<close>

theorem Belady_cache_run_consistent:
  assumes "Belady_make h hb base = Inr s"
    and "belady_reachable F (SegmentCache_make s) c"
  shows "checkCacheConsistencyWithCachePolicy (Belady_vtable F) c = Inr ()"
proof -
  obtain b p where "s = (h, Some b, p)" "keysInCache p = []"
    using assms(1) by (auto simp: Belady_make_def result_simps)
  then have "belady.good F (SegmentCache_make s)"
    by (intro belady.good_make) (simp_all add: Belady_getKeysetInCachePolicy_def)
  with belady_reachable_good [OF assms(2)] show ?thesis by (blast intro: belady.good_consistent)
qed

lemma sample_plan:
  "generateCacheDecisions sample_float 2 (h, Some sample_helper, sample_belady) =
     Inr (h, Some (sample_helper\<lparr>currentQueryNum := 2\<rparr>),
       sample_belady\<lparr>numQueries := 2, queryNumToKeysInCache := [(1, [sample_key 0 ''x'']), (2, [])]\<rparr>)"
proof -
  have "rfold (Belady_decide sample_float) [1..2] (Some sample_helper, sample_belady\<lparr>numQueries := 2\<rparr>, []) =
    Inr (Some (sample_helper\<lparr>currentQueryNum := 2\<rparr>),
      sample_belady\<lparr>numQueries := 2, queryNumToKeysInCache := [(1, [sample_key 0 ''x'']), (2, [])]\<rparr>, [])"
    by (simp add: upto.simps Belady_decide_def deref_helper_def setCurrentQueryNum_def getSegmentsInQuery_def
        sample_helper_eval um_find_def us_find_def us_emplace_def um_emplace_def lessKeyValue_def getCurrentQueryNum_def
        querySegmentNextUsedIn_def getSegmentSize_def sample_belady_def sample_sizes_def sample_float_def)
  then show ?thesis by (simp add: generateCacheDecisions_def)
qed

text \<open>The segment \<open>x\<close> is stored when the helper has moved back to query 1.\<close>

theorem Belady_cache_run_consistent_witness:
  "\<exists>c. belady_reachable sample_float (SegmentCache_make (sample_heap, Some sample_helper, sample_belady)) c \<and>
     um_find kid (kid (sample_key 0 ''x'')) (cacheMap c) = Some (7 :: nat) \<and>
     checkCacheConsistencyWithCachePolicy (Belady_vtable sample_float) c = Inr ()"
proof -
  let ?x = "sample_key 0 ''x''" and ?c0 = "SegmentCache_make (sample_heap, Some sample_helper, sample_belady)"
  let ?base = "\<lparr>policyType = BELADY, maxSize = 100, freeSize = 100, segmentSizeMap = sample_sizes\<rparr>"
  let ?p = "sample_belady\<lparr>numQueries := 2, queryNumToKeysInCache := [(1, [?x]), (2, [])]\<rparr>"
  let ?s1 = "(sample_heap, Some (sample_helper\<lparr>currentQueryNum := 2\<rparr>), ?p)"
  let ?s2 = "(sample_heap, Some (setCurrentQueryNum 1 (sample_helper\<lparr>currentQueryNum := 2\<rparr>)), ?p)"
  let ?s3 = "(sample_heap, Some (setCurrentQueryNum 1 (sample_helper\<lparr>currentQueryNum := 2\<rparr>)),
    ?p\<lparr>keysInCache := [?x], freeSize := 90\<rparr>)"
  have make: "Belady_make sample_heap (Some sample_helper) ?base = Inr (sample_heap, Some sample_helper, sample_belady)"
    by (simp add: Belady_make_def deref_helper_def bh_setSegmentSizeMap_def sample_helper_eval sample_belady_def)
  have plan: "belady_step sample_float ?c0 (?c0\<lparr>cachingPolicy := ?s1\<rparr>)"
    by (rule belady_step.plan [where n = 2]) (simp add: SegmentCache_make_def sample_plan)
  have query: "belady_step sample_float (?c0\<lparr>cachingPolicy := ?s1\<rparr>) (?c0\<lparr>cachingPolicy := ?s1\<rparr>\<lparr>cachingPolicy := ?s2\<rparr>)"
    by (rule belady_step.query) simp
  have "Belady_onStore sample_float ?x ?s2 = Inr (Some [], ?s3)"
    by (simp add: Belady_onStore_def getSegmentSize_def size_check_def abs_int_def deref_helper_def planned_def
        getCurrentQueryNum_def setCurrentQueryNum_def sample_belady_def sample_sizes_def um_find_def us_find_def
        us_emplace_def sample_float_def SegmentMetadata_make_def)
  then have "SegmentCache_store (Belady_vtable sample_float) ?x 7 (?c0\<lparr>cachingPolicy := ?s1\<rparr>\<lparr>cachingPolicy := ?s2\<rparr>) =
      Inr (?c0\<lparr>cachingPolicy := ?s3, cacheMap := [(?x, 7 :: nat)]\<rparr>)"
    by (simp add: SegmentCache_store_def SegmentCache_make_def erase_all_def um_emplace_def us_emplace_def us_find_def)
  then have store: "belady_step sample_float (?c0\<lparr>cachingPolicy := ?s1\<rparr>\<lparr>cachingPolicy := ?s2\<rparr>)
      (?c0\<lparr>cachingPolicy := ?s3, cacheMap := [(?x, 7 :: nat)]\<rparr>)"
    by (intro belady_step.cache cache_step.store) (simp_all add: SegmentCache_make_def us_keys_def)
  have run: "belady_reachable sample_float ?c0 (?c0\<lparr>cachingPolicy := ?s3, cacheMap := [(?x, 7 :: nat)]\<rparr>)"
    by (intro belady_reachable.step [OF _ store] belady_reachable.step [OF _ query] belady_reachable.step [OF _ plan]
        belady_reachable.start)
  from Belady_cache_run_consistent [OF make run] run show ?thesis
    by (intro exI [of _ "?c0\<lparr>cachingPolicy := ?s3, cacheMap := [(?x, 7 :: nat)]\<rparr>"])
      (simp add: um_find_def us_find_def)
qed

text \<open>
  The comparison \<open>lessKeyValue\<close> that the plan sorts by is, on keys the helper knows, total (the
  branch the code calls unreachable is), asymmetric and negatively transitive: a strict weak order, as
  \<^verbatim>\<open>std::sort\<close> requires.
\<close>

theorem lessKeyValue_strict_weak_order:
  assumes "\<forall>k \<in> K. known b k"
  shows "(\<forall>x \<in> K. \<forall>y \<in> K. \<exists>r. lessKeyValue (Some b) x y = Inr r) \<and>
    strict_weak (\<lambda>x y. lessKeyValue (Some b) x y = Inr True) K"
proof -
  have "lessKeyValue (Some b) x y = Inr (bless b (currentQueryNum b) x y)" if "x \<in> K" "y \<in> K" for x y
    using assms that by (intro lessKeyValue_known) auto
  note eq = this
  have "strict_weak (\<lambda>x y. lessKeyValue (Some b) x y = Inr True) K
      \<longleftrightarrow> strict_weak (bless b (currentQueryNum b)) K"
    by (rule strict_weak_cong) (simp add: eq)
  then show ?thesis using bless_strict_weak eq by blast
qed

theorem lessKeyValue_strict_weak_order_witness:
  "strict_weak (\<lambda>x y. lessKeyValue (Some sample_helper) x y = Inr True)
     {sample_key 0 ''x'', sample_key 1 ''y''}"
  using lessKeyValue_strict_weak_order [of "{sample_key 0 ''x'', sample_key 1 ''y''}" sample_helper]
    sample_known by simp

end
