(* ===== verification/Cache_Actor.thy ===== *)
theory Cache_Actor
  imports LRU_Policy Belady_Policy
begin

text \<open>
  The actor that owns the segment cache (\<^verbatim>\<open>fpdb-executor/src/cache/SegmentCacheActor.cpp\<close>).  The
  requests it handles are the constructors of \<open>cache_request\<close>, one for each atom of its behaviour with
  the fields of the message; a handler returns the reply, if any, and the new state.  The cache is called
  through the vtable of its policy.  \<open>onWeight\<close> of the W-LFU policy and the type of a policy are
  arguments.

  The actor refines the machine of \<open>Segment_Cache\<close>: each request is a sequence of cache steps, provided
  its stores are of segments that are not cached.  Nothing in the source enforces that proviso; the last
  section shows what a second store of a segment does.
\<close>

section \<open>Requests and replies\<close>

datatype ModeId = PULL_UP | PUSHDOWN_ONLY | CACHING_ONLY | HYBRID

datatype ('c, 'w) cache_request =
    LoadSegments "SegmentKey list"
  | StoreSegments "(SegmentKey \<times> 'c) list"
  | WeightSegments "(SegmentKey \<times> 'w) list"
  | NewQuery
  | GetNumHits
  | GetNumMisses
  | GetNumShardHits
  | GetNumShardMisses
  | GetCrtQueryNumHits
  | GetCrtQueryNumMisses
  | GetCrtQueryNumShardHits
  | GetCrtQueryNumShardMisses
  | ClearMetrics
  | CacheMetrics size_t size_t size_t size_t

datatype 'c cache_reply =
    NoReply
  | SegmentsLoaded "(SegmentKey \<times> 'c) list" string "SegmentKey list"
  | Number size_t

record ('p, 'c) SegmentCacheActorState =
  sca_name :: string
  sca_cache :: "('p, 'c) SegmentCache"

text \<open>The policy of the actor, with what only some policies have.\<close>

record ('p, 'w) actor_policy =
  ap_vtable :: "'p policy_vtable"
  ap_type :: "'p \<Rightarrow> CachingPolicyType"
  ap_onWeight :: "(SegmentKey \<times> 'w) list \<Rightarrow> 'p \<Rightarrow> 'p result"

text \<open>The setup of \<open>makeBehaviour\<close>.\<close>

definition SegmentCacheActor_make :: "'p option \<Rightarrow> ('p, 'c) SegmentCacheActorState result" where
  "SegmentCacheActor_make policy =
     (case policy of
        Some p \<Rightarrow> Inr \<lparr>sca_name = ''segment-cache'', sca_cache = SegmentCache_make p\<rparr>
      | None \<Rightarrow> Inl (RuntimeError ''Error when creating SegmentCacheActor: no caching policy specified''))"

section \<open>Handlers\<close>

text \<open>The loop over the requested keys; hits are inserted into a map, so a repeated key stays once.\<close>

fun load_segments ::
  "'p policy_vtable \<Rightarrow> SegmentKey list \<Rightarrow> (SegmentKey \<times> 'c) list \<Rightarrow> SegmentKey list \<Rightarrow>
   ('p, 'c) SegmentCache \<Rightarrow> ((SegmentKey \<times> 'c) list \<times> SegmentKey list \<times> ('p, 'c) SegmentCache) result"
  where
  "load_segments vt [] segments missSegmentKeys c = Inr (segments, missSegmentKeys, c)"
| "load_segments vt (segmentKey # ks) segments missSegmentKeys c =
     rbind (SegmentCache_load vt segmentKey c) (\<lambda>(cacheData, c').
       case cacheData of
         Inr d \<Rightarrow> load_segments vt ks (um_emplace kid segmentKey d segments) missSegmentKeys c'
       | Inl _ \<Rightarrow> load_segments vt ks segments (missSegmentKeys @ [segmentKey]) c')"

definition actor_load ::
  "'p policy_vtable \<Rightarrow> ModeId \<Rightarrow> SegmentKey list \<Rightarrow> ('p, 'c) SegmentCacheActorState \<Rightarrow>
   ('c cache_reply \<times> ('p, 'c) SegmentCacheActorState) result" where
  "actor_load vt mode segmentKeys self =
     rbind (load_segments vt segmentKeys [] [] (sca_cache self)) (\<lambda>(segments, missSegmentKeys, c).
     rbind (if mode = CACHING_ONLY then Inr (missSegmentKeys, c)
            else SegmentCache_toCache vt missSegmentKeys c) (\<lambda>(segmentKeysToCache, c').
       Inr (SegmentsLoaded segments (sca_name self) segmentKeysToCache, self\<lparr>sca_cache := c'\<rparr>)))"

text \<open>
  The segments of a store are a map keyed by pointers, so their order is unspecified; the list is the
  order of the iteration.
\<close>

definition actor_store ::
  "'p policy_vtable \<Rightarrow> (SegmentKey \<times> 'c) list \<Rightarrow> ('p, 'c) SegmentCacheActorState \<Rightarrow>
   ('p, 'c) SegmentCacheActorState result" where
  "actor_store vt segments self =
     rbind (rfold (\<lambda>(segmentKey, segmentData). SegmentCache_store vt segmentKey segmentData) segments (sca_cache self))
       (\<lambda>c. Inr (self\<lparr>sca_cache := c\<rparr>))"

definition actor_weight ::
  "('p, 'w) actor_policy \<Rightarrow> (SegmentKey \<times> 'w) list \<Rightarrow> ('p, 'c) SegmentCacheActorState \<Rightarrow>
   ('p, 'c) SegmentCacheActorState result" where
  "actor_weight P weightMap self =
     (if ap_type P (cachingPolicy (sca_cache self)) = WLFU then
        rbind (ap_onWeight P weightMap (cachingPolicy (sca_cache self))) (\<lambda>p.
          Inr (self\<lparr>sca_cache := (sca_cache self)\<lparr>cachingPolicy := p\<rparr>\<rparr>))
      else Inr self)"

definition actor_metrics ::
  "size_t \<Rightarrow> size_t \<Rightarrow> size_t \<Rightarrow> size_t \<Rightarrow> ('p, 'c) SegmentCacheActorState \<Rightarrow> ('p, 'c) SegmentCacheActorState"
  where
  "actor_metrics h m sh sm self =
     (let c1 = SegmentCache_addHitNum h (sca_cache self);
          c2 = SegmentCache_addMissNum m c1;
          c3 = SegmentCache_addShardHitNum sh c2;
          c4 = SegmentCache_addShardMissNum sm c3;
          c5 = SegmentCache_addCrtQueryHitNum h c4;
          c6 = SegmentCache_addCrtQueryMissNum m c5;
          c7 = SegmentCache_addCrtQueryShardHitNum sh c6;
          c8 = SegmentCache_addCrtQueryShardMissNum sm c7
      in self\<lparr>sca_cache := c8\<rparr>)"

definition SegmentCacheActor_behaviour ::
  "('p, 'w) actor_policy \<Rightarrow> ModeId \<Rightarrow> ('c, 'w) cache_request \<Rightarrow> ('p, 'c) SegmentCacheActorState \<Rightarrow>
   ('c cache_reply \<times> ('p, 'c) SegmentCacheActorState) result" where
  "SegmentCacheActor_behaviour P mode req self =
     (let c = sca_cache self; vt = ap_vtable P
      in case req of
           LoadSegments ks \<Rightarrow> actor_load vt mode ks self
         | StoreSegments es \<Rightarrow> rbind (actor_store vt es self) (\<lambda>s. Inr (NoReply, s))
         | WeightSegments ws \<Rightarrow> rbind (actor_weight P ws self) (\<lambda>s. Inr (NoReply, s))
         | NewQuery \<Rightarrow> Inr (NoReply, self\<lparr>sca_cache := SegmentCache_newQuery vt c\<rparr>)
         | GetNumHits \<Rightarrow> Inr (Number (hitNum c), self)
         | GetNumMisses \<Rightarrow> Inr (Number (missNum c), self)
         | GetNumShardHits \<Rightarrow> Inr (Number (shardHitNum c), self)
         | GetNumShardMisses \<Rightarrow> Inr (Number (shardMissNum c), self)
         | GetCrtQueryNumHits \<Rightarrow> Inr (Number (crtQueryHitNum c), self)
         | GetCrtQueryNumMisses \<Rightarrow> Inr (Number (crtQueryMissNum c), self)
         | GetCrtQueryNumShardHits \<Rightarrow> Inr (Number (crtQueryShardHitNum c), self)
         | GetCrtQueryNumShardMisses \<Rightarrow> Inr (Number (crtQueryShardMissNum c), self)
         | ClearMetrics \<Rightarrow> Inr (NoReply, self\<lparr>sca_cache := SegmentCache_clearMetrics c\<rparr>)
         | CacheMetrics h m sh sm \<Rightarrow> Inr (NoReply, actor_metrics h m sh sm self))"

text \<open>A run of the actor: the requests it handles one after the other, with their replies.\<close>

fun actor_run ::
  "('p, 'w) actor_policy \<Rightarrow> ModeId \<Rightarrow> ('c, 'w) cache_request list \<Rightarrow> ('p, 'c) SegmentCacheActorState \<Rightarrow>
   ('c cache_reply list \<times> ('p, 'c) SegmentCacheActorState) result" where
  "actor_run P mode [] self = Inr ([], self)"
| "actor_run P mode (req # reqs) self =
     rbind (SegmentCacheActor_behaviour P mode req self) (\<lambda>(reply, self').
     rbind (actor_run P mode reqs self') (\<lambda>(replies, self''). Inr (reply # replies, self'')))"

section \<open>What a load answers\<close>

lemma SegmentCache_load_Inr:
  assumes "SegmentCache_load vt k c = Inr (r, c')"
  shows "cacheMap c' = cacheMap c"
    and "r = Inr d \<longleftrightarrow> um_find kid (kid k) (cacheMap c) = Some d"
    and "(\<exists>e. r = Inl e) \<longleftrightarrow> kid k \<notin> um_keys kid (cacheMap c)"
  using assms um_find_None [of kid "kid k" "cacheMap c"]
  by (auto simp: SegmentCache_load_def Let_def result_simps split: option.splits)

definition missing :: "(SegmentKey \<times> 'c) list \<Rightarrow> SegmentKey \<Rightarrow> bool" where
  "missing m k \<longleftrightarrow> kid k \<notin> um_keys kid m"

lemma missing_find: "missing m k \<longleftrightarrow> um_find kid (kid k) m = None"
  by (simp add: missing_def um_find_None)

lemma um_find_emplace_case:
  "um_find kf i (um_emplace kf a v m)
     = (case um_find kf i m of Some x \<Rightarrow> Some x | None \<Rightarrow> if i = kf a then Some v else None)"
  using um_find_None [of kf i m] by (auto simp: um_find_emplace split: option.splits)

text \<open>The map a load returns: the cached data of the requested keys.\<close>

lemma load_segments_Inr:
  assumes "load_segments vt ks segs miss c = Inr (segs', miss', c')"
  shows "cacheMap c' = cacheMap c"
    and "miss' = miss @ filter (missing (cacheMap c)) ks"
    and "um_find kid i segs' = (case um_find kid i segs of Some d \<Rightarrow> Some d
           | None \<Rightarrow> if i \<in> us_keys kid ks then um_find kid i (cacheMap c) else None)"
proof -
  have "cacheMap c' = cacheMap c \<and> miss' = miss @ filter (missing (cacheMap c)) ks \<and>
    um_find kid i segs' = (case um_find kid i segs of Some d \<Rightarrow> Some d
      | None \<Rightarrow> if i \<in> us_keys kid ks then um_find kid i (cacheMap c) else None)"
    using assms
  proof (induction ks arbitrary: segs miss c)
    case Nil
    then show ?case by (auto split: option.splits)
  next
    case (Cons k ks)
    from Cons.prems obtain r c1 where ld: "SegmentCache_load vt k c = Inr (r, c1)"
      by (auto simp: result_simps)
    show ?case
    proof (cases r)
      case (Inl e)
      with Cons.IH [of segs "miss @ [k]" c1] Cons.prems ld have ih: "cacheMap c' = cacheMap c1"
        "miss' = (miss @ [k]) @ filter (missing (cacheMap c1)) ks"
        "um_find kid i segs' = (case um_find kid i segs of Some d \<Rightarrow> Some d
           | None \<Rightarrow> if i \<in> us_keys kid ks then um_find kid i (cacheMap c1) else None)"
        by simp_all
      have "missing (cacheMap c) k" using SegmentCache_load_Inr(3) [OF ld] Inl by (simp add: missing_def)
      then show ?thesis
        using ih SegmentCache_load_Inr(1) [OF ld] missing_find [of "cacheMap c" k]
        by (auto split: option.splits)
    next
      case (Inr d)
      with Cons.IH [of "um_emplace kid k d segs" miss c1] Cons.prems ld have ih: "cacheMap c' = cacheMap c1"
        "miss' = miss @ filter (missing (cacheMap c1)) ks"
        "um_find kid i segs' = (case um_find kid i (um_emplace kid k d segs) of Some d \<Rightarrow> Some d
           | None \<Rightarrow> if i \<in> us_keys kid ks then um_find kid i (cacheMap c1) else None)"
        by simp_all
      have d: "um_find kid (kid k) (cacheMap c) = Some d"
        using SegmentCache_load_Inr(2) [OF ld, of d] Inr by blast
      then have "\<not> missing (cacheMap c) k"
        using um_find_None [of kid "kid k" "cacheMap c"] by (auto simp: missing_def)
      then show ?thesis
        using ih d SegmentCache_load_Inr(1) [OF ld] by (auto simp: um_find_emplace_case split: option.splits)
    qed
  qed
  then show "cacheMap c' = cacheMap c" and "miss' = miss @ filter (missing (cacheMap c)) ks"
    and "um_find kid i segs' = (case um_find kid i segs of Some d \<Rightarrow> Some d
           | None \<Rightarrow> if i \<in> us_keys kid ks then um_find kid i (cacheMap c) else None)"
    by auto
qed

lemma toCache_map: "SegmentCache_toCache vt ks c = Inr (r, c') \<Longrightarrow> cacheMap c' = cacheMap c"
  by (auto simp: SegmentCache_toCache_def result_simps)

text \<open>
  A load does not change what is cached; its reply holds the cached data of every requested key and
  nothing else, and the keys to cache are chosen from the missing ones.
\<close>

lemma actor_load_Inr:
  assumes "actor_load vt mode ks s = Inr (reply, s')"
  obtains segs tc c where "reply = SegmentsLoaded segs (sca_name s) tc"
    and "load_segments vt ks [] [] (sca_cache s) = Inr (segs, filter (missing (cacheMap (sca_cache s))) ks, c)"
    and "cacheMap (sca_cache s') = cacheMap (sca_cache s)"
    and "\<And>i. um_find kid i segs = (if i \<in> us_keys kid ks then um_find kid i (cacheMap (sca_cache s)) else None)"
    and "if mode = CACHING_ONLY then tc = filter (missing (cacheMap (sca_cache s))) ks \<and> sca_cache s' = c
         else SegmentCache_toCache vt (filter (missing (cacheMap (sca_cache s))) ks) c = Inr (tc, sca_cache s')"
proof -
  from assms obtain segs miss c where ld: "load_segments vt ks [] [] (sca_cache s) = Inr (segs, miss, c)"
    by (auto simp: actor_load_def result_simps)
  note L = load_segments_Inr [OF ld]
  have miss: "miss = filter (missing (cacheMap (sca_cache s))) ks" using L(2) by simp
  have segs: "um_find kid i segs = (if i \<in> us_keys kid ks then um_find kid i (cacheMap (sca_cache s)) else None)" for i
    using L(3) [of i] by (simp add: um_find_def us_find_def)
  from assms obtain tc c' where tc: "(if mode = CACHING_ONLY then Inr (miss, c) else SegmentCache_toCache vt miss c) = Inr (tc, c')"
    and r: "reply = SegmentsLoaded segs (sca_name s) tc" and s': "s' = s\<lparr>sca_cache := c'\<rparr>"
    by (simp add: actor_load_def ld result_simps split_paired_Ex) blast
  have "cacheMap c' = cacheMap c" using tc toCache_map by (fastforce split: if_splits)
  moreover have "if mode = CACHING_ONLY then tc = filter (missing (cacheMap (sca_cache s))) ks \<and> c' = c
      else SegmentCache_toCache vt (filter (missing (cacheMap (sca_cache s))) ks) c = Inr (tc, c')"
    using tc unfolding miss by (auto split: if_splits)
  ultimately show ?thesis
    by (intro that [OF r ld [unfolded miss] _ segs]) (simp_all add: s' miss L(1))
qed

section \<open>The actor refines the cache\<close>

lemma cache_reachable_trans:
  "cache_reachable vt b c \<Longrightarrow> cache_reachable vt a b \<Longrightarrow> cache_reachable vt a c"
  by (induction rule: cache_reachable.induct) (auto intro: cache_reachable.intros)

lemma cache_reachable_one: "cache_step vt c c' \<Longrightarrow> cache_reachable vt c c'"
  by (blast intro: cache_reachable.intros)

text \<open>The stores of a run are of keys the cache does not hold at that time, each of them once.\<close>

definition fresh_request :: "('c, 'w) cache_request \<Rightarrow> ('p, 'c) SegmentCacheActorState \<Rightarrow> bool" where
  "fresh_request req s = (case req of
       StoreSegments es \<Rightarrow> distinct (map (\<lambda>e. kid (fst e)) es) \<and> list_all (\<lambda>e. missing (cacheMap (sca_cache s)) (fst e)) es
     | _ \<Rightarrow> True)"

fun fresh_run ::
  "('p, 'w) actor_policy \<Rightarrow> ModeId \<Rightarrow> ('c, 'w) cache_request list \<Rightarrow> ('p, 'c) SegmentCacheActorState \<Rightarrow> bool" where
  "fresh_run P mode [] s = True"
| "fresh_run P mode (req # reqs) s =
     (fresh_request req s \<and>
      (case SegmentCacheActor_behaviour P mode req s of Inr (_, s') \<Rightarrow> fresh_run P mode reqs s' | Inl _ \<Rightarrow> True))"

lemma load_segments_reachable:
  "load_segments vt ks segs miss c = Inr (segs', miss', c') \<Longrightarrow> cache_reachable vt c c'"
proof (induction ks arbitrary: segs miss c)
  case (Cons k ks)
  from Cons.prems obtain r c1 where ld: "SegmentCache_load vt k c = Inr (r, c1)"
    by (auto simp: result_simps)
  with Cons.prems have "\<exists>segs1 miss1. load_segments vt ks segs1 miss1 c1 = Inr (segs', miss', c')"
    by (cases r) auto
  with Cons.IH have "cache_reachable vt c1 c'" by blast
  then show ?case
    by (rule cache_reachable_trans) (rule cache_reachable_one [OF cache_step.load [OF ld]])
qed (auto intro: cache_reachable.start)

lemma store_missing:
  assumes "SegmentCache_store vt k d c = Inr c'" and "missing (cacheMap c) k'" and "kid k' \<noteq> kid k"
  shows "missing (cacheMap c') k'"
  using assms by (auto simp: SegmentCache_store_def result_simps missing_def container_simps split: option.splits)

lemma store_all_reachable:
  assumes "rfold (\<lambda>(k, d). SegmentCache_store vt k d) es c = Inr c'"
    and "distinct (map (\<lambda>e. kid (fst e)) es)" and "list_all (\<lambda>e. missing (cacheMap c) (fst e)) es"
  shows "cache_reachable vt c c'"
  using assms
proof (induction es arbitrary: c)
  case (Cons e es)
  obtain k d where e: "e = (k, d)" by (cases e)
  from Cons.prems(1) obtain c1 where st: "SegmentCache_store vt k d c = Inr c1"
    and rest: "rfold (\<lambda>(k, d). SegmentCache_store vt k d) es c1 = Inr c'"
    by (auto simp: e result_simps)
  have "list_all (\<lambda>e. missing (cacheMap c1) (fst e)) es"
    using Cons.prems(2,3) store_missing [OF st] by (force simp: e list_all_iff)
  with Cons.IH [OF rest] Cons.prems(2) have "cache_reachable vt c1 c'" by simp
  moreover have "kid k \<notin> um_keys kid (cacheMap c)"
    using Cons.prems(3) by (simp add: e missing_def)
  then have "cache_step vt c c1" using st by (rule cache_step.store)
  ultimately show ?case by (blast intro: cache_reachable_trans cache_reachable_one)
qed (auto intro: cache_reachable.start)

lemma behaviour_reachable:
  assumes r: "SegmentCacheActor_behaviour P mode req s = Inr (reply, s')"
    and "\<forall>p. ap_type P p \<noteq> WLFU" and "fresh_request req s"
  shows "cache_reachable (ap_vtable P) (sca_cache s) (sca_cache s')"
proof (cases req)
  case (LoadSegments ks)
  with r have "actor_load (ap_vtable P) mode ks s = Inr (reply, s')"
    by (simp add: SegmentCacheActor_behaviour_def)
  then obtain segs tc c where "load_segments (ap_vtable P) ks [] [] (sca_cache s)
      = Inr (segs, filter (missing (cacheMap (sca_cache s))) ks, c)"
    and tc: "if mode = CACHING_ONLY then tc = filter (missing (cacheMap (sca_cache s))) ks \<and> sca_cache s' = c
         else SegmentCache_toCache (ap_vtable P) (filter (missing (cacheMap (sca_cache s))) ks) c = Inr (tc, sca_cache s')"
    by (rule actor_load_Inr)
  then have "cache_reachable (ap_vtable P) (sca_cache s) c" using load_segments_reachable by blast
  moreover have "cache_reachable (ap_vtable P) c (sca_cache s')"
    using tc by (auto split: if_splits intro: cache_reachable.start cache_reachable_one [OF cache_step.to_cache])
  ultimately show ?thesis by (blast intro: cache_reachable_trans)
next
  case (StoreSegments es)
  with r assms(3) show ?thesis
    by (auto simp: SegmentCacheActor_behaviour_def actor_store_def result_simps fresh_request_def
        intro: store_all_reachable)
next
  case (WeightSegments ws)
  with r assms(2) show ?thesis
    by (auto simp: SegmentCacheActor_behaviour_def actor_weight_def intro: cache_reachable.start)
next
  case (CacheMetrics h m sh sm)
  with r have "cacheMap (sca_cache s') = cacheMap (sca_cache s)"
    "cachingPolicy (sca_cache s') = cachingPolicy (sca_cache s)"
    by (auto simp: SegmentCacheActor_behaviour_def actor_metrics_def Let_def
        SegmentCache_addHitNum_def SegmentCache_addMissNum_def SegmentCache_addShardHitNum_def
        SegmentCache_addShardMissNum_def SegmentCache_addCrtQueryHitNum_def SegmentCache_addCrtQueryMissNum_def
        SegmentCache_addCrtQueryShardHitNum_def SegmentCache_addCrtQueryShardMissNum_def)
  then show ?thesis by (blast intro: cache_reachable_one cache_step.metrics)
qed (use r in \<open>auto simp: SegmentCacheActor_behaviour_def Let_def
      intro: cache_reachable.start cache_reachable_one [OF cache_step.new_query] cache_reachable_one [OF cache_step.clear_metrics]\<close>)

lemma actor_run_reachable:
  assumes "actor_run P mode reqs s = Inr (replies, s')"
    and "\<forall>p. ap_type P p \<noteq> WLFU" and "fresh_run P mode reqs s"
  shows "cache_reachable (ap_vtable P) (sca_cache s) (sca_cache s')"
  using assms
proof (induction reqs arbitrary: s replies)
  case (Cons req reqs)
  then obtain reply s1 replies1 where b: "SegmentCacheActor_behaviour P mode req s = Inr (reply, s1)"
    and run: "actor_run P mode reqs s1 = Inr (replies1, s')"
    by (auto simp: result_simps)
  from Cons.prems(3) b have "fresh_request req s" "fresh_run P mode reqs s1" by auto
  with behaviour_reachable [OF b Cons.prems(2)] Cons.IH [OF run Cons.prems(2)] show ?case
    by (blast intro: cache_reachable_trans)
qed (auto intro: cache_reachable.start)

section \<open>The keys to cache\<close>

context caching_policy begin

lemma load_segments_inv: "load_segments vt ks segs miss c = Inr (segs', miss', c') \<Longrightarrow>
    inv (cachingPolicy c) \<Longrightarrow> inv (cachingPolicy c')"
proof (induction ks arbitrary: segs miss c)
  case (Cons k ks)
  from Cons.prems(1) obtain r c1 where ld: "SegmentCache_load vt k c = Inr (r, c1)"
    by (auto simp: result_simps)
  then have "vt_onLoad vt k (cachingPolicy c) = Inr (cachingPolicy c1)"
    by (auto simp: SegmentCache_load_def Let_def result_simps split: option.splits)
  with onLoad_laws Cons.prems(2) have "inv (cachingPolicy c1)" by blast
  with Cons.IH [of segs "miss @ [k]" c1] Cons.IH [of "um_emplace kid k (projr r) segs" miss c1] Cons.prems(1) ld
  show ?case by (cases r) auto
qed simp

text \<open>The keys a load asks to cache are some of the missing ones, in their order.\<close>

lemma actor_load_toCache:
  assumes ld: "actor_load vt mode ks s = Inr (SegmentsLoaded segs n tc, s')" and "inv (cachingPolicy (sca_cache s))"
  shows "subseq (map kid tc) (map kid (filter (missing (cacheMap (sca_cache s))) ks))"
  using ld
proof (rule actor_load_Inr)
  let ?miss = "filter (missing (cacheMap (sca_cache s))) ks"
  fix segs' tc' c
  assume ls: "load_segments vt ks [] [] (sca_cache s) = Inr (segs', ?miss, c)"
    and r: "SegmentsLoaded segs n tc = SegmentsLoaded segs' (sca_name s) tc'"
    and t: "if mode = CACHING_ONLY then tc' = ?miss \<and> sca_cache s' = c
      else SegmentCache_toCache vt ?miss c = Inr (tc', sca_cache s')"
  have i: "inv (cachingPolicy c)" using load_segments_inv [OF ls assms(2)] .
  show ?thesis
  proof (cases "mode = CACHING_ONLY")
    case False
    with t obtain p where "vt_onToCache vt ?miss (cachingPolicy c) = Inr (tc', p)"
      by (auto simp: SegmentCache_toCache_def result_simps)
    from onToCache_laws [OF i this] show ?thesis using r by simp
  qed (use t r in simp)
qed

end

section \<open>Properties of the actor\<close>

text \<open>
  A load request is answered with the cached data of the requested segments: a segment of the reply
  maps every requested key to what the cache holds for it and no other key to anything; loading does not
  change what is cached.  In caching-only mode the reply asks for exactly the missing segments, in the
  order of the request.
\<close>

theorem actor_load_answers:
  assumes "actor_load vt mode ks s = Inr (reply, s')"
  shows "\<exists>segs toCache. reply = SegmentsLoaded segs (sca_name s) toCache \<and>
     (\<forall>i. um_find kid i segs = (if i \<in> us_keys kid ks then um_find kid i (cacheMap (sca_cache s)) else None)) \<and>
     cacheMap (sca_cache s') = cacheMap (sca_cache s) \<and>
     (mode = CACHING_ONLY \<longrightarrow> toCache = filter (missing (cacheMap (sca_cache s))) ks)"
  using assms by (rule actor_load_Inr) (auto split: if_splits)

definition lru_actor :: "(int lru_state, nat) actor_policy" where
  "lru_actor = \<lparr>ap_vtable = LRU_vtable, ap_type = (\<lambda>_. LRU), ap_onWeight = (\<lambda>_ p. Inr p)\<rparr>"

definition lru_actor_start :: "(int lru_state, nat) SegmentCacheActorState" where
  "lru_actor_start = \<lparr>sca_name = ''segment-cache'', sca_cache = SegmentCache_make (sample_heap, LRU_make 60)\<rparr>"

lemmas actor_eval =
  lru_actor_def lru_actor_start_def SegmentCacheActor_behaviour_def actor_load_def actor_store_def
  SegmentCache_make_def SegmentCache_load_def SegmentCache_store_def SegmentCache_toCache_def
  LRU_onLoad_def LRU_onStore_def LRU_onToCache_def LRU_make_def LRU_evict.simps erase_all_def
  um_find_def um_emplace_def us_find_def us_emplace_def SegmentMetadata_make_def

theorem actor_load_answers_witness:
  "\<exists>segs. actor_load LRU_vtable HYBRID [sample_key 3 ''z''] lru_actor_start
      = Inr (SegmentsLoaded segs ''segment-cache'' [sample_key 3 ''z''], lru_actor_start) \<and>
    um_find kid (KeyId ''b'' ''t/a.tbl'' ''z'') segs = None"
proof -
  have r: "actor_load LRU_vtable HYBRID [sample_key 3 ''z''] lru_actor_start
      = Inr (SegmentsLoaded [] ''segment-cache'' [sample_key 3 ''z''], lru_actor_start)"
    by (simp add: actor_eval)
  show ?thesis using actor_load_answers [OF r] r by (auto simp: um_find_def us_find_def)
qed

text \<open>
  C34.  The actor refines the cache: a run of requests that only stores segments missing at that time is a
  run of cache steps.  Started with an empty least-recently-used policy, it therefore ends in a cache that
  the program's consistency check accepts and whose sizes add up to the capacity.
\<close>

theorem actor_run_refines_cache:
  assumes "SegmentCacheActor_make (Some (h, LRU_make ms)) = Inr s"
    and "ap_vtable P = LRU_vtable" and "\<forall>p. ap_type P p \<noteq> WLFU"
    and "actor_run P mode reqs s = Inr (replies, s')" and "fresh_run P mode reqs s"
  shows "cache_reachable LRU_vtable (SegmentCache_make (h, LRU_make ms)) (sca_cache s') \<and>
    checkCacheConsistencyWithCachePolicy LRU_vtable (sca_cache s') = Inr () \<and> LRU_inv (cachingPolicy (sca_cache s'))"
proof -
  have r: "cache_reachable LRU_vtable (SegmentCache_make (h, LRU_make ms)) (sca_cache s')"
    using actor_run_reachable [OF assms(4,3,5)] assms(1,2) by (auto simp: SegmentCacheActor_make_def)
  have e: "us_keys kid (vt_getKeysetInCachePolicy LRU_vtable (h, LRU_make ms)) = {}"
    by (simp add: LRU_getKeysetInCachePolicy_def LRU_make_def)
  have "lru.good (sca_cache s')" by (rule lru.reachable_good [OF r lru.good_make [OF LRU_inv_make e]])
  with lru.good_consistent r show ?thesis by (simp add: lru.good_def)
qed

theorem actor_run_refines_cache_witness:
  "\<exists>replies s'. actor_run lru_actor HYBRID [LoadSegments [sample_key 0 ''z''], StoreSegments [(sample_key 1 ''z'', 7)],
      LoadSegments [sample_key 2 ''z'']] lru_actor_start = Inr (replies, s') \<and>
    checkCacheConsistencyWithCachePolicy LRU_vtable (sca_cache s') = Inr ()"
proof -
  let ?reqs = "[LoadSegments [sample_key 0 ''z''], StoreSegments [(sample_key 1 ''z'', 7)], LoadSegments [sample_key 2 ''z'']]"
  obtain replies s' where r: "actor_run lru_actor HYBRID ?reqs lru_actor_start = Inr (replies, s')"
    by (simp add: actor_eval)
  have m: "SegmentCacheActor_make (Some (sample_heap, LRU_make 60)) = Inr lru_actor_start"
    by (simp add: SegmentCacheActor_make_def lru_actor_start_def)
  have f: "fresh_run lru_actor HYBRID ?reqs lru_actor_start"
    by (simp add: actor_eval fresh_request_def missing_find)
  have v: "ap_vtable lru_actor = LRU_vtable" and t: "\<forall>p. ap_type lru_actor p \<noteq> WLFU"
    by (simp_all add: lru_actor_def)
  show ?thesis using actor_run_refines_cache [OF m v t r f] r by blast
qed

text \<open>
  C35.  Nothing keeps two operators that miss the same segment from both storing it.  The second store keeps
  the old data, queues the key again and takes its size from the free size once more; the next eviction
  then removes the segment from the cache but leaves its second node in the policy, and the program's
  consistency check fails.
\<close>

theorem concurrent_misses_break_consistency:
  fixes h :: "'d heap"
  assumes "ap_vtable P = LRU_vtable" and "kid k' = kid k" and "kid k2 \<noteq> kid k"
    and "meta h k = Inr m" and "meta h k' = Inr m'" and "meta h k2 = Inr m2"
    and "unat (md_size m) + unat (md_size m') \<le> unat ms"
    and "unat ms < unat (md_size m) + unat (md_size m') + unat (md_size m2)"
    and "unat (md_size m') + unat (md_size m2) \<le> unat ms"
    and "SegmentCacheActor_make (Some (h, LRU_make ms)) = Inr s"
  shows "\<exists>n s'. actor_run P mode [LoadSegments [k], LoadSegments [k'], StoreSegments [(k, d)],
       StoreSegments [(k', d')], StoreSegments [(k2, d2)]] s
     = Inr ([SegmentsLoaded [] n [k], SegmentsLoaded [] n [k'], NoReply, NoReply, NoReply], s') \<and>
     cacheMap (sca_cache s') = [(k2, d2)] \<and>
     checkCacheConsistencyWithCachePolicy LRU_vtable (sca_cache s')
       = Inl (RuntimeError ''Error, cache policy key set has different size than segment cache keyset'')"
proof -
  let ?a = "md_size m" and ?b = "md_size m'" and ?c = "md_size m2"
  have le: "?a \<le> ms" "?b \<le> ms" using assms(7) by (simp_all add: word_le_nat_alt)
  then have ab: "unat (ms - ?a) = unat ms - unat ?a" "unat (ms - ?b) = unat ms - unat ?b"
    by (simp_all add: unat_sub_le)
  have "?b \<le> ms - ?a" using assms(7) by (simp add: word_le_nat_alt ab)
  then have abb: "unat (ms - ?a - ?b) = unat ms - unat ?a - unat ?b" by (simp add: unat_sub_le ab)
  have ev: "ms - ?a - ?b + ?a = ms - ?b" by simp
  have "\<not> ms < ?a" "\<not> ms - ?a < ?b" "ms - ?a - ?b < ?c" "\<not> ms < ?b" "\<not> ms < ?c"  "\<not> ms - ?b < ?c"
    using assms(7-9) by (simp_all add: word_less_nat_alt ab abb)
  note cmp = this
  show ?thesis
    using assms(1-6) assms(10) cmp ev
    by (auto simp: SegmentCacheActor_make_def SegmentCacheActor_behaviour_def actor_load_def actor_store_def
        SegmentCache_make_def SegmentCache_load_def SegmentCache_store_def SegmentCache_toCache_def
        LRU_onLoad_def LRU_onStore_def LRU_onToCache_def LRU_make_def LRU_evict.simps LRU_eraseLRU_def erase_all_def
        um_find_def um_emplace_def um_erase_def us_find_def us_emplace_def us_erase_def
        checkCacheConsistencyWithCachePolicy_def LRU_getKeysetInCachePolicy_def)
qed

theorem concurrent_misses_break_consistency_witness:
  "\<exists>n s'. actor_run lru_actor HYBRID [LoadSegments [sample_key 0 ''z''], LoadSegments [sample_key 1 ''z''],
      StoreSegments [(sample_key 0 ''z'', 7)], StoreSegments [(sample_key 1 ''z'', 8)],
      StoreSegments [(sample_key 3 ''y'', 9)]] lru_actor_start
     = Inr ([SegmentsLoaded [] n [sample_key 0 ''z''], SegmentsLoaded [] n [sample_key 1 ''z''],
         NoReply, NoReply, NoReply], s') \<and>
     cacheMap (sca_cache s') = [(sample_key 3 ''y'', 9)] \<and>
     checkCacheConsistencyWithCachePolicy LRU_vtable (sca_cache s')
       = Inl (RuntimeError ''Error, cache policy key set has different size than segment cache keyset'')"
  by (rule concurrent_misses_break_consistency [where h = sample_heap and ms = 60,
        OF _ _ _ meta_sample meta_sample meta_sample])
    (simp_all add: lru_actor_def SegmentMetadata_make_def SegmentCacheActor_make_def lru_actor_start_def)

end
