(* ===== verification/Cache_Load.thy ===== *)
theory Cache_Load
  imports Cache_Actor Operators
begin

text \<open>
  The operator that asks the segment cache for the columns of a partition and distributes what is cached and
  what is missing (\<^verbatim>\<open>fpdb-executor/src/physical/cache/CacheLoadPOp.cpp\<close> and
  \<^verbatim>\<open>CacheHelper.cpp\<close>).  The hits go to one operator as a tuple set; a second operator scans the
  missing columns that are to be cached, and in hybrid mode a third one pushes the rest down.

  A failed \<^verbatim>\<open>assert\<close> aborts the program and is an error like the others.  The keys of a request are
  new objects; their addresses and those of their metadata are counted from an argument.  Log messages are
  left out.
\<close>

section \<open>State and messages\<close>

datatype S3ClientType = AWS_S3 | AIRMETTLE | MINIO

datatype ('c, 'w) cache_payload =
    ScanColumns "string list" bool
  | ToCache "('c, 'w) cache_request"
  | FromCache "(SegmentKey \<times> 'c) list" "SegmentKey list"

record CacheLoad =
  predicateColumnNames :: "string list"
  columnNames :: "string list"
  cl_partition :: S3Partition
  cl_startOffset :: int
  cl_finishOffset :: int
  hitOperatorName :: "string option"
  missOperatorToCacheName :: "string option"
  missOperatorToPushdownName :: "string option"
  s3ClientType :: S3ClientType

definition CacheLoad_make ::
  "string list \<Rightarrow> string list \<Rightarrow> S3Partition \<Rightarrow> int \<Rightarrow> int \<Rightarrow> S3ClientType \<Rightarrow> CacheLoad" where
  "CacheLoad_make predicateNames names part startOff finishOff client =
     \<lparr>predicateColumnNames = predicateNames, columnNames = names, cl_partition = part,
      cl_startOffset = startOff, cl_finishOffset = finishOff, hitOperatorName = None,
      missOperatorToCacheName = None, missOperatorToPushdownName = None, s3ClientType = client\<rparr>"

type_synonym ('h, 't, 'a, 'w) cache_load_handler =
  "('h, 't, ('a Column, 'w) cache_payload, CacheLoad) handler"

text \<open>The setters of the three consumers.\<close>

definition setHitOperator ::
  "string \<Rightarrow> ('h, 't, 'd, CacheLoad) POp \<Rightarrow> ('h, 't, 'd, CacheLoad) POp" where
  "setHitOperator n S = PhysicalOp_produce n (S\<lparr>op_fields := (op_fields S)\<lparr>hitOperatorName := Some n\<rparr>\<rparr>)"

definition setMissOperatorToCache ::
  "string \<Rightarrow> ('h, 't, 'd, CacheLoad) POp \<Rightarrow> ('h, 't, 'd, CacheLoad) POp" where
  "setMissOperatorToCache n S =
     PhysicalOp_produce n (S\<lparr>op_fields := (op_fields S)\<lparr>missOperatorToCacheName := Some n\<rparr>\<rparr>)"

definition setMissOperatorToPushdown ::
  "string \<Rightarrow> ('h, 't, 'd, CacheLoad) POp \<Rightarrow> ('h, 't, 'd, CacheLoad) POp" where
  "setMissOperatorToPushdown n S =
     PhysicalOp_produce n (S\<lparr>op_fields := (op_fields S)\<lparr>missOperatorToPushdownName := Some n\<rparr>\<rparr>)"

section \<open>Requests to the cache\<close>

definition assert_that :: "bool \<Rightarrow> string \<Rightarrow> unit result" where
  "assert_that b what = (if b then Inr () else Inl (RuntimeError (''Assertion failed: '' @ what)))"

text \<open>The offsets become unsigned when the range is made.\<close>

definition load_key :: "nat \<Rightarrow> nat option \<Rightarrow> S3Partition \<Rightarrow> int \<Rightarrow> int \<Rightarrow> string \<Rightarrow> SegmentKey" where
  "load_key p md part startOff finishOff columnName =
     SegmentKey_make p part columnName (SegmentRange_make (of_int startOff) (of_int finishOff)) md"

definition requested_keys :: "nat \<Rightarrow> S3Partition \<Rightarrow> int \<Rightarrow> int \<Rightarrow> string list \<Rightarrow> SegmentKey list" where
  "requested_keys addr part startOff finishOff names =
     map (\<lambda>(i, n). load_key (addr + i) (Some (addr + i)) part startOff finishOff n) (enumerate 0 names)"

definition requestLoadSegmentsFromCache ::
  "nat \<Rightarrow> string list \<Rightarrow> S3Partition \<Rightarrow> int \<Rightarrow> int \<Rightarrow> string \<Rightarrow>
   ('h, 't, ('c, 'w) cache_payload, 'o) handler" where
  "requestLoadSegmentsFromCache addr names part startOff finishOff sndr S =
     rbind (assert_that (startOff \<ge> 0) ''startOffset >= 0'') (\<lambda>_.
     rbind (assert_that (finishOff > startOff) ''finishOffset > startOffset'') (\<lambda>_.
     rbind (assert_that (sndr \<noteq> []) ''!sender.empty()'') (\<lambda>_.
       Inr (send (DataMessage LoadRequestMessage
              (ToCache (LoadSegments (requested_keys addr part startOff finishOff names))) sndr)
            ''SegmentCache'' S))))"

text \<open>
  The store of the columns of a tuple set, which the scan operators call.  The size of a column is kept in
  the metadata of its key, which is made at the address \<open>addr + c\<close>.
\<close>

definition requestStoreSegmentsInCache ::
  "('t, 'a) arrow \<Rightarrow> nat \<Rightarrow> 't TupleSet \<Rightarrow> S3Partition \<Rightarrow> int \<Rightarrow> int \<Rightarrow> string \<Rightarrow>
   ('h, 't, ('a Column, 'w) cache_payload, 'o) handler" where
  "requestStoreSegmentsInCache A addr tupleSet part startOff finishOff sndr S =
     rbind (assert_that (startOff \<ge> 0) ''startOffset >= 0'') (\<lambda>_.
     rbind (assert_that (finishOff > startOff) ''finishOffset > startOffset'') (\<lambda>_.
     rbind (assert_that (sndr \<noteq> []) ''!sender.empty()'') (\<lambda>_.
     rbind (rmap (\<lambda>c. rbind (getColumnByIndex A tupleSet c) (\<lambda>column.
              Inr (load_key (addr + c) (Some (addr + c)) part startOff finishOff (col_name column), column)))
            [0..<TupleSet_numColumns A tupleSet]) (\<lambda>segmentsToStore.
       Inr (send (DataMessage StoreRequestMessage (ToCache (StoreSegments segmentsToStore)) sndr)
            ''SegmentCache'' S)))))"

section \<open>The operator\<close>

text \<open>A missing consumer is reported, and the request is sent all the same.\<close>

definition CacheLoad_onStart :: "nat \<Rightarrow> ('h, 't, 'a, 'w) cache_load_handler" where
  "CacheLoad_onStart addr S =
     (let st = op_fields S;
          S1 = (if hitOperatorName st = None then notifyError ''Hit consumer not set '' S else S);
          S2 = (if missOperatorToCacheName st = None then notifyError ''Miss caching consumer not set'' S1 else S1)
      in requestLoadSegmentsFromCache addr (columnNames st) (cl_partition st) (cl_startOffset st)
           (cl_finishOffset st) (op_name S) S2)"

text \<open>The loop over the columns: hits with their data, and missing columns that are not to be cached.\<close>

fun gather_columns ::
  "CacheLoad \<Rightarrow> (SegmentKey \<times> 'c) list \<Rightarrow> string list \<Rightarrow> string list \<Rightarrow> (string \<times> 'c) list \<times> string list" where
  "gather_columns st hitSegments missedCaching [] = ([], [])"
| "gather_columns st hitSegments missedCaching (n # ns) =
     (let (hits, pushdown) = gather_columns st hitSegments missedCaching ns;
          key = load_key 0 None (cl_partition st) (cl_startOffset st) (cl_finishOffset st) n
      in case um_find kid (kid key) hitSegments of
           Some d \<Rightarrow> ((n, d) # hits, pushdown)
         | None \<Rightarrow> if n \<in> set missedCaching then (hits, pushdown) else (hits, n # pushdown))"

definition caching_result_needed :: "CacheLoad \<Rightarrow> string list \<Rightarrow> string list \<Rightarrow> string list \<Rightarrow> bool" where
  "caching_result_needed st projectNames hitNames missedCaching =
     (if s3ClientType st \<noteq> AIRMETTLE then
        list_all (\<lambda>n. n \<in> set hitNames \<or> n \<in> set missedCaching) (predicateColumnNames st) \<and>
        list_ex (\<lambda>n. n \<in> set hitNames \<or> n \<in> set missedCaching) projectNames
      else length hitNames + length missedCaching = length (columnNames st))"

definition hit_metrics :: "CacheLoad \<Rightarrow> bool \<Rightarrow> nat \<Rightarrow> ('c, 'w) cache_request" where
  "hit_metrics st needed numHits =
     (let n = length (columnNames st);
          (shardHitNum, shardMissNum) = (if numHits = n then (1, 0) else (0, 1));
          (hitNum, missNum) =
            (if missOperatorToPushdownName st \<noteq> None then
               (if needed then (of_nat numHits, of_nat n - of_nat numHits) else (0, of_nat n))
             else (if numHits = n then (of_nat numHits, 0) else (0, of_nat n)))
      in CacheMetrics hitNum missNum shardHitNum shardMissNum)"

definition send_opt ::
  "('h, 't, 'd) Message \<Rightarrow> string option \<Rightarrow> ('h, 't, 'd, 'o) handler" where
  "send_opt msg recipient S =
     (case recipient of Some r \<Rightarrow> Inr (send msg r S)
      | None \<Rightarrow> Inl (UndefinedBehaviour ''empty optional dereferenced''))"

definition scan_message :: "string list \<Rightarrow> bool \<Rightarrow> string \<Rightarrow> ('h, 't, ('c, 'w) cache_payload) Message" where
  "scan_message names resultNeeded sndr = DataMessage ScanMessage (ScanColumns names resultNeeded) sndr"

text \<open>The two scans, the metrics and the completion.\<close>

definition send_misses ::
  "string list \<Rightarrow> string list \<Rightarrow> bool \<Rightarrow> ('h, 't, 'a, 'w) cache_load_handler" where
  "send_misses missedCaching missedPushdown needed S =
     (let st = op_fields S in
      if missOperatorToPushdownName st \<noteq> None then
        rbind (send_opt (scan_message missedCaching needed (op_name S)) (missOperatorToCacheName st) S) (\<lambda>S1.
          send_opt (scan_message (if needed then missedPushdown else projectColumnNames S) True (op_name S))
            (missOperatorToPushdownName st) S1)
      else send_opt (scan_message missedCaching True (op_name S)) (missOperatorToCacheName st) S)"

definition CacheLoad_clear :: "CacheLoad \<Rightarrow> CacheLoad" where
  "CacheLoad_clear st = st"

definition onCacheLoadResponse ::
  "('t, 'a) arrow \<Rightarrow> (SegmentKey \<times> 'a Column) list \<Rightarrow> SegmentKey list \<Rightarrow> ('h, 't, 'a, 'w) cache_load_handler" where
  "onCacheLoadResponse A hitSegments segmentKeysToCache S =
     (let st = op_fields S;
          missedCaching = map key_columnName segmentKeysToCache;
          (hits, missedPushdown) = gather_columns st hitSegments missedCaching (columnNames st);
          needed = caching_result_needed st (projectColumnNames S) (map fst hits) missedCaching;
          hitTupleSet = TupleSet_make A (if needed then map snd hits else [])
      in rbind (send_opt (TupleMessage (Some hitTupleSet) (op_name S)) (hitOperatorName st) S) (\<lambda>S1.
         rbind (send_misses missedCaching missedPushdown needed S1) (\<lambda>S2.
           notifyComplete CacheLoad_clear
             (send (DataMessage CacheMetricsMessage (ToCache (hit_metrics st needed (length hitSegments))) (op_name S))
                ''SegmentCache'' S2))))"

definition CacheLoad_onReceive ::
  "('t, 'a) arrow \<Rightarrow> nat \<Rightarrow> ('h, 't, ('a Column, 'w) cache_payload) Message \<Rightarrow> ('h, 't, 'a, 'w) cache_load_handler"
  where
  "CacheLoad_onReceive A addr msg S =
     (case msg of
        StartMessage _ \<Rightarrow> CacheLoad_onStart addr S
      | DataMessage c d _ \<Rightarrow>
          if data_type c = LOAD_RESPONSE then
            (case d of
               FromCache segments toCache \<Rightarrow>
                 if c = LoadResponseMessage then onCacheLoadResponse A segments toCache S
                 else Inl (RuntimeError ''std::bad_cast'')
             | _ \<Rightarrow> Inl (RuntimeError ''std::bad_cast''))
          else Inr (notifyError (''Unrecognized message type '' @ getTypeString msg) S)
      | _ \<Rightarrow> Inr (notifyError (''Unrecognized message type '' @ getTypeString msg) S))"

definition CacheLoadPOp ::
  "('t, 'a) arrow \<Rightarrow> nat \<Rightarrow> ('h, 't, ('a Column, 'w) cache_payload, CacheLoad) operator_methods" where
  "CacheLoadPOp A addr = \<lparr>onReceive = CacheLoad_onReceive A addr\<rparr>"

section \<open>Hits and misses\<close>

definition column_key :: "CacheLoad \<Rightarrow> string \<Rightarrow> SegmentKey" where
  "column_key st n = load_key 0 None (cl_partition st) (cl_startOffset st) (cl_finishOffset st) n"

fun kid_column :: "key_id \<Rightarrow> string" where
  "kid_column (KeyId b obj c) = c"

lemma kid_column_kid: "kid_column (kid k) = key_columnName k"
  by (simp add: kid_def)

lemma kid_column_comp: "kid_column \<circ> kid = key_columnName"
  by (simp add: fun_eq_iff kid_column_kid)

lemma kid_load_key: "kid (load_key p md part so fo n) = KeyId (s3Bucket part) (s3Object part) n"
  by (simp add: load_key_def SegmentKey_make_def kid_def)

lemma kid_column_key: "kid (column_key st n) = KeyId (s3Bucket (cl_partition st)) (s3Object (cl_partition st)) n"
  by (simp add: column_key_def kid_load_key)

definition own_request :: "nat \<Rightarrow> CacheLoad \<Rightarrow> SegmentKey list" where
  "own_request addr st = requested_keys addr (cl_partition st) (cl_startOffset st) (cl_finishOffset st) (columnNames st)"

lemma kids_requested: "map kid (own_request addr st) = map (\<lambda>n. kid (column_key st n)) (columnNames st)"
proof -
  have "map (\<lambda>x. KeyId b obj (snd x)) (enumerate i ns) = map (KeyId b obj) ns" for b obj i and ns :: "string list"
    by (induction ns arbitrary: i) simp_all
  then show ?thesis
    by (simp add: own_request_def requested_keys_def kid_column_key kid_load_key comp_def case_prod_beta')
qed

lemma map_kid_missing: "map kid (filter (missing m) ks) = filter (\<lambda>i. um_find kid i m = None) (map kid ks)"
  by (induction ks) (simp_all add: missing_find)

lemma kid_columns_filter:
  "map kid_column (filter P (map (\<lambda>n. kid (column_key st n)) ns)) = filter (\<lambda>n. P (kid (column_key st n))) ns"
  by (induction ns) (simp_all add: kid_column_key)

text \<open>The missing columns among the requested ones, in order.\<close>

definition uncached :: "('p, 'c) SegmentCache \<Rightarrow> CacheLoad \<Rightarrow> string \<Rightarrow> bool" where
  "uncached c st n \<longleftrightarrow> um_find kid (kid (column_key st n)) (cacheMap c) = None"

lemma missing_columns:
  "map key_columnName (filter (missing (cacheMap c)) (own_request addr st)) = filter (uncached c st) (columnNames st)"
proof -
  have "map key_columnName (filter (missing (cacheMap c)) (own_request addr st))
      = map kid_column (map kid (filter (missing (cacheMap c)) (own_request addr st)))"
    by (simp add: kid_column_kid)
  moreover have "uncached c st = (\<lambda>n. um_find kid (kid (column_key st n)) (cacheMap c) = None)"
    by (simp add: uncached_def fun_eq_iff)
  ultimately show ?thesis by (simp only: map_kid_missing kids_requested kid_columns_filter)
qed

lemma gather_columns_spec:
  assumes "\<And>n. n \<in> set ns \<Longrightarrow> um_find kid (kid (column_key st n)) segs = um_find kid (kid (column_key st n)) (cacheMap c)"
  shows "map fst (fst (gather_columns st segs mc ns)) = filter (\<lambda>n. \<not> uncached c st n) ns"
    and "snd (gather_columns st segs mc ns) = filter (\<lambda>n. uncached c st n \<and> n \<notin> set mc) ns"
    and "(n, d) \<in> set (fst (gather_columns st segs mc ns)) \<Longrightarrow> um_find kid (kid (column_key st n)) (cacheMap c) = Some d"
proof -
  have "map fst (fst (gather_columns st segs mc ns)) = filter (\<lambda>n. \<not> uncached c st n) ns \<and>
    snd (gather_columns st segs mc ns) = filter (\<lambda>n. uncached c st n \<and> n \<notin> set mc) ns \<and>
    (\<forall>(n, d) \<in> set (fst (gather_columns st segs mc ns)). um_find kid (kid (column_key st n)) (cacheMap c) = Some d)"
    using assms
  proof (induction ns)
    case (Cons m ns)
    then have f: "um_find kid (kid (column_key st m)) segs = um_find kid (kid (column_key st m)) (cacheMap c)" by simp
    obtain hits push where g: "gather_columns st segs mc ns = (hits, push)" by fastforce
    with Cons show ?case
      by (cases "um_find kid (kid (column_key st m)) (cacheMap c)")
        (simp_all add: f column_key_def [symmetric] uncached_def)
  qed simp
  then show "map fst (fst (gather_columns st segs mc ns)) = filter (\<lambda>n. \<not> uncached c st n) ns"
    and "snd (gather_columns st segs mc ns) = filter (\<lambda>n. uncached c st n \<and> n \<notin> set mc) ns"
    and "(n, d) \<in> set (fst (gather_columns st segs mc ns)) \<Longrightarrow> um_find kid (kid (column_key st n)) (cacheMap c) = Some d"
    by auto
qed

lemma count_list_distinct: "distinct xs \<Longrightarrow> count_list xs x = (if x \<in> set xs then 1 else 0)"
  by (induction xs) auto

lemma subseq_distinct_set: "subseq xs ys \<Longrightarrow> distinct ys \<Longrightarrow> distinct xs \<and> set xs \<subseteq> set ys"
  by (induction rule: list_emb.induct) auto

text \<open>Each column is a hit, a miss to cache or a miss to push down, and only one of them.\<close>

lemma columns_counted:
  assumes "distinct ns" and "subseq mc (filter (uncached c st) ns)" and "n \<in> set ns"
  shows "count_list (filter (\<lambda>n. \<not> uncached c st n) ns @ mc @ filter (\<lambda>n. uncached c st n \<and> n \<notin> set mc) ns) n = 1"
proof -
  have "distinct mc" "set mc \<subseteq> set (filter (uncached c st) ns)"
    using subseq_distinct_set [OF assms(2)] assms(1) by auto
  then show ?thesis using assms(1,3) by (auto simp: count_list_distinct)
qed

section \<open>The messages of a response\<close>

definition ready_for :: "('h, 't, 'd, 'o) POp \<Rightarrow> string option \<Rightarrow> bool" where
  "ready_for S r \<longleftrightarrow> (\<forall>c. r = Some c \<longrightarrow> connected_to S c \<and> c \<noteq> ''SegmentCache'' \<and> c \<noteq> ''DeltaCache'')"

definition to_opt :: "('h, 't, 'd, 'o) POp \<Rightarrow> string option \<Rightarrow> ('h, 't, 'd) Message \<Rightarrow> ('h, 't, 'd) action list" where
  "to_opt S r msg = (case r of None \<Rightarrow> [] | Some c \<Rightarrow> [Anon_send (handle_of S c) msg])"

text \<open>The messages of a response, for consumers that are set and connected.\<close>

lemma onCacheLoadResponse_messages:
  fixes S :: "('h, 't, ('a Column, 'w) cache_payload, CacheLoad) POp"
  assumes "connected S" and "\<not> op_complete S"
    and hc: "hitOperatorName (op_fields S) = Some h" "missOperatorToCacheName (op_fields S) = Some c"
    and ready: "ready_for S (Some h)" "ready_for S (Some c)" "ready_for S (missOperatorToPushdownName (op_fields S))"
    and g: "gather_columns (op_fields S) segs mc (columnNames (op_fields S)) = (hits, missedPushdown)"
    and mc: "mc = map key_columnName tc"
    and needed: "needed = caching_result_needed (op_fields S) (projectColumnNames S) (map fst hits) mc"
  shows "\<exists>S'. onCacheLoadResponse A segs tc S = Inr S' \<and> trace S' = trace S @
     [Anon_send (handle_of S h) (TupleMessage (Some (TupleSet_make A (if needed then map snd hits else []))) (op_name S)),
      Anon_send (handle_of S c) (scan_message mc (missOperatorToPushdownName (op_fields S) = None \<or> needed) (op_name S))] @
     to_opt S (missOperatorToPushdownName (op_fields S))
       (scan_message (if needed then missedPushdown else projectColumnNames S) True (op_name S)) @
     [Anon_send_atom (segmentCacheActor S) MetricsAtom
        (DataMessage CacheMetricsMessage (ToCache (hit_metrics (op_fields S) needed (length segs))) (op_name S))] @
     announced S"
proof -
  let ?st = "op_fields S" and ?nm = "op_name S"
  let ?hit = "Anon_send (handle_of S h) (TupleMessage (Some (TupleSet_make A (if needed then map snd hits else []))) ?nm)"
  let ?scan = "Anon_send (handle_of S c) (scan_message mc (missOperatorToPushdownName ?st = None \<or> needed) ?nm)"
  let ?scans = "?scan # to_opt S (missOperatorToPushdownName ?st)
       (scan_message (if needed then missedPushdown else projectColumnNames S) True ?nm)"
  let ?metrics = "Anon_send_atom (segmentCacheActor S) MetricsAtom
        (DataMessage CacheMetricsMessage (ToCache (hit_metrics ?st needed (length segs))) ?nm)"
  have hit: "send_opt (TupleMessage (Some (TupleSet_make A (if needed then map snd hits else []))) ?nm)
      (hitOperatorName ?st) S = Inr (emit ?hit S)"
    using ready(1) by (simp add: hc send_opt_def ready_for_def send_connected)
  have scans: "\<exists>S2. send_misses mc missedPushdown needed (emit ?hit S) = Inr S2 \<and> S2 = fold emit ?scans (emit ?hit S)"
    using ready(2,3) by (auto simp: send_misses_def Let_def hc send_opt_def ready_for_def send_connected to_opt_def
        split: option.splits)
  then obtain S2 where S2: "send_misses mc missedPushdown needed (emit ?hit S) = Inr S2" "S2 = fold emit ?scans (emit ?hit S)"
    by blast
  have keep: "connected S2 = connected S" "op_complete S2 = op_complete S" "op_name S2 = ?nm"
    "segmentCacheActor S2 = segmentCacheActor S" "announced S2 = announced S"
    "trace S2 = trace S @ [?hit] @ ?scans"
    by (simp_all add: S2(2) to_opt_def emit_def connected_def connected_to_def list_all_iff announced_def
        to_consumers_def handle_of_def split: option.splits)
  let ?S3 = "emit ?metrics S2"
  have m: "send (DataMessage CacheMetricsMessage (ToCache (hit_metrics ?st needed (length segs))) ?nm) ''SegmentCache'' S2 = ?S3"
    by (simp add: send_def keep)
  have "onCacheLoadResponse A segs tc S = notifyComplete CacheLoad_clear ?S3"
    unfolding onCacheLoadResponse_def Let_def mc [symmetric] g prod.case needed [symmetric] hit rbind.simps S2(1) m ..
  moreover obtain T where "notifyComplete CacheLoad_clear ?S3 = Inr T" "trace T = trace ?S3 @ announced ?S3"
    using notifyComplete_announced [of ?S3 CacheLoad_clear] assms(1,2) keep by auto
  moreover have "trace ?S3 = trace S @ [?hit] @ ?scans @ [?metrics]" by (simp add: emit_simps(1) keep)
  moreover have "announced ?S3 = announced S" by (simp add: keep)
  ultimately show ?thesis by (intro exI [of _ T]) simp
qed

text \<open>When every missing column is to be cached, the cached data is always needed.\<close>

lemma all_cached_needed:
  assumes "mc = filter (uncached c st) (columnNames st)" and "hitNames = filter (\<lambda>n. \<not> uncached c st n) (columnNames st)"
    and "set (predicateColumnNames st) \<subseteq> set (columnNames st)" and "set projectNames \<subseteq> set (columnNames st)"
    and "projectNames \<noteq> []"
  shows "caching_result_needed st projectNames hitNames mc"
proof -
  have "set hitNames \<union> set mc = set (columnNames st)" using assms(1,2) by auto
  then have "list_all (\<lambda>n. n \<in> set hitNames \<or> n \<in> set mc) (predicateColumnNames st)"
    "list_ex (\<lambda>n. n \<in> set hitNames \<or> n \<in> set mc) projectNames"
    using assms(3-5) by (force simp: list_all_iff, cases projectNames) (use assms(4) \<open>set hitNames \<union> set mc = _\<close> in auto)
  moreover have "length hitNames + length mc = length (columnNames st)"
    using sum_length_filter_compl [of "uncached c st" "columnNames st"] assms(1,2) by simp
  ultimately show ?thesis by (simp add: caching_result_needed_def)
qed

text \<open>What the loop makes of the reply to the operator's own request.\<close>

lemma gather_own_reply:
  assumes ld: "actor_load vt mode (own_request addr st) a = Inr (SegmentsLoaded segs n tc, a')"
    and g: "gather_columns st segs mc (columnNames st) = (hits, missP)"
  shows "map fst hits = filter (\<lambda>n. \<not> uncached (sca_cache a) st n) (columnNames st)"
    and "missP = filter (\<lambda>n. uncached (sca_cache a) st n \<and> n \<notin> set mc) (columnNames st)"
    and "(m, d) \<in> set hits \<Longrightarrow> um_find kid (kid (column_key st m)) (cacheMap (sca_cache a)) = Some d"
proof -
  have segs: "um_find kid i segs
      = (if i \<in> us_keys kid (own_request addr st) then um_find kid i (cacheMap (sca_cache a)) else None)" for i
    using ld by (rule actor_load_Inr) simp
  have "us_keys kid (own_request addr st) = set (map kid (own_request addr st))" by (simp add: us_keys_def)
  then have f: "\<And>m. m \<in> set (columnNames st) \<Longrightarrow>
      um_find kid (kid (column_key st m)) segs = um_find kid (kid (column_key st m)) (cacheMap (sca_cache a))"
    by (simp only: segs kids_requested) simp
  from gather_columns_spec(1) [OF f] g
  show "map fst hits = filter (\<lambda>n. \<not> uncached (sca_cache a) st n) (columnNames st)" by (metis fst_conv)
  from gather_columns_spec(2) [OF f] g
  show "missP = filter (\<lambda>n. uncached (sca_cache a) st n \<and> n \<notin> set mc) (columnNames st)" by (metis snd_conv)
  from gather_columns_spec(3) [OF f] g
  show "(m, d) \<in> set hits \<Longrightarrow> um_find kid (kid (column_key st m)) (cacheMap (sca_cache a)) = Some d" by (metis fst_conv)
qed

section \<open>Properties\<close>

text \<open>
  C33.  Whatever a policy that keeps the laws of the interface asks to cache, the operator's answer to the
  reply of the cache delivers every projected column exactly once: in the tuple set of the hits, in the
  scan to the caching operator when that scan is to return its result, or in the scan that is pushed
  down.  The hits carry the data the cache holds.  After the messages the operator sends its metrics and
  completes.
\<close>

theorem cache_load_delivers_each_column_once:
  fixes S :: "('h, 't, ('a Column, 'w) cache_payload, CacheLoad) POp"
  assumes policy: "caching_policy vt ok" "ok (cachingPolicy (sca_cache a))"
    and ld: "actor_load vt mode (own_request addr (op_fields S)) a = Inr (SegmentsLoaded segs n tc, a')"
    and S: "connected S" "\<not> op_complete S"
    and hc: "hitOperatorName (op_fields S) = Some h" "missOperatorToCacheName (op_fields S) = Some c"
    and ready: "ready_for S (Some h)" "ready_for S (Some c)" "ready_for S (missOperatorToPushdownName (op_fields S))"
    and names: "distinct (columnNames (op_fields S))" "distinct (projectColumnNames S)" "projectColumnNames S \<noteq> []"
      "set (predicateColumnNames (op_fields S)) \<subseteq> set (columnNames (op_fields S))"
      "set (projectColumnNames S) \<subseteq> set (columnNames (op_fields S))"
    and mode: "missOperatorToPushdownName (op_fields S) = None \<longrightarrow> mode = CACHING_ONLY"
  shows "\<exists>S' hits missC missP r metrics. onCacheLoadResponse A segs tc S = Inr S' \<and>
     trace S' = trace S @
       [Anon_send (handle_of S h) (TupleMessage (Some (TupleSet_make A (map snd hits))) (op_name S)),
        Anon_send (handle_of S c) (scan_message missC r (op_name S))] @
       to_opt S (missOperatorToPushdownName (op_fields S)) (scan_message missP True (op_name S)) @
       [Anon_send_atom (segmentCacheActor S) MetricsAtom metrics] @ announced S \<and>
     (\<forall>m \<in> set (projectColumnNames S). count_list (map fst hits @ (if r then missC else []) @
        (if missOperatorToPushdownName (op_fields S) = None then [] else missP)) m = 1) \<and>
     (\<forall>(m, d) \<in> set hits. um_find kid (kid (column_key (op_fields S) m)) (cacheMap (sca_cache a)) = Some d)"
proof -
  let ?st = "op_fields S" and ?c = "sca_cache a"
  let ?push = "missOperatorToPushdownName ?st"
  define mc where "mc = map key_columnName tc"
  obtain hits missP where g: "gather_columns ?st segs mc (columnNames ?st) = (hits, missP)" by fastforce
  define needed where "needed = caching_result_needed ?st (projectColumnNames S) (map fst hits) mc"
  note G = gather_own_reply [OF ld g]
  have "subseq (map kid tc) (map kid (filter (missing (cacheMap ?c)) (own_request addr ?st)))"
    by (rule caching_policy.actor_load_toCache [OF policy(1) ld policy(2)])
  from subseq_map [OF this, of kid_column]
  have mc: "subseq mc (filter (uncached ?c ?st) (columnNames ?st))"
    by (simp add: mc_def kid_column_comp missing_columns)
  have counted: "count_list (map fst hits @ mc @ missP) m = 1" if "m \<in> set (columnNames ?st)" for m
    using columns_counted [OF names(1) mc that] G(1,2) by simp
  have none: "needed \<and> missP = []" if "?push = None"
  proof -
    have "mode = CACHING_ONLY" using mode that by blast
    then have "tc = filter (missing (cacheMap ?c)) (own_request addr ?st)" using ld by (elim actor_load_Inr) simp
    then have m: "mc = filter (uncached ?c ?st) (columnNames ?st)" by (simp add: mc_def missing_columns)
    with all_cached_needed [OF m G(1) names(4,5,3)] G(2) show ?thesis by (auto simp: needed_def filter_empty_conv)
  qed
  have "count_list (projectColumnNames S) m = 1" if "m \<in> set (projectColumnNames S)" for m
    using that names(2) by (simp add: count_list_distinct)
  with counted names(5) none
  have once: "\<forall>m \<in> set (projectColumnNames S). count_list (map fst (if needed then hits else []) @
      (if ?push = None \<or> needed then mc else []) @
      (if ?push = None then [] else if needed then missP else projectColumnNames S)) m = 1"
    by auto
  have data: "\<forall>(m, d) \<in> set (if needed then hits else []). um_find kid (kid (column_key ?st m)) (cacheMap ?c) = Some d"
    using G(3) by auto
  from onCacheLoadResponse_messages [OF S hc ready g mc_def needed_def, of A]
  obtain S' where "onCacheLoadResponse A segs tc S = Inr S'" "trace S' = trace S @
     [Anon_send (handle_of S h) (TupleMessage (Some (TupleSet_make A (if needed then map snd hits else []))) (op_name S)),
      Anon_send (handle_of S c) (scan_message mc (?push = None \<or> needed) (op_name S))] @
     to_opt S ?push (scan_message (if needed then missP else projectColumnNames S) True (op_name S)) @
     [Anon_send_atom (segmentCacheActor S) MetricsAtom
        (DataMessage CacheMetricsMessage (ToCache (hit_metrics ?st needed (length segs))) (op_name S))] @ announced S"
    by blast
  moreover have "(if needed then map snd hits else []) = map snd (if needed then hits else [])" by simp
  ultimately show ?thesis using once data
    by (intro exI [of _ S'] exI [of _ "if needed then hits else []"] exI [of _ mc]
        exI [of _ "if needed then missP else projectColumnNames S"] exI [of _ "?push = None \<or> needed"]
        exI [of _ "DataMessage CacheMetricsMessage (ToCache (hit_metrics ?st needed (length segs))) (op_name S)"] conjI)
      (simp_all only:)
qed

definition sample_load :: "(nat, list_table, ((type_id \<times> arrow_scalar list) Column, nat) cache_payload, CacheLoad) POp" where
  "sample_load =
     \<lparr>op_name = ''load'', op_type = CACHE_LOAD, projectColumnNames = [''x'', ''z''], op_consumers = [''c''],
      op_producers = [],
      op_fields = \<lparr>predicateColumnNames = [''z''], columnNames = [''x'', ''z''],
        cl_partition = \<lparr>s3Bucket = ''b'', s3Object = ''t/a.tbl''\<rparr>, cl_startOffset = 0, cl_finishOffset = 100,
        hitOperatorName = Some ''a'', missOperatorToCacheName = Some ''b'',
        missOperatorToPushdownName = Some ''c'', s3ClientType = AWS_S3\<rparr>,
      operatorMap = sample_directory, rootActor = Some 0, segmentCacheActor = Some 1, deltaCacheActor = None,
      op_complete = False, actor_id = 3, actor_name = ''load'', trace = []\<rparr>"

definition sample_segments :: "(int lru_state, (type_id \<times> arrow_scalar list) Column) SegmentCacheActorState" where
  "sample_segments = \<lparr>sca_name = ''segment-cache'', sca_cache =
     (SegmentCache_make (sample_heap, lru_two))\<lparr>cacheMap :=
        [(sample_key 0 ''x'', \<lparr>col_name = ''x'', col_array = (Int32Type, [Int32Scalar 5])\<rparr>),
         (sample_key 1 ''y'', \<lparr>col_name = ''y'', col_array = (Int32Type, [Int32Scalar 6])\<rparr>)]\<rparr>\<rparr>"

theorem cache_load_delivers_each_column_once_witness:
  "\<exists>segs tc a' S' (hits :: (string \<times> (type_id \<times> arrow_scalar list) Column) list) missC missP r.
     actor_load LRU_vtable HYBRID (own_request 7 (op_fields sample_load)) sample_segments
       = Inr (SegmentsLoaded segs ''segment-cache'' tc, a') \<and>
     onCacheLoadResponse list_arrow segs tc sample_load = Inr S' \<and>
     (\<forall>m \<in> {''x'', ''z''}. count_list (map fst hits @ (if r then missC else []) @ missP) m = 1)"
proof -
  have ok: "caching_policy LRU_vtable (LRU_inv :: int lru_state \<Rightarrow> bool)"
    "LRU_inv (cachingPolicy (sca_cache sample_segments))"
    using lru_two_inv by (simp_all add: sample_segments_def SegmentCache_make_def lru.caching_policy_axioms)
  have "case actor_load LRU_vtable HYBRID (own_request 7 (op_fields sample_load)) sample_segments of
      Inr (SegmentsLoaded segs n tc, a') \<Rightarrow> n = ''segment-cache'' | _ \<Rightarrow> False"
    by code_simp
  then obtain segs tc a' where ld: "actor_load LRU_vtable HYBRID (own_request 7 (op_fields sample_load)) sample_segments
      = Inr (SegmentsLoaded segs ''segment-cache'' tc, a')"
    by (auto split: sum.splits prod.splits cache_reply.splits)
  have c: "connected sample_load" by code_simp
  have r: "ready_for sample_load (Some ''a'')" "ready_for sample_load (Some ''b'')"
    "ready_for sample_load (missOperatorToPushdownName (op_fields sample_load))"
    by (simp_all add: ready_for_def connected_to_def sample_load_def sample_directory_def um_find_def us_find_def)
  have f: "\<not> op_complete sample_load" "hitOperatorName (op_fields sample_load) = Some ''a''"
    "missOperatorToCacheName (op_fields sample_load) = Some ''b''"
    "missOperatorToPushdownName (op_fields sample_load) = Some ''c''"
    "columnNames (op_fields sample_load) = [''x'', ''z'']" "projectColumnNames sample_load = [''x'', ''z'']"
    "predicateColumnNames (op_fields sample_load) = [''z'']"
    by (simp_all add: sample_load_def)
  have names: "distinct (columnNames (op_fields sample_load))" "distinct (projectColumnNames sample_load)"
    "projectColumnNames sample_load \<noteq> []"
    "set (predicateColumnNames (op_fields sample_load)) \<subseteq> set (columnNames (op_fields sample_load))"
    "set (projectColumnNames sample_load) \<subseteq> set (columnNames (op_fields sample_load))"
    "missOperatorToPushdownName (op_fields sample_load) = None \<longrightarrow> HYBRID = CACHING_ONLY"
    by (simp_all add: f)
  obtain S' and hits :: "(string \<times> (type_id \<times> arrow_scalar list) Column) list" and missC missP r where "onCacheLoadResponse list_arrow segs tc sample_load = Inr S'"
    "\<forall>m \<in> set (projectColumnNames sample_load). count_list (map fst hits @ (if r then missC else []) @
        (if missOperatorToPushdownName (op_fields sample_load) = None then [] else missP)) m = 1"
    using cache_load_delivers_each_column_once [OF ok ld c f(1-3) r names, of list_arrow]
  proof (elim exE conjE, goal_cases)
    case (1 S' hits missC missP r metrics)
    from 1(2,4) show ?case by (rule that [of S' hits r missC missP])
  qed
  moreover have "set (projectColumnNames sample_load) = {''x'', ''z''}" by (simp add: f)
  ultimately show ?thesis using ld
    by (intro exI [of _ segs] exI [of _ tc] exI [of _ a'] exI [of _ S'] exI [of _ hits] exI [of _ missC]
        exI [of _ missP] exI [of _ r] conjI) (simp_all only: f option.simps if_False)
qed

end
