(* ===== verification/Delta_Cache.thy ===== *)
theory Delta_Cache
  imports Tuple_Set
begin

text \<open>
  The caches of deltas and of stable bitmaps (\<^verbatim>\<open>fpdb-delta/src\<close>) and the actor that owns
  them (\<^verbatim>\<open>fpdb-executor/src/delta/DeltaCacheActor.cpp\<close>,
  \<^verbatim>\<open>physical/deltacache/CacheHandlerPOp.cpp\<close>).  The three caches are keyed by a partition
  number and share a contract, the locale \<open>partition_cache\<close>.
\<close>

section \<open>The interface of a cache keyed by partitions\<close>

text \<open>
  What the clients of a cache rely on: \<open>loads\<close> lists the versions held for a partition, \<open>store\<close>
  makes the datum the only version of a partition that had none, and neither \<open>store\<close> nor
  \<open>remove\<close> touches another partition.
\<close>

locale partition_cache =
  fixes loads :: "int \<Rightarrow> 'c \<Rightarrow> 'd list"
    and store :: "int \<Rightarrow> 'd \<Rightarrow> 'c \<Rightarrow> 'c"
    and remove :: "int \<Rightarrow> 'c \<Rightarrow> 'c"
  assumes loads_store_fresh: "loads p c = [] \<Longrightarrow> loads p (store p d c) = [d]"
    and loads_store_other: "p \<noteq> q \<Longrightarrow> loads q (store p d c) = loads q c"
    and loads_remove: "loads p (remove p c) = []"
    and loads_remove_other: "p \<noteq> q \<Longrightarrow> loads q (remove p c) = loads q c"
begin

definition replace :: "int \<Rightarrow> 'd \<Rightarrow> 'c \<Rightarrow> 'c" where
  "replace p d c = store p d (remove p c)"

lemma loads_replace: "loads q (replace p d c) = (if q = p then [d] else loads q c)"
  using loads_store_fresh [OF loads_remove] loads_store_other loads_remove_other
  by (auto simp: replace_def)

lemma loads_replace_twice: "loads q (replace p d (replace p e c)) = loads q (replace p d c)"
  by (simp add: loads_replace)

lemma loads_replace_commute:
  "p \<noteq> p' \<Longrightarrow> loads q (replace p d (replace p' e c)) = loads q (replace p' e (replace p d c))"
  by (simp add: loads_replace)

end

section \<open>Delta cache\<close>

record DeltaCacheKey =
  dck_partition :: int

definition DeltaCacheKey_make :: "int \<Rightarrow> DeltaCacheKey" where
  "DeltaCacheKey_make p = \<lparr>dck_partition = p\<rparr>"

definition DeltaCacheKey_eq :: "DeltaCacheKey \<Rightarrow> DeltaCacheKey \<Rightarrow> bool" where
  "DeltaCacheKey_eq a b \<longleftrightarrow> dck_partition a = dck_partition b"

definition DeltaCacheKey_toString :: "DeltaCacheKey \<Rightarrow> string" where
  "DeltaCacheKey_toString k = ''{ partition: '' @ string_of_int (dck_partition k) @ '' }''"

record 't DeltaCacheData =
  dcd_delta :: "'t TupleSet"
  dcd_timestamp :: int

definition DeltaCacheData_make :: "'t TupleSet \<Rightarrow> int \<Rightarrow> 't DeltaCacheData" where
  "DeltaCacheData_make d ts = \<lparr>dcd_delta = d, dcd_timestamp = ts\<rparr>"

text \<open>The catalogue's table, as far as the delta components read it.\<close>

record Table =
  tbl_ptr :: nat
  tbl_name :: string
  tbl_primaryKeyNames :: "string list"
  tbl_numPartitions :: nat

text \<open>
  The multimap of a delta cache.  \<^verbatim>\<open>libstdc++\<close> puts a new element in front of the elements
  with an equal key, so that a lookup lists the newest version first, which the merge operator
  relies on.  The C++ standard leaves this order open; every statement below that speaks of the
  newest version is about this library.
\<close>

record 't DeltaCache =
  dc_table :: Table
  dc_map :: "(DeltaCacheKey \<times> 't DeltaCacheData) list"

definition DeltaCache_make :: "Table \<Rightarrow> 't DeltaCache" where
  "DeltaCache_make t = \<lparr>dc_table = t, dc_map = []\<rparr>"

definition DeltaCache_store ::
  "DeltaCacheKey \<Rightarrow> 't DeltaCacheData \<Rightarrow> 't DeltaCache \<Rightarrow> 't DeltaCache" where
  "DeltaCache_store key data c = c\<lparr>dc_map := (key, data) # dc_map c\<rparr>"

definition DeltaCache_load :: "DeltaCacheKey \<Rightarrow> 't DeltaCache \<Rightarrow> 't DeltaCacheData list" where
  "DeltaCache_load key c = map snd (filter (\<lambda>(k, d). DeltaCacheKey_eq k key) (dc_map c))"

definition DeltaCache_remove :: "DeltaCacheKey \<Rightarrow> 't DeltaCache \<Rightarrow> 't DeltaCache" where
  "DeltaCache_remove key c = c\<lparr>dc_map := filter (\<lambda>(k, d). \<not> DeltaCacheKey_eq k key) (dc_map c)\<rparr>"

definition DeltaCache_getSize :: "('t, 'a) arrow \<Rightarrow> 't DeltaCache \<Rightarrow> size_t result" where
  "DeltaCache_getSize A c =
     rfold (\<lambda>(k, d) totalSize. rbind (TupleSet_size A (dcd_delta d)) (\<lambda>s. Inr (totalSize + s)))
       (dc_map c) 0"

definition DeltaCache_getInfo :: "('t, 'a) arrow \<Rightarrow> 't DeltaCache \<Rightarrow> string" where
  "DeltaCache_getInfo A c =
     ''==== Cache Info ['' @ tbl_name (dc_table c) @ ''] ==== '' @ [CHR 0x0A] @
     concat (map (\<lambda>(k, d).
        ''Partition: '' @ DeltaCacheKey_toString k @ '' '' @ [CHR 0x0A] @
        ''Size of the delta: '' @ string_of_nat (TupleSet_numRows A (dcd_delta d)) @ '' '' @ [CHR 0x0A])
       (dc_map c))"

lemma DeltaCache_load_store:
  "DeltaCache_load k (DeltaCache_store k' d c)
     = (if dck_partition k = dck_partition k' then [d] else []) @ DeltaCache_load k c"
  by (simp add: DeltaCache_load_def DeltaCache_store_def DeltaCacheKey_eq_def)

lemma DeltaCache_load_remove:
  "DeltaCache_load k (DeltaCache_remove k' c)
     = (if dck_partition k = dck_partition k' then [] else DeltaCache_load k c)"
  by (auto simp: DeltaCache_load_def DeltaCache_remove_def DeltaCacheKey_eq_def split_beta
      intro!: arg_cong [where f = "map snd"] filter_cong)

interpretation delta_cache: partition_cache
  "\<lambda>p. DeltaCache_load (DeltaCacheKey_make p)"
  "\<lambda>p. DeltaCache_store (DeltaCacheKey_make p)"
  "\<lambda>p. DeltaCache_remove (DeltaCacheKey_make p)"
  by unfold_locales
    (simp_all add: DeltaCache_load_store DeltaCache_load_remove DeltaCacheKey_make_def)

section \<open>Keep-map cache and bitmap cache\<close>

record KeepMapCacheKey =
  kmk_partition :: int

definition KeepMapCacheKey_make :: "int \<Rightarrow> KeepMapCacheKey" where
  "KeepMapCacheKey_make p = \<lparr>kmk_partition = p\<rparr>"

text \<open>The cached keep map: an association from pairs of key values to row positions.\<close>

record KeepMapCacheData =
  kmd_keepMap :: "((int \<times> int) \<times> int) list"

record KeepMapCache =
  kmc_table :: Table
  kmc_map :: "(KeepMapCacheKey \<times> KeepMapCacheData) list"

definition KeepMapCache_make :: "Table \<Rightarrow> KeepMapCache" where
  "KeepMapCache_make t = \<lparr>kmc_table = t, kmc_map = []\<rparr>"

definition KeepMapCache_getSize :: "KeepMapCache \<Rightarrow> nat" where
  "KeepMapCache_getSize c = length (kmc_map c)"

definition KeepMapCache_store :: "KeepMapCacheKey \<Rightarrow> KeepMapCacheData \<Rightarrow> KeepMapCache \<Rightarrow> KeepMapCache"
  where
  "KeepMapCache_store key data c = c\<lparr>kmc_map := um_emplace kmk_partition key data (kmc_map c)\<rparr>"

definition KeepMapCache_load :: "KeepMapCacheKey \<Rightarrow> KeepMapCache \<Rightarrow> KeepMapCacheData option" where
  "KeepMapCache_load key c = um_find kmk_partition (kmk_partition key) (kmc_map c)"

definition KeepMapCache_remove :: "KeepMapCacheKey \<Rightarrow> KeepMapCache \<Rightarrow> KeepMapCache" where
  "KeepMapCache_remove key c = c\<lparr>kmc_map := um_erase kmk_partition (kmk_partition key) (kmc_map c)\<rparr>"

interpretation keep_map_cache: partition_cache
  "\<lambda>p c. case KeepMapCache_load (KeepMapCacheKey_make p) c of None \<Rightarrow> [] | Some d \<Rightarrow> [d]"
  "\<lambda>p. KeepMapCache_store (KeepMapCacheKey_make p)"
  "\<lambda>p. KeepMapCache_remove (KeepMapCacheKey_make p)"
  by unfold_locales
    (auto simp: KeepMapCache_load_def KeepMapCache_store_def KeepMapCache_remove_def
      KeepMapCacheKey_make_def container_simps split: option.splits)

text \<open>
  A stable bitmap is a \<^verbatim>\<open>shared_ptr<vector<uint8_t>>\<close> that the merge operator updates in
  place: the cache holds addresses, and the vectors live in a separate memory.
\<close>

record StableBmCacheKey =
  sbk_partition :: int

definition StableBmCacheKey_make :: "int \<Rightarrow> StableBmCacheKey" where
  "StableBmCacheKey_make p = \<lparr>sbk_partition = p\<rparr>"

record StableBmCacheData =
  sbd_stableBm :: nat

record StableBmCache =
  sbc_table :: Table
  sbc_map :: "(StableBmCacheKey \<times> StableBmCacheData) list"

definition StableBmCache_make :: "Table \<Rightarrow> StableBmCache" where
  "StableBmCache_make t = \<lparr>sbc_table = t, sbc_map = []\<rparr>"

definition StableBmCache_getSize :: "StableBmCache \<Rightarrow> nat" where
  "StableBmCache_getSize c = length (sbc_map c)"

definition StableBmCache_store ::
  "StableBmCacheKey \<Rightarrow> StableBmCacheData \<Rightarrow> StableBmCache \<Rightarrow> StableBmCache" where
  "StableBmCache_store key data c = c\<lparr>sbc_map := um_emplace sbk_partition key data (sbc_map c)\<rparr>"

definition StableBmCache_load :: "StableBmCacheKey \<Rightarrow> StableBmCache \<Rightarrow> StableBmCacheData option" where
  "StableBmCache_load key c = um_find sbk_partition (sbk_partition key) (sbc_map c)"

definition StableBmCache_remove :: "StableBmCacheKey \<Rightarrow> StableBmCache \<Rightarrow> StableBmCache" where
  "StableBmCache_remove key c = c\<lparr>sbc_map := um_erase sbk_partition (sbk_partition key) (sbc_map c)\<rparr>"

interpretation stable_bm_cache: partition_cache
  "\<lambda>p c. case StableBmCache_load (StableBmCacheKey_make p) c of None \<Rightarrow> [] | Some d \<Rightarrow> [d]"
  "\<lambda>p. StableBmCache_store (StableBmCacheKey_make p)"
  "\<lambda>p. StableBmCache_remove (StableBmCacheKey_make p)"
  by unfold_locales
    (auto simp: StableBmCache_load_def StableBmCache_store_def StableBmCache_remove_def
      StableBmCacheKey_make_def container_simps split: option.splits)

end
