(* ===== verification/Delta_Actor.thy ===== *)
theory Delta_Actor
  imports Delta_Cache
begin

text \<open>
  The delta cache actor (\<^verbatim>\<open>fpdb-executor/src/delta/DeltaCacheActor.cpp\<close>), the messages of
  the delta protocol (\<^verbatim>\<open>fpdb-executor/src/message/delta\<close>) and the operator that relays them
  between the merge operator and the actor
  (\<^verbatim>\<open>fpdb-executor/src/physical/deltacache/CacheHandlerPOp.cpp\<close>).

  What the delta pump reads from the transaction log is outside the actor: the pumped deltas, by table
  name and partition, and their timestamp are an argument of the operations that pump.
\<close>

section \<open>Messages\<close>

datatype 't delta_message =
    START
  | TUPLE "'t TupleSet" string
  | LOAD_REQUEST Table DeltaCacheKey string int
  | LOAD_RESPONSE Table "'t DeltaCacheData list" "nat option" string
  | DISK_DELTAS "'t TupleSet" int
  | MERGED_DELTA Table int "'t TupleSet" "nat option" string
  | COMPLETE
  | OTHER_MESSAGE string

section \<open>The actor\<close>

record 't DeltaCacheActorState =
  da_name :: string
  da_cache :: "(Table \<times> 't DeltaCache) list"
  da_stableBmCache :: "(Table \<times> StableBmCache) list"
  da_queryId :: int
  da_lastTimestamp :: int

type_synonym 't pumped = "(string \<times> (int \<times> 't TupleSet) list) list \<times> int"

definition DeltaCacheActor_makeBehaviour :: "Table list \<Rightarrow> 't DeltaCacheActorState" where
  "DeltaCacheActor_makeBehaviour tables =
     fold (\<lambda>t s. s\<lparr>da_cache := um_assign tbl_ptr t (DeltaCache_make t) (da_cache s),
                   da_stableBmCache := um_assign tbl_ptr t (StableBmCache_make t) (da_stableBmCache s)\<rparr>)
       tables
       \<lparr>da_name = ''delta-cache'', da_cache = [], da_stableBmCache = [], da_queryId = 2022,
        da_lastTimestamp = 0\<rparr>"

text \<open>The loops that look for the cache of a table by its name; no match leaves a null pointer.\<close>

definition find_by_name :: "string \<Rightarrow> (Table \<times> 'c) list \<Rightarrow> (Table \<times> 'c) option" where
  "find_by_name name m = List.find (\<lambda>e. tbl_name (fst e) = name) m"

definition store_pumped :: "string \<Rightarrow> int \<times> 't TupleSet \<Rightarrow> 't DeltaCacheActorState \<Rightarrow>
  't DeltaCacheActorState result" where
  "store_pumped tableName = (\<lambda>(partNum, delta) s.
     case find_by_name tableName (da_cache s) of
       None \<Rightarrow> Inl (UndefinedBehaviour ''null targetCache dereferenced'')
     | Some (t, c) \<Rightarrow>
         let cacheKey = DeltaCacheKey_make partNum;
             cacheData = DeltaCacheData_make delta (da_lastTimestamp s)
         in Inr (s\<lparr>da_cache := um_assign tbl_ptr t (DeltaCache_store cacheKey cacheData c) (da_cache s)\<rparr>))"

definition deltaPump :: "'t pumped \<Rightarrow> 't DeltaCacheActorState \<Rightarrow> 't DeltaCacheActorState result" where
  "deltaPump = (\<lambda>(allDeltas, ts) s.
     rfold (\<lambda>(tableName, deltas). rfold (store_pumped tableName) deltas) allDeltas
       (s\<lparr>da_lastTimestamp := ts\<rparr>))"

text \<open>
  \<open>loadMemoryDelta\<close>; a request of a new query first pumps.  \<open>keepMapCacheMode\<close> is the test
  \<^verbatim>\<open>deltaMergeMode == keepMapCache\<close>.
\<close>

definition loadMemoryDelta ::
  "bool \<Rightarrow> 't pumped \<Rightarrow> Table \<Rightarrow> DeltaCacheKey \<Rightarrow> int \<Rightarrow> 't DeltaCacheActorState \<Rightarrow>
   ('t delta_message \<times> 't DeltaCacheActorState) result" where
  "loadMemoryDelta keepMapCacheMode pumped table deltaKey queryId s0 =
     rbind (if queryId \<noteq> da_queryId s0 then deltaPump pumped (s0\<lparr>da_queryId := queryId\<rparr>) else Inr s0) (\<lambda>s.
       case um_find tbl_ptr (tbl_ptr table) (da_cache s) of
         None \<Rightarrow> Inl (RuntimeError (''No matching table '' @ tbl_name table @ '' found''))
       | Some cache \<Rightarrow>
           let requestedDeltas = DeltaCache_load deltaKey cache
           in if keepMapCacheMode then
                (case um_find tbl_ptr (tbl_ptr table) (da_stableBmCache s) of
                   None \<Rightarrow> Inl (UndefinedBehaviour ''null stableBmCache dereferenced'')
                 | Some sbc \<Rightarrow>
                     let stableBm =
                       (if StableBmCache_getSize sbc \<noteq> 0 then
                          map_option sbd_stableBm
                            (StableBmCache_load (StableBmCacheKey_make (dck_partition deltaKey)) sbc)
                        else None)
                     in Inr (LOAD_RESPONSE table requestedDeltas stableBm (da_name s), s))
              else Inr (LOAD_RESPONSE table requestedDeltas None (da_name s), s))"

definition storeMergedDelta ::
  "Table \<Rightarrow> int \<Rightarrow> 't TupleSet \<Rightarrow> nat option \<Rightarrow> 't DeltaCacheActorState \<Rightarrow> 't DeltaCacheActorState result"
  where
  "storeMergedDelta table part mergedDelta stableBm s =
     (case find_by_name (tbl_name table) (da_cache s) of
        None \<Rightarrow> Inl (UndefinedBehaviour ''null targetCache dereferenced'')
      | Some (t, c) \<Rightarrow>
          let deltaKey = DeltaCacheKey_make part;
              cacheData = DeltaCacheData_make mergedDelta (da_lastTimestamp s);
              c' = DeltaCache_store deltaKey cacheData (DeltaCache_remove deltaKey c);
              s' = s\<lparr>da_cache := um_assign tbl_ptr t c' (da_cache s)\<rparr>
          in case stableBm of
               None \<Rightarrow> Inr s'
             | Some bm \<Rightarrow>
                 (case find_by_name (tbl_name table) (da_stableBmCache s') of
                    None \<Rightarrow> Inl (UndefinedBehaviour ''null targetStableBmCache dereferenced'')
                  | Some (t', b) \<Rightarrow>
                      let key = StableBmCacheKey_make part;
                          b' = StableBmCache_store key \<lparr>sbd_stableBm = bm\<rparr> (StableBmCache_remove key b)
                      in Inr (s'\<lparr>da_stableBmCache := um_assign tbl_ptr t' b' (da_stableBmCache s')\<rparr>)))"

section \<open>The relay\<close>

text \<open>
  The operator's state, with what it has sent (destination and message) and whether it has notified
  its completion.
\<close>

record 't CacheHandler =
  ch_name :: string
  ch_queryId :: int
  ch_deltaMergeName :: string
  ch_sent :: "(string \<times> 't delta_message) list"
  ch_complete :: bool

definition OnDeltasRequest :: "Table \<Rightarrow> DeltaCacheKey \<Rightarrow> 't CacheHandler \<Rightarrow> 't CacheHandler" where
  "OnDeltasRequest table deltaKey op =
     op\<lparr>ch_sent := ch_sent op @ [(''DeltaCache'', LOAD_REQUEST table deltaKey (ch_name op) (ch_queryId op))]\<rparr>"

definition OnReceiveResponse ::
  "Table \<Rightarrow> 't DeltaCacheData list \<Rightarrow> nat option \<Rightarrow> 't CacheHandler \<Rightarrow> 't CacheHandler" where
  "OnReceiveResponse table deltas stableBm op =
     op\<lparr>ch_sent := ch_sent op @ [(ch_deltaMergeName op, LOAD_RESPONSE table deltas stableBm (ch_name op))],
        ch_complete := True\<rparr>"

definition OnReceiveMergedDelta ::
  "Table \<Rightarrow> int \<Rightarrow> 't TupleSet \<Rightarrow> nat option \<Rightarrow> 't CacheHandler \<Rightarrow> 't CacheHandler" where
  "OnReceiveMergedDelta table part delta stableBm op =
     op\<lparr>ch_sent := ch_sent op @
       [(''DeltaCache'', MERGED_DELTA table part delta stableBm (ch_name op))]\<rparr>"

definition CacheHandler_onReceive :: "'t delta_message \<Rightarrow> 't CacheHandler \<Rightarrow> 't CacheHandler result" where
  "CacheHandler_onReceive msg op =
     (case msg of
        START \<Rightarrow> Inr op
      | LOAD_REQUEST table deltaKey sender queryId \<Rightarrow>
          Inr (OnDeltasRequest table deltaKey (op\<lparr>ch_deltaMergeName := sender\<rparr>))
      | LOAD_RESPONSE table deltas stableBm sender \<Rightarrow> Inr (OnReceiveResponse table deltas stableBm op)
      | MERGED_DELTA table part delta stableBm sender \<Rightarrow>
          Inr (OnReceiveMergedDelta table part delta stableBm op)
      | _ \<Rightarrow> Inl (RuntimeError (''Unrecognized message type: , '' @ ch_name op)))"

section \<open>What the actor holds\<close>

text \<open>
  A well-formed actor: its two maps have the same tables, with distinct addresses and names.
  \<open>actor_deltas\<close> and \<open>actor_bm\<close> read off what it holds for a table and a partition.
\<close>

definition actor_wf :: "'t DeltaCacheActorState \<Rightarrow> bool" where
  "actor_wf s \<longleftrightarrow>
     map fst (da_cache s) = map fst (da_stableBmCache s) \<and>
     um_wf tbl_ptr (da_cache s) \<and> us_wf (tbl_name \<circ> fst) (da_cache s)"

definition actor_deltas :: "Table \<Rightarrow> int \<Rightarrow> 't DeltaCacheActorState \<Rightarrow> 't DeltaCacheData list" where
  "actor_deltas t p s = (case um_find tbl_ptr (tbl_ptr t) (da_cache s) of
     None \<Rightarrow> [] | Some c \<Rightarrow> DeltaCache_load (DeltaCacheKey_make p) c)"

definition actor_bm :: "Table \<Rightarrow> int \<Rightarrow> 't DeltaCacheActorState \<Rightarrow> nat option" where
  "actor_bm t p s = (case um_find tbl_ptr (tbl_ptr t) (da_stableBmCache s) of
     None \<Rightarrow> None | Some c \<Rightarrow> map_option sbd_stableBm (StableBmCache_load (StableBmCacheKey_make p) c))"

definition actor_tables :: "'t DeltaCacheActorState \<Rightarrow> Table set" where
  "actor_tables s = fst ` set (da_cache s)"

lemma um_assign_fst:
  assumes "a \<in> fst ` set m"
  shows "map fst (um_assign kf a v m) = map fst m"
proof -
  from assms have "us_find (kf \<circ> fst) (kf a) m \<noteq> None" by (auto simp: us_find_None us_keys_def image_comp [symmetric])
  then show ?thesis by (auto simp: um_assign_def)
qed

lemma us_wf_map_fst: "map fst m = map fst m' \<Longrightarrow> us_wf (f \<circ> fst) m = us_wf (f \<circ> fst) m'"
  by (metis map_map us_wf_def)

lemma find_by_name_wf:
  assumes "us_wf (tbl_name \<circ> fst) m" and "(t, c) \<in> set m"
  shows "find_by_name (tbl_name t) m = Some (t, c)"
  using us_find_wf [OF assms] by (simp add: find_by_name_def us_find_def)

lemma um_find_wf_mem:
  assumes "um_wf kf m" and "(a, v) \<in> set m"
  shows "um_find kf (kf a) m = Some v"
  using us_find_wf [OF assms] by (simp add: um_find_def)

lemma actor_table_entry:
  assumes "actor_wf s" and "t \<in> actor_tables s"
  obtains c b where "(t, c) \<in> set (da_cache s)" "(t, b) \<in> set (da_stableBmCache s)"
    "um_find tbl_ptr (tbl_ptr t) (da_cache s) = Some c"
    "um_find tbl_ptr (tbl_ptr t) (da_stableBmCache s) = Some b"
    "find_by_name (tbl_name t) (da_cache s) = Some (t, c)"
    "find_by_name (tbl_name t) (da_stableBmCache s) = Some (t, b)"
proof -
  have wf: "um_wf tbl_ptr (da_cache s)" "us_wf (tbl_name \<circ> fst) (da_cache s)"
    "um_wf tbl_ptr (da_stableBmCache s)" "us_wf (tbl_name \<circ> fst) (da_stableBmCache s)"
    using assms(1) us_wf_map_fst [of "da_cache s" "da_stableBmCache s" tbl_ptr]
      us_wf_map_fst [of "da_cache s" "da_stableBmCache s" tbl_name] by (auto simp: actor_wf_def)
  from assms obtain c where c: "(t, c) \<in> set (da_cache s)" by (auto simp: actor_tables_def)
  from assms have "t \<in> set (map fst (da_stableBmCache s))"
    by (metis actor_tables_def actor_wf_def list.set_map)
  then obtain b where b: "(t, b) \<in> set (da_stableBmCache s)" by auto
  show ?thesis
    using that [OF c b] um_find_wf_mem [OF wf(1) c] um_find_wf_mem [OF wf(3) b]
      find_by_name_wf [OF wf(2) c] find_by_name_wf [OF wf(4) b] by blast
qed

lemma actor_wf_assign:
  assumes "actor_wf s" and "t \<in> actor_tables s"
  shows "actor_wf (s\<lparr>da_cache := um_assign tbl_ptr t c (da_cache s)\<rparr>)"
    and "actor_wf (s\<lparr>da_stableBmCache := um_assign tbl_ptr t b (da_stableBmCache s)\<rparr>)"
proof -
  have 1: "map fst (um_assign tbl_ptr t c (da_cache s)) = map fst (da_cache s)"
    using assms(2) by (intro um_assign_fst) (simp add: actor_tables_def)
  have "t \<in> fst ` set (da_stableBmCache s)"
    using assms by (metis actor_tables_def actor_wf_def list.set_map)
  then have 2: "map fst (um_assign tbl_ptr t b (da_stableBmCache s)) = map fst (da_stableBmCache s)"
    by (rule um_assign_fst)
  show "actor_wf (s\<lparr>da_cache := um_assign tbl_ptr t c (da_cache s)\<rparr>)"
    using assms(1) 1 us_wf_map_fst [OF 1, of tbl_ptr] us_wf_map_fst [OF 1, of tbl_name] by (simp add: actor_wf_def)
  show "actor_wf (s\<lparr>da_stableBmCache := um_assign tbl_ptr t b (da_stableBmCache s)\<rparr>)"
    using assms(1) 2 by (simp add: actor_wf_def)
qed

lemma actor_deltas_assign:
  "actor_deltas t' q (s\<lparr>da_cache := um_assign tbl_ptr t c (da_cache s)\<rparr>)
     = (if tbl_ptr t' = tbl_ptr t then DeltaCache_load (DeltaCacheKey_make q) c else actor_deltas t' q s)"
  by (simp add: actor_deltas_def um_find_assign)

lemma actor_bm_assign:
  "actor_bm t' q (s\<lparr>da_stableBmCache := um_assign tbl_ptr t b (da_stableBmCache s)\<rparr>)
     = (if tbl_ptr t' = tbl_ptr t
        then map_option sbd_stableBm (StableBmCache_load (StableBmCacheKey_make q) b) else actor_bm t' q s)"
  by (simp add: actor_bm_def um_find_assign)

lemma actor_frame [simp]:
  "actor_deltas t p (s\<lparr>da_stableBmCache := x\<rparr>) = actor_deltas t p s"
  "actor_bm t p (s\<lparr>da_cache := y\<rparr>) = actor_bm t p s"
  "actor_deltas t p (s\<lparr>da_queryId := q\<rparr>) = actor_deltas t p s"
  "actor_bm t p (s\<lparr>da_queryId := q\<rparr>) = actor_bm t p s"
  "actor_deltas t p (s\<lparr>da_lastTimestamp := ts\<rparr>) = actor_deltas t p s"
  "actor_bm t p (s\<lparr>da_lastTimestamp := ts\<rparr>) = actor_bm t p s"
  "actor_wf (s\<lparr>da_queryId := q\<rparr>) = actor_wf s"
  "actor_wf (s\<lparr>da_lastTimestamp := ts\<rparr>) = actor_wf s"
  "actor_tables (s\<lparr>da_queryId := q\<rparr>) = actor_tables s"
  "actor_tables (s\<lparr>da_lastTimestamp := ts\<rparr>) = actor_tables s"
  by (simp_all add: actor_deltas_def actor_bm_def actor_wf_def actor_tables_def)

lemma actor_tables_assign:
  assumes "t \<in> actor_tables s"
  shows "actor_tables (s\<lparr>da_cache := um_assign tbl_ptr t c (da_cache s)\<rparr>) = actor_tables s"
  using um_assign_fst [of t "da_cache s" tbl_ptr c] assms unfolding actor_tables_def
  by simp (metis list.set_map)

lemma actor_tables_ptr:
  assumes "actor_wf s" and "t \<in> actor_tables s" and "t' \<in> actor_tables s"
  shows "tbl_ptr t = tbl_ptr t' \<longleftrightarrow> t = t'" and "tbl_name t = tbl_name t' \<longleftrightarrow> t = t'"
proof -
  have d: "distinct (map (tbl_ptr \<circ> fst) (da_cache s))" "distinct (map (tbl_name \<circ> fst) (da_cache s))"
    using assms(1) by (simp_all add: actor_wf_def us_wf_def)
  have "inj_on tbl_ptr (actor_tables s)" "inj_on tbl_name (actor_tables s)"
    using d by (auto simp: actor_tables_def distinct_map inj_on_def)
  then show "tbl_ptr t = tbl_ptr t' \<longleftrightarrow> t = t'" and "tbl_name t = tbl_name t' \<longleftrightarrow> t = t'"
    using assms(2,3) by (auto simp: inj_on_def)
qed

text \<open>\<open>storeMergedDelta\<close> replaces what the actor holds for one partition, and nothing else.\<close>

lemma storeMergedDelta_spec:
  assumes "actor_wf s" and "t \<in> actor_tables s"
  shows "\<exists>s'. storeMergedDelta t p d bm s = Inr s' \<and> actor_wf s' \<and> actor_tables s' = actor_tables s \<and>
    da_queryId s' = da_queryId s \<and> da_lastTimestamp s' = da_lastTimestamp s \<and>
    (\<forall>t' \<in> actor_tables s. \<forall>q. actor_deltas t' q s' =
       (if t' = t \<and> q = p then [DeltaCacheData_make d (da_lastTimestamp s)] else actor_deltas t' q s)) \<and>
    (\<forall>t' \<in> actor_tables s. \<forall>q. actor_bm t' q s' =
       (if t' = t \<and> q = p \<and> bm \<noteq> None then bm else actor_bm t' q s))"
proof -
  from actor_table_entry [OF assms] obtain c b where cb:
    "um_find tbl_ptr (tbl_ptr t) (da_cache s) = Some c"
    "um_find tbl_ptr (tbl_ptr t) (da_stableBmCache s) = Some b"
    "find_by_name (tbl_name t) (da_cache s) = Some (t, c)"
    "find_by_name (tbl_name t) (da_stableBmCache s) = Some (t, b)" .
  define c' where "c' = delta_cache.replace p (DeltaCacheData_make d (da_lastTimestamp s)) c"
  define s1 where "s1 = s\<lparr>da_cache := um_assign tbl_ptr t c' (da_cache s)\<rparr>"
  have wf1: "actor_wf s1" and tb1: "actor_tables s1 = actor_tables s"
    unfolding s1_def by (rule actor_wf_assign [OF assms]) (rule actor_tables_assign [OF assms(2)])
  have d1: "actor_deltas t' q s1 = (if t' = t \<and> q = p
      then [DeltaCacheData_make d (da_lastTimestamp s)] else actor_deltas t' q s)"
    if "t' \<in> actor_tables s" for t' q
    using that actor_tables_ptr [OF assms(1) that assms(2)] cb(1)
    by (auto simp: s1_def actor_deltas_def um_find_assign c'_def delta_cache.loads_replace)
  show ?thesis
  proof (cases bm)
    case None
    then have "storeMergedDelta t p d bm s = Inr s1"
      using cb(3) by (simp add: storeMergedDelta_def s1_def c'_def delta_cache.replace_def Let_def)
    with None wf1 tb1 d1 show ?thesis by (intro exI [of _ s1]) (simp add: s1_def)
  next
    case (Some m)
    define b' where "b' = stable_bm_cache.replace p \<lparr>sbd_stableBm = m\<rparr> b"
    define s2 where "s2 = s1\<lparr>da_stableBmCache := um_assign tbl_ptr t b' (da_stableBmCache s1)\<rparr>"
    have ld: "StableBmCache_load (StableBmCacheKey_make q) b'
        = (if q = p then Some \<lparr>sbd_stableBm = m\<rparr> else StableBmCache_load (StableBmCacheKey_make q) b)" for q
      using stable_bm_cache.loads_replace [of q p "\<lparr>sbd_stableBm = m\<rparr>" b]
      by (auto simp: b'_def split: option.splits if_splits)
    have "actor_bm t' q s2 = (if t' = t \<and> q = p then bm else actor_bm t' q s)"
      if "t' \<in> actor_tables s" for t' q
      using that actor_tables_ptr [OF assms(1) that assms(2)] cb(2) Some
      by (auto simp: s2_def actor_bm_def um_find_assign ld s1_def)
    moreover have "storeMergedDelta t p d bm s = Inr s2"
      using cb(3,4) Some
      by (simp add: storeMergedDelta_def s2_def s1_def c'_def b'_def delta_cache.replace_def
          stable_bm_cache.replace_def Let_def)
    moreover have "actor_wf s2"
      unfolding s2_def by (rule actor_wf_assign(2) [OF wf1]) (simp add: tb1 assms(2))
    moreover have "actor_tables s2 = actor_tables s" using tb1 by (simp add: s2_def actor_tables_def)
    ultimately show ?thesis using d1 Some by (intro exI [of _ s2]) (simp add: s2_def s1_def)
  qed
qed

text \<open>The versions a pump adds for a table and a partition, newest first.\<close>

definition pumped_for :: "string \<Rightarrow> int \<Rightarrow> (string \<times> (int \<times> 't TupleSet) list) list \<Rightarrow> 't TupleSet list" where
  "pumped_for name q D =
     rev (concat (map (\<lambda>(n, ds). if n = name then map snd (filter (\<lambda>e. fst e = q) ds) else []) D))"

lemma store_pumped_spec:
  assumes "actor_wf s" and "t \<in> actor_tables s"
  shows "\<exists>s'. store_pumped (tbl_name t) (p, d) s = Inr s' \<and> actor_wf s' \<and>
    actor_tables s' = actor_tables s \<and> da_queryId s' = da_queryId s \<and>
    da_lastTimestamp s' = da_lastTimestamp s \<and> da_name s' = da_name s \<and>
    da_stableBmCache s' = da_stableBmCache s \<and>
    (\<forall>t' \<in> actor_tables s. \<forall>q. actor_deltas t' q s' =
       (if t' = t \<and> q = p then [DeltaCacheData_make d (da_lastTimestamp s)] else []) @ actor_deltas t' q s)"
proof -
  from actor_table_entry [OF assms] obtain c where cb:
    "um_find tbl_ptr (tbl_ptr t) (da_cache s) = Some c"
    "find_by_name (tbl_name t) (da_cache s) = Some (t, c)" by blast
  define c' where
    "c' = DeltaCache_store (DeltaCacheKey_make p) (DeltaCacheData_make d (da_lastTimestamp s)) c"
  define s1 where "s1 = s\<lparr>da_cache := um_assign tbl_ptr t c' (da_cache s)\<rparr>"
  have "actor_wf s1" and "actor_tables s1 = actor_tables s"
    unfolding s1_def by (rule actor_wf_assign [OF assms]) (rule actor_tables_assign [OF assms(2)])
  moreover have "actor_deltas t' q s1 = (if t' = t \<and> q = p
      then [DeltaCacheData_make d (da_lastTimestamp s)] else []) @ actor_deltas t' q s"
    if "t' \<in> actor_tables s" for t' q
    using that actor_tables_ptr [OF assms(1) that assms(2)] cb(1)
    by (auto simp: s1_def actor_deltas_def um_find_assign c'_def DeltaCache_load_store
        DeltaCacheKey_make_def)
  moreover have "store_pumped (tbl_name t) (p, d) s = Inr s1"
    using cb(2) by (simp add: store_pumped_def s1_def c'_def Let_def)
  ultimately show ?thesis by (intro exI [of _ s1]) (simp add: s1_def)
qed

lemma store_pumped_list:
  assumes "actor_wf s" and "t \<in> actor_tables s"
  shows "\<exists>s'. rfold (store_pumped (tbl_name t)) ds s = Inr s' \<and> actor_wf s' \<and>
    actor_tables s' = actor_tables s \<and> da_queryId s' = da_queryId s \<and>
    da_lastTimestamp s' = da_lastTimestamp s \<and> da_name s' = da_name s \<and>
    da_stableBmCache s' = da_stableBmCache s \<and>
    (\<forall>t' \<in> actor_tables s. \<forall>q. actor_deltas t' q s' =
       map (\<lambda>d. DeltaCacheData_make d (da_lastTimestamp s))
         (if t' = t then rev (map snd (filter (\<lambda>e. fst e = q) ds)) else []) @ actor_deltas t' q s)"
  using assms
proof (induction ds arbitrary: s)
  case (Cons e ds)
  obtain p d where e: "e = (p, d)" by (cases e)
  from store_pumped_spec [OF Cons.prems, of p d] obtain s1 where s1:
    "store_pumped (tbl_name t) e s = Inr s1" "actor_wf s1" "actor_tables s1 = actor_tables s"
    "da_queryId s1 = da_queryId s" "da_lastTimestamp s1 = da_lastTimestamp s" "da_name s1 = da_name s"
    "da_stableBmCache s1 = da_stableBmCache s"
    "\<forall>t' \<in> actor_tables s. \<forall>q. actor_deltas t' q s1 =
       (if t' = t \<and> q = p then [DeltaCacheData_make d (da_lastTimestamp s)] else []) @ actor_deltas t' q s"
    by (auto simp: e)
  from Cons.IH [OF s1(2)] Cons.prems(2) s1(3) obtain s2 where s2:
    "rfold (store_pumped (tbl_name t)) ds s1 = Inr s2" "actor_wf s2" "actor_tables s2 = actor_tables s"
    "da_queryId s2 = da_queryId s" "da_lastTimestamp s2 = da_lastTimestamp s" "da_name s2 = da_name s"
    "da_stableBmCache s2 = da_stableBmCache s"
    "\<forall>t' \<in> actor_tables s. \<forall>q. actor_deltas t' q s2 =
       map (\<lambda>d. DeltaCacheData_make d (da_lastTimestamp s))
         (if t' = t then rev (map snd (filter (\<lambda>e. fst e = q) ds)) else []) @ actor_deltas t' q s1"
    using s1(4-7) by auto
  show ?case
    using s1(1,8) s2 by (intro exI [of _ s2]) (auto simp: e)
qed simp

lemma deltaPump_loop:
  assumes "actor_wf s" and "\<forall>(n, ds) \<in> set D. n \<in> tbl_name ` actor_tables s"
  shows "\<exists>s'. rfold (\<lambda>(tableName, deltas). rfold (store_pumped tableName) deltas) D s = Inr s' \<and>
    actor_wf s' \<and> actor_tables s' = actor_tables s \<and> da_queryId s' = da_queryId s \<and>
    da_lastTimestamp s' = da_lastTimestamp s \<and> da_name s' = da_name s \<and>
    da_stableBmCache s' = da_stableBmCache s \<and>
    (\<forall>t' \<in> actor_tables s. \<forall>q. actor_deltas t' q s' =
       map (\<lambda>d. DeltaCacheData_make d (da_lastTimestamp s)) (pumped_for (tbl_name t') q D)
         @ actor_deltas t' q s)"
  using assms
proof (induction D arbitrary: s)
  case Nil
  then show ?case by (simp add: pumped_for_def)
next
  case (Cons e D)
  from Cons.prems(2) obtain t ds where e: "e = (tbl_name t, ds)" and t: "t \<in> actor_tables s"
    by (cases e) auto
  from store_pumped_list [OF Cons.prems(1) t, of ds] obtain s1 where s1:
    "rfold (store_pumped (tbl_name t)) ds s = Inr s1" "actor_wf s1" "actor_tables s1 = actor_tables s"
    "da_queryId s1 = da_queryId s" "da_lastTimestamp s1 = da_lastTimestamp s" "da_name s1 = da_name s"
    "da_stableBmCache s1 = da_stableBmCache s"
    "\<forall>t' \<in> actor_tables s. \<forall>q. actor_deltas t' q s1 =
       map (\<lambda>d. DeltaCacheData_make d (da_lastTimestamp s))
         (if t' = t then rev (map snd (filter (\<lambda>e. fst e = q) ds)) else []) @ actor_deltas t' q s"
    by auto
  from Cons.IH [OF s1(2)] Cons.prems(2) s1(3-7) obtain s2 where s2:
    "rfold (\<lambda>(tableName, deltas). rfold (store_pumped tableName) deltas) D s1 = Inr s2"
    "actor_wf s2" "actor_tables s2 = actor_tables s" "da_queryId s2 = da_queryId s"
    "da_lastTimestamp s2 = da_lastTimestamp s" "da_name s2 = da_name s"
    "da_stableBmCache s2 = da_stableBmCache s"
    "\<forall>t' \<in> actor_tables s. \<forall>q. actor_deltas t' q s2 =
       map (\<lambda>d. DeltaCacheData_make d (da_lastTimestamp s)) (pumped_for (tbl_name t') q D)
         @ actor_deltas t' q s1"
    by auto
  have "pumped_for (tbl_name t') q (e # D) = pumped_for (tbl_name t') q D @
      (if t' = t then rev (map snd (filter (\<lambda>e. fst e = q) ds)) else [])"
    if "t' \<in> actor_tables s" for t' q
    using actor_tables_ptr(2) [OF Cons.prems(1) that t] by (auto simp: pumped_for_def e)
  then show ?case
    using s1(1,8) s2 by (intro exI [of _ s2]) (auto simp: e)
qed

lemma deltaPump_spec:
  assumes "actor_wf s" and "\<forall>(n, ds) \<in> set D. n \<in> tbl_name ` actor_tables s"
  shows "\<exists>s'. deltaPump (D, ts) s = Inr s' \<and> actor_wf s' \<and> actor_tables s' = actor_tables s \<and>
    da_queryId s' = da_queryId s \<and> da_lastTimestamp s' = ts \<and> da_name s' = da_name s \<and>
    da_stableBmCache s' = da_stableBmCache s \<and>
    (\<forall>t' \<in> actor_tables s. \<forall>q. actor_deltas t' q s' =
       map (\<lambda>d. DeltaCacheData_make d ts) (pumped_for (tbl_name t') q D) @ actor_deltas t' q s)"
  using deltaPump_loop [of "s\<lparr>da_lastTimestamp := ts\<rparr>" D] assms by (simp add: deltaPump_def)

lemma loadMemoryDelta_same_query:
  assumes "actor_wf s" and "t \<in> actor_tables s" and "queryId = da_queryId s"
  shows "loadMemoryDelta kmc pm t (DeltaCacheKey_make p) queryId s
    = Inr (LOAD_RESPONSE t (actor_deltas t p s) (if kmc then actor_bm t p s else None) (da_name s), s)"
proof -
  from actor_table_entry [OF assms(1,2)] obtain c b where cb:
    "um_find tbl_ptr (tbl_ptr t) (da_cache s) = Some c"
    "um_find tbl_ptr (tbl_ptr t) (da_stableBmCache s) = Some b" by blast
  have "StableBmCache_load k b = None" if "StableBmCache_getSize b = 0" for k
    using that by (simp add: StableBmCache_getSize_def StableBmCache_load_def um_find_def us_find_def)
  then show ?thesis
    using cb assms(3)
    by (auto simp: loadMemoryDelta_def actor_deltas_def actor_bm_def Let_def DeltaCacheKey_make_def)
qed

section \<open>Properties\<close>

text \<open>
  C2.  After the actor has stored a merged delta for a table and a partition, a load of the same query
  answers with exactly that delta, stamped with the time of the last pump, and (in keep-map mode) with
  the bitmap sent along; what it answers for every other table or partition is unchanged.
\<close>

theorem merged_delta_is_what_a_load_returns:
  assumes "actor_wf s" and "t \<in> actor_tables s" and "t' \<in> actor_tables s"
  shows "\<exists>s'. storeMergedDelta t p d bm s = Inr s' \<and>
    loadMemoryDelta True pm t' (DeltaCacheKey_make q) (da_queryId s) s' =
      Inr (LOAD_RESPONSE t'
        (if t' = t \<and> q = p then [DeltaCacheData_make d (da_lastTimestamp s)] else actor_deltas t' q s)
        (if t' = t \<and> q = p \<and> bm \<noteq> None then bm else actor_bm t' q s) (da_name s'), s')"
proof -
  from storeMergedDelta_spec [OF assms(1,2), of p d bm] obtain s' where s':
    "storeMergedDelta t p d bm s = Inr s'" "actor_wf s'" "actor_tables s' = actor_tables s"
    "da_queryId s' = da_queryId s"
    "\<forall>t' \<in> actor_tables s. \<forall>q. actor_deltas t' q s' =
       (if t' = t \<and> q = p then [DeltaCacheData_make d (da_lastTimestamp s)] else actor_deltas t' q s)"
    "\<forall>t' \<in> actor_tables s. \<forall>q. actor_bm t' q s' =
       (if t' = t \<and> q = p \<and> bm \<noteq> None then bm else actor_bm t' q s)" by blast
  then show ?thesis
    using loadMemoryDelta_same_query [of s' t' "da_queryId s" True pm q] assms(3)
    by (intro exI [of _ s']) simp
qed

definition sample_tbl :: Table where
  "sample_tbl = \<lparr>tbl_ptr = 1, tbl_name = ''part'', tbl_primaryKeyNames = [''k''], tbl_numPartitions = 2\<rparr>"

definition sample_actor :: "nat DeltaCacheActorState" where
  "sample_actor = DeltaCacheActor_makeBehaviour [sample_tbl]"

lemma sample_actor_eval: "sample_actor = \<lparr>da_name = ''delta-cache'',
   da_cache = [(sample_tbl, DeltaCache_make sample_tbl)],
   da_stableBmCache = [(sample_tbl, StableBmCache_make sample_tbl)],
   da_queryId = 2022, da_lastTimestamp = 0\<rparr>"
  by (simp add: sample_actor_def DeltaCacheActor_makeBehaviour_def um_assign_def us_find_def)

lemma sample_actor_wf: "actor_wf sample_actor" "sample_tbl \<in> actor_tables sample_actor"
  by (simp_all add: sample_actor_eval actor_wf_def actor_tables_def)

theorem merged_delta_is_what_a_load_returns_witness:
  "\<exists>s' nm. storeMergedDelta sample_tbl 3 (Some 7) None sample_actor = Inr s' \<and>
    loadMemoryDelta True ([], 0) sample_tbl (DeltaCacheKey_make 3) 2022 s' =
      Inr (LOAD_RESPONSE sample_tbl [DeltaCacheData_make (Some 7) 0] None nm, s')"
  using merged_delta_is_what_a_load_returns
    [OF sample_actor_wf(1) sample_actor_wf(2) sample_actor_wf(2), of 3 "Some 7" None "([], 0)" 3]
  by (auto simp: sample_actor_eval actor_bm_def um_find_def us_find_def StableBmCache_load_def
      StableBmCache_make_def)

text \<open>
  C7.  The first load of a new query sees the pumped deltas: for the requested table and partition the
  actor answers with the versions just pumped, newest first and stamped with the pump's time, followed
  by the versions it held before, and it remembers the query, so that the query's later loads see the
  same versions without another pump.
\<close>

theorem load_of_new_query_pumps_once:
  assumes "actor_wf s" and "t \<in> actor_tables s" and "queryId \<noteq> da_queryId s"
    and "\<forall>(n, ds) \<in> set D. n \<in> tbl_name ` actor_tables s"
  shows "\<exists>s' m. loadMemoryDelta kmc (D, ts) t (DeltaCacheKey_make p) queryId s = Inr (m, s') \<and>
    m = LOAD_RESPONSE t
      (map (\<lambda>d. DeltaCacheData_make d ts) (pumped_for (tbl_name t) p D) @ actor_deltas t p s)
      (if kmc then actor_bm t p s else None) (da_name s) \<and>
    loadMemoryDelta kmc pm t (DeltaCacheKey_make p) queryId s' = Inr (m, s')"
proof -
  from deltaPump_spec [of "s\<lparr>da_queryId := queryId\<rparr>" D ts] assms(1,4) obtain s' where s':
    "deltaPump (D, ts) (s\<lparr>da_queryId := queryId\<rparr>) = Inr s'" "actor_wf s'"
    "actor_tables s' = actor_tables s" "da_queryId s' = queryId" "da_name s' = da_name s"
    "da_stableBmCache s' = da_stableBmCache s"
    "\<forall>t' \<in> actor_tables s. \<forall>q. actor_deltas t' q s' =
       map (\<lambda>d. DeltaCacheData_make d ts) (pumped_for (tbl_name t') q D) @ actor_deltas t' q s"
    by auto
  have "actor_bm t p s' = actor_bm t p s" using s'(6) by (simp add: actor_bm_def)
  with s' assms(2) have again: "loadMemoryDelta kmc pm t (DeltaCacheKey_make p) queryId s' =
      Inr (LOAD_RESPONSE t
        (map (\<lambda>d. DeltaCacheData_make d ts) (pumped_for (tbl_name t) p D) @ actor_deltas t p s)
        (if kmc then actor_bm t p s else None) (da_name s), s')" for pm
    using loadMemoryDelta_same_query [of s' t queryId kmc pm p] by simp
  have "loadMemoryDelta kmc (D, ts) t (DeltaCacheKey_make p) queryId s
      = loadMemoryDelta kmc (D, ts) t (DeltaCacheKey_make p) queryId s'"
    using s'(1,4) assms(3) by (simp add: loadMemoryDelta_def)
  with again show ?thesis by auto
qed

theorem load_of_new_query_pumps_once_witness:
  "\<exists>s' nm. loadMemoryDelta False ([(''part'', [(3, Some 7), (3, Some 8)])], 5) sample_tbl
      (DeltaCacheKey_make 3) 1 sample_actor
    = Inr (LOAD_RESPONSE sample_tbl
        [DeltaCacheData_make (Some 8) 5, DeltaCacheData_make (Some 7) 5] None nm, s')"
proof -
  have n: "(1 :: int) \<noteq> da_queryId sample_actor" by (simp add: sample_actor_eval)
  have t: "\<forall>(n, ds) \<in> set [(''part'', [(3, Some (7 :: nat)), (3, Some 8)])].
      n \<in> tbl_name ` actor_tables sample_actor"
    by (simp add: sample_actor_eval actor_tables_def sample_tbl_def)
  have "actor_deltas sample_tbl 3 sample_actor = []"
    by (simp add: sample_actor_eval actor_deltas_def um_find_def us_find_def DeltaCache_load_def
        DeltaCache_make_def)
  moreover have "pumped_for (tbl_name sample_tbl) 3 [(''part'', [(3, Some (7 :: nat)), (3, Some 8)])]
      = [Some 8, Some 7]"
    by (simp add: pumped_for_def sample_tbl_def)
  ultimately show ?thesis
    using load_of_new_query_pumps_once [OF sample_actor_wf n t, of False 5 3 "([], 0)"] by auto
qed

text \<open>
  C8.  A delta that is pumped while a merge is under way is lost.  A merge operator of one query loads
  the deltas of a partition; a load of another query pumps a new delta into the same partition; then
  the merged delta of the first query arrives.  The actor then holds the merged delta only: the
  answer to every further load is the same whatever was pumped in between.
\<close>

theorem merge_loses_deltas_pumped_meanwhile:
  assumes "actor_wf s" and "t \<in> actor_tables s"
    and "\<forall>(n, ds) \<in> set D. n \<in> tbl_name ` actor_tables s"
  shows "\<exists>s1 s2. deltaPump (D, ts) s = Inr s1 \<and>
    actor_deltas t p s1 = map (\<lambda>d. DeltaCacheData_make d ts) (pumped_for (tbl_name t) p D) @ actor_deltas t p s \<and>
    storeMergedDelta t p d bm s1 = Inr s2 \<and> actor_deltas t p s2 = [DeltaCacheData_make d ts]"
proof -
  from deltaPump_spec [OF assms(1,3), of ts] obtain s1 where s1: "deltaPump (D, ts) s = Inr s1"
    "actor_wf s1" "actor_tables s1 = actor_tables s" "da_lastTimestamp s1 = ts"
    "\<forall>t' \<in> actor_tables s. \<forall>q. actor_deltas t' q s1 =
       map (\<lambda>d. DeltaCacheData_make d ts) (pumped_for (tbl_name t') q D) @ actor_deltas t' q s" by blast
  with assms(2) storeMergedDelta_spec [of s1 t p d bm] obtain s2 where
    "storeMergedDelta t p d bm s1 = Inr s2" "actor_deltas t p s2 = [DeltaCacheData_make d ts]" by auto
  with s1 assms(2) show ?thesis by blast
qed

theorem merge_loses_deltas_pumped_meanwhile_witness:
  "\<exists>s1 s2. deltaPump ([(''part'', [(3, Some 8)])], 5) sample_actor = Inr s1 \<and>
    actor_deltas sample_tbl 3 s1 = [DeltaCacheData_make (Some 8) 5] \<and>
    storeMergedDelta sample_tbl 3 (Some 7) None s1 = Inr s2 \<and>
    actor_deltas sample_tbl 3 s2 = [DeltaCacheData_make (Some 7) 5]"
proof -
  have t: "\<forall>(n, ds) \<in> set [(''part'', [(3, Some (8 :: nat))])]. n \<in> tbl_name ` actor_tables sample_actor"
    by (simp add: sample_actor_eval actor_tables_def sample_tbl_def)
  have "actor_deltas sample_tbl 3 sample_actor = []"
    by (simp add: sample_actor_eval actor_deltas_def um_find_def us_find_def DeltaCache_load_def
        DeltaCache_make_def)
  moreover have "pumped_for (tbl_name sample_tbl) 3 [(''part'', [(3, Some (8 :: nat))])] = [Some 8]"
    by (simp add: pumped_for_def sample_tbl_def)
  ultimately show ?thesis
    using merge_loses_deltas_pumped_meanwhile [OF sample_actor_wf t, of 5 3 "Some 7" None] by auto
qed

end
