(* ===== verification/Delete_Map.thy ===== *)
theory Delete_Map
  imports Delta_Cache "HOL-Library.List_Lexorder"
begin

text \<open>
  The k-way merge that decides which rows of the stable table and of the deltas survive
  (\<^verbatim>\<open>fpdb-executor/src/physical/deltamerge/DeleteMapGeneratorKernel.cpp\<close>).  Its inputs are
  sorted by primary key; the loop repeatedly takes the smallest key among the rows the scan indices
  point at, looks it up in every input and advances the inputs that have it.

  Row counts are natural numbers, so tables have fewer than \<open>2 ^ 31\<close> rows, the range of the
  \<^verbatim>\<open>int\<close> indices of the code.  Three of its local variables never influence the result and are
  left out: \<^verbatim>\<open>minPKPosition\<close>, \<^verbatim>\<open>counter\<close> and the map \<^verbatim>\<open>stableKm\<close>
  (the reads that fill the latter are kept, because they can fail).
\<close>

section \<open>Primary keys\<close>

fun compare_values :: "int32 list \<Rightarrow> int32 list \<Rightarrow> int" where
  "compare_values (x # xs) (y # ys) =
     (if sint x < sint y then - 1 else if sint x > sint y then 1 else compare_values xs ys)"
| "compare_values _ _ = 0"

definition compare_primary_key :: "int32 list \<Rightarrow> int32 list \<Rightarrow> int result" where
  "compare_primary_key pk1 pk2 =
     (if length pk1 \<noteq> length pk2 then
        Inl (InvalidArgument ''The lengths of primary keys do not match'')
      else Inr (compare_values pk1 pk2))"

section \<open>The inputs\<close>

text \<open>An input as the loop sees it: a number of rows and the primary key of a row.\<close>

record pk_source =
  src_rows :: nat
  src_pk :: "nat \<Rightarrow> int32 list result"

record delta_source = pk_source +
  src_type :: "nat \<Rightarrow> string result"
  src_timestamp :: int

definition stable_source :: "('t, 'a) arrow \<Rightarrow> string list \<Rightarrow> 't TupleSet \<Rightarrow> pk_source result" where
  "stable_source A pkNames ts =
     rbind (rmap (columnByName A ts) pkNames) (\<lambda>cols.
       Inr \<lparr>src_rows = TupleSet_numRows A ts, src_pk = (\<lambda>r. rmap (\<lambda>c. read_int32 A c (int r)) cols)\<rparr>)"

definition mk_delta_source ::
  "('t, 'a) arrow \<Rightarrow> string list \<Rightarrow> 't DeltaCacheData \<Rightarrow> delta_source result" where
  "mk_delta_source A pkNames d =
     rbind (rmap (columnByName A (dcd_delta d)) pkNames) (\<lambda>cols.
     rbind (columnByName A (dcd_delta d) ''type'') (\<lambda>tc.
       Inr \<lparr>src_rows = TupleSet_numRows A (dcd_delta d),
            src_pk = (\<lambda>r. rmap (\<lambda>c. read_int32 A c (int r)) cols),
            src_type = (\<lambda>r. read_string A tc (int r)),
            src_timestamp = dcd_timestamp d\<rparr>))"

text \<open>The reads that initialise the stable keep map: the first two key columns of the first stable.\<close>

definition init_stable_km :: "('t, 'a) arrow \<Rightarrow> string list \<Rightarrow> 't TupleSet list \<Rightarrow> unit result" where
  "init_stable_km A pkNames stables =
     (case stables of
        [] \<Rightarrow> Inl (UndefinedBehaviour ''stablePrimaryKeyColumns[0] of an empty vector'')
      | ts # _ \<Rightarrow>
          rbind (rmap (columnByName A ts) pkNames) (\<lambda>cols.
            if cols = [] then
              (if TupleSet_numRows A ts = 0 then Inr ()
               else Inl (UndefinedBehaviour ''stablePrimaryKeyColumns[0][0] of an empty vector''))
            else rbind (rmap (\<lambda>r. rmap (\<lambda>c. read_int32 A c (int r)) (take 2 cols))
                   [0..<TupleSet_numRows A ts]) (\<lambda>_. Inr ())))"

section \<open>The merge loop\<close>

record merge_state =
  deltaScanIndexTracker :: "nat list"
  stableScanIndexTracker :: "nat list"
  deltasPositions :: "nat list"
  stableDm :: "nat list"

text \<open>Inputs with their scan indices.\<close>

type_synonym 'e tracked = "('e pk_source_scheme \<times> nat) list"

definition all_visited :: "'e tracked \<Rightarrow> bool" where
  "all_visited ss = list_all (\<lambda>(s, i). \<not> i < src_rows s) ss"

definition checkIfAllRecordsWereVisited :: "'e tracked \<Rightarrow> 'f tracked \<Rightarrow> bool" where
  "checkIfAllRecordsWereVisited deltas stables = (all_visited deltas \<and> all_visited stables)"

text \<open>Step 1: the smallest key among the rows the indices point at, below a start value.\<close>

fun scan_min :: "'e tracked \<Rightarrow> int32 list \<Rightarrow> int32 list result" where
  "scan_min [] currPK = Inr currPK"
| "scan_min ((s, i) # ss) currPK =
     (if i \<ge> src_rows s then scan_min ss currPK
      else rbind (src_pk s i) (\<lambda>pk.
           rbind (compare_primary_key pk currPK) (\<lambda>c.
             scan_min ss (if c < 0 then pk else currPK))))"

text \<open>Whether the row an index points at has the key; an exhausted input is skipped.\<close>

definition key_matches :: "int32 list \<Rightarrow> 'e pk_source_scheme \<times> nat \<Rightarrow> bool result" where
  "key_matches currPK = (\<lambda>(s, i).
     if i \<ge> src_rows s then Inr False
     else rbind (src_pk s i) (\<lambda>pk. rbind (compare_primary_key currPK pk) (\<lambda>c. Inr (c = 0))))"

text \<open>
  The match in the stables: the position of the last stable that has the key, and the advanced
  indices.
\<close>

fun match_stables ::
  "nat \<Rightarrow> int32 list \<Rightarrow> 'e tracked \<Rightarrow> nat \<times> nat \<Rightarrow> ((nat \<times> nat) \<times> nat list) result" where
  "match_stables n currPK [] position = Inr (position, [])"
| "match_stables n currPK ((s, i) # ss) position =
     rbind (key_matches currPK (s, i)) (\<lambda>found.
     rbind (match_stables (n + 1) currPK ss (if found then (n, i) else position)) (\<lambda>(pos, tracker).
       Inr (pos, (if found then i + 1 else i) # tracker)))"

text \<open>
  The match in the deltas.  Only a delta newer than those before it in the list counts; its type
  sets or clears the delete flag, where a type other than \<open>DELETE\<close> and \<open>INSERT\<close> leaves the
  flag as it is.
\<close>

definition delete_flag :: "string \<Rightarrow> bool \<Rightarrow> bool" where
  "delete_flag ty flag = (if ty = ''DELETE'' then True else if ty = ''INSERT'' then False else flag)"

definition newer_delta ::
  "nat \<Rightarrow> nat \<Rightarrow> delta_source \<times> nat \<Rightarrow> bool \<times> int \<times> nat \<times> nat \<Rightarrow> (bool \<times> int \<times> nat \<times> nat) result" where
  "newer_delta nst n = (\<lambda>(s, i) (deleteFlag, minTimeStamp, position).
     if src_timestamp s > minTimeStamp then
       rbind (src_type s i) (\<lambda>ty. Inr (delete_flag ty deleteFlag, src_timestamp s, (nst + n, i)))
     else Inr (deleteFlag, minTimeStamp, position))"

fun match_deltas ::
  "nat \<Rightarrow> nat \<Rightarrow> int32 list \<Rightarrow> (delta_source \<times> nat) list \<Rightarrow> bool \<times> int \<times> nat \<times> nat \<Rightarrow>
   ((bool \<times> int \<times> nat \<times> nat) \<times> nat list) result" where
  "match_deltas nst n currPK [] acc = Inr (acc, [])"
| "match_deltas nst n currPK ((s, i) # ss) acc =
     rbind (key_matches currPK (s, i)) (\<lambda>found.
     rbind (if found then newer_delta nst n (s, i) acc else Inr acc) (\<lambda>acc'.
     rbind (match_deltas nst (n + 1) currPK ss acc') (\<lambda>(r, tracker).
       Inr (r, (if found then i + 1 else i) # tracker))))"

text \<open>
  What a key that is not deleted adds: a row of the first stable, or a position in the deltas.
  \<open>nd\<close> is the number of deltas and \<open>sizes\<close> their row counts.
\<close>

definition emit_position ::
  "nat \<Rightarrow> nat list \<Rightarrow> bool \<Rightarrow> nat \<times> nat \<Rightarrow> merge_state \<Rightarrow> merge_state result" where
  "emit_position nd sizes deleteFlag position st =
     (if deleteFlag then Inr st
      else if fst position = 0 then Inr (st\<lparr>stableDm := stableDm st @ [snd position]\<rparr>)
      else if fst position = nd + 1 then
        (if length sizes < 2 then Inl (UndefinedBehaviour ''deltaSizes[1] out of range'')
         else Inr (st\<lparr>deltasPositions := deltasPositions st @ [snd position + sizes ! 0 + sizes ! 1]\<rparr>))
      else Inr (st\<lparr>deltasPositions := deltasPositions st @ [snd position]\<rparr>))"

definition int32_max :: int32 where
  "int32_max = 2147483647"

definition merge_step ::
  "nat \<Rightarrow> pk_source list \<Rightarrow> delta_source list \<Rightarrow> merge_state \<Rightarrow> merge_state result" where
  "merge_step npk stables deltas st =
     rbind (scan_min (zip stables (stableScanIndexTracker st)) (replicate npk int32_max)) (\<lambda>pk0.
     rbind (scan_min (zip deltas (deltaScanIndexTracker st)) pk0) (\<lambda>currPK.
     rbind (match_stables 0 currPK (zip stables (stableScanIndexTracker st)) (0, 0))
       (\<lambda>(position, stableTracker).
     rbind (match_deltas (length stables) 0 currPK (zip deltas (deltaScanIndexTracker st))
             (False, 0, position))
       (\<lambda>((deleteFlag, _, position'), deltaTracker).
         emit_position (length deltas) (map src_rows deltas) deleteFlag position'
           (st\<lparr>stableScanIndexTracker := stableTracker, deltaScanIndexTracker := deltaTracker\<rparr>)))))"

section \<open>Keys as a linear order\<close>

text \<open>Signed values, compared lexicographically.\<close>

abbreviation key :: "int32 list \<Rightarrow> int list" where
  "key pk \<equiv> map sint pk"

lemma key_inj [simp]: "key a = key b \<longleftrightarrow> a = b"
  by (rule inj_map_eq_map) (simp add: inj_def signed_word_eqI)

lemma compare_values_order:
  assumes "length a = length b"
  shows "compare_values a b < 0 \<longleftrightarrow> key a < key b" and "compare_values a b = 0 \<longleftrightarrow> a = b"
  using assms
  by (induction a b rule: list_induct2) (auto simp: signed_word_eqI)

lemma compare_primary_key_order:
  assumes "compare_primary_key a b = Inr c"
  shows "length a = length b" and "c < 0 \<longleftrightarrow> key a < key b" and "c = 0 \<longleftrightarrow> a = b"
  using assms compare_values_order [of a b]
  by (auto simp: compare_primary_key_def split: if_splits)

lemma compare_primary_key_total:
  "length a = length b \<Longrightarrow> compare_primary_key a b = Inr (compare_values a b)"
  by (simp add: compare_primary_key_def)

lemma sint_int32_max: "sint (v :: int32) \<le> sint int32_max"
proof -
  have "sint v < 2 ^ 31" using sint_less [of v] by simp
  moreover have "sint int32_max = 2147483647" by (simp add: int32_max_def)
  ultimately show ?thesis by simp
qed

lemma key_max: "length q = n \<Longrightarrow> key q \<le> key (replicate n int32_max)"
proof (induction q arbitrary: n)
  case (Cons x q)
  then show ?case
    using sint_int32_max [of x] by (cases n) (auto simp: le_less)
qed simp

section \<open>Progress and termination\<close>

definition advance :: "int32 list \<Rightarrow> 'e pk_source_scheme \<times> nat \<Rightarrow> nat" where
  "advance pk = (\<lambda>(s, i). if i < src_rows s \<and> src_pk s i = Inr pk then i + 1 else i)"

lemma key_matches_advance:
  "key_matches pk e = Inr b \<Longrightarrow> advance pk e = (if b then snd e + 1 else snd e)"
  by (cases e) (auto simp: key_matches_def advance_def result_simps split: if_splits
      dest!: compare_primary_key_order(3))

lemma match_stables_advance:
  "match_stables n pk ss pos = Inr (p, tr) \<Longrightarrow> tr = map (advance pk) ss"
proof (induction ss arbitrary: n pos p tr)
  case (Cons e ss)
  obtain s i where e: "e = (s, i)" by (cases e)
  from Cons.prems obtain b p' tr' where b: "key_matches pk e = Inr b"
    and m: "match_stables (n + 1) pk ss (if b then (n, i) else pos) = Inr (p', tr')"
    and tr: "tr = (if b then i + 1 else i) # tr'"
    by (auto simp: e result_simps)
  from Cons.IH [OF m] key_matches_advance [OF b] tr show ?case by (simp add: e)
qed simp

lemma match_deltas_advance:
  "match_deltas nst n pk ss acc = Inr (r, tr) \<Longrightarrow> tr = map (advance pk) ss"
proof (induction ss arbitrary: n acc r tr)
  case (Cons e ss)
  obtain s i where e: "e = (s, i)" by (cases e)
  from Cons.prems obtain b acc' r' tr' where b: "key_matches pk e = Inr b"
    and m: "match_deltas nst (n + 1) pk ss acc' = Inr (r', tr')"
    and tr: "tr = (if b then i + 1 else i) # tr'"
    unfolding e match_deltas.simps by (elim rbindE) (auto split: prod.splits intro: that)
  from Cons.IH [OF m] key_matches_advance [OF b] tr show ?case by (simp add: e)
qed simp

definition pending :: "'e tracked \<Rightarrow> nat" where
  "pending ss = sum_list (map (\<lambda>(s, i). src_rows s - i) ss)"

lemma pending_advance_le: "pending (zip (map fst ss) (map (advance pk) ss)) \<le> pending ss"
  by (induction ss) (auto simp: pending_def advance_def)

lemma pending_advance_less:
  assumes "(s, i) \<in> set ss" and "i < src_rows s" and "src_pk s i = Inr pk"
  shows "pending (zip (map fst ss) (map (advance pk) ss)) < pending ss"
  using assms
proof (induction ss)
  case (Cons e ss)
  show ?case
  proof (cases "e = (s, i)")
    case True
    with Cons.prems pending_advance_le [of ss pk] show ?thesis
      by (auto simp: pending_def advance_def)
  next
    case False
    with Cons have "pending (zip (map fst ss) (map (advance pk) ss)) < pending ss" by auto
    then show ?thesis by (cases e) (auto simp: pending_def advance_def)
  qed
qed simp

lemma scan_min_spec:
  assumes "scan_min ss c0 = Inr c"
  shows "length c = length c0 \<and> key c \<le> key c0 \<and>
    (c = c0 \<or> (\<exists>(s, i) \<in> set ss. i < src_rows s \<and> src_pk s i = Inr c)) \<and>
    (\<forall>(s, i) \<in> set ss. i < src_rows s \<longrightarrow>
       (\<exists>q. src_pk s i = Inr q \<and> length q = length c0 \<and> key c \<le> key q))"
  using assms
proof (induction ss arbitrary: c0)
  case (Cons e ss)
  obtain s i where e: "e = (s, i)" by (cases e)
  show ?case
  proof (cases "i \<ge> src_rows s")
    case True
    with Cons show ?thesis by (auto simp: e)
  next
    case False
    with Cons.prems obtain q d where q: "src_pk s i = Inr q" "compare_primary_key q c0 = Inr d"
      "scan_min ss (if d < 0 then q else c0) = Inr c"
      by (auto simp: e result_simps)
    note o = compare_primary_key_order [OF q(2)]
    show ?thesis
    proof (cases "d < 0")
      case True
      with Cons.IH [of q] q o False show ?thesis by (auto simp: e)
    next
      case nd: False
      with o have "key c0 \<le> key q" by simp
      with Cons.IH [of c0] q o(1) nd False show ?thesis by (auto simp: e)
    qed
  qed
qed simp

lemma scan_min_hits:
  assumes "scan_min S (replicate npk int32_max) = Inr pk0" and "scan_min D pk0 = Inr pk"
    and "\<not> (all_visited D \<and> all_visited S)"
  shows "(\<exists>(s, i) \<in> set S. i < src_rows s \<and> src_pk s i = Inr pk) \<or>
      (\<exists>(s, i) \<in> set D. i < src_rows s \<and> src_pk s i = Inr pk)"
proof -
  note s1 = scan_min_spec [OF assms(1)] and s2 = scan_min_spec [OF assms(2)]
  have eq: "q = pk" if "pk = replicate npk int32_max" "length q = npk" "key pk \<le> key q" for q
    using that key_max [OF that(2)] by (metis antisym key_inj)
  consider "pk \<noteq> pk0" | "pk = pk0" "pk0 \<noteq> replicate npk int32_max" | "pk = replicate npk int32_max" "pk = pk0"
    by blast
  then show ?thesis
  proof cases
    case 1
    with s2 show ?thesis by blast
  next
    case 2
    with s1 show ?thesis by blast
  next
    case 3
    from assms(3) consider s i where "(s, i) \<in> set S" "i < src_rows s"
      | s i where "(s, i) \<in> set D" "i < src_rows s"
      by (auto simp: all_visited_def list_all_iff)
    then show ?thesis
    proof cases
      case (1 s i)
      with s1 obtain q where "src_pk s i = Inr q" "length q = npk" "key pk0 \<le> key q" by fastforce
      with eq 3 1 show ?thesis by auto
    next
      case (2 s i)
      with s1 s2 obtain q where "src_pk s i = Inr q" "length q = npk" "key pk \<le> key q" by fastforce
      with eq 3 2 show ?thesis by auto
    qed
  qed
qed

lemma zip_map_zip: "zip xs (map f (zip xs ys)) = zip (map fst (zip xs ys)) (map f (zip xs ys))"
proof (induction xs arbitrary: ys)
  case (Cons x xs)
  then show ?case by (cases ys) auto
qed simp

lemma merge_step_decreases:
  assumes "\<not> checkIfAllRecordsWereVisited (zip deltas (deltaScanIndexTracker st))
             (zip stables (stableScanIndexTracker st))"
    and "merge_step npk stables deltas st = Inr st'"
  shows "pending (zip deltas (deltaScanIndexTracker st')) + pending (zip stables (stableScanIndexTracker st'))
    < pending (zip deltas (deltaScanIndexTracker st)) + pending (zip stables (stableScanIndexTracker st))"
proof -
  let ?S = "zip stables (stableScanIndexTracker st)" and ?D = "zip deltas (deltaScanIndexTracker st)"
  from assms(2) obtain pk0 pk p trs r trd where st:
    "scan_min ?S (replicate npk int32_max) = Inr pk0" "scan_min ?D pk0 = Inr pk"
    "match_stables 0 pk ?S (0, 0) = Inr (p, trs)"
    "match_deltas (length stables) 0 pk ?D (False, 0, p) = Inr (r, trd)"
    and em: "emit_position (length deltas) (map src_rows deltas) (fst r) (snd (snd r))
      (st\<lparr>stableScanIndexTracker := trs, deltaScanIndexTracker := trd\<rparr>) = Inr st'"
    by (auto simp: merge_step_def result_simps split: prod.splits)
  from em have tr: "stableScanIndexTracker st' = trs" "deltaScanIndexTracker st' = trd"
    by (auto simp: emit_position_def split: if_splits)
  have adv: "trs = map (advance pk) ?S" "trd = map (advance pk) ?D"
    using match_stables_advance [OF st(3)] match_deltas_advance [OF st(4)] by simp_all
  have zs: "zip stables trs = zip (map fst ?S) trs" and zd: "zip deltas trd = zip (map fst ?D) trd"
    unfolding adv by (rule zip_map_zip)+
  have "(\<exists>(s, i) \<in> set ?S. i < src_rows s \<and> src_pk s i = Inr pk) \<or>
      (\<exists>(s, i) \<in> set ?D. i < src_rows s \<and> src_pk s i = Inr pk)"
    by (rule scan_min_hits [OF st(1,2)]) (use assms(1) in \<open>auto simp: checkIfAllRecordsWereVisited_def\<close>)
  then show ?thesis
  proof
    assume "\<exists>(s, i) \<in> set ?S. i < src_rows s \<and> src_pk s i = Inr pk"
    then have "pending (zip (map fst ?S) trs) < pending ?S"
      unfolding adv by (auto intro: pending_advance_less)
    moreover have "pending (zip (map fst ?D) trd) \<le> pending ?D"
      unfolding adv by (rule pending_advance_le)
    ultimately show ?thesis unfolding tr zs zd by simp
  next
    assume "\<exists>(s, i) \<in> set ?D. i < src_rows s \<and> src_pk s i = Inr pk"
    then have "pending (zip (map fst ?D) trd) < pending ?D"
      unfolding adv by (auto intro: pending_advance_less)
    moreover have "pending (zip (map fst ?S) trs) \<le> pending ?S"
      unfolding adv by (rule pending_advance_le)
    ultimately show ?thesis unfolding tr zs zd by simp
  qed
qed

text \<open>The \<^verbatim>\<open>while\<close> loop.\<close>

function merge_loop ::
  "nat \<Rightarrow> pk_source list \<Rightarrow> delta_source list \<Rightarrow> merge_state \<Rightarrow> merge_state result" where
  "merge_loop npk stables deltas st =
     (if checkIfAllRecordsWereVisited (zip deltas (deltaScanIndexTracker st))
           (zip stables (stableScanIndexTracker st)) then Inr st
      else rbind (merge_step npk stables deltas st) (\<lambda>st'. merge_loop npk stables deltas st'))"
  by pat_completeness auto
termination
  by (relation "measure (\<lambda>(npk, stables, deltas, st).
        pending (zip deltas (deltaScanIndexTracker st)) + pending (zip stables (stableScanIndexTracker st)))")
    (auto dest: merge_step_decreases)

declare merge_loop.simps [simp del]

text \<open>
  \<open>getDeleteMap\<close>: the positions to keep in the deltas and the bitmap of the rows to keep in the
  first stable.
\<close>

definition getDeleteMap ::
  "('t, 'a) arrow \<Rightarrow> 't DeltaCacheData list \<Rightarrow> 't TupleSet list \<Rightarrow> Table \<Rightarrow>
   (nat list \<times> 8 word list) result" where
  "getDeleteMap A deltas stables table =
     (let pkNames = tbl_primaryKeyNames table
      in rbind (rmap (stable_source A pkNames) stables) (\<lambda>ss.
         rbind (init_stable_km A pkNames stables) (\<lambda>_.
         rbind (rmap (mk_delta_source A pkNames) deltas) (\<lambda>ds.
         rbind (merge_loop (length pkNames) ss ds
                 \<lparr>deltaScanIndexTracker = replicate (length ds) 0,
                  stableScanIndexTracker = replicate (length ss) 0,
                  deltasPositions = [], stableDm = []\<rparr>) (\<lambda>st.
           Inr (deltasPositions st,
                map (\<lambda>s. if s \<in> set (stableDm st) then 1 else 0) [0..<TupleSet_numRows A (hd stables)]))))))"

section \<open>A reference for the merge\<close>

text \<open>
  The reference looks at one key at a time: the stable row that has it, and the deltas that have it,
  each overriding the ones before it if it is newer.  \<open>index_of\<close> is the row of a key in an input.
\<close>

definition index_of :: "int list \<Rightarrow> int32 list list \<Rightarrow> nat option" where
  "index_of k pks = List.find (\<lambda>i. key (pks ! i) = k) [0..<length pks]"

record delta_rows =
  dr_pks :: "int32 list list"
  dr_types :: "string list"
  dr_timestamp :: int

definition ref_stable :: "int list \<Rightarrow> int32 list list \<Rightarrow> nat \<times> nat" where
  "ref_stable k S = (case index_of k S of Some i \<Rightarrow> (0, i) | None \<Rightarrow> (0, 0))"

fun ref_deltas ::
  "nat \<Rightarrow> int list \<Rightarrow> delta_rows list \<Rightarrow> bool \<times> int \<times> nat \<times> nat \<Rightarrow> bool \<times> int \<times> nat \<times> nat" where
  "ref_deltas n k [] acc = acc"
| "ref_deltas n k (d # ds) acc =
     ref_deltas (n + 1) k ds
       (case (index_of k (dr_pks d), acc) of
          (Some i, (flag, ts, pos)) \<Rightarrow>
            if dr_timestamp d > ts then (delete_flag (dr_types d ! i) flag, dr_timestamp d, (1 + n, i))
            else acc
        | (None, _) \<Rightarrow> acc)"

definition ref_key :: "int32 list list \<Rightarrow> delta_rows list \<Rightarrow> int list \<Rightarrow> bool \<times> int \<times> nat \<times> nat" where
  "ref_key S Ds k = ref_deltas 0 k Ds (False, 0, ref_stable k S)"

definition ref_delta_positions :: "int32 list list \<Rightarrow> delta_rows list \<Rightarrow> int list \<Rightarrow> nat list" where
  "ref_delta_positions S Ds k =
     (case ref_key S Ds k of (flag, ts, w, i) \<Rightarrow> if \<not> flag \<and> w \<noteq> 0 then [i] else [])"

definition ref_stable_positions :: "int32 list list \<Rightarrow> delta_rows list \<Rightarrow> int list \<Rightarrow> nat list" where
  "ref_stable_positions S Ds k =
     (case ref_key S Ds k of (flag, ts, w, i) \<Rightarrow> if \<not> flag \<and> w = 0 then [i] else [])"

definition all_keys :: "int32 list list \<Rightarrow> delta_rows list \<Rightarrow> int list set" where
  "all_keys S Ds = key ` (set S \<union> (\<Union>d \<in> set Ds. set (dr_pks d)))"

text \<open>An input that reads these rows, in strictly increasing order of their keys.\<close>

definition reads :: "'e pk_source_scheme \<Rightarrow> int32 list list \<Rightarrow> bool" where
  "reads s pks \<longleftrightarrow> src_rows s = length pks \<and> (\<forall>r < length pks. src_pk s r = Inr (pks ! r))"

definition sorted_pks :: "nat \<Rightarrow> int32 list list \<Rightarrow> bool" where
  "sorted_pks n pks \<longleftrightarrow> (\<forall>q \<in> set pks. length q = n) \<and> sorted_wrt (<) (map key pks)"

definition reads_delta :: "nat \<Rightarrow> delta_source \<Rightarrow> delta_rows \<Rightarrow> bool" where
  "reads_delta n s d \<longleftrightarrow> reads s (dr_pks d) \<and> sorted_pks n (dr_pks d) \<and>
     length (dr_types d) = length (dr_pks d) \<and>
     (\<forall>r < length (dr_pks d). src_type s r = Inr (dr_types d ! r)) \<and> src_timestamp s = dr_timestamp d"

section \<open>One step of the merge\<close>

text \<open>The scan index of an input separates the keys below \<open>k\<close> from the others.\<close>

definition separates :: "int list \<Rightarrow> nat \<Rightarrow> int32 list list \<Rightarrow> bool" where
  "separates k t pks \<longleftrightarrow> t \<le> length pks \<and> (\<forall>j < t. key (pks ! j) < k) \<and>
     (\<forall>j. t \<le> j \<longrightarrow> j < length pks \<longrightarrow> k \<le> key (pks ! j))"

definition hit :: "int list \<Rightarrow> nat \<Rightarrow> int32 list list \<Rightarrow> bool" where
  "hit k t pks \<longleftrightarrow> t < length pks \<and> key (pks ! t) = k"

lemma find_upt_unique:
  assumes "t < n" and "P t" and "\<And>j. j < n \<Longrightarrow> P j \<Longrightarrow> j = t"
  shows "List.find P [0..<n] = Some t"
proof -
  have "\<not> P j" if "j < t" for j using that assms by (metis less_trans less_irrefl)
  then show ?thesis using assms(1,2) by (auto simp: find_Some_iff intro!: exI [of _ t])
qed

lemma index_of_separates:
  assumes "sorted_pks n pks" and "separates k t pks"
  shows "index_of k pks = (if hit k t pks then Some t else None)"
proof -
  have inj: "j = t" if "j < length pks" "t < length pks" "key (pks ! j) = key (pks ! t)" for j
    using assms(1) that sorted_wrt_nth_less [of "(<)" "map key pks" j t]
      sorted_wrt_nth_less [of "(<)" "map key pks" t j]
    by (cases j t rule: linorder_cases) (auto simp: sorted_pks_def)
  have low: "\<not> key (pks ! j) = k" if "j < t" for j
    using assms(2) that by (auto simp: separates_def)
  show ?thesis
  proof (cases "hit k t pks")
    case True
    then show ?thesis
      unfolding index_of_def using inj by (auto simp: hit_def intro!: find_upt_unique)
  next
    case False
    have "key (pks ! j) \<noteq> k" if "j < length pks" for j
    proof
      assume j: "key (pks ! j) = k"
      then have "\<not> j < t" using low by blast
      then have "t \<le> j" by simp
      with that have t: "t < length pks" by simp
      then have "k \<le> key (pks ! t)" using assms(2) by (simp add: separates_def)
      moreover have "key (pks ! t) \<le> key (pks ! j)"
        using assms(1) \<open>t \<le> j\<close> that sorted_wrt_nth_less [of "(<)" "map key pks" t j]
        by (cases "t = j") (auto simp: sorted_pks_def)
      ultimately show False using False j t by (simp add: hit_def)
    qed
    with False show ?thesis by (auto simp: index_of_def find_None_iff)
  qed
qed

lemma key_matches_reads:
  assumes "reads s pks" and "sorted_pks n pks" and "length pk = n"
  shows "key_matches pk (s, t) = Inr (hit (key pk) t pks)"
proof (cases "t < length pks")
  case True
  with assms have "src_pk s t = Inr (pks ! t)" "length (pks ! t) = n"
    by (auto simp: reads_def sorted_pks_def)
  with True assms show ?thesis
    using compare_values_order(2) [of pk "pks ! t"]
    by (auto simp: key_matches_def reads_def hit_def compare_primary_key_def)
next
  case False
  with assms show ?thesis by (simp add: key_matches_def reads_def hit_def)
qed

lemma match_stables_ref:
  assumes "reads s S" and "sorted_pks n S" and "length pk = n" and "separates (key pk) t S"
  shows "match_stables 0 pk [(s, t)] (0, 0)
    = Inr (ref_stable (key pk) S, [if hit (key pk) t S then t + 1 else t])"
  using key_matches_reads [OF assms(1-3)] index_of_separates [OF assms(2,4)]
  by (simp add: ref_stable_def)

lemma match_deltas_ref:
  assumes "list_all2 (reads_delta n) ds Ds" and "length pk = n"
    and "list_all2 (\<lambda>t d. separates (key pk) t (dr_pks d)) ts Ds"
  shows "match_deltas 1 m pk (zip ds ts) acc
    = Inr (ref_deltas m (key pk) Ds acc,
           map2 (\<lambda>t d. if hit (key pk) t (dr_pks d) then t + 1 else t) ts Ds)"
  using assms
proof (induction ds Ds arbitrary: ts m acc rule: list_all2_induct)
  case (Cons s ds d Ds)
  from Cons.prems(2) obtain t ts' where ts: "ts = t # ts'" by (cases ts) auto
  have r: "reads s (dr_pks d)" "sorted_pks n (dr_pks d)" using Cons.hyps(1) by (auto simp: reads_delta_def)
  have sp: "separates (key pk) t (dr_pks d)" and
    rest: "list_all2 (\<lambda>t d. separates (key pk) t (dr_pks d)) ts' Ds"
    using Cons.prems(2) by (auto simp: ts)
  have km: "key_matches pk (s, t) = Inr (hit (key pk) t (dr_pks d))"
    by (rule key_matches_reads [OF r assms(2)])
  obtain flag mt pos where acc: "acc = (flag, mt, pos)" by (cases acc)
  have nd: "(if hit (key pk) t (dr_pks d) then newer_delta 1 m (s, t) acc else Inr acc)
      = Inr (case (index_of (key pk) (dr_pks d), acc) of
          (Some i, (flag, ts, pos)) \<Rightarrow>
            if dr_timestamp d > ts then (delete_flag (dr_types d ! i) flag, dr_timestamp d, (1 + m, i))
            else acc
        | (None, _) \<Rightarrow> acc)"
    using Cons.hyps(1) index_of_separates [OF r(2) sp]
    by (auto simp: acc newer_delta_def reads_delta_def hit_def)
  show ?case
    using Cons.IH [OF assms(2) rest, of "m + 1"] unfolding ts
    by (simp add: km nd del: One_nat_def)
qed simp

section \<open>The whole merge\<close>

text \<open>
  The keys that are left and the keys that are done, over all inputs with their scan indices.  The
  loop keeps the done keys below those that are left.
\<close>

definition rest_keys :: "int32 list list list \<Rightarrow> nat list \<Rightarrow> int list set" where
  "rest_keys P T = (\<Union>(p, t) \<in> set (zip P T). key ` set (drop t p))"

definition done_keys :: "int32 list list list \<Rightarrow> nat list \<Rightarrow> int list set" where
  "done_keys P T = (\<Union>(p, t) \<in> set (zip P T). key ` set (take t p))"

definition merge_inv :: "nat \<Rightarrow> int32 list list list \<Rightarrow> nat list \<Rightarrow> bool" where
  "merge_inv n P T \<longleftrightarrow> list_all2 (\<lambda>p t. t \<le> length p \<and> sorted_pks n p) P T \<and>
     (\<forall>a \<in> done_keys P T. \<forall>b \<in> rest_keys P T. a < b)"

definition skip_key :: "int list \<Rightarrow> nat \<Rightarrow> int32 list list \<Rightarrow> nat" where
  "skip_key k t p = (if hit k t p then t + 1 else t)"

lemma finite_rest_keys [simp]: "finite (rest_keys P T)"
  by (auto simp: rest_keys_def)

lemma rest_keys_Nil [simp]: "rest_keys [] T = {}" "done_keys [] T = {}"
  by (simp_all add: rest_keys_def done_keys_def)

lemma rest_keys_Cons [simp]:
  "rest_keys (p # P) (t # T) = key ` set (drop t p) \<union> rest_keys P T"
  "done_keys (p # P) (t # T) = key ` set (take t p) \<union> done_keys P T"
  by (simp_all add: rest_keys_def done_keys_def)

lemma sorted_pks_le:
  assumes "sorted_pks n p" and "i \<le> j" and "j < length p"
  shows "key (p ! i) \<le> key (p ! j)"
  using assms sorted_wrt_nth_less [of "(<)" "map key p" i j]
  by (cases "i = j") (auto simp: sorted_pks_def)

lemma in_drop_iff: "x \<in> set (drop t p) \<longleftrightarrow> (\<exists>j. t \<le> j \<and> j < length p \<and> p ! j = x)"
proof
  assume "x \<in> set (drop t p)"
  then obtain i where "i < length p - t" "drop t p ! i = x" by (auto simp: in_set_conv_nth)
  then show "\<exists>j. t \<le> j \<and> j < length p \<and> p ! j = x" by (intro exI [of _ "t + i"]) auto
next
  assume "\<exists>j. t \<le> j \<and> j < length p \<and> p ! j = x"
  then obtain j where j: "t \<le> j" "j < length p" "p ! j = x" by blast
  then have "drop t p ! (j - t) = x" "j - t < length (drop t p)" by auto
  then show "x \<in> set (drop t p)" by (metis nth_mem)
qed

lemma in_take_iff: "t \<le> length p \<Longrightarrow> x \<in> set (take t p) \<longleftrightarrow> (\<exists>j < t. p ! j = x)"
  by (auto simp: in_set_conv_nth)

lemma separates_iff:
  assumes "t \<le> length p"
  shows "separates k t p \<longleftrightarrow> (\<forall>a \<in> key ` set (take t p). a < k) \<and> (\<forall>b \<in> key ` set (drop t p). k \<le> b)"
proof -
  have "(\<forall>a \<in> key ` set (take t p). a < k) \<longleftrightarrow> (\<forall>j < t. key (p ! j) < k)"
    using assms by (simp add: all_set_conv_all_nth min_absorb2)
  moreover have "(\<forall>b \<in> key ` set (drop t p). k \<le> b) \<longleftrightarrow> (\<forall>j. t \<le> j \<longrightarrow> j < length p \<longrightarrow> k \<le> key (p ! j))"
  proof (intro iffI allI impI)
    fix j
    assume "\<forall>b \<in> key ` set (drop t p). k \<le> b" and "t \<le> j" "j < length p"
    then show "k \<le> key (p ! j)" using in_drop_iff [of "p ! j" t p] by auto
  next
    assume "\<forall>j. t \<le> j \<longrightarrow> j < length p \<longrightarrow> k \<le> key (p ! j)"
    then show "\<forall>b \<in> key ` set (drop t p). k \<le> b" by (auto simp: in_drop_iff)
  qed
  ultimately show ?thesis using assms by (simp add: separates_def)
qed

lemma drop_skip_key:
  assumes "sorted_pks n p" and "separates k t p"
  shows "key ` set (drop (skip_key k t p) p) = key ` set (drop t p) - {k}"
proof (cases "hit k t p")
  case True
  then have d: "drop t p = p ! t # drop (Suc t) p" and k: "key (p ! t) = k"
    by (auto simp: hit_def Cons_nth_drop_Suc)
  have "sorted_wrt (<) (map key (drop t p))"
    using assms(1) by (simp add: sorted_pks_def sorted_wrt_drop flip: drop_map)
  with k have "\<forall>q \<in> set (drop (Suc t) p). k < key q" by (simp add: d)
  with k True show ?thesis by (auto simp: skip_key_def d)
next
  case False
  have "k \<notin> key ` set (drop t p)"
  proof
    assume "k \<in> key ` set (drop t p)"
    then obtain j where j: "t \<le> j" "j < length p" "key (p ! j) = k"
      by (auto simp: in_drop_iff image_iff)
    then have "key (p ! t) \<le> k" "k \<le> key (p ! t)"
      using sorted_pks_le [OF assms(1) j(1,2)] assms(2) by (auto simp: separates_def)
    with j False show False by (auto simp: hit_def)
  qed
  with False show ?thesis by (simp add: skip_key_def)
qed

lemma take_skip_key: "key ` set (take (skip_key k t p) p) \<subseteq> insert k (key ` set (take t p))"
  by (auto simp: skip_key_def hit_def take_Suc_conv_app_nth)

lemma skip_keys_sets:
  assumes "list_all2 (\<lambda>p t. sorted_pks n p \<and> separates k t p) P T"
  shows "rest_keys P (map2 (skip_key k) T P) = rest_keys P T - {k}"
    and "done_keys P (map2 (skip_key k) T P) \<subseteq> insert k (done_keys P T)"
    and "list_all2 (\<lambda>p t. t \<le> length p \<and> sorted_pks n p) P (map2 (skip_key k) T P)"
  using assms
proof (induction P T rule: list_all2_induct)
  case (Cons p P t T)
  {
    case 1
    have "key ` set (drop (skip_key k t p) p) = key ` set (drop t p) - {k}"
      by (rule drop_skip_key) (use Cons.hyps in auto)
    with Cons show ?case by (simp add: Un_Diff)
  next
    case 2
    show ?case using Cons take_skip_key [of k t p] by auto
  next
    case 3
    show ?case using Cons by (auto simp: skip_key_def hit_def separates_def)
  }
qed auto

lemma merge_inv_separates:
  assumes "merge_inv n P T" and "rest_keys P T \<noteq> {}"
  shows "list_all2 (\<lambda>p t. sorted_pks n p \<and> separates (Min (rest_keys P T)) t p) P T"
proof -
  let ?k = "Min (rest_keys P T)"
  have "\<forall>a \<in> done_keys P T. a < ?k" and "\<forall>b \<in> rest_keys P T. ?k \<le> b"
    using assms by (auto simp: merge_inv_def)
  then have "sorted_pks n p \<and> separates ?k t p"
    if "t \<le> length p \<and> sorted_pks n p" "(p, t) \<in> set (zip P T)" for p t
    using that by (auto simp: separates_iff rest_keys_def done_keys_def)
  with assms(1) show ?thesis
    by (auto simp: merge_inv_def list_all2_iff)
qed

lemma merge_inv_step:
  assumes "merge_inv n P T" and "rest_keys P T \<noteq> {}" and "k = Min (rest_keys P T)"
  shows "merge_inv n P (map2 (skip_key k) T P)"
    and "rest_keys P (map2 (skip_key k) T P) = rest_keys P T - {k}"
proof -
  note s = skip_keys_sets [OF merge_inv_separates [OF assms(1,2), folded assms(3)]]
  show "rest_keys P (map2 (skip_key k) T P) = rest_keys P T - {k}" by (rule s)
  have "\<forall>b \<in> rest_keys P T - {k}. k < b"
    using assms(2,3) by (auto simp: less_le)
  with assms(1) s show "merge_inv n P (map2 (skip_key k) T P)"
    unfolding merge_inv_def by blast
qed

lemma scan_min_total:
  assumes "list_all2 (\<lambda>s p. reads s p \<and> sorted_pks n p) ss P" and "length c0 = n"
  shows "\<exists>c. scan_min (zip ss T) c0 = Inr c \<and> length c = n"
  using assms
proof (induction ss P arbitrary: T c0 rule: list_all2_induct)
  case (Cons s ss p P)
  show ?case
  proof (cases T)
    case T: (Cons t T')
    have rows: "src_rows s = length p" using Cons.hyps(1) by (simp add: reads_def)
    have pk: "src_pk s t = Inr (p ! t)" "length (p ! t) = n" if "t < length p"
      using that Cons.hyps(1) by (auto simp: reads_def sorted_pks_def)
    show ?thesis
      using Cons.IH [of "if compare_values (p ! t) c0 < 0 then p ! t else c0" T'] Cons.IH [of c0 T']
        Cons.prems pk
      by (cases "t < length p") (auto simp: T rows compare_primary_key_total)
  qed (use Cons.prems in simp)
qed auto

lemma reads_at:
  assumes "list_all2 (\<lambda>s p. reads s p \<and> sorted_pks n p) ss P" and "length T = length P"
  shows "(\<exists>(s, t) \<in> set (zip ss T). t < src_rows s \<and> src_pk s t = Inr c) \<longleftrightarrow>
      (\<exists>(p, t) \<in> set (zip P T). t < length p \<and> p ! t = c)"
    and "(\<forall>(s, t) \<in> set (zip ss T). t < src_rows s \<longrightarrow> (\<exists>q. src_pk s t = Inr q \<and> length q = m \<and> key c \<le> key q)) \<longleftrightarrow>
      (\<forall>(p, t) \<in> set (zip P T). t < length p \<longrightarrow> length (p ! t) = m \<and> key c \<le> key (p ! t))"
    and "all_visited (zip ss T) \<longleftrightarrow> rest_keys P T = {}"
  using assms
proof (induction ss P arbitrary: T rule: list_all2_induct)
  case (Cons s ss p P)
  {
    case 1
    then show ?case using Cons by (cases T) (auto simp: reads_def)
  next
    case 2
    then show ?case using Cons by (cases T) (auto simp: reads_def)
  next
    case 3
    then show ?case using Cons by (cases T) (auto simp: reads_def all_visited_def)
  }
qed (auto simp: all_visited_def)

lemma heads_below_rest:
  assumes "list_all2 (\<lambda>p t. t \<le> length p \<and> sorted_pks n p) P T"
    and "\<forall>(p, t) \<in> set (zip P T). t < length p \<longrightarrow> c \<le> key (p ! t)" and "b \<in> rest_keys P T"
  shows "c \<le> b"
proof -
  from assms(3) obtain p t q where p: "(p, t) \<in> set (zip P T)" "q \<in> set (drop t p)" "b = key q"
    by (auto simp: rest_keys_def)
  then obtain j where j: "t \<le> j" "j < length p" "b = key (p ! j)" by (auto simp: in_drop_iff)
  with p assms(2) have "c \<le> key (p ! t)" by fastforce
  also have "\<dots> \<le> b"
    using assms(1) p(1) j sorted_pks_le [of n p t j] by (auto simp: list_all2_iff)
  finally show ?thesis .
qed

lemma head_in_rest:
  "(p, t) \<in> set (zip P T) \<Longrightarrow> t < length p \<Longrightarrow> key (p ! t) \<in> rest_keys P T"
  unfolding rest_keys_def by (rule UN_I [of "(p, t)"]) (auto intro!: imageI simp: in_drop_iff)

text \<open>Step 1 of the loop finds the smallest key that is left.\<close>

lemma scan_min_Min:
  assumes S: "reads s S" "sorted_pks n S" and D: "list_all2 (\<lambda>s p. reads s p \<and> sorted_pks n p) ds P"
    and inv: "merge_inv n (S # P) (t # T)" and ne: "rest_keys (S # P) (t # T) \<noteq> {}"
  obtains pk0 pk where "scan_min [(s, t)] (replicate n int32_max) = Inr pk0"
    and "scan_min (zip ds T) pk0 = Inr pk" and "length pk = n" and "key pk = Min (rest_keys (S # P) (t # T))"
proof -
  have SS: "list_all2 (\<lambda>s p. reads s p \<and> sorted_pks n p) [s] [S]" using S by simp
  obtain pk0 where pk0: "scan_min [(s, t)] (replicate n int32_max) = Inr pk0" "length pk0 = n"
    using scan_min_total [OF SS, of "replicate n int32_max" "[t]"] unfolding zip.simps by auto
  obtain pk where pk: "scan_min (zip ds T) pk0 = Inr pk" "length pk = n"
    using scan_min_total [OF D pk0(2), of T] by blast
  have len: "length T = length P" using inv by (auto simp: merge_inv_def dest: list_all2_lengthD)
  note rS = reads_at [OF SS, of "[t]", simplified] and rD = reads_at [OF D len]
  note s1 = scan_min_spec [OF pk0(1)] and s2 = scan_min_spec [OF pk(1)]
  have le0: "key pk \<le> key pk0" using s2 by simp
  have "\<forall>(p, t) \<in> set (zip (S # P) (t # T)). t < length p \<longrightarrow> key pk \<le> key (p ! t)"
    using s1 s2 rS(2) [of n pk0] rD(2) [of n pk] le0 pk0(2) by fastforce
  then have low: "key pk \<le> b" if "b \<in> rest_keys (S # P) (t # T)" for b
    using heads_below_rest [OF _ _ that] inv by (auto simp: merge_inv_def)
  have "\<not> (all_visited (zip ds T) \<and> all_visited [(s, t)])"
    using ne rS(3) rD(3) by auto
  with scan_min_hits [OF pk0(1) pk(1)] rS(1) [of pk] rD(1) [of pk]
  have "\<exists>(p, t) \<in> set (zip (S # P) (t # T)). t < length p \<and> p ! t = pk" by auto
  then have "key pk \<in> rest_keys (S # P) (t # T)" using head_in_rest by blast
  with low have "key pk = Min (rest_keys (S # P) (t # T))"
    by (intro Min_eqI [symmetric]) auto
  with that pk0 pk show ?thesis by blast
qed

lemma ref_deltas_position:
  assumes "w \<le> n" and "ref_deltas n k Ds (f, ts, w, i) = (f', ts', w', i')"
  shows "w' \<le> n + length Ds"
  using assms
proof (induction Ds arbitrary: n f ts w i)
  case (Cons d Ds)
  from Cons.prems(1) have "w \<le> n + 1" by simp
  with Cons.IH [of _ "n + 1"] Cons.prems(2) show ?case
    by (auto split: option.splits if_splits)
qed simp

lemma reads_delta_reads:
  assumes "list_all2 (reads_delta n) ds Ds"
  shows "list_all2 (\<lambda>s p. reads s p \<and> sorted_pks n p) ds (map dr_pks Ds)"
  using assms by (auto simp: list.rel_map reads_delta_def elim!: list_all2_mono)

lemma map2_skip_key:
  "map2 (\<lambda>t d. if hit k t (dr_pks d) then t + 1 else t) ts Ds = map2 (skip_key k) ts (map dr_pks Ds)"
  by (simp add: zip_map2 skip_key_def case_prod_beta comp_def)

lemma merge_step_ref:
  assumes S: "reads s S" "sorted_pks n S" and D: "list_all2 (reads_delta n) ds Ds"
    and st: "stableScanIndexTracker st = [t]" "deltaScanIndexTracker st = ts"
    and inv: "merge_inv n (S # map dr_pks Ds) (t # ts)"
    and ne: "rest_keys (S # map dr_pks Ds) (t # ts) \<noteq> {}"
    and k: "k = Min (rest_keys (S # map dr_pks Ds) (t # ts))"
  shows "merge_step n [s] ds st =
    Inr (st\<lparr>stableScanIndexTracker := [skip_key k t S],
            deltaScanIndexTracker := map2 (skip_key k) ts (map dr_pks Ds),
            deltasPositions := deltasPositions st @ ref_delta_positions S Ds k,
            stableDm := stableDm st @ ref_stable_positions S Ds k\<rparr>)"
proof -
  obtain pk0 pk where pk: "scan_min [(s, t)] (replicate n int32_max) = Inr pk0"
      "scan_min (zip ds ts) pk0 = Inr pk" "length pk = n" and key: "key pk = k"
    using scan_min_Min [OF S reads_delta_reads [OF D] inv ne] k by metis
  have sep: "separates k t S" "list_all2 (\<lambda>t d. separates k t (dr_pks d)) ts Ds"
    using merge_inv_separates [OF inv ne, folded k]
    by (simp_all add: list.rel_map list_all2_conv_all_nth [of _ ts]) (simp add: list_all2_conv_all_nth)
  note ms = match_stables_ref [OF S pk(3), unfolded key, OF sep(1)]
  note md = match_deltas_ref [OF D pk(3), unfolded key, OF sep(2), of 0, unfolded map2_skip_key]
  obtain f m w i where r: "ref_deltas 0 k Ds (False, 0, ref_stable k S) = (f, m, w, i)"
    by (metis prod.exhaust)
  have "fst (ref_stable k S) = 0" by (simp add: ref_stable_def split: option.split)
  then have w: "w \<le> length Ds"
    using r ref_deltas_position [of "fst (ref_stable k S)" 0 k Ds False 0 "snd (ref_stable k S)" f m w i]
    by (cases "ref_stable k S") simp
  moreover have "length ds = length Ds" by (rule list_all2_lengthD [OF D])
  ultimately have em: "emit_position (length ds) sizes f (w, i) u =
      Inr (u\<lparr>deltasPositions := deltasPositions u @ ref_delta_positions S Ds k,
             stableDm := stableDm u @ ref_stable_positions S Ds k\<rparr>)" for sizes u
    by (auto simp: emit_position_def ref_delta_positions_def ref_stable_positions_def ref_key_def r)
  show ?thesis
    using pk ms md by (simp add: merge_step_def st r em skip_key_def [of k t S] del: match_stables.simps scan_min.simps)
qed

text \<open>The loop appends, for every key that is left and in increasing order, what the reference says.\<close>

lemma merge_loop_ref:
  assumes S: "reads s S" "sorted_pks n S" and D: "list_all2 (reads_delta n) ds Ds"
    and "stableScanIndexTracker st = [t]" and "deltaScanIndexTracker st = ts"
    and "merge_inv n (S # map dr_pks Ds) (t # ts)"
    and "K = sorted_list_of_set (rest_keys (S # map dr_pks Ds) (t # ts))"
  shows "\<exists>st'. merge_loop n [s] ds st = Inr st' \<and>
    deltasPositions st' = deltasPositions st @ concat (map (ref_delta_positions S Ds) K) \<and>
    stableDm st' = stableDm st @ concat (map (ref_stable_positions S Ds) K)"
  using assms(4-)
proof (induction "card (rest_keys (S # map dr_pks Ds) (t # ts))" arbitrary: st t ts K rule: less_induct)
  case less
  let ?P = "S # map dr_pks Ds"
  have len: "length ts = length (map dr_pks Ds)"
    using less.prems(3) by (auto simp: merge_inv_def dest: list_all2_lengthD)
  have v: "checkIfAllRecordsWereVisited (zip ds ts) (zip [s] [t]) \<longleftrightarrow> rest_keys ?P (t # ts) = {}"
    using reads_at(3) [OF reads_delta_reads [OF D] len] S(1)
    by (auto simp: checkIfAllRecordsWereVisited_def all_visited_def reads_def)
  show ?case
  proof (cases "rest_keys ?P (t # ts) = {}")
    case True
    with less.prems v show ?thesis by (simp add: merge_loop.simps)
  next
    case False
    define k where "k = Min (rest_keys ?P (t # ts))"
    have in_rest: "k \<in> rest_keys ?P (t # ts)" using False by (simp add: k_def del: rest_keys_Cons)
    note step = merge_step_ref [OF S D less.prems(1,2,3) False k_def]
    note inv = merge_inv_step [OF less.prems(3) False k_def, unfolded list.map zip_Cons_Cons prod.case]
    have card: "card (rest_keys ?P (t # ts) - {k}) < card (rest_keys ?P (t # ts))"
      by (rule card_Diff1_less [OF finite_rest_keys in_rest])
    have K: "K = k # sorted_list_of_set (rest_keys ?P (t # ts) - {k})"
      unfolding less.prems(4) k_def by (rule sorted_list_of_set_nonempty) (use False in auto)
    define st1 where "st1 = st\<lparr>stableScanIndexTracker := [skip_key k t S],
            deltaScanIndexTracker := map2 (skip_key k) ts (map dr_pks Ds),
            deltasPositions := deltasPositions st @ ref_delta_positions S Ds k,
            stableDm := stableDm st @ ref_stable_positions S Ds k\<rparr>"
    have "merge_loop n [s] ds st = merge_loop n [s] ds st1"
      using v False step [folded st1_def] by (simp add: merge_loop.simps [of n "[s]" ds st] less.prems(1,2)
          del: rest_keys_Cons)
    moreover have "stableScanIndexTracker st1 = [skip_key k t S]"
      "deltaScanIndexTracker st1 = map2 (skip_key k) ts (map dr_pks Ds)"
      by (simp_all add: st1_def)
    note less.hyps [OF _ this inv(1) refl, unfolded inv(2), OF card]
    ultimately show ?thesis by (simp add: K st1_def del: rest_keys_Cons)
  qed
qed

section \<open>Reading the tables\<close>

text \<open>The rows of a table as the kernel reads them.\<close>

definition stable_rows :: "('t, 'a) arrow \<Rightarrow> string list \<Rightarrow> 't TupleSet \<Rightarrow> int32 list list result" where
  "stable_rows A pkNames ts =
     rbind (stable_source A pkNames ts) (\<lambda>s. rmap (src_pk s) [0..<src_rows s])"

definition delta_rows_of ::
  "('t, 'a) arrow \<Rightarrow> string list \<Rightarrow> 't DeltaCacheData \<Rightarrow> delta_rows result" where
  "delta_rows_of A pkNames d =
     rbind (mk_delta_source A pkNames d) (\<lambda>s.
     rbind (rmap (src_pk s) [0..<src_rows s]) (\<lambda>pks.
     rbind (rmap (src_type s) [0..<src_rows s]) (\<lambda>types.
       Inr \<lparr>dr_pks = pks, dr_types = types, dr_timestamp = src_timestamp s\<rparr>)))"

lemma rmap_upt_nth:
  assumes "rmap f [0..<n] = Inr ys"
  shows "length ys = n" and "r < n \<Longrightarrow> f r = Inr (ys ! r)"
proof -
  have *: "rmap f xs = Inr ys \<Longrightarrow> i < length xs \<Longrightarrow> f (xs ! i) = Inr (ys ! i)" for xs ys i
    by (induction xs arbitrary: ys i) (auto simp: result_simps nth_Cons' less_Suc_eq_0_disj)
  show "length ys = n" using rmap_length [OF assms] by simp
  show "r < n \<Longrightarrow> f r = Inr (ys ! r)" using * [OF assms, of r] by simp
qed

lemma stable_rows_reads:
  assumes "stable_rows A names ts = Inr S"
  obtains s where "stable_source A names ts = Inr s" and "reads s S" and "src_rows s = TupleSet_numRows A ts"
proof -
  from assms obtain s where s: "stable_source A names ts = Inr s" "rmap (src_pk s) [0..<src_rows s] = Inr S"
    by (auto simp: stable_rows_def result_simps)
  moreover from s(1) have "src_rows s = TupleSet_numRows A ts"
    by (auto simp: stable_source_def result_simps)
  ultimately show ?thesis using that rmap_upt_nth [OF s(2)] by (auto simp: reads_def)
qed

lemma delta_rows_reads:
  assumes "delta_rows_of A names d = Inr D" and "sorted_pks n (dr_pks D)"
  shows "\<exists>s. mk_delta_source A names d = Inr s \<and> reads_delta n s D"
proof -
  from assms(1) obtain s pks types where s: "mk_delta_source A names d = Inr s"
    and r: "rmap (src_pk s) [0..<src_rows s] = Inr pks" "rmap (src_type s) [0..<src_rows s] = Inr types"
    and D: "D = \<lparr>dr_pks = pks, dr_types = types, dr_timestamp = src_timestamp s\<rparr>"
    by (auto simp: delta_rows_of_def result_simps)
  from assms(2) s rmap_upt_nth [OF r(1)] rmap_upt_nth [OF r(2)] show ?thesis
    by (auto simp: reads_delta_def reads_def D)
qed

lemma rmap_mk_delta_sources:
  assumes "rmap (delta_rows_of A names) deltas = Inr Ds" and "\<forall>D \<in> set Ds. sorted_pks n (dr_pks D)"
  shows "\<exists>ds. rmap (mk_delta_source A names) deltas = Inr ds \<and> list_all2 (reads_delta n) ds Ds"
  using assms
proof (induction deltas arbitrary: Ds)
  case (Cons d deltas)
  then obtain D Ds' where D: "delta_rows_of A names d = Inr D" "Ds = D # Ds'"
    "rmap (delta_rows_of A names) deltas = Inr Ds'" by (auto simp: result_simps)
  with Cons.prems delta_rows_reads [OF D(1)] obtain s where
    "mk_delta_source A names d = Inr s" "reads_delta n s D" by auto
  with Cons.IH [OF D(3)] Cons.prems D(2) show ?case by auto
qed simp

lemma rmap_take: "rmap f xs = Inr ys \<Longrightarrow> rmap f (take m xs) = Inr (take m ys)"
proof (induction xs arbitrary: ys m)
  case (Cons x xs)
  then show ?case by (cases m) (auto simp: result_simps)
qed simp

lemma init_stable_km_ok:
  assumes "stable_rows A names ts = Inr S" and "names \<noteq> []"
  shows "init_stable_km A names [ts] = Inr ()"
proof -
  obtain s where s: "stable_source A names ts = Inr s" "reads s S" "src_rows s = TupleSet_numRows A ts"
    by (rule stable_rows_reads [OF assms(1)])
  then obtain cols where c: "rmap (columnByName A ts) names = Inr cols"
    and pk: "src_pk s = (\<lambda>r. rmap (\<lambda>c. read_int32 A c (int r)) cols)"
    by (auto simp: stable_source_def result_simps)
  have "cols \<noteq> []" using rmap_length [OF c] assms(2) by auto
  moreover have "rmap (\<lambda>r. rmap (\<lambda>c. read_int32 A c (int r)) (take 2 cols)) [0..<TupleSet_numRows A ts]
      = Inr (map (\<lambda>r. take 2 (S ! r)) [0..<TupleSet_numRows A ts])"
    by (rule rmap_cong_Inr, rule rmap_take) (use s pk in \<open>auto simp: reads_def\<close>)
  ultimately show ?thesis using c by (simp add: init_stable_km_def)
qed

lemma rest_keys_start:
  fixes Ds :: "delta_rows list"
  shows "rest_keys (S # map dr_pks Ds) (0 # replicate (length Ds) 0) = all_keys S Ds"
    and "done_keys (S # map dr_pks Ds) (0 # replicate (length Ds) 0) = {}"
proof -
  have "rest_keys (map dr_pks Ds) (replicate (length Ds) 0) = (\<Union>d \<in> set Ds. key ` set (dr_pks d)) \<and>
      done_keys (map dr_pks Ds) (replicate (length Ds) 0) = {}"
    by (induction Ds) auto
  then show "rest_keys (S # map dr_pks Ds) (0 # replicate (length Ds) 0) = all_keys S Ds"
    "done_keys (S # map dr_pks Ds) (0 # replicate (length Ds) 0) = {}"
    by (simp_all add: all_keys_def image_Un image_UN)
qed

lemma merge_inv_start:
  fixes Ds :: "delta_rows list"
  assumes "sorted_pks n S" and "\<forall>D \<in> set Ds. sorted_pks n (dr_pks D)"
  shows "merge_inv n (S # map dr_pks Ds) (0 # replicate (length Ds) 0)"
  using assms rest_keys_start(2) [where S = S and Ds = Ds]
  by (simp add: merge_inv_def list_all2_conv_all_nth del: rest_keys_Cons) (auto simp: nth_Cons')

text \<open>The result in terms of the reference.\<close>

lemma getDeleteMap_ref:
  assumes "stable_rows A (tbl_primaryKeyNames table) sts = Inr S"
    and "rmap (delta_rows_of A (tbl_primaryKeyNames table)) deltas = Inr Ds"
    and "tbl_primaryKeyNames table \<noteq> []"
    and "sorted_pks (length (tbl_primaryKeyNames table)) S"
    and "\<forall>D \<in> set Ds. sorted_pks (length (tbl_primaryKeyNames table)) (dr_pks D)"
    and "K = sorted_list_of_set (all_keys S Ds)"
  shows "getDeleteMap A deltas [sts] table =
    Inr (concat (map (ref_delta_positions S Ds) K),
         map (\<lambda>r. if r \<in> set (concat (map (ref_stable_positions S Ds) K)) then 1 else 0) [0..<length S])"
proof -
  let ?n = "length (tbl_primaryKeyNames table)"
  obtain s where s: "stable_source A (tbl_primaryKeyNames table) sts = Inr s" "reads s S"
    "src_rows s = TupleSet_numRows A sts" by (rule stable_rows_reads [OF assms(1)])
  obtain ds where ds: "rmap (mk_delta_source A (tbl_primaryKeyNames table)) deltas = Inr ds"
    "list_all2 (reads_delta ?n) ds Ds" using rmap_mk_delta_sources [OF assms(2,5)] by blast
  have rows: "TupleSet_numRows A sts = length S" using s by (simp add: reads_def)
  have len: "length ds = length Ds" by (rule list_all2_lengthD [OF ds(2)])
  note loop = merge_loop_ref [OF s(2) assms(4) ds(2) _ _ merge_inv_start [OF assms(4,5)] refl,
      unfolded rest_keys_start, folded assms(6),
      of "\<lparr>deltaScanIndexTracker = replicate (length ds) 0, stableScanIndexTracker = [0],
           deltasPositions = [], stableDm = []\<rparr>"]
  then show ?thesis
    using s ds init_stable_km_ok [OF assms(1,3)] len rows
    by (auto simp: getDeleteMap_def Let_def)
qed

section \<open>What the merge keeps\<close>

abbreviation delta_keys :: "delta_rows list \<Rightarrow> int list set" where
  "delta_keys Ds \<equiv> (\<Union>D \<in> set Ds. key ` set (dr_pks D))"

lemma finite_all_keys [simp]: "finite (all_keys S Ds)"
  by (simp add: all_keys_def)

lemma all_keys_Un: "all_keys S Ds = key ` set S \<union> delta_keys Ds"
  by (auto simp: all_keys_def)

lemma index_of_None: "index_of k p = None \<longleftrightarrow> k \<notin> key ` set p"
  by (auto simp: index_of_def find_None_iff image_iff all_set_conv_all_nth)

lemma index_of_Some: "index_of k p = Some i \<Longrightarrow> i < length p \<and> key (p ! i) = k"
  by (auto simp: index_of_def find_Some_iff)

lemma sorted_pks_inj:
  assumes "sorted_pks n p" and "i < length p" and "j < length p" and "key (p ! i) = key (p ! j)"
  shows "i = j"
  using assms sorted_wrt_nth_less [of "(<)" "map key p" i j] sorted_wrt_nth_less [of "(<)" "map key p" j i]
  by (cases i j rule: linorder_cases) (auto simp: sorted_pks_def)

lemma index_of_key [simp]:
  assumes "sorted_pks n p" and "i < length p"
  shows "index_of (key (p ! i)) p = Some i"
  unfolding index_of_def by (rule find_upt_unique) (use assms sorted_pks_inj [OF assms(1)] in auto)

text \<open>With positive timestamps a delta that has the key always wins over the stable row.\<close>

lemma ref_deltas_untouched:
  "k \<notin> delta_keys Ds \<Longrightarrow> ref_deltas n k Ds acc = acc"
  by (induction Ds arbitrary: n acc) (auto simp: index_of_None [THEN iffD2])

lemma ref_deltas_keeps_delta:
  "w \<noteq> 0 \<Longrightarrow> fst (snd (snd (ref_deltas n k Ds (f, ts, w, i)))) \<noteq> 0"
proof (induction Ds arbitrary: n f ts w i)
  case (Cons D Ds)
  then show ?case by (auto split: option.split)
qed simp

lemma ref_deltas_wins:
  assumes "k \<in> delta_keys Ds" and "\<forall>D \<in> set Ds. 0 < dr_timestamp D"
  shows "fst (snd (snd (ref_deltas n k Ds (f, 0, pos)))) \<noteq> 0"
  using assms
proof (induction Ds arbitrary: n f pos)
  case (Cons D Ds)
  show ?case
  proof (cases "index_of k (dr_pks D)")
    case None
    with Cons.prems have "k \<in> delta_keys Ds" by (auto simp: index_of_None)
    with None Cons show ?thesis by simp
  next
    case (Some i)
    with Cons.prems show ?thesis by (simp add: ref_deltas_keeps_delta)
  qed
qed simp

lemma ref_stable_positions_eq:
  assumes "k \<in> all_keys S Ds" and "\<forall>D \<in> set Ds. 0 < dr_timestamp D"
  shows "ref_stable_positions S Ds k = (if k \<in> delta_keys Ds then [] else [the (index_of k S)])"
proof (cases "k \<in> delta_keys Ds")
  case True
  with ref_deltas_wins [OF True assms(2), of 0 False "ref_stable k S"] show ?thesis
    by (auto simp: ref_stable_positions_def ref_key_def split: prod.splits)
next
  case False
  with assms(1) have "index_of k S \<noteq> None" by (auto simp: all_keys_Un index_of_None)
  then obtain i where "index_of k S = Some i" by blast
  with ref_deltas_untouched [OF False] False show ?thesis
    by (simp add: ref_stable_positions_def ref_key_def ref_stable_def)
qed

lemma ref_stable_positions_set:
  assumes "sorted_pks n S" and "\<forall>D \<in> set Ds. 0 < dr_timestamp D" and "r < length S"
  shows "(\<exists>k \<in> all_keys S Ds. r \<in> set (ref_stable_positions S Ds k)) \<longleftrightarrow> key (S ! r) \<notin> delta_keys Ds"
proof -
  have "r = the (index_of k S) \<longleftrightarrow> k = key (S ! r)" if "k \<in> all_keys S Ds" "k \<notin> delta_keys Ds" for k
  proof -
    from that obtain i where i: "i < length S" "k = key (S ! i)"
      by (auto simp: all_keys_Un in_set_conv_nth)
    with assms show ?thesis using sorted_pks_inj [OF assms(1,3) i(1)] by auto
  qed
  moreover have "key (S ! r) \<in> all_keys S Ds" using assms(3) by (simp add: all_keys_Un)
  ultimately show ?thesis using ref_stable_positions_eq [OF _ assms(2)] by (auto split: if_splits)
qed

text \<open>The inputs of a merge that the kernel can read, with their rows.\<close>

definition merge_input ::
  "('t, 'a) arrow \<Rightarrow> Table \<Rightarrow> 't TupleSet \<Rightarrow> 't DeltaCacheData list \<Rightarrow> int32 list list \<Rightarrow>
   delta_rows list \<Rightarrow> bool" where
  "merge_input A table sts deltas S Ds \<longleftrightarrow>
     tbl_primaryKeyNames table \<noteq> [] \<and>
     stable_rows A (tbl_primaryKeyNames table) sts = Inr S \<and>
     rmap (delta_rows_of A (tbl_primaryKeyNames table)) deltas = Inr Ds \<and>
     sorted_pks (length (tbl_primaryKeyNames table)) S \<and>
     list_all (\<lambda>D. sorted_pks (length (tbl_primaryKeyNames table)) (dr_pks D) \<and> 0 < dr_timestamp D) Ds"

lemma getDeleteMap_input:
  assumes "merge_input A table sts deltas S Ds"
  shows "getDeleteMap A deltas [sts] table =
    Inr (concat (map (ref_delta_positions S Ds) (sorted_list_of_set (all_keys S Ds))),
         map (\<lambda>r. if key (S ! r) \<in> delta_keys Ds then 0 else 1) [0..<length S])"
proof -
  let ?n = "length (tbl_primaryKeyNames table)"
  have m: "sorted_pks ?n S" "\<forall>D \<in> set Ds. 0 < dr_timestamp D"
    using assms by (auto simp: merge_input_def list_all_iff)
  have "(if r \<in> set (concat (map (ref_stable_positions S Ds) (sorted_list_of_set (all_keys S Ds)))) then 1 else 0)
      = (if key (S ! r) \<in> delta_keys Ds then 0 else 1 :: 8 word)" if "r < length S" for r
    using ref_stable_positions_set [OF m that] by auto
  then show ?thesis
    using getDeleteMap_ref [OF _ _ _ _ _ refl, of A table sts S deltas Ds] assms
    by (auto simp: merge_input_def list_all_iff)
qed

lemma concat_map_sorted_set:
  assumes "finite K" and "\<And>k. k \<in> K \<Longrightarrow> k \<notin> D \<Longrightarrow> f k = []"
  shows "concat (map f (sorted_list_of_set K)) = concat (map f (sorted_list_of_set (K \<inter> D)))"
proof -
  have f: "sorted_list_of_set (K \<inter> D) = filter (\<lambda>k. k \<in> D) (sorted_list_of_set K)"
  proof (rule sorted_distinct_set_unique)
    show "sorted (filter (\<lambda>k. k \<in> D) (sorted_list_of_set K))"
      using sorted_filter [of "\<lambda>x. x" "sorted_list_of_set K"] by simp
  qed (use assms(1) in auto)
  have "concat (map f xs) = concat (map f (filter (\<lambda>k. k \<in> D) xs))" if "set xs \<subseteq> K" for xs
    using that
  proof (induction xs)
    case (Cons x xs)
    with assms(2) [of x] show ?case by simp
  qed simp
  from this [of "sorted_list_of_set K"] assms(1) show ?thesis unfolding f by simp
qed

lemma sorted_list_of_set_pks:
  assumes "sorted_pks n p"
  shows "sorted_list_of_set (key ` set p) = map key p"
proof -
  have "sorted (map key p)" "distinct (map key p)"
    using assms by (auto simp: sorted_pks_def strict_sorted_iff)
  then show ?thesis by (metis set_map sorted_list_of_set.idem_if_sorted_distinct)
qed

lemma concat_map_filter_upt:
  "concat (map (\<lambda>i. if P i then [i] else []) [0..<n]) = filter P [0..<n]"
  by (induction n) auto

lemma single_delta_positions:
  assumes "sorted_pks n (dr_pks D)" and "0 < dr_timestamp D"
  shows "concat (map (ref_delta_positions S [D]) (sorted_list_of_set (all_keys S [D]))) =
    filter (\<lambda>i. dr_types D ! i \<noteq> ''DELETE'') [0..<length (dr_pks D)]"
proof -
  let ?f = "ref_delta_positions S [D]" and ?p = "dr_pks D"
  have no: "?f k = []" if "k \<notin> key ` set ?p" for k
    using that index_of_None [of k ?p]
    by (auto simp: ref_delta_positions_def ref_key_def ref_stable_def split: option.split)
  have yes: "?f (key (?p ! i)) = (if dr_types D ! i \<noteq> ''DELETE'' then [i] else [])" if "i < length ?p" for i
    using that assms by (auto simp: ref_delta_positions_def ref_key_def delete_flag_def index_of_key
        split: if_splits)
  have "all_keys S [D] \<inter> key ` set ?p = key ` set ?p" by (auto simp: all_keys_Un)
  then have "concat (map ?f (sorted_list_of_set (all_keys S [D]))) = concat (map (?f \<circ> key) ?p)"
    using concat_map_sorted_set [of "all_keys S [D]" "key ` set ?p" ?f] no sorted_list_of_set_pks [OF assms(1)]
    by simp
  also have "map (?f \<circ> key) ?p = map (\<lambda>i. if dr_types D ! i \<noteq> ''DELETE'' then [i] else []) [0..<length ?p]"
    by (rule nth_equalityI) (use yes in auto)
  finally show ?thesis by (simp add: concat_map_filter_upt)
qed

text \<open>
  The versions of a key: timestamp, type and row in each delta that has it, in the order of the deltas;
  the newest one is the first with the largest timestamp.
\<close>

definition versions :: "int list \<Rightarrow> delta_rows list \<Rightarrow> (int \<times> string \<times> nat) list" where
  "versions k Ds = concat (map (\<lambda>D. case index_of k (dr_pks D) of
       None \<Rightarrow> [] | Some i \<Rightarrow> [(dr_timestamp D, dr_types D ! i, i)]) Ds)"

definition newest :: "(int \<times> string \<times> nat) list \<Rightarrow> (int \<times> string \<times> nat) option" where
  "newest vs = List.find (\<lambda>v. \<forall>u \<in> set vs. fst u \<le> fst v) vs"

definition surviving_row :: "int list \<Rightarrow> delta_rows list \<Rightarrow> nat list" where
  "surviving_row k Ds = (case newest (versions k Ds) of
     Some (ts, ty, i) \<Rightarrow> if ty = ''DELETE'' then [] else [i] | None \<Rightarrow> [])"

lemma newest_Cons:
  "\<forall>u \<in> set vs. fst u \<le> fst v \<Longrightarrow> newest (v # vs) = Some v"
  "\<exists>u \<in> set vs. fst v < fst u \<Longrightarrow> newest (v # vs) = newest vs"
proof -
  show "\<forall>u \<in> set vs. fst u \<le> fst v \<Longrightarrow> newest (v # vs) = Some v" by (simp add: newest_def)
next
  assume u: "\<exists>u \<in> set vs. fst v < fst u"
  have "(\<forall>u \<in> set (v # vs). fst u \<le> fst w) \<longleftrightarrow> (\<forall>u \<in> set vs. fst u \<le> fst w)" for w
    using u by fastforce
  with u show "newest (v # vs) = newest vs" by (simp add: newest_def) fastforce
qed

lemma newest_exists: "vs \<noteq> [] \<Longrightarrow> \<exists>v \<in> set vs. newest vs = Some v"
proof (induction vs)
  case (Cons v vs)
  show ?case
  proof (cases "\<forall>u \<in> set vs. fst u \<le> fst v")
    case False
    then have "newest (v # vs) = newest vs" "vs \<noteq> []" by (auto simp: newest_Cons(2) not_le)
    with Cons.IH show ?thesis by simp
  qed (simp add: newest_Cons(1))
qed simp

lemma ref_deltas_newest:
  assumes "\<forall>D \<in> set Ds. set (dr_types D) \<subseteq> {''INSERT'', ''DELETE''} \<and> length (dr_types D) = length (dr_pks D)"
    and "ref_deltas n k Ds (f, ts, pos) = (f', ts', pos')"
  shows "if \<forall>v \<in> set (versions k Ds). fst v \<le> ts then (f', ts', pos') = (f, ts, pos)
    else newest (versions k Ds) = Some (ts', if f' then ''DELETE'' else ''INSERT'', snd pos')"
  using assms
proof (induction Ds arbitrary: n f ts pos)
  case (Cons D Ds)
  show ?case
  proof (cases "index_of k (dr_pks D)")
    case None
    then have "versions k (D # Ds) = versions k Ds" by (simp add: versions_def)
    with None Cons.IH [of "n + 1" f ts pos] Cons.prems show ?thesis by simp
  next
    case (Some i)
    let ?v = "(dr_timestamp D, dr_types D ! i, i)"
    have vs: "versions k (D # Ds) = ?v # versions k Ds" by (simp add: versions_def Some)
    have "i < length (dr_types D)" "set (dr_types D) \<subseteq> {''INSERT'', ''DELETE''}"
      using Cons.prems(1) index_of_Some [OF Some] by auto
    then have "dr_types D ! i \<in> {''INSERT'', ''DELETE''}" by (meson nth_mem subsetD)
    then have ty: "dr_types D ! i = (if delete_flag (dr_types D ! i) f then ''DELETE'' else ''INSERT'')"
      by (auto simp: delete_flag_def)
    show ?thesis
    proof (cases "ts < dr_timestamp D")
      case True
      then have "ref_deltas (n + 1) k Ds (delete_flag (dr_types D ! i) f, dr_timestamp D, (1 + n, i))
          = (f', ts', pos')" using Cons.prems(2) Some by simp
      note IH = Cons.IH [OF _ this]
      show ?thesis
      proof (cases "\<forall>v \<in> set (versions k Ds). fst v \<le> dr_timestamp D")
        case all: True
        then have "f' = delete_flag (dr_types D ! i) f" "pos' = (1 + n, i)" "ts' = dr_timestamp D"
          using IH Cons.prems(1) by auto
        then show ?thesis using True all ty by (auto simp: vs newest_Cons(1))
      next
        case False
        then show ?thesis using IH Cons.prems(1) True by (auto simp: vs newest_Cons(2) not_le)
      qed
    next
      case False
      then have "ref_deltas (n + 1) k Ds (f, ts, pos) = (f', ts', pos')" using Cons.prems(2) Some by simp
      note IH = Cons.IH [OF _ this]
      show ?thesis
      proof (cases "\<forall>v \<in> set (versions k Ds). fst v \<le> ts")
        case True
        then show ?thesis using IH Cons.prems(1) False by (auto simp: vs)
      next
        case nall: False
        then have "\<exists>u \<in> set (versions k Ds). fst ?v < fst u" using False by fastforce
        then show ?thesis using IH Cons.prems(1) nall False by (auto simp: vs newest_Cons(2))
      qed
    qed
  qed
qed (simp add: versions_def)

lemma versions_positive:
  assumes "\<forall>D \<in> set Ds. 0 < dr_timestamp D"
  shows "(\<forall>v \<in> set (versions k Ds). fst v \<le> 0) \<longleftrightarrow> k \<notin> delta_keys Ds"
    and "versions k Ds = [] \<longleftrightarrow> k \<notin> delta_keys Ds"
proof -
  have v: "versions k Ds = [] \<longleftrightarrow> k \<notin> delta_keys Ds"
    by (auto simp: versions_def index_of_None split: option.splits)
  moreover have "0 < fst v" if "v \<in> set (versions k Ds)" for v
    using that assms by (auto simp: versions_def split: option.splits)
  ultimately show "(\<forall>v \<in> set (versions k Ds). fst v \<le> 0) \<longleftrightarrow> k \<notin> delta_keys Ds"
    by (cases "versions k Ds") force+
  show "versions k Ds = [] \<longleftrightarrow> k \<notin> delta_keys Ds" by (rule v)
qed

lemma ref_delta_positions_newest:
  assumes "\<forall>D \<in> set Ds. set (dr_types D) \<subseteq> {''INSERT'', ''DELETE''} \<and> length (dr_types D) = length (dr_pks D)"
    and "\<forall>D \<in> set Ds. 0 < dr_timestamp D"
  shows "ref_delta_positions S Ds k = surviving_row k Ds"
proof -
  obtain f ts w i where r: "ref_deltas 0 k Ds (False, 0, ref_stable k S) = (f, ts, w, i)"
    by (metis prod.exhaust)
  show ?thesis
  proof (cases "k \<in> delta_keys Ds")
    case True
    then have "newest (versions k Ds) = Some (ts, if f then ''DELETE'' else ''INSERT'', i)"
      using ref_deltas_newest [OF assms(1) r] versions_positive(1) [OF assms(2), of k] by simp
    moreover have "w \<noteq> 0" using ref_deltas_wins [OF True assms(2), of 0 False "ref_stable k S"] r by simp
    ultimately show ?thesis by (simp add: ref_delta_positions_def ref_key_def r surviving_row_def)
  next
    case False
    then have "versions k Ds = []" using versions_positive(2) [OF assms(2), of k] by simp
    then show ?thesis using ref_deltas_untouched [OF False]
      by (simp add: surviving_row_def newest_def ref_delta_positions_def ref_key_def ref_stable_def
          split: option.split)
  qed
qed

lemma delta_rows_types_length:
  assumes "rmap (delta_rows_of A names) deltas = Inr Ds" and "D \<in> set Ds"
  shows "length (dr_types D) = length (dr_pks D)"
  using assms
proof (induction deltas arbitrary: Ds)
  case (Cons d deltas)
  then obtain D' Ds' where D': "delta_rows_of A names d = Inr D'" "Ds = D' # Ds'"
    "rmap (delta_rows_of A names) deltas = Inr Ds'" by (auto simp: result_simps)
  have "length (dr_types D') = length (dr_pks D')"
    using D'(1) by (auto simp: delta_rows_of_def result_simps dest!: rmap_length)
  with Cons.IH [OF D'(3)] Cons.prems(2) D'(2) show ?case by auto
qed simp

text \<open>
  C10.  The merge of one stable table with sorted deltas whose timestamps are positive always ends, and the
  bitmap it returns has a bit for every stable row, set exactly for the rows whose primary key occurs
  in none of the deltas: an updated, deleted or re-inserted row is taken from the deltas only.
\<close>

theorem getDeleteMap_bitmap:
  assumes "merge_input A table sts deltas S Ds"
  shows "\<exists>positions bm. getDeleteMap A deltas [sts] table = Inr (positions, bm) \<and>
    length bm = length S \<and>
    (\<forall>r < length S. bm ! r = (if \<exists>D \<in> set Ds. S ! r \<in> set (dr_pks D) then 0 else 1))"
  using getDeleteMap_input [OF assms] by (auto simp: image_iff)

lemma getDeleteMap_single:
  assumes "merge_input A table sts [d] S [D]"
  shows "getDeleteMap A [d] [sts] table =
    Inr (filter (\<lambda>i. dr_types D ! i \<noteq> ''DELETE'') [0..<length (dr_pks D)],
         map (\<lambda>r. if S ! r \<in> set (dr_pks D) then 0 else 1) [0..<length S])"
proof -
  have "sorted_pks (length (tbl_primaryKeyNames table)) (dr_pks D)" "0 < dr_timestamp D"
    using assms by (auto simp: merge_input_def)
  from getDeleteMap_input [OF assms] single_delta_positions [OF this, of S] show ?thesis
    by (simp add: image_iff)
qed

text \<open>
  C12.  With a single delta the positions returned are the rows of the delta that are not deletions, in
  the order of the delta, and the bitmap clears the stable rows the delta mentions.
\<close>

theorem getDeleteMap_single_delta:
  assumes "merge_input A table sts [d] S [D]"
  shows "getDeleteMap A [d] [sts] table =
    Inr (filter (\<lambda>i. dr_types D ! i \<noteq> ''DELETE'') [0..<length (dr_pks D)],
         map (\<lambda>r. if S ! r \<in> set (dr_pks D) then 0 else 1) [0..<length S])"
  by (rule getDeleteMap_single [OF assms])

text \<open>
  C11.  When the deltas only insert and delete rows, the merge follows the newest version of every key:
  going through the keys of the deltas in increasing order, it returns the row of the newest version
  (the first one with the largest timestamp) unless that version is a deletion.  The row number is
  relative to the delta the version comes from.
\<close>

theorem getDeleteMap_newest_version:
  assumes "merge_input A table sts deltas S Ds"
    and "\<forall>D \<in> set Ds. set (dr_types D) \<subseteq> {''INSERT'', ''DELETE''}"
  shows "\<exists>bm. getDeleteMap A deltas [sts] table =
    Inr (concat (map (\<lambda>k. surviving_row k Ds) (sorted_list_of_set (\<Union>D \<in> set Ds. key ` set (dr_pks D)))), bm)"
proof -
  have pos: "\<forall>D \<in> set Ds. 0 < dr_timestamp D"
    and ty: "\<forall>D \<in> set Ds. set (dr_types D) \<subseteq> {''INSERT'', ''DELETE''} \<and> length (dr_types D) = length (dr_pks D)"
    using assms delta_rows_types_length [of A "tbl_primaryKeyNames table" deltas Ds]
    by (auto simp: merge_input_def list_all_iff)
  have "surviving_row k Ds = []" if "k \<notin> delta_keys Ds" for k
    using versions_positive(2) [OF pos, of k] that by (simp add: surviving_row_def newest_def)
  then have "concat (map (\<lambda>k. surviving_row k Ds) (sorted_list_of_set (all_keys S Ds))) =
      concat (map (\<lambda>k. surviving_row k Ds) (sorted_list_of_set (all_keys S Ds \<inter> delta_keys Ds)))"
    by (intro concat_map_sorted_set) auto
  also have "all_keys S Ds \<inter> delta_keys Ds = delta_keys Ds" by (auto simp: all_keys_Un)
  finally have "concat (map (ref_delta_positions S Ds) (sorted_list_of_set (all_keys S Ds))) =
      concat (map (\<lambda>k. surviving_row k Ds) (sorted_list_of_set (delta_keys Ds)))"
    by (simp add: ref_delta_positions_newest [OF ty pos, abs_def])
  with getDeleteMap_input [OF assms(1)] show ?thesis by auto
qed

lemma distinct_concat_map_disjoint:
  "distinct (concat (map f ks)) \<Longrightarrow> a \<in> set ks \<Longrightarrow> b \<in> set ks \<Longrightarrow> a \<noteq> b \<Longrightarrow> set (f a) \<inter> set (f b) = {}"
  by (induction ks) auto

lemma surviving_row_first:
  assumes "sorted_pks n (dr_pks D)" and "dr_pks D \<noteq> []" and "dr_types D ! 0 \<noteq> ''DELETE''"
    and "D \<in> set Ds" and "\<forall>E \<in> set Ds - {D}. key (dr_pks D ! 0) \<notin> key ` set (dr_pks E)" and "distinct Ds"
  shows "surviving_row (key (dr_pks D ! 0)) Ds = [0]"
proof -
  let ?k = "key (dr_pks D ! 0)"
  have "index_of ?k (dr_pks D) = Some 0" using assms(1,2) by (intro index_of_key) auto
  moreover have "index_of ?k (dr_pks E) = None" if "E \<in> set Ds" "E \<noteq> D" for E
    using that assms(5) by (simp add: index_of_None)
  moreover have "versions ?k Es = []" if "\<forall>E \<in> set Es. index_of ?k (dr_pks E) = None" for Es
    using that by (induction Es) (auto simp: versions_def)
  moreover obtain X Y where Ds: "Ds = X @ D # Y" using split_list [OF assms(4)] by blast
  moreover have "versions ?k (X @ D # Y) = versions ?k X @ versions ?k [D] @ versions ?k Y"
    by (simp add: versions_def)
  moreover have "E \<in> set Ds \<and> E \<noteq> D" if "E \<in> set X \<or> E \<in> set Y" for E
    using that assms(6) by (auto simp: Ds)
  ultimately have "versions ?k Ds = versions ?k [D]" by (metis append_Nil append_Nil2)
  with \<open>index_of ?k (dr_pks D) = Some 0\<close> assms(3) show ?thesis
    by (simp add: surviving_row_def versions_def newest_def)
qed

text \<open>
  C13.  The positions of different deltas are not told apart: two deltas that insert disjoint sets of keys
  both contribute their row \<open>0\<close>, so the list of positions into the combined deltas has a
  repetition, although it stands for different rows.
\<close>

theorem getDeleteMap_positions_collide:
  assumes "merge_input A table sts [d1, d2] S [D1, D2]"
    and "set (dr_types D1) \<subseteq> {''INSERT''}" and "set (dr_types D2) \<subseteq> {''INSERT''}"
    and "dr_pks D1 \<noteq> []" and "dr_pks D2 \<noteq> []" and "set (dr_pks D1) \<inter> set (dr_pks D2) = {}"
  shows "\<exists>positions bm. getDeleteMap A [d1, d2] [sts] table = Inr (positions, bm) \<and> \<not> distinct positions"
proof -
  let ?Ds = "[D1, D2]" and ?k1 = "key (dr_pks D1 ! 0)" and ?k2 = "key (dr_pks D2 ! 0)"
  have srt: "sorted_pks (length (tbl_primaryKeyNames table)) (dr_pks D1)"
    "sorted_pks (length (tbl_primaryKeyNames table)) (dr_pks D2)" "\<forall>D \<in> set ?Ds. 0 < dr_timestamp D"
    and rd: "rmap (delta_rows_of A (tbl_primaryKeyNames table)) [d1, d2] = Inr ?Ds"
    using assms(1) by (auto simp: merge_input_def)
  have len: "\<forall>D \<in> set ?Ds. length (dr_types D) = length (dr_pks D)"
    using delta_rows_types_length [OF rd] by blast
  have mem: "dr_pks D1 ! 0 \<in> set (dr_pks D1)" "dr_pks D2 ! 0 \<in> set (dr_pks D2)" using assms(4,5) by auto
  have "dr_types D1 ! 0 \<in> set (dr_types D1)" "dr_types D2 ! 0 \<in> set (dr_types D2)"
    using assms(4,5) len by auto
  then have "dr_types D1 ! 0 \<noteq> ''DELETE''" "dr_types D2 ! 0 \<noteq> ''DELETE''" using assms(2,3) by auto
  moreover have "D1 \<noteq> D2" using assms(4,6) by auto
  moreover have "dr_pks D1 ! 0 \<notin> set (dr_pks D2)" "dr_pks D2 ! 0 \<notin> set (dr_pks D1)"
    using mem assms(6) by blast+
  ultimately have "surviving_row ?k1 ?Ds = [0]" "surviving_row ?k2 ?Ds = [0]"
    using srt(1,2) assms(4,5) by (auto intro!: surviving_row_first simp: image_iff)
  moreover have "?k1 \<noteq> ?k2" using mem assms(6) by auto
  moreover have "?k1 \<in> all_keys S ?Ds" "?k2 \<in> all_keys S ?Ds" using mem by (auto simp: all_keys_Un)
  ultimately have "\<not> distinct (concat (map (\<lambda>k. surviving_row k ?Ds) (sorted_list_of_set (all_keys S ?Ds))))"
    using distinct_concat_map_disjoint [of "\<lambda>k. surviving_row k ?Ds" "sorted_list_of_set (all_keys S ?Ds)" ?k1 ?k2]
    by auto
  moreover have "ref_delta_positions S ?Ds = (\<lambda>k. surviving_row k ?Ds)"
    by (rule ext, rule ref_delta_positions_newest [OF _ srt(3)]) (use len assms(2,3) in auto)
  ultimately show ?thesis using getDeleteMap_input [OF assms(1)] by auto
qed

section \<open>A concrete merge\<close>

definition pk_table :: "int32 list \<Rightarrow> list_table" where
  "pk_table ks = [(''k'', Int32Type, map Int32Scalar ks)]"

definition pk_delta :: "int32 list \<Rightarrow> string list \<Rightarrow> int \<Rightarrow> list_table DeltaCacheData" where
  "pk_delta ks types ts =
     DeltaCacheData_make (Some [(''k'', Int32Type, map Int32Scalar ks), (''type'', StringType, map StringScalar types)]) ts"

definition pk_tbl :: Table where
  "pk_tbl = \<lparr>tbl_ptr = 1, tbl_name = ''part'', tbl_primaryKeyNames = [''k''], tbl_numPartitions = 1\<rparr>"

definition pk_rows :: "int32 list \<Rightarrow> string list \<Rightarrow> int \<Rightarrow> delta_rows" where
  "pk_rows ks types ts = \<lparr>dr_pks = map (\<lambda>k. [k]) ks, dr_types = types, dr_timestamp = ts\<rparr>"

lemma pk_input:
  "merge_input list_arrow pk_tbl (Some (pk_table [1, 2, 3])) [pk_delta [2, 4] [''DELETE'', ''INSERT''] 5]
     [[1], [2], [3]] [pk_rows [2, 4] [''DELETE'', ''INSERT''] 5]"
  "merge_input list_arrow pk_tbl (Some (pk_table [1, 2, 3]))
     [pk_delta [4] [''INSERT''] 5, pk_delta [6] [''INSERT''] 7]
     [[1], [2], [3]] [pk_rows [4] [''INSERT''] 5, pk_rows [6] [''INSERT''] 7]"
  by code_simp+

theorem getDeleteMap_bitmap_witness:
  "\<exists>positions bm. getDeleteMap list_arrow [pk_delta [2, 4] [''DELETE'', ''INSERT''] 5]
      [Some (pk_table [1, 2, 3])] pk_tbl = Inr (positions, bm) \<and> bm ! 0 = 1 \<and> bm ! 1 = 0 \<and> bm ! 2 = 1"
  using getDeleteMap_bitmap [OF pk_input(1)] by (fastforce simp: pk_rows_def)

theorem getDeleteMap_single_delta_witness:
  "getDeleteMap list_arrow [pk_delta [2, 4] [''DELETE'', ''INSERT''] 5] [Some (pk_table [1, 2, 3])] pk_tbl
     = Inr ([1], [1, 0, 1])"
  using getDeleteMap_single_delta [OF pk_input(1)] by (simp add: pk_rows_def upt_rec)

theorem getDeleteMap_newest_version_witness:
  "\<exists>bm. getDeleteMap list_arrow [pk_delta [4] [''INSERT''] 5, pk_delta [6] [''INSERT''] 7]
      [Some (pk_table [1, 2, 3])] pk_tbl = Inr ([0, 0], bm)"
proof -
  have "concat (map (\<lambda>k. surviving_row k [pk_rows [4] [''INSERT''] 5, pk_rows [6] [''INSERT''] 7])
      (sorted_list_of_set (\<Union>D \<in> set [pk_rows [4] [''INSERT''] 5, pk_rows [6] [''INSERT''] 7].
         key ` set (dr_pks D)))) = [0, 0]"
    by code_simp
  with getDeleteMap_newest_version [OF pk_input(2)] show ?thesis by (simp add: pk_rows_def)
qed

theorem getDeleteMap_positions_collide_witness:
  "\<exists>positions bm. getDeleteMap list_arrow [pk_delta [4] [''INSERT''] 5, pk_delta [6] [''INSERT''] 7]
      [Some (pk_table [1, 2, 3])] pk_tbl = Inr (positions, bm) \<and> \<not> distinct positions"
  using getDeleteMap_positions_collide [OF pk_input(2)] by (simp add: pk_rows_def)

end
