(* ===== verification/Keep_Map.thy ===== *)
theory Keep_Map
  imports Delete_Map
begin

text \<open>
  The merge that reuses the result of earlier merges
  (\<^verbatim>\<open>fpdb-executor/src/physical/deltamerge/KeepMapCacheMode.cpp\<close>): a memory delta that is already
  merged, a tail delta with the newest changes, and the bitmap of the stable rows that are still
  valid.  \<open>getKeepMap\<close> handles a whole partition, \<open>getBatchedKeepMap\<close> one batch of stable rows
  after another.

  The code has each operation twice, for a primary key of one column and for one of several columns,
  where only the first two columns count.  Here a key is the list of the values of the first two
  key columns, so that one definition covers both; the places where the two copies differ are written
  out.

  For every update of the tail the code copies \<^verbatim>\<open>it->second\<close> into \<^verbatim>\<open>toDelete\<close> before it
  compares the iterator with \<^verbatim>\<open>end()\<close>, also when the key is not in the memory delta.  What that read
  gives is the argument \<open>end_read\<close> of the operations: an error where it is undefined, as it is by the
  language standard, and a number where the end node of the map has something at that place, as in the
  usual libraries; the number is not used.  The properties cover both: they hold for every value of the
  argument.

  Positions are \<^verbatim>\<open>int\<close>s.  The search adds two of them, which is undefined above \<open>2 ^ 31 - 1\<close>; row
  counts of type \<^verbatim>\<open>long\<close> are cut to an \<^verbatim>\<open>int\<close> when they are passed to it.
\<close>

section \<open>Binary search\<close>

definition to_int :: "int \<Rightarrow> int" where
  "to_int n = sint (word_of_int n :: int32)"

lemma to_int_small: "- (2 ^ 31) \<le> n \<Longrightarrow> n < 2 ^ 31 \<Longrightarrow> to_int n = n"
  by (simp add: to_int_def signed_of_int signed_take_bit_int_eq_self)

text \<open>Every call starts at position 0, so the division never sees a negative sum.\<close>

function binarySearch :: "('t, 'a) arrow \<Rightarrow> 'a Column \<Rightarrow> int \<Rightarrow> int \<Rightarrow> int32 \<Rightarrow> int result" where
  "binarySearch A c p r num =
     (if p \<le> r then
        if p + r \<ge> 2 ^ 31 then Inl (UndefinedBehaviour ''signed integer overflow'')
        else
          let mid = (p + r) div 2
          in rbind (read_int32 A c mid) (\<lambda>curr.
               if curr = num then Inr mid
               else if sint curr > sint num then binarySearch A c p (mid - 1) num
               else binarySearch A c (mid + 1) r num)
      else Inr (- 1))"
  by pat_completeness auto
termination
  by (relation "measure (\<lambda>(A, c, p, r, num). nat (r - p + 1))") auto

declare binarySearch.simps [simp del]

section \<open>The tail delta and the memory delta\<close>

text \<open>
  The loop over the deltas: the position of the largest timestamp above \<open>0\<close> is the tail delta, that of
  the smallest one below \<open>5000000000000\<close> the memory delta.  \<open>i\<close> is the position of the first delta in
  the list.
\<close>

fun scan_timestamps :: "int \<Rightarrow> int list \<Rightarrow> int \<times> int \<times> int \<times> int \<Rightarrow> int \<times> int" where
  "scan_timestamps i [] (maxTs, minTs, pos_tail, pos_mem) = (pos_mem, pos_tail)"
| "scan_timestamps i (ts # tss) (maxTs, minTs, pos_tail, pos_mem) =
     scan_timestamps (i + 1) tss
       (if ts > maxTs then ts else maxTs, if ts < minTs then ts else minTs,
        if ts > maxTs then i else pos_tail, if ts < minTs then i else pos_mem)"

definition positionTailAndMemDelta :: "'t DeltaCacheData list \<Rightarrow> int \<times> int" where
  "positionTailAndMemDelta deltas =
     (if length deltas \<noteq> 1 then
        scan_timestamps 0 (map dcd_timestamp deltas) (0, 5000000000000, - 1, - 1)
      else (0, - 1))"

definition delta_at :: "'t DeltaCacheData list \<Rightarrow> int \<Rightarrow> 't TupleSet result" where
  "delta_at deltas i =
     (if 0 \<le> i \<and> nat i < length deltas then Inr (dcd_delta (deltas ! nat i))
      else Inl (UndefinedBehaviour ''deltas[pos] out of range''))"

section \<open>A keep map in one go\<close>

text \<open>The key of a row: the values of the first two key columns, or of the only one.\<close>

definition key_width :: "string list \<Rightarrow> nat" where
  "key_width names = (if length names > 1 then 2 else 1)"

definition row_key :: "('t, 'a) arrow \<Rightarrow> nat \<Rightarrow> 'a Column list \<Rightarrow> nat \<Rightarrow> int32 list result" where
  "row_key A w cols r = rmap (\<lambda>c. read_int32 A c (int r)) (take w cols)"

type_synonym keep_map = "(int32 list \<times> nat) list"
type_synonym pos_map = "(nat \<times> int32 list) list"

text \<open>The keep map of the memory delta, whose rows follow those of the tail delta.\<close>

definition mem_keep_map ::
  "('t, 'a) arrow \<Rightarrow> nat \<Rightarrow> 'a Column list \<Rightarrow> nat \<Rightarrow> nat \<Rightarrow> keep_map \<times> pos_map \<Rightarrow> (keep_map \<times> pos_map) result" where
  "mem_keep_map A w cols offset rows =
     rfold (\<lambda>m (km, pos). rbind (row_key A w cols m) (\<lambda>k.
         Inr (um_emplace id k (m + offset) km, um_emplace id (m + offset) k pos))) [0..<rows]"

text \<open>\<^verbatim>\<open>(*stableBm)[pos] = 0\<close>.\<close>

definition clear_bit :: "8 word list \<Rightarrow> int \<Rightarrow> 8 word list result" where
  "clear_bit bm pos =
     (if 0 \<le> pos \<and> nat pos < length bm then Inr (bm[nat pos := 0])
      else Inl (UndefinedBehaviour ''stableBm[pos] out of range''))"

text \<open>
  An update of the tail: it replaces a row of the memory delta, or else a row of the stable table.  The
  search runs over the first key column, up to and including the position after the last row.
\<close>

definition tail_update ::
  "('t, 'a) arrow \<Rightarrow> nat result \<Rightarrow> 'a Column \<Rightarrow> bool \<Rightarrow> nat \<Rightarrow> int32 list \<Rightarrow>
   keep_map \<times> pos_map \<times> 8 word list option \<Rightarrow> (keep_map \<times> pos_map \<times> 8 word list option) result" where
  "tail_update A end_read stableCol several j tailPk = (\<lambda>(km, pos, stableBm).
     let it = (if several then um_find id tailPk km else None)
     in rbind (case it of Some d \<Rightarrow> Inr d | None \<Rightarrow> if several then end_read else Inr 0) (\<lambda>toDelete.
          if it \<noteq> None then
            Inr (um_emplace id tailPk j (um_erase id tailPk km),
                 um_emplace id j tailPk (um_erase id toDelete pos), stableBm)
          else
            (case stableBm of
               None \<Rightarrow> Inr (km, pos, stableBm)
             | Some bm \<Rightarrow>
                 rbind (binarySearch A stableCol 0 (to_int (int (Column_numRows A stableCol))) (hd tailPk)) (\<lambda>p.
                   if p = - 1 then Inr (km, pos, stableBm)
                   else rbind (clear_bit bm p) (\<lambda>bm'.
                     Inr (um_emplace id tailPk j km, um_emplace id j tailPk pos, Some bm'))))))"

definition tail_row ::
  "('t, 'a) arrow \<Rightarrow> nat result \<Rightarrow> nat \<Rightarrow> 'a Column list \<Rightarrow> 'a Column \<Rightarrow> 'a Column \<Rightarrow> bool \<Rightarrow> nat \<Rightarrow>
   keep_map \<times> pos_map \<times> 8 word list option \<Rightarrow> (keep_map \<times> pos_map \<times> 8 word list option) result" where
  "tail_row A end_read w tailCols typeCol stableCol several j = (\<lambda>(km, pos, stableBm).
     rbind (row_key A w tailCols j) (\<lambda>tailPk.
     rbind (read_string A typeCol (int j)) (\<lambda>ty.
       if ty = ''UPDATE'' then tail_update A end_read stableCol several j tailPk (km, pos, stableBm)
       else if ty = ''INSERT'' then Inr (um_emplace id tailPk j km, um_emplace id j tailPk pos, stableBm)
       else Inr (km, pos, stableBm))))"

text \<open>
  \<open>getKeepMap\<close>.  \<open>flag\<close> is the global of that name: without it the k-way merge does the work.  The
  bitmap is passed by value; a table without a primary key gives the default-constructed tuple.
\<close>

definition getKeepMap ::
  "('t, 'a) arrow \<Rightarrow> nat result \<Rightarrow> bool \<Rightarrow> 't DeltaCacheData list \<Rightarrow> 't TupleSet list \<Rightarrow> Table \<Rightarrow>
   8 word list option \<Rightarrow> (nat list \<times> 8 word list option) result" where
  "getKeepMap A end_read flag deltas stables table stableBm =
     (if \<not> flag then
        rbind (getDeleteMap A deltas stables table) (\<lambda>(positions, bm). Inr (positions, Some bm))
      else
        let names = tbl_primaryKeyNames table;
            several = length deltas > 1;
            (pos_mem, pos_tail) =
              (if length deltas \<noteq> 1 then
                 scan_timestamps 0 (map dcd_timestamp deltas) (0, 5000000000000, 0, 0)
               else (0, 0))
        in rbind (if length deltas \<noteq> 1 then delta_at deltas pos_tail else Inr None) (\<lambda>tailDelta.
           rbind (delta_at deltas pos_mem) (\<lambda>memDelta.
             let tailDeltaSize = (if length deltas \<noteq> 1 then TupleSet_numRows A tailDelta else 0)
             in if names = [] then Inr ([], None)
                else
                  rbind (rmap (columnByName A memDelta) names) (\<lambda>memCols.
                  rbind (if several then rmap (columnByName A tailDelta) names else Inr []) (\<lambda>tailCols.
                  rbind (if several then rbind (columnByName A tailDelta ''type'') (\<lambda>c. Inr [c]) else Inr [])
                    (\<lambda>typeCols.
                  rbind (case stables of
                           [] \<Rightarrow> Inl (UndefinedBehaviour ''stables[0] of an empty vector'')
                         | ts # _ \<Rightarrow> rmap (columnByName A ts) names) (\<lambda>stableCols.
                  rbind (mem_keep_map A (key_width names) memCols tailDeltaSize (TupleSet_numRows A memDelta) ([], []))
                    (\<lambda>(km, pos).
                  rbind (rfold (tail_row A end_read (key_width names) tailCols (hd typeCols) (hd stableCols) several)
                          [0..<tailDeltaSize] (km, pos, stableBm)) (\<lambda>(_, pos', bm').
                    Inr (sort (map fst pos'), bm'))))))))))"

section \<open>A keep map batch by batch\<close>

record 'a KeepMapCacheMode =
  kmm_tailPrimaryKeyColumns :: "'a Column list"
  kmm_memPrimaryKeyColumns :: "'a Column list"
  kmm_tailDeltaSize :: nat
  kmm_primaryKeyColumnNames :: "string list"
  kmm_tailTypeColumns :: "'a Column option"
  kmm_deltasKm :: keep_map
  kmm_deltasPos :: pos_map
  kmm_seen :: "bool list"

definition KeepMapCacheMode_make :: "'a KeepMapCacheMode" where
  "KeepMapCacheMode_make =
     \<lparr>kmm_tailPrimaryKeyColumns = [], kmm_memPrimaryKeyColumns = [], kmm_tailDeltaSize = 0,
      kmm_primaryKeyColumnNames = [], kmm_tailTypeColumns = None, kmm_deltasKm = [], kmm_deltasPos = [],
      kmm_seen = []\<rparr>"

text \<open>What the first batch extracts from the deltas.\<close>

definition first_batch ::
  "('t, 'a) arrow \<Rightarrow> 't DeltaCacheData list \<Rightarrow> Table \<Rightarrow> 'a KeepMapCacheMode \<Rightarrow> 'a KeepMapCacheMode result" where
  "first_batch A deltas table st =
     (let names = tbl_primaryKeyNames table;
          (pos_mem, pos_tail) = positionTailAndMemDelta deltas;
          several = length deltas > 1
      in rbind (if pos_tail \<noteq> - 1 then delta_at deltas pos_tail else Inr None) (\<lambda>tailDelta.
         rbind (delta_at deltas pos_mem) (\<lambda>memDelta.
           if names = [] then Inl (UndefinedBehaviour ''primaryKeyColumnNames_[0] of an empty vector'')
           else
             rbind (rmap (columnByName A memDelta) names) (\<lambda>memCols.
             rbind (if several then rmap (columnByName A tailDelta) names else Inr []) (\<lambda>tailCols.
             rbind (if several then rbind (columnByName A tailDelta ''type'') (\<lambda>c. Inr (Some c))
                    else Inr (kmm_tailTypeColumns st)) (\<lambda>typeCol.
             rbind (mem_keep_map A (key_width names) (kmm_memPrimaryKeyColumns st @ memCols) 0 (TupleSet_numRows A memDelta)
                     (kmm_deltasKm st, kmm_deltasPos st)) (\<lambda>(km, pos).
               Inr (st\<lparr>kmm_primaryKeyColumnNames := names,
                       kmm_tailDeltaSize := (if pos_tail \<noteq> - 1 then TupleSet_numRows A tailDelta
                                             else kmm_tailDeltaSize st),
                       kmm_seen := (if pos_tail \<noteq> - 1
                                    then replicate (TupleSet_numRows A tailDelta) False else []),
                       kmm_memPrimaryKeyColumns := kmm_memPrimaryKeyColumns st @ memCols,
                       kmm_tailPrimaryKeyColumns := kmm_tailPrimaryKeyColumns st @ tailCols,
                       kmm_tailTypeColumns := typeCol,
                       kmm_deltasKm := km, kmm_deltasPos := pos\<rparr>))))))))"

text \<open>
  An update of the tail that no earlier batch has placed.  The copy for composite keys reads the largest
  key of the batch before the loop and searches up to the last row; the copy for simple keys reads it
  for each update and searches one position further.
\<close>

definition batch_update ::
  "('t, 'a) arrow \<Rightarrow> nat result \<Rightarrow> bool \<Rightarrow> 'a Column \<Rightarrow> int \<Rightarrow> bool \<Rightarrow> int32 option \<Rightarrow> nat \<Rightarrow> int32 list \<Rightarrow>
   'a KeepMapCacheMode \<times> 8 word list option \<Rightarrow> ('a KeepMapCacheMode \<times> 8 word list option) result" where
  "batch_update A end_read composite stableCol batchCounter several maxKey j tailPk = (\<lambda>(st, stableBm).
     let it = (if several then um_find id tailPk (kmm_deltasKm st) else None);
         rows = int (Column_numRows A stableCol)
     in rbind (case it of Some d \<Rightarrow> Inr d | None \<Rightarrow> if several then end_read else Inr 0) (\<lambda>toDelete.
        let st1 = (if it \<noteq> None then
                     st\<lparr>kmm_deltasKm := um_erase id tailPk (kmm_deltasKm st),
                        kmm_deltasPos := um_erase id toDelete (kmm_deltasPos st),
                        kmm_seen := (kmm_seen st)[j := True]\<rparr>
                   else st)
        in rbind (case maxKey of Some m \<Rightarrow> Inr m | None \<Rightarrow> read_int32 A stableCol (rows - 1)) (\<lambda>mx.
          case (it, stableBm) of
            (None, Some bm) \<Rightarrow>
              if sint mx \<ge> sint (hd tailPk) then
                rbind (binarySearch A stableCol 0 (to_int (if composite then rows - 1 else rows)) (hd tailPk)) (\<lambda>p.
                  if p = - 1 then Inr (st1, stableBm)
                  else rbind (clear_bit bm ((batchCounter - 1) * int DefaultChunkSize + p)) (\<lambda>bm'.
                    Inr (st1\<lparr>kmm_seen := (kmm_seen st1)[j := True]\<rparr>, Some bm')))
              else Inr (st1, stableBm)
          | _ \<Rightarrow> Inr (st1, stableBm))))"

definition batch_row ::
  "('t, 'a) arrow \<Rightarrow> nat result \<Rightarrow> bool \<Rightarrow> 'a Column \<Rightarrow> int \<Rightarrow> bool \<Rightarrow> int32 option \<Rightarrow> nat \<Rightarrow>
   'a KeepMapCacheMode \<times> 8 word list option \<Rightarrow> ('a KeepMapCacheMode \<times> 8 word list option) result" where
  "batch_row A end_read composite stableCol batchCounter several maxKey j = (\<lambda>(st, stableBm).
     if \<not> j < length (kmm_seen st) then Inl (UndefinedBehaviour ''seen_[j] out of range'')
     else if kmm_seen st ! j then Inr (st, stableBm)
     else rbind (row_key A (if composite then 2 else 1) (kmm_tailPrimaryKeyColumns st) j) (\<lambda>tailPk.
          case kmm_tailTypeColumns st of
            None \<Rightarrow> Inl (UndefinedBehaviour ''null tailTypeColumns_ dereferenced'')
          | Some typeCol \<Rightarrow>
              rbind (read_string A typeCol (int j)) (\<lambda>ty.
                if ty = ''UPDATE'' then
                  batch_update A end_read composite stableCol batchCounter several maxKey j tailPk (st, stableBm)
                else Inr (st, stableBm))))"

definition middle_batch ::
  "('t, 'a) arrow \<Rightarrow> nat result \<Rightarrow> 't DeltaCacheData list \<Rightarrow> 't TupleSet \<Rightarrow> int \<Rightarrow>
   'a KeepMapCacheMode \<times> 8 word list option \<Rightarrow> ('a KeepMapCacheMode \<times> 8 word list option) result" where
  "middle_batch A end_read deltas batch batchCounter = (\<lambda>(st, stableBm).
     let names = kmm_primaryKeyColumnNames st;
         composite = length names > 1
     in if names = [] then Inl (UndefinedBehaviour ''primaryKeyColumnNames_[0] of an empty vector'')
        else
          rbind (rmap (columnByName A batch) names) (\<lambda>cols.
          rbind (if composite then
                   rbind (read_int32 A (hd cols) (int (Column_numRows A (hd cols)) - 1)) (\<lambda>m. Inr (Some m))
                 else Inr None) (\<lambda>maxKey.
            rfold (batch_row A end_read composite (hd cols) batchCounter (length deltas > 1) maxKey)
              [0..<kmm_tailDeltaSize st] (st, stableBm))))"

definition getBatchedKeepMap ::
  "('t, 'a) arrow \<Rightarrow> nat result \<Rightarrow> 't DeltaCacheData list \<Rightarrow> 't TupleSet \<Rightarrow> Table \<Rightarrow> int \<Rightarrow> bool \<Rightarrow>
   'a KeepMapCacheMode \<times> 8 word list option \<Rightarrow>
   (nat list \<times> 'a KeepMapCacheMode \<times> 8 word list option) result" where
  "getBatchedKeepMap A end_read deltas batch table batchCounter lastBatch = (\<lambda>(st, stableBm).
     rbind (if batchCounter = 1 then first_batch A deltas table st else Inr st) (\<lambda>st1.
     rbind (if \<not> lastBatch then middle_batch A end_read deltas batch batchCounter (st1, stableBm)
            else Inr (st1, stableBm)) (\<lambda>(st2, bm).
       Inr (if lastBatch then sort (map fst (kmm_deltasPos st2)) else [], st2, bm))))"

section \<open>Correctness of the search\<close>

text \<open>The values of a column, as far as they can be read.\<close>

definition column_values :: "('t, 'a) arrow \<Rightarrow> 'a Column \<Rightarrow> int32 list result" where
  "column_values A c = rmap (\<lambda>i. read_int32 A c (int i)) [0..<Column_numRows A c]"

lemma column_values_nth:
  assumes "column_values A c = Inr vs"
  shows "Column_numRows A c = length vs" and "0 \<le> i \<Longrightarrow> nat i < length vs \<Longrightarrow> read_int32 A c i = Inr (vs ! nat i)"
  using rmap_upt_nth(1) [OF assms [unfolded column_values_def]]
    rmap_upt_nth(2) [OF assms [unfolded column_values_def], of "nat i"] by auto

lemma column_values_sorted:
  assumes "sorted (map sint vs)" and "i \<le> j" and "j < length vs"
  shows "sint (vs ! i) \<le> sint (vs ! j)"
  using sorted_nth_mono [OF assms(1,2)] assms by simp

definition found_at :: "int32 list \<Rightarrow> int32 \<Rightarrow> int \<Rightarrow> bool" where
  "found_at vs num p \<longleftrightarrow> (if num \<in> set vs then 0 \<le> p \<and> nat p < length vs \<and> vs ! nat p = num else p = - 1)"

lemma binarySearch_spec:
  assumes "column_values A c = Inr vs" and "sorted (map sint vs)"
    and "0 \<le> p" and "r \<le> int (length vs)" and "length vs < 2 ^ 30"
    and "\<And>i. i < length vs \<Longrightarrow> int i < p \<Longrightarrow> sint (vs ! i) < sint num"
    and "\<And>i. i < length vs \<Longrightarrow> r < int i \<Longrightarrow> sint num < sint (vs ! i)"
    and "r < int (length vs) \<or> (\<exists>i < length vs. p \<le> int i \<and> sint num \<le> sint (vs ! i))"
  shows "\<exists>q. binarySearch A c p r num = Inr q \<and> found_at vs num q"
  using assms
proof (induction A c p r num rule: binarySearch.induct)
  case (1 A c p r num)
  show ?case
  proof (cases "p \<le> r")
    case False
    have "num \<notin> set vs"
    proof
      assume "num \<in> set vs"
      then obtain i where i: "i < length vs" "vs ! i = num" by (auto simp: in_set_conv_nth)
      from i 1(8) [OF i(1)] 1(9) [OF i(1)] False show False by (cases "int i < p") auto
    qed
    with False show ?thesis by (simp add: binarySearch.simps [of A c p r] found_at_def)
  next
    case True
    define mid where "mid = (p + r) div 2"
    have mid: "p \<le> mid" "mid \<le> r" "0 \<le> mid" using True 1(5) by (auto simp: mid_def)
    have small: "\<not> p + r \<ge> 2 ^ 31" using True 1(6,7) by simp
    have lt: "nat mid < length vs"
    proof (cases "r < int (length vs)")
      case False
      then have "p < r" using 1(6,10) by auto
      then have "mid < r" by (simp add: mid_def)
      with 1(6) mid show ?thesis by simp
    qed (use mid in auto)
    have rd: "read_int32 A c mid = Inr (vs ! nat mid)" using column_values_nth(2) [OF 1(3)] mid lt by simp
    note srt = column_values_sorted [OF 1(4)]
    consider "vs ! nat mid = num" | "sint (vs ! nat mid) > sint num" | "sint (vs ! nat mid) < sint num"
      by (metis linorder_neqE_linordered_idom signed_word_eqI)
    then show ?thesis
    proof cases
      case 1
      then show ?thesis using True small rd mid lt
        by (auto simp: binarySearch.simps [of A c p r] mid_def [symmetric] found_at_def)
    next
      case 2
      have "sint num < sint (vs ! i)" if "i < length vs" "mid - 1 < int i" for i
        using 2 srt [of "nat mid" i] that by force
      then have "\<exists>q. binarySearch A c p (mid - 1) num = Inr q \<and> found_at vs num q"
        using 1(1) [OF True small mid_def rd] 2 1(3-8) mid lt by (cases "vs ! nat mid = num") auto
      then show ?thesis using True small rd 2 by (auto simp: binarySearch.simps [of A c p r] mid_def [symmetric])
    next
      case 3
      have low: "sint (vs ! i) < sint num" if "i < length vs" "int i < mid + 1" for i
        using 3 srt [of i "nat mid"] that lt by force
      have "r < int (length vs) \<or> (\<exists>i < length vs. mid + 1 \<le> int i \<and> sint num \<le> sint (vs ! i))"
        using 1(10) low by (metis linorder_not_less)
      then have "\<exists>q. binarySearch A c (mid + 1) r num = Inr q \<and> found_at vs num q"
        using 1(2) [OF True small mid_def rd] 3 1(3-7,9) mid low by (cases "vs ! nat mid = num") auto
      then show ?thesis using True small rd 3 by (auto simp: binarySearch.simps [of A c p r] mid_def [symmetric])
    qed
  qed
qed

lemma read_past_end: "Column_numRows A c = n \<Longrightarrow> \<exists>e. read_int32 A c (int n) = Inl e"
  by (auto simp: read_int32_def Column_element_def Column_numRows_def split: type_id.split)

lemma binarySearch_past_end:
  assumes "column_values A c = Inr vs" and "\<forall>v \<in> set vs. sint v < sint num"
    and "0 \<le> p" and "p \<le> int (length vs)" and "r = int (length vs)" and "length vs < 2 ^ 30"
  shows "\<exists>e. binarySearch A c p r num = Inl e"
  using assms
proof (induction A c p r num rule: binarySearch.induct)
  case (1 A c p r num)
  define mid where "mid = (p + r) div 2"
  have mid: "p \<le> mid" "mid \<le> r" "0 \<le> mid" "p \<le> r" using 1(5-7) by (auto simp: mid_def)
  have small: "\<not> p + r \<ge> 2 ^ 31" using 1(6-8) by simp
  show ?case
  proof (cases "mid = r")
    case True
    then show ?thesis
      using read_past_end [OF column_values_nth(1) [OF 1(3)]] mid 1(7) small
      by (auto simp: binarySearch.simps [of A c p "int (length vs)"] mid_def)
  next
    case False
    then have rd: "read_int32 A c mid = Inr (vs ! nat mid)" and lt: "sint (vs ! nat mid) < sint num"
      using column_values_nth(2) [OF 1(3)] mid 1(4,7) by auto
    have "\<exists>e. binarySearch A c (mid + 1) r num = Inl e"
      using 1(2) [OF mid(4) small mid_def rd] lt 1(3,4,7,8) mid False by (cases "vs ! nat mid = num") auto
    with mid(4) small rd lt show ?thesis by (auto simp: binarySearch.simps [of A c p r] mid_def [symmetric])
  qed
qed

lemma binarySearch_upper:
  assumes "column_values A c = Inr vs" and "sorted (map sint vs)" and "v \<in> set vs" and "sint num \<le> sint v"
    and "length vs < 2 ^ 30"
  shows "\<exists>q. binarySearch A c 0 (int (length vs)) num = Inr q \<and> found_at vs num q"
proof -
  obtain i where "i < length vs" "sint num \<le> sint (vs ! i)" using assms(3,4) by (auto simp: in_set_conv_nth)
  with assms(5) show ?thesis by (intro binarySearch_spec [OF assms(1,2)]) auto
qed

text \<open>
  C14.  On a column of fewer than \<open>2 ^ 30\<close> rows (above that, the sum of two positions can leave the range
  of an \<^verbatim>\<open>int\<close>) whose values are sorted, \<open>binarySearch\<close> over all rows ends and finds a row with the
  value if there is one and returns \<open>-1\<close> if there is none.  Called the way \<open>getKeepMap\<close> does, with
  the number of rows as the last position, it gives the same answer when the value is not above the
  largest one of the column, and otherwise reads the element after the last one, which fails.
\<close>

theorem binarySearch_correct:
  assumes "column_values A c = Inr vs" and "sorted (map sint vs)" and "length vs < 2 ^ 30"
  shows "(\<exists>q. binarySearch A c 0 (int (length vs) - 1) num = Inr q \<and> found_at vs num q) \<and>
    (if \<exists>v \<in> set vs. sint num \<le> sint v
     then \<exists>q. binarySearch A c 0 (int (length vs)) num = Inr q \<and> found_at vs num q
     else \<exists>e. binarySearch A c 0 (int (length vs)) num = Inl e)"
proof (intro conjI)
  show "\<exists>q. binarySearch A c 0 (int (length vs) - 1) num = Inr q \<and> found_at vs num q"
    using assms(3) by (intro binarySearch_spec [OF assms(1,2)]) auto
  show "if \<exists>v \<in> set vs. sint num \<le> sint v
     then \<exists>q. binarySearch A c 0 (int (length vs)) num = Inr q \<and> found_at vs num q
     else \<exists>e. binarySearch A c 0 (int (length vs)) num = Inl e"
    using binarySearch_upper [OF assms(1,2) _ _ assms(3)] binarySearch_past_end [OF assms(1) _ _ _ _ assms(3)] by (auto simp: not_le)
qed

section \<open>What a keep map keeps\<close>

text \<open>The key column and the types of a delta or a stable table, as far as they can be read.\<close>

definition has_keys :: "('t, 'a) arrow \<Rightarrow> 't TupleSet \<Rightarrow> string \<Rightarrow> int32 list \<Rightarrow> bool" where
  "has_keys A ts n vs \<longleftrightarrow>
     rbind (columnByName A ts n) (column_values A) = Inr vs \<and> TupleSet_numRows A ts = length vs"

definition has_types :: "('t, 'a) arrow \<Rightarrow> 't TupleSet \<Rightarrow> string list \<Rightarrow> bool" where
  "has_types A ts ty \<longleftrightarrow>
     rbind (columnByName A ts ''type'') (\<lambda>c. rmap (\<lambda>i. read_string A c (int i)) [0..<TupleSet_numRows A ts]) = Inr ty"

text \<open>Whether one of the first \<open>j\<close> rows of the tail updates a key.\<close>

definition updates :: "int32 list \<Rightarrow> string list \<Rightarrow> nat \<Rightarrow> int32 \<Rightarrow> bool" where
  "updates T ty j k \<longleftrightarrow> (\<exists>i < j. ty ! i = ''UPDATE'' \<and> T ! i = k)"

definition kept_positions :: "int32 list \<Rightarrow> string list \<Rightarrow> int32 list \<Rightarrow> nat \<Rightarrow> nat set" where
  "kept_positions T ty M j =
     {i. i < j \<and> ty ! i \<in> {''UPDATE'', ''INSERT''}} \<union> {m + length T |m. m < length M \<and> \<not> updates T ty j (M ! m)}"

definition cleared :: "int32 list \<Rightarrow> string list \<Rightarrow> int32 list \<Rightarrow> int32 list \<Rightarrow> 8 word list \<Rightarrow> nat \<Rightarrow> 8 word list" where
  "cleared T ty M S bm j = map (\<lambda>s. if updates T ty j (S ! s) \<and> S ! s \<notin> set M then 0 else bm ! s) [0..<length S]"

lemma updates_Suc [simp]: "updates T ty (Suc j) k \<longleftrightarrow> updates T ty j k \<or> (ty ! j = ''UPDATE'' \<and> T ! j = k)"
  by (auto simp: updates_def less_Suc_eq)

lemma updates_0 [simp]: "\<not> updates T ty 0 k"
  by (simp add: updates_def)

definition km_inv ::
  "int32 list \<Rightarrow> string list \<Rightarrow> int32 list \<Rightarrow> int32 list \<Rightarrow> 8 word list \<Rightarrow> nat \<Rightarrow>
   keep_map \<times> pos_map \<times> 8 word list option \<Rightarrow> bool" where
  "km_inv T ty M S bm j = (\<lambda>(km, pos, bmo).
     um_wf id pos \<and> um_keys id pos = kept_positions T ty M j \<and> bmo = Some (cleared T ty M S bm j) \<and>
     (\<forall>k. k \<notin> set (take j T) \<longrightarrow> um_find id [k] km =
        (if k \<in> set M then Some (the (index_of [sint k] (map (\<lambda>v. [v]) M)) + length T) else None)))"

lemma index_of_singletons:
  assumes "distinct M" and "m < length M"
  shows "index_of [sint (M ! m)] (map (\<lambda>v. [v]) M) = Some m"
  unfolding index_of_def
  by (rule find_upt_unique) (use assms in \<open>auto dest!: signed_word_eqI simp: nth_eq_iff_index_eq\<close>)

lemma km_inv_find:
  assumes "km_inv T ty M S bm j (km, pos, bmo)" and "distinct M" and "k \<notin> set (take j T)"
  shows "k \<notin> set M \<Longrightarrow> um_find id [k] km = None"
    and "m < length M \<Longrightarrow> M ! m = k \<Longrightarrow> um_find id [k] km = Some (m + length T)"
  using assms index_of_singletons [OF assms(2), of m] by (auto simp: km_inv_def)

lemma not_in_take:
  "distinct T \<Longrightarrow> j < length T \<Longrightarrow> T ! j \<notin> set (take j T)"
  by (auto simp: in_set_conv_nth nth_eq_iff_index_eq)

lemma clear_bit_cleared:
  assumes "found_at S k p" and "k \<in> set S" and "distinct S" and "length bm = length S"
    and "k \<notin> set M" and "ty ! j = ''UPDATE''" and "T ! j = k"
  shows "clear_bit (cleared T ty M S bm j) p = Inr (cleared T ty M S bm (Suc j))" and "p \<noteq> - 1"
proof -
  have p: "0 \<le> p" "nat p < length S" "S ! nat p = k" using assms(1,2) by (auto simp: found_at_def)
  then show "p \<noteq> - 1" by simp
  have "(cleared T ty M S bm j)[nat p := 0] = cleared T ty M S bm (Suc j)"
    using p assms(3,5-7)
    by (intro nth_equalityI) (auto simp: cleared_def nth_list_update nth_eq_iff_index_eq)
  with p show "clear_bit (cleared T ty M S bm j) p = Inr (cleared T ty M S bm (Suc j))"
    by (simp add: clear_bit_def cleared_def)
qed

lemma cleared_same:
  "ty ! j \<noteq> ''UPDATE'' \<or> T ! j \<in> set M \<Longrightarrow> cleared T ty M S bm (Suc j) = cleared T ty M S bm j"
  by (auto simp: cleared_def)

lemma kept_insert:
  assumes "ty ! j \<in> {''UPDATE'', ''INSERT''}" and "ty ! j = ''UPDATE'' \<Longrightarrow> T ! j \<notin> set M"
  shows "kept_positions T ty M (Suc j) = insert j (kept_positions T ty M j)"
  using assms by (auto simp: kept_positions_def less_Suc_eq)

lemma kept_replace:
  assumes "ty ! j = ''UPDATE''" and "T ! j = M ! m" and "m < length M" and "distinct M" and "j < length T"
  shows "kept_positions T ty M (Suc j) = insert j (kept_positions T ty M j - {m + length T})"
  using assms by (auto simp: kept_positions_def less_Suc_eq nth_eq_iff_index_eq)

lemma kept_same:
  "ty ! j \<notin> {''UPDATE'', ''INSERT''} \<Longrightarrow> kept_positions T ty M (Suc j) = kept_positions T ty M j"
  by (auto simp: kept_positions_def less_Suc_eq)

lemma km_inv_later: "k \<notin> set (take (Suc j) T) \<Longrightarrow> j < length T \<Longrightarrow> k \<notin> set (take j T) \<and> k \<noteq> T ! j"
  by (auto simp: take_Suc_conv_app_nth)

lemma nth_in_take_Suc: "j < length T \<Longrightarrow> T ! j \<in> set (take (Suc j) T)"
  by (simp add: take_Suc_conv_app_nth)

text \<open>
  A row of the tail: if it is an update, its key is in the memory delta, or it is in the stable table and
  the read through the end iterator gives something.
\<close>

lemma tail_update_step:
  assumes inv: "km_inv T ty M S bm j (km, pos, bmo)"
    and d: "distinct T" "distinct M" "distinct S" "length bm = length S" and j: "j < length T"
    and vals: "column_values A c = Inr S" "sorted (map sint S)" "length S < 2 ^ 30"
    and ty: "ty ! j = ''UPDATE''" and k: "T ! j \<in> set M \<or> T ! j \<in> set S \<and> (\<exists>v. E = Inr v)"
  shows "\<exists>t. tail_update A E c True j [T ! j] (km, pos, bmo) = Inr t \<and> km_inv T ty M S bm (Suc j) t"
proof (cases "T ! j \<in> set M")
  case True
  then obtain m where m: "m < length M" "M ! m = T ! j" by (auto simp: in_set_conv_nth)
  have f: "um_find id [T ! j] km = Some (m + length T)"
    by (rule km_inv_find(2) [OF inv d(2) not_in_take [OF d(1) j] m])
  have "km_inv T ty M S bm (Suc j) (um_emplace id [T ! j] j (um_erase id [T ! j] km),
      um_emplace id j [T ! j] (um_erase id (m + length T) pos), bmo)"
    using inv kept_replace [OF ty m(2) [symmetric] m(1) d(2) j] cleared_same [of ty j T M S bm] True j
    by (auto simp: km_inv_def um_id_simps nth_in_take_Suc dest!: km_inv_later)
  with f show ?thesis by (simp add: tail_update_def)
next
  case False
  with k obtain v where S: "T ! j \<in> set S" and E: "E = Inr v" by blast
  have f: "um_find id [T ! j] km = None"
    by (rule km_inv_find(1) [OF inv d(2) not_in_take [OF d(1) j] False])
  obtain p where p: "binarySearch A c 0 (int (length S)) (T ! j) = Inr p" "found_at S (T ! j) p"
    using binarySearch_upper [OF vals(1,2) S _ vals(3), of "T ! j"] by auto
  note clear = clear_bit_cleared [OF p(2) S d(3,4) False ty refl]
  have bmo: "bmo = Some (cleared T ty M S bm j)" using inv by (simp add: km_inv_def)
  have "km_inv T ty M S bm (Suc j) (um_emplace id [T ! j] j km, um_emplace id j [T ! j] pos,
      Some (cleared T ty M S bm (Suc j)))"
    using inv kept_insert [of ty j T M] ty False j
    by (auto simp: km_inv_def um_id_simps nth_in_take_Suc dest!: km_inv_later)
  have "to_int (int (length S)) = int (length S)" using vals(3) by (intro to_int_small) auto
  with f p clear bmo E column_values_nth(1) [OF vals(1)] \<open>km_inv T ty M S bm (Suc j) _\<close> show ?thesis by (simp add: tail_update_def)
qed

lemma tail_row_step:
  assumes inv: "km_inv T ty M S bm j u"
    and d: "distinct T" "distinct M" "distinct S" "length bm = length S" and j: "j < length T"
    and vals: "column_values A c = Inr S" "sorted (map sint S)" "length S < 2 ^ 30"
    and k: "ty ! j = ''UPDATE'' \<longrightarrow> T ! j \<in> set M \<or> T ! j \<in> set S \<and> (\<exists>v. E = Inr v)"
    and rd: "row_key A w tailCols j = Inr [T ! j]" "read_string A typeCol (int j) = Inr (ty ! j)"
  shows "\<exists>t. tail_row A E w tailCols typeCol c True j u = Inr t \<and> km_inv T ty M S bm (Suc j) t"
proof -
  obtain km pos bmo where u: "u = (km, pos, bmo)" by (cases u)
  consider "ty ! j = ''UPDATE''" | "ty ! j = ''INSERT''" | "ty ! j \<notin> {''UPDATE'', ''INSERT''}" by blast
  then show ?thesis
  proof cases
    case 1
    with tail_update_step [OF inv [unfolded u] d j vals 1] k rd show ?thesis by (simp add: tail_row_def u)
  next
    case 2
    then have "km_inv T ty M S bm (Suc j) (um_emplace id [T ! j] j km, um_emplace id j [T ! j] pos, bmo)"
      using inv kept_insert [of ty j T M] cleared_same [of ty j T M S bm] j
      by (auto simp: u km_inv_def um_id_simps nth_in_take_Suc dest!: km_inv_later)
    with rd 2 show ?thesis by (simp add: tail_row_def u)
  next
    case 3
    then have "km_inv T ty M S bm (Suc j) u"
      using inv kept_same [of ty j T M] cleared_same [of ty j T M S bm] j
      by (auto simp: u km_inv_def dest!: km_inv_later)
    with rd 3 show ?thesis by (simp add: tail_row_def u)
  qed
qed

text \<open>An update whose key is not in the memory delta, where the read is undefined.\<close>

lemma tail_row_end_read:
  assumes inv: "km_inv T ty M S bm j u" and d: "distinct T" "distinct M" and j: "j < length T"
    and ty: "ty ! j = ''UPDATE''" and k: "T ! j \<notin> set M"
    and rd: "row_key A w tailCols j = Inr [T ! j]" "read_string A typeCol (int j) = Inr (ty ! j)"
  shows "tail_row A (Inl e) w tailCols typeCol c True j u = Inl e"
proof -
  obtain km pos bmo where u: "u = (km, pos, bmo)" by (cases u)
  have "um_find id [T ! j] km = None"
    by (rule km_inv_find(1) [OF inv [unfolded u] d(2) not_in_take [OF d(1) j] k])
  with ty rd show ?thesis by (simp add: tail_row_def tail_update_def u)
qed

text \<open>The keep map of the memory delta.\<close>

lemma mem_keep_map_result:
  assumes "\<And>m. m < length M \<Longrightarrow> row_key A w cols m = Inr [M ! m]" and "distinct M"
  shows "\<exists>km pos. mem_keep_map A w cols t (length M) ([], []) = Inr (km, pos) \<and>
    um_wf id pos \<and> um_keys id pos = {m + t |m. m < length M} \<and>
    (\<forall>k. um_find id [k] km = (if k \<in> set M then Some (the (index_of [sint k] (map (\<lambda>v. [v]) M)) + t) else None))"
proof -
  let ?ix = "\<lambda>k. Some (the (index_of [sint k] (map (\<lambda>v. [v]) M)) + t)"
  let ?P = "\<lambda>j (km, pos :: pos_map). um_wf id pos \<and> um_keys id pos = {m + t |m. m < j} \<and>
      (\<forall>k. um_find id [k] km = (if k \<in> set (take j M) then ?ix k else None))"
  have "\<exists>u. rfold (\<lambda>m (km, pos). rbind (row_key A w cols m) (\<lambda>k.
         Inr (um_emplace id k (m + t) km, um_emplace id (m + t) k pos))) [0..<length M] ([], []) = Inr u \<and>
      ?P (length M) u"
  proof (rule rfold_upt [where P = ?P])
    fix j u
    assume j: "j < length M" and P: "?P j u"
    obtain km pos where u: "u = (km, pos)" by (cases u)
    have "um_find id [M ! j] km = None" using P not_in_take [OF assms(2) j] by (simp add: u)
    moreover have "?ix (M ! j) = Some (j + t)" using index_of_singletons [OF assms(2) j] by simp
    ultimately have "?P (Suc j) (um_emplace id [M ! j] (j + t) km, um_emplace id (j + t) [M ! j] pos)"
      using P j by (auto simp: u um_id_simps take_Suc_conv_app_nth less_Suc_eq)
    then show "\<exists>v. (case u of (km, pos) \<Rightarrow> rbind (row_key A w cols j) (\<lambda>k.
         Inr (um_emplace id k (j + t) km, um_emplace id (j + t) k pos))) = Inr v \<and> ?P (Suc j) v"
      using assms(1) [OF j] by (simp add: u)
  qed (simp add: um_find_def us_find_def)
  then show ?thesis unfolding mem_keep_map_def by auto
qed

lemma has_keys_column:
  assumes "has_keys A ts n vs"
  obtains c where "columnByName A ts n = Inr c" and "column_values A c = Inr vs"
    and "\<And>i. i < length vs \<Longrightarrow> row_key A 1 [c] i = Inr [vs ! i]"
proof -
  from assms obtain c where c: "columnByName A ts n = Inr c" "column_values A c = Inr vs"
    by (auto simp: has_keys_def result_simps)
  moreover have "row_key A 1 [c] i = Inr [vs ! i]" if "i < length vs" for i
    using column_values_nth(2) [OF c(2), of "int i"] that by (simp add: row_key_def)
  ultimately show ?thesis using that by blast
qed

lemma kept_positions_list:
  "sorted_list_of_set (kept_positions T ty M (length T)) =
     filter (\<lambda>i. ty ! i \<in> {''UPDATE'', ''INSERT''}) [0..<length T] @
     map (\<lambda>m. m + length T) (filter (\<lambda>m. \<not> updates T ty (length T) (M ! m)) [0..<length M])"
proof -
  let ?xs = "filter (\<lambda>i. ty ! i \<in> {''UPDATE'', ''INSERT''}) [0..<length T]"
    and ?ys = "map (\<lambda>m. m + length T) (filter (\<lambda>m. \<not> updates T ty (length T) (M ! m)) [0..<length M])"
  have "set (?xs @ ?ys) = kept_positions T ty M (length T)"
    by (auto simp: kept_positions_def)
  moreover have "sorted (?xs @ ?ys)"
    by (auto simp: sorted_append sorted_map intro!: sorted_wrt_filter sorted_filter [where f = id, simplified])
  moreover have "distinct (?xs @ ?ys)" by (auto simp: distinct_map)
  ultimately show ?thesis by (metis sorted_list_of_set.idem_if_sorted_distinct)
qed

text \<open>
  A memory delta, a newer tail delta and a stable table with one key column, sorted and without
  repetitions in the stable table, which has fewer than \<open>2 ^ 30\<close> rows, where every update of the tail
  concerns a row that exists.
\<close>

definition keep_input ::
  "('t, 'a) arrow \<Rightarrow> Table \<Rightarrow> 't TupleSet \<Rightarrow> 't DeltaCacheData \<Rightarrow> 't DeltaCacheData \<Rightarrow>
   int32 list \<Rightarrow> int32 list \<Rightarrow> string list \<Rightarrow> int32 list \<Rightarrow> bool" where
  "keep_input A table sts tail mem S T ty M \<longleftrightarrow>
     length (tbl_primaryKeyNames table) = 1 \<and>
     has_keys A sts (hd (tbl_primaryKeyNames table)) S \<and>
     has_keys A (dcd_delta tail) (hd (tbl_primaryKeyNames table)) T \<and>
     has_types A (dcd_delta tail) ty \<and>
     has_keys A (dcd_delta mem) (hd (tbl_primaryKeyNames table)) M \<and>
     sorted (map sint S) \<and> int (length S) < 2 ^ 30 \<and> distinct S \<and> distinct T \<and> distinct M \<and>
     dcd_timestamp mem < dcd_timestamp tail \<and> 0 < dcd_timestamp tail \<and> dcd_timestamp mem < 5000000000000 \<and>
     list_all (\<lambda>j. ty ! j = ''UPDATE'' \<longrightarrow> T ! j \<in> set M \<or> T ! j \<in> set S) [0..<length T]"

lemma has_types_column:
  assumes "has_types A ts ty" and "TupleSet_numRows A ts = n"
  obtains c where "columnByName A ts ''type'' = Inr c" and "\<And>i. i < n \<Longrightarrow> read_string A c (int i) = Inr (ty ! i)"
proof -
  from assms obtain c where c: "columnByName A ts ''type'' = Inr c"
    "rmap (\<lambda>i. read_string A c (int i)) [0..<n] = Inr ty"
    by (auto simp: has_types_def result_simps)
  with that rmap_upt_nth(2) [OF c(2)] show ?thesis by blast
qed

lemma scan_two:
  assumes "dcd_timestamp mem < dcd_timestamp tail" "0 < dcd_timestamp tail" "dcd_timestamp mem < 5000000000000"
  shows "scan_timestamps 0 (map dcd_timestamp [tail, mem]) (0, 5000000000000, x, y) = (1, 0)"
    and "delta_at [tail, mem] 0 = Inr (dcd_delta tail)" and "delta_at [tail, mem] 1 = Inr (dcd_delta mem)"
  using assms by (auto simp: delta_at_def)

text \<open>The first update whose key is not in the memory delta.\<close>

definition end_is_read :: "int32 list \<Rightarrow> string list \<Rightarrow> int32 list \<Rightarrow> bool" where
  "end_is_read T ty M \<longleftrightarrow> (\<exists>j < length T. ty ! j = ''UPDATE'' \<and> T ! j \<notin> set M)"

lemma first_end_read:
  assumes "end_is_read T ty M"
  obtains j where "j < length T" "ty ! j = ''UPDATE''" "T ! j \<notin> set M"
    "\<And>i. i < j \<Longrightarrow> ty ! i = ''UPDATE'' \<Longrightarrow> T ! i \<in> set M"
proof -
  let ?P = "\<lambda>j. j < length T \<and> ty ! j = ''UPDATE'' \<and> T ! j \<notin> set M"
  have "?P (LEAST j. ?P j)" using assms unfolding end_is_read_def by (rule LeastI_ex)
  moreover have "T ! i \<in> set M" if "i < (LEAST j. ?P j)" "ty ! i = ''UPDATE''" for i
    using not_less_Least [OF that(1)] that calculation by auto
  ultimately show ?thesis using that by blast
qed

text \<open>
  The loop over the tail: it fails with the read through the end iterator exactly if some update has a
  key that the memory delta does not have.
\<close>

lemma tail_rows_result:
  assumes start: "km_inv T ty M S bm 0 u"
    and d: "distinct T" "distinct M" "distinct S" "length bm = length S"
    and vals: "column_values A c = Inr S" "sorted (map sint S)" "length S < 2 ^ 30"
    and k: "\<And>j. j < length T \<Longrightarrow> ty ! j = ''UPDATE'' \<longrightarrow> T ! j \<in> set M \<or> T ! j \<in> set S"
    and rd: "\<And>j. j < length T \<Longrightarrow> row_key A w tailCols j = Inr [T ! j]"
      "\<And>j. j < length T \<Longrightarrow> read_string A typeCol (int j) = Inr (ty ! j)"
  shows "\<exists>v. rfold (tail_row A E w tailCols typeCol c True) [0..<length T] u =
    rbind (if end_is_read T ty M then E else Inr 0) (\<lambda>_. Inr v) \<and> km_inv T ty M S bm (length T) v"
proof -
  note step = tail_row_step [OF _ d _ vals _ rd]
  have total: "\<exists>v. rfold (tail_row A E' w tailCols typeCol c True) [0..<length T] u = Inr v \<and> km_inv T ty M S bm (length T) v"
    if E': "\<And>j. j < length T \<Longrightarrow> ty ! j = ''UPDATE'' \<Longrightarrow> T ! j \<in> set M \<or> (\<exists>v. E' = Inr v)" for E'
  proof (rule rfold_upt [where P = "km_inv T ty M S bm", OF start])
    fix i t assume i: "i < length T" and t: "km_inv T ty M S bm i t"
    have "ty ! i = ''UPDATE'' \<longrightarrow> T ! i \<in> set M \<or> T ! i \<in> set S \<and> (\<exists>v. E' = Inr v)" using k [OF i] E' [OF i] by blast
    with t i show "\<exists>v. tail_row A E' w tailCols typeCol c True i t = Inr v \<and> km_inv T ty M S bm (Suc i) v"
      by (intro step) auto
  qed
  show ?thesis
  proof (cases "end_is_read T ty M \<and> (\<exists>e. E = Inl e)")
    case False
    with total [of E] show ?thesis by (cases E) (auto simp: end_is_read_def)
  next
    case True
    then obtain e where e: "E = Inl e" by blast
    from True obtain j where j: "j < length T" "ty ! j = ''UPDATE''" "T ! j \<notin> set M"
      "\<And>i. i < j \<Longrightarrow> ty ! i = ''UPDATE'' \<Longrightarrow> T ! i \<in> set M" using first_end_read [OF conjunct1 [OF True]] by metis
    have "rfold (tail_row A E w tailCols typeCol c True) [0..<length T] u = Inl e"
    proof (rule rfold_upt_fails [where P = "km_inv T ty M S bm", OF start _ _ j(1)])
      show "\<exists>v. tail_row A E w tailCols typeCol c True i t = Inr v \<and> km_inv T ty M S bm (Suc i) v"
        if "i < j" "km_inv T ty M S bm i t" for i t
        by (rule step) (use that j in auto)
      show "tail_row A E w tailCols typeCol c True j t = Inl e" if "km_inv T ty M S bm j t" for t
        unfolding e by (rule tail_row_end_read [OF that d(1,2) j(1-3) rd [OF j(1)]])
    qed
    with total [of "Inr 0"] True e show ?thesis by auto
  qed
qed


theorem binarySearch_correct_witness:
  "(\<exists>q. binarySearch list_arrow \<lparr>col_name = ''k'', col_array = (Int32Type, [Int32Scalar 1, Int32Scalar 4])\<rparr> 0 1 4
       = Inr q \<and> found_at [1, 4] 4 q) \<and>
   (\<exists>e. binarySearch list_arrow \<lparr>col_name = ''k'', col_array = (Int32Type, [Int32Scalar 1, Int32Scalar 4])\<rparr> 0 2 9
       = Inl e)"
proof -
  have "column_values list_arrow \<lparr>col_name = ''k'', col_array = (Int32Type, [Int32Scalar 1, Int32Scalar 4])\<rparr> = Inr [1, 4]"
    by code_simp
  from binarySearch_correct [OF this, of 4] binarySearch_correct [OF this, of 9] show ?thesis by simp
qed

definition keep_sts :: "list_table TupleSet" where
  "keep_sts = Some (pk_table [1, 2, 3])"

definition keep_tail :: "list_table DeltaCacheData" where
  "keep_tail = pk_delta [2, 7, 8] [''UPDATE'', ''UPDATE'', ''INSERT''] 9"

definition keep_mem :: "list_table DeltaCacheData" where
  "keep_mem = pk_delta [6, 7] [''INSERT'', ''INSERT''] 5"

lemma keep_sample:
  "keep_input list_arrow pk_tbl keep_sts keep_tail keep_mem [1, 2, 3] [2, 7, 8] [''UPDATE'', ''UPDATE'', ''INSERT''] [6, 7]"
  by code_simp

lemma sample_end_is_read: "end_is_read [2, 7, 8] [''UPDATE'', ''UPDATE'', ''INSERT''] [6, 7 :: int32]"
  unfolding end_is_read_def by (rule exI [of _ 0]) simp


section \<open>Batches\<close>

text \<open>
  A tail row \<open>i\<close> has been compared with the first \<open>p i\<close> stable rows, and with the memory delta if
  \<open>q i\<close> holds.
\<close>

definition placed :: "int32 list \<Rightarrow> string list \<Rightarrow> int32 list \<Rightarrow> (nat \<Rightarrow> bool) \<Rightarrow> int32 \<Rightarrow> bool" where
  "placed T ty M q k \<longleftrightarrow> (\<exists>i < length T. q i \<and> ty ! i = ''UPDATE'' \<and> T ! i = k)"

definition batch_cleared ::
  "int32 list \<Rightarrow> string list \<Rightarrow> int32 list \<Rightarrow> int32 list \<Rightarrow> 8 word list \<Rightarrow> (nat \<Rightarrow> nat) \<Rightarrow> 8 word list" where
  "batch_cleared T ty M S bm p =
     map (\<lambda>s. if placed T ty M (\<lambda>i. s < p i) (S ! s) \<and> S ! s \<notin> set M then 0 else bm ! s) [0..<length S]"

definition row_placed ::
  "int32 list \<Rightarrow> string list \<Rightarrow> int32 list \<Rightarrow> int32 list \<Rightarrow> (nat \<Rightarrow> nat) \<Rightarrow> (nat \<Rightarrow> bool) \<Rightarrow> nat \<Rightarrow> bool" where
  "row_placed T ty M S p q i \<longleftrightarrow>
     ty ! i = ''UPDATE'' \<and> (if T ! i \<in> set M then q i else T ! i \<in> set (take (p i) S))"

definition batch_inv ::
  "int32 list \<Rightarrow> string list \<Rightarrow> int32 list \<Rightarrow> int32 list \<Rightarrow> 8 word list \<Rightarrow> 'a Column \<Rightarrow> 'a Column \<Rightarrow> string \<Rightarrow>
   (nat \<Rightarrow> nat) \<Rightarrow> (nat \<Rightarrow> bool) \<Rightarrow> 'a KeepMapCacheMode \<times> 8 word list option \<Rightarrow> bool" where
  "batch_inv T ty M S bm ct cy n p q = (\<lambda>(st, bmo).
     kmm_primaryKeyColumnNames st = [n] \<and> kmm_tailPrimaryKeyColumns st = [ct] \<and>
     kmm_tailTypeColumns st = Some cy \<and> kmm_tailDeltaSize st = length T \<and>
     kmm_seen st = map (row_placed T ty M S p q) [0..<length T] \<and>
     um_wf id (kmm_deltasPos st) \<and>
     um_keys id (kmm_deltasPos st) = {m. m < length M \<and> \<not> placed T ty M q (M ! m)} \<and>
     bmo = Some (batch_cleared T ty M S bm p) \<and>
     (\<forall>k. um_find id [k] (kmm_deltasKm st) =
        (if k \<in> set M \<and> \<not> placed T ty M q k then Some (the (index_of [sint k] (map (\<lambda>v. [v]) M))) else None)))"

lemma placed_cong:
  "(\<And>i. i < length T \<Longrightarrow> T ! i = k \<Longrightarrow> ty ! i = ''UPDATE'' \<Longrightarrow> q i = q' i) \<Longrightarrow> placed T ty M q k = placed T ty M q' k"
  by (auto simp: placed_def)

lemma placed_upd:
  assumes "j < length T" and "\<not> q j"
  shows "placed T ty M (q(j := True)) k \<longleftrightarrow> placed T ty M q k \<or> (ty ! j = ''UPDATE'' \<and> T ! j = k)"
  using assms by (auto simp: placed_def)

lemma placed_distinct:
  "distinct T \<Longrightarrow> j < length T \<Longrightarrow> placed T ty M q (T ! j) \<longleftrightarrow> q j \<and> ty ! j = ''UPDATE''"
  by (auto simp: placed_def nth_eq_iff_index_eq)

text \<open>What comparing row \<open>j\<close> with the memory delta and the stable rows from \<open>p j\<close> to \<open>e\<close> changes.\<close>

lemma row_placed_upd:
  "row_placed T ty M S (p(j := e)) (q(j := True)) i =
    (if i = j then ty ! j = ''UPDATE'' \<and> (T ! j \<in> set M \<or> T ! j \<in> set (take e S))
     else row_placed T ty M S p q i)"
  by (auto simp: row_placed_def)

lemma placed_new:
  assumes "j < length T" and "distinct T"
  shows "placed T ty M (q(j := True)) k = (if k = T ! j then ty ! j = ''UPDATE'' else placed T ty M q k)"
  using assms by (auto simp: placed_def nth_eq_iff_index_eq)

lemma nth_in_take: "distinct S \<Longrightarrow> s < length S \<Longrightarrow> S ! s \<in> set (take l S) \<longleftrightarrow> s < l"
  by (auto simp: in_set_conv_nth) (metis nth_eq_iff_index_eq)

lemma batch_cleared_upd:
  assumes "j < length T" and "distinct T" and "distinct S" and "length bm = length S"
    and "T ! j \<in> set M \<or> ty ! j \<noteq> ''UPDATE'' \<or> T ! j \<notin> set (take e S) \<or> T ! j \<in> set (take (p j) S)"
    and "p j \<le> e"
  shows "batch_cleared T ty M S bm (p(j := e)) = batch_cleared T ty M S bm p"
proof -
  have "placed T ty M (\<lambda>i. s < (p(j := e)) i) (S ! s) = placed T ty M (\<lambda>i. s < p i) (S ! s)"
    if s: "s < length S" "S ! s \<notin> set M" for s
  proof (cases "S ! s = T ! j \<and> ty ! j = ''UPDATE''")
    case True
    have in_take: "T ! j \<in> set (take l S) \<longleftrightarrow> s < l" for l
      using nth_in_take [OF assms(3) s(1)] True by metis
    have "s < e \<longleftrightarrow> s < p j" using True s(2) assms(5,6) unfolding in_take by auto
    then show ?thesis using True placed_distinct [OF assms(2,1)] by simp
  next
    case False
    then show ?thesis by (auto intro!: placed_cong)
  qed
  then show ?thesis unfolding batch_cleared_def by (intro map_cong refl) (simp del: fun_upd_apply, blast)
qed

lemma batch_cleared_hit:
  assumes "j < length T" and "distinct T" and "distinct S" and "length bm = length S"
    and "T ! j \<notin> set M" and "ty ! j = ''UPDATE''" and "s < length S" and "S ! s = T ! j" and "s < e" and "p j \<le> s"
  shows "clear_bit (batch_cleared T ty M S bm p) (int s) = Inr (batch_cleared T ty M S bm (p(j := e)))"
proof -
  have "placed T ty M (\<lambda>i. r < (p(j := e)) i) (S ! r) = (r = s \<or> placed T ty M (\<lambda>i. r < p i) (S ! r))"
    if "r < length S" for r
  proof (cases "r = s")
    case True
    with assms placed_distinct [OF assms(2,1)] show ?thesis by (metis fun_upd_same)
  next
    case False
    then have "S ! r \<noteq> T ! j" using assms(3,7,8) that by (metis nth_eq_iff_index_eq)
    with False show ?thesis by (auto intro!: placed_cong)
  qed
  then have "(batch_cleared T ty M S bm p)[s := 0] = batch_cleared T ty M S bm (p(j := e))"
    using assms(5,7,8) by (intro nth_equalityI) (auto simp: batch_cleared_def nth_list_update)
  with assms(7) show ?thesis by (simp add: clear_bit_def batch_cleared_def)
qed

text \<open>A row that changes nothing.\<close>

lemma batch_inv_idle:
  assumes "batch_inv T ty M S bm ct cy n p q (st, bmo)"
    and j: "j < length T" "distinct T" "distinct S" "length bm = length S" "p j \<le> e"
    and idle: "ty ! j = ''UPDATE'' \<Longrightarrow> (if T ! j \<in> set M then q j else T ! j \<in> set (take (p j) S) \<or> T ! j \<notin> set (take e S))"
  shows "batch_inv T ty M S bm ct cy n (p(j := e)) (q(j := True)) (st, bmo)"
proof -
  have pl: "placed T ty M (q(j := True)) k = placed T ty M q k" if "k \<in> set M" for k
    using placed_new [OF j(1,2)] placed_distinct [OF j(2,1)] idle that by auto
  have "set (take (p j) S) \<subseteq> set (take e S)" using j(5) by (rule set_take_subset_set_take)
  then have "row_placed T ty M S (p(j := e)) (q(j := True)) i = row_placed T ty M S p q i" for i
    using idle unfolding row_placed_upd by (auto simp: row_placed_def split: if_splits)
  moreover have "batch_cleared T ty M S bm (p(j := e)) = batch_cleared T ty M S bm p"
    by (rule batch_cleared_upd) (use j idle in \<open>auto split: if_splits\<close>)
  moreover have "{m. m < length M \<and> \<not> placed T ty M (q(j := True)) (M ! m)} = {m. m < length M \<and> \<not> placed T ty M q (M ! m)}"
    using pl by (simp del: fun_upd_apply cong: conj_cong)
  ultimately show ?thesis
    using assms(1) pl unfolding batch_inv_def by (simp del: fun_upd_apply cong: conj_cong)
qed

lemma row_placed_seen:
  assumes "j < length T" and "T ! j \<in> set M \<or> T ! j \<in> set (take e S)" and "ty ! j = ''UPDATE''"
  shows "(map (row_placed T ty M S p q) [0..<length T])[j := True]
    = map (row_placed T ty M S (p(j := e)) (q(j := True))) [0..<length T]"
  using assms by (intro nth_equalityI) (auto simp: row_placed_upd nth_list_update simp del: fun_upd_apply)

text \<open>An update that replaces a row of the memory delta, and one that replaces a stable row.\<close>

lemma batch_inv_mem:
  assumes inv: "batch_inv T ty M S bm ct cy n p q (st, bmo)"
    and j: "j < length T" "distinct T" "distinct S" "length bm = length S" "p j \<le> e" "distinct M"
    and m: "m < length M" "M ! m = T ! j" "ty ! j = ''UPDATE''"
  shows "batch_inv T ty M S bm ct cy n (p(j := e)) (q(j := True))
    (st\<lparr>kmm_deltasKm := um_erase id [T ! j] (kmm_deltasKm st),
        kmm_deltasPos := um_erase id m (kmm_deltasPos st), kmm_seen := (kmm_seen st)[j := True]\<rparr>, bmo)"
proof -
  have M: "T ! j \<in> set M" using m by (metis nth_mem)
  have "batch_cleared T ty M S bm (p(j := e)) = batch_cleared T ty M S bm p"
    by (rule batch_cleared_upd) (use j M in auto)
  moreover have "{i. i < length M \<and> \<not> placed T ty M (q(j := True)) (M ! i)} = {i. i < length M \<and> \<not> placed T ty M q (M ! i)} - {m}"
    using placed_new [OF j(1,2), of ty M q] m nth_eq_iff_index_eq [OF j(6) _ m(1)] by (auto simp del: fun_upd_apply)
  ultimately show ?thesis
    using inv row_placed_seen [of j T M e S ty p q] placed_new [OF j(1,2), of ty M q] j(1) M m(3)
    unfolding batch_inv_def by (auto simp: um_id_simps simp del: fun_upd_apply)
qed

lemma batch_inv_stable:
  assumes inv: "batch_inv T ty M S bm ct cy n p q (st, bmo)"
    and j: "j < length T" "distinct T" "distinct S" "length bm = length S"
    and s: "s < length S" "S ! s = T ! j" "p j \<le> s" "s < e" "T ! j \<notin> set M" "ty ! j = ''UPDATE''"
  shows "batch_inv T ty M S bm ct cy n (p(j := e)) (q(j := True))
    (st\<lparr>kmm_seen := (kmm_seen st)[j := True]\<rparr>, Some (batch_cleared T ty M S bm (p(j := e))))"
proof -
  have pl: "placed T ty M (q(j := True)) k = placed T ty M q k" if "k \<in> set M" for k
    using placed_new [OF j(1,2)] s(5) that by auto
  have "T ! j \<in> set (take e S)" using nth_in_take [OF j(3) s(1)] s(2,4) by metis
  moreover have "{m. m < length M \<and> \<not> placed T ty M (q(j := True)) (M ! m)} = {m. m < length M \<and> \<not> placed T ty M q (M ! m)}"
    using pl by (simp del: fun_upd_apply cong: conj_cong)
  ultimately show ?thesis
    using inv pl row_placed_seen [of j T M e S ty p q] j(1) s(6)
    unfolding batch_inv_def by (simp del: fun_upd_apply cong: conj_cong)
qed

text \<open>The rows of one batch: \<open>Sb\<close> stands at position \<open>off\<close> of the stable keys.\<close>

definition batch_slice :: "int32 list \<Rightarrow> nat \<Rightarrow> int32 list \<Rightarrow> bool" where
  "batch_slice S off Sb \<longleftrightarrow> Sb \<noteq> [] \<and> take (off + length Sb) S = take off S @ Sb \<and> off + length Sb \<le> length S"

lemma batch_slice_nth:
  assumes "batch_slice S off Sb" and "i < length Sb"
  shows "off + i < length S" and "S ! (off + i) = Sb ! i"
proof -
  have l: "off + length Sb \<le> length S" and t: "take (off + length Sb) S = take off S @ Sb"
    using assms(1) by (auto simp: batch_slice_def)
  show "off + i < length S" using l assms(2) by simp
  have "S ! (off + i) = take (off + length Sb) S ! (off + i)" using assms(2) by simp
  also have "\<dots> = Sb ! i" using l by (simp add: t nth_append)
  finally show "S ! (off + i) = Sb ! i" .
qed

lemma batch_update_step:
  assumes inv: "batch_inv T ty M S bm ct cy n p q (st, bmo)"
    and j: "j < length T" "distinct T" "distinct S" "length bm = length S" and pj: "p j = off" and dM: "distinct M"
    and sl: "batch_slice S off Sb" and off: "int off = (bc - 1) * int DefaultChunkSize"
    and vals: "column_values A c = Inr Sb" "sorted (map sint Sb)" "length Sb < 2 ^ 30"
    and ty: "ty ! j = ''UPDATE''" and unseen: "\<not> row_placed T ty M S p q j"
    and E: "T ! j \<in> set M \<or> (\<exists>v. E = Inr v)"
  shows "\<exists>t. batch_update A E False c bc True None j [T ! j] (st, bmo) = Inr t \<and>
    batch_inv T ty M S bm ct cy n (p(j := off + length Sb)) (q(j := True)) t"
proof -
  let ?e = "off + length Sb"
  have Sb: "Sb \<noteq> []" and te: "set (take ?e S) = set (take off S) \<union> set Sb"
    using sl by (auto simp: batch_slice_def)
  have rows: "Column_numRows A c = length Sb" by (rule column_values_nth(1) [OF vals(1)])
  have mx: "read_int32 A c (int (length Sb) - 1) = Inr (last Sb)"
    using column_values_nth(2) [OF vals(1), of "int (length Sb) - 1"] Sb
    by (simp add: last_conv_nth nat_diff_distrib')
  show ?thesis
  proof (cases "T ! j \<in> set M")
    case True
    then obtain m where m: "m < length M" "M ! m = T ! j" by (auto simp: in_set_conv_nth)
    have "\<not> q j" using unseen ty True by (simp add: row_placed_def)
    then have "um_find id [T ! j] (kmm_deltasKm st) = Some m"
      using inv True placed_distinct [OF j(2,1)] index_of_singletons [OF dM m(1)] m(2)
      by (auto simp: batch_inv_def)
    with batch_inv_mem [OF inv j _ dM m ty, of ?e] pj mx rows show ?thesis
      by (auto simp: batch_update_def Let_def)
  next
    case False
    obtain v where E': "E = Inr v" using E False by blast
    have int: "to_int (int (length Sb)) = int (length Sb)" using vals(3) by (intro to_int_small) auto
    have none: "um_find id [T ! j] (kmm_deltasKm st) = None" using inv False by (simp add: batch_inv_def)
    have bmo: "bmo = Some (batch_cleared T ty M S bm p)" using inv by (simp add: batch_inv_def)
    have old: "T ! j \<notin> set (take off S)" using unseen ty False pj by (simp add: row_placed_def)
    have idle: "batch_inv T ty M S bm ct cy n (p(j := ?e)) (q(j := True)) (st, bmo)" if "T ! j \<notin> set Sb"
      by (rule batch_inv_idle [OF inv j]) (use that old False te pj in auto)
    show ?thesis
    proof (cases "sint (last Sb) \<ge> sint (T ! j)")
      case nmax: False
      have "T ! j \<notin> set Sb"
      proof
        assume "T ! j \<in> set Sb"
        then obtain i where "i < length Sb" "Sb ! i = T ! j" by (auto simp: in_set_conv_nth)
        moreover from this have "i \<le> length Sb - 1" by simp
        ultimately show False
          using nmax column_values_sorted [OF vals(2), of i "length Sb - 1"] Sb by (simp add: last_conv_nth)
      qed
      with idle nmax none E' mx rows bmo show ?thesis by (simp add: batch_update_def Let_def)
    next
      case True
      obtain r where r: "binarySearch A c 0 (int (length Sb)) (T ! j) = Inr r" "found_at Sb (T ! j) r"
        using binarySearch_upper [OF vals(1,2) last_in_set [OF Sb] True vals(3)] by auto
      show ?thesis
      proof (cases "T ! j \<in> set Sb")
        case hit: True
        then have r': "0 \<le> r" "nat r < length Sb" "Sb ! nat r = T ! j" using r(2) by (auto simp: found_at_def)
        let ?s = "off + nat r"
        have s: "?s < length S" "S ! ?s = T ! j" using batch_slice_nth [OF sl r'(2)] r'(3) by auto
        have pos: "(bc - 1) * int DefaultChunkSize + r = int ?s" using off r'(1) by simp
        have "clear_bit (batch_cleared T ty M S bm p) (int ?s) = Inr (batch_cleared T ty M S bm (p(j := ?e)))"
          by (rule batch_cleared_hit [OF j False ty s]) (use r'(2) pj in auto)
        moreover have "batch_inv T ty M S bm ct cy n (p(j := ?e)) (q(j := True))
            (st\<lparr>kmm_seen := (kmm_seen st)[j := True]\<rparr>, Some (batch_cleared T ty M S bm (p(j := ?e))))"
          by (rule batch_inv_stable [OF inv j s]) (use r'(2) pj False ty in auto)
        ultimately show ?thesis
          using none E' int mx rows bmo r(1) r'(1) True pos by (simp add: batch_update_def Let_def)
      next
        case miss: False
        then have "r = - 1" using r(2) by (simp add: found_at_def)
        with idle [OF miss] none E' int mx rows bmo r(1) True show ?thesis by (simp add: batch_update_def Let_def)
      qed
    qed
  qed
qed

lemma batch_row_step:
  assumes inv: "batch_inv T ty M S bm ct cy n p q u"
    and j: "j < length T" "distinct T" "distinct S" "length bm = length S" and pj: "p j = off" and dM: "distinct M"
    and sl: "batch_slice S off Sb" and off: "int off = (bc - 1) * int DefaultChunkSize"
    and vals: "column_values A c = Inr Sb" "sorted (map sint Sb)" "length Sb < 2 ^ 30"
    and rd: "row_key A 1 [ct] j = Inr [T ! j]" "read_string A cy (int j) = Inr (ty ! j)"
    and E: "ty ! j = ''UPDATE'' \<Longrightarrow> T ! j \<in> set M \<or> (\<exists>v. E = Inr v)"
  shows "\<exists>t. batch_row A E False c bc True None j u = Inr t \<and>
    batch_inv T ty M S bm ct cy n (p(j := off + length Sb)) (q(j := True)) t"
proof -
  obtain st bmo where u: "u = (st, bmo)" by (cases u)
  have seen: "kmm_seen st = map (row_placed T ty M S p q) [0..<length T]" and cols: "kmm_tailPrimaryKeyColumns st = [ct]"
    "kmm_tailTypeColumns st = Some cy" using inv by (auto simp: u batch_inv_def)
  show ?thesis
  proof (cases "row_placed T ty M S p q j \<or> ty ! j \<noteq> ''UPDATE''")
    case True
    have "batch_inv T ty M S bm ct cy n (p(j := off + length Sb)) (q(j := True)) (st, bmo)"
      by (rule batch_inv_idle [OF inv [unfolded u] j]) (use True pj in \<open>auto simp: row_placed_def\<close>)
    with True seen cols rd j(1) show ?thesis by (auto simp: batch_row_def u)
  next
    case False
    then have "T ! j \<in> set M \<or> (\<exists>v. E = Inr v)" using E by blast
    with False batch_update_step [OF inv [unfolded u] j pj dM sl off vals, of E] seen cols rd j(1) show ?thesis
      by (auto simp: batch_row_def u)
  qed
qed

lemma batch_row_end_read:
  assumes inv: "batch_inv T ty M S bm ct cy n p q u"
    and j: "j < length T" and ty: "ty ! j = ''UPDATE''" and k: "T ! j \<notin> set M" and pj: "p j = 0"
    and rd: "row_key A 1 [ct] j = Inr [T ! j]" "read_string A cy (int j) = Inr (ty ! j)"
  shows "batch_row A (Inl e) False c bc True None j u = Inl e"
proof -
  obtain st bmo where u: "u = (st, bmo)" by (cases u)
  have "kmm_seen st = map (row_placed T ty M S p q) [0..<length T]" "kmm_tailPrimaryKeyColumns st = [ct]"
    "kmm_tailTypeColumns st = Some cy" "um_find id [T ! j] (kmm_deltasKm st) = None" "\<not> row_placed T ty M S p q j"
    using inv k pj by (auto simp: u batch_inv_def row_placed_def)
  with rd ty j show ?thesis by (simp add: batch_row_def batch_update_def Let_def u)
qed

lemma batch_inv_cong:
  assumes "\<And>i. i < length T \<Longrightarrow> p i = p' i" and "\<And>i. i < length T \<Longrightarrow> q i = q' i"
  shows "batch_inv T ty M S bm ct cy n p q = batch_inv T ty M S bm ct cy n p' q'"
proof -
  have "placed T ty M q = placed T ty M q'" "\<And>s. placed T ty M (\<lambda>i. s < p i) = placed T ty M (\<lambda>i. s < p' i)"
    using assms by (auto simp: placed_def fun_eq_iff)
  moreover have "map (row_placed T ty M S p q) [0..<length T] = map (row_placed T ty M S p' q') [0..<length T]"
    using assms by (auto simp: row_placed_def)
  ultimately show ?thesis unfolding batch_inv_def batch_cleared_def by presburger
qed

text \<open>A whole batch compares every tail row with its stable rows.\<close>

lemma middle_batch_step:
  assumes inv: "batch_inv T ty M S bm ct cy n (\<lambda>_. off) (\<lambda>_. q) u"
    and d: "distinct T" "distinct S" "length bm = length S" "distinct M"
    and sl: "batch_slice S off Sb" and off: "int off = (bc - 1) * int DefaultChunkSize"
    and keys: "has_keys A batch n Sb" "sorted (map sint Sb)" "length Sb < 2 ^ 30"
    and rd: "\<And>j. j < length T \<Longrightarrow> row_key A 1 [ct] j = Inr [T ! j]"
      "\<And>j. j < length T \<Longrightarrow> read_string A cy (int j) = Inr (ty ! j)"
    and two: "length deltas > 1"
    and E: "\<And>j. j < length T \<Longrightarrow> ty ! j = ''UPDATE'' \<Longrightarrow> T ! j \<in> set M \<or> (\<exists>v. E = Inr v)"
  shows "\<exists>t. middle_batch A E deltas batch bc u = Inr t \<and>
    batch_inv T ty M S bm ct cy n (\<lambda>_. off + length Sb) (\<lambda>_. True) t"
proof -
  let ?P = "\<lambda>j. batch_inv T ty M S bm ct cy n (\<lambda>i. if i < j then off + length Sb else off) (\<lambda>i. i < j \<or> q)"
  obtain c where c: "columnByName A batch n = Inr c" "column_values A c = Inr Sb"
    using has_keys_column [OF keys(1)] by metis
  have "\<exists>t. rfold (batch_row A E False c bc True None) [0..<length T] u = Inr t \<and> ?P (length T) t"
  proof (rule rfold_upt [where P = ?P])
    fix j v
    assume j: "j < length T" and P: "?P j v"
    let ?p = "\<lambda>i. if i < j then off + length Sb else off" and ?q = "\<lambda>i. i < j \<or> q"
    have "?p(j := off + length Sb) = (\<lambda>i. if i < Suc j then off + length Sb else off)"
      "?q(j := True) = (\<lambda>i. i < Suc j \<or> q)" by (auto simp: fun_eq_iff)
    with batch_row_step [OF P j d(1-3) _ d(4) sl off c(2) keys(2,3) rd [OF j] E [OF j]]
    show "\<exists>t. batch_row A E False c bc True None j v = Inr t \<and> ?P (Suc j) t" by simp
  qed (use inv in simp)
  moreover have "?P (length T) = batch_inv T ty M S bm ct cy n (\<lambda>_. off + length Sb) (\<lambda>_. True)"
    by (rule batch_inv_cong) auto
  moreover obtain st bmo where u: "u = (st, bmo)" by (cases u)
  moreover have "kmm_primaryKeyColumnNames st = [n]" "kmm_tailDeltaSize st = length T"
    using inv by (auto simp: u batch_inv_def)
  ultimately show ?thesis using c(1) two by (simp add: middle_batch_def)
qed

text \<open>The first batch, when some update has a key that the memory delta does not have.\<close>

lemma middle_batch_end_read:
  assumes inv: "batch_inv T ty M S bm ct cy n (\<lambda>_. 0) (\<lambda>_. q) u"
    and d: "distinct T" "distinct S" "length bm = length S" "distinct M"
    and sl: "batch_slice S 0 Sb" and bc: "bc = 1"
    and keys: "has_keys A batch n Sb" "sorted (map sint Sb)" "length Sb < 2 ^ 30"
    and rd: "\<And>j. j < length T \<Longrightarrow> row_key A 1 [ct] j = Inr [T ! j]"
      "\<And>j. j < length T \<Longrightarrow> read_string A cy (int j) = Inr (ty ! j)"
    and two: "length deltas > 1" and miss: "end_is_read T ty M"
  shows "middle_batch A (Inl e) deltas batch bc u = Inl e"
proof -
  let ?P = "\<lambda>j. batch_inv T ty M S bm ct cy n (\<lambda>i. if i < j then length Sb else 0) (\<lambda>i. i < j \<or> q)"
  obtain c where c: "columnByName A batch n = Inr c" "column_values A c = Inr Sb"
    using has_keys_column [OF keys(1)] by metis
  obtain j where j: "j < length T" "ty ! j = ''UPDATE''" "T ! j \<notin> set M"
    "\<And>i. i < j \<Longrightarrow> ty ! i = ''UPDATE'' \<Longrightarrow> T ! i \<in> set M" using first_end_read [OF miss] by metis
  have "rfold (batch_row A (Inl e) False c bc True None) [0..<length T] u = Inl e"
  proof (rule rfold_upt_fails [where P = ?P, OF _ _ _ j(1)])
    fix i v
    assume i: "i < j" and P: "?P i v"
    let ?p = "\<lambda>k. if k < i then length Sb else 0" and ?q = "\<lambda>k. k < i \<or> q"
    have "?p(i := 0 + length Sb) = (\<lambda>k. if k < Suc i then length Sb else 0)"
      "?q(i := True) = (\<lambda>k. k < Suc i \<or> q)" by (auto simp: fun_eq_iff)
    with batch_row_step [OF P _ d(1-3) _ d(4) sl _ c(2) keys(2,3) rd, of i bc "Inl e"] i j bc
    show "\<exists>t. batch_row A (Inl e) False c bc True None i v = Inr t \<and> ?P (Suc i) t" by simp
  next
    fix v assume "?P j v"
    then show "batch_row A (Inl e) False c bc True None j v = Inl e"
      by (rule batch_row_end_read) (use j rd in auto)
  qed (use inv in simp)
  moreover obtain st bmo where u: "u = (st, bmo)" by (cases u)
  moreover have "kmm_primaryKeyColumnNames st = [n]" "kmm_tailDeltaSize st = length T"
    using inv by (auto simp: u batch_inv_def)
  ultimately show ?thesis using c(1) two by (simp add: middle_batch_def)
qed

section \<open>All batches of a partition\<close>

text \<open>
  The calls for the batches of a partition, in order, and the last call without a batch, whose batch
  number is that of the last batch.
\<close>

definition merge_batches ::
  "('t, 'a) arrow \<Rightarrow> nat result \<Rightarrow> 't DeltaCacheData list \<Rightarrow> Table \<Rightarrow> 't TupleSet list \<Rightarrow>
   8 word list \<Rightarrow> (nat list \<times> 8 word list option) result" where
  "merge_batches A end_read deltas table Bs bm =
     rbind (rfold (\<lambda>b u. rbind (getBatchedKeepMap A end_read deltas (Bs ! b) table (int (b + 1)) False u) (\<lambda>(_, u'). Inr u'))
              [0..<length Bs] (KeepMapCacheMode_make, Some bm)) (\<lambda>u.
     rbind (getBatchedKeepMap A end_read deltas None table (int (length Bs)) True u) (\<lambda>(positions, _, bm').
       Inr (positions, bm')))"

definition batches_input ::
  "('t, 'a) arrow \<Rightarrow> Table \<Rightarrow> 't TupleSet list \<Rightarrow> 't DeltaCacheData \<Rightarrow> 't DeltaCacheData \<Rightarrow>
   int32 list list \<Rightarrow> int32 list \<Rightarrow> string list \<Rightarrow> int32 list \<Rightarrow> bool" where
  "batches_input A table Bs tail mem Ss T ty M \<longleftrightarrow>
     length (tbl_primaryKeyNames table) = 1 \<and>
     list_all2 (\<lambda>B. has_keys A B (hd (tbl_primaryKeyNames table))) Bs Ss \<and> [] \<notin> set Ss \<and>
     list_all (\<lambda>Sb. length Sb = DefaultChunkSize) (butlast Ss) \<and>
     has_keys A (dcd_delta tail) (hd (tbl_primaryKeyNames table)) T \<and>
     has_types A (dcd_delta tail) ty \<and>
     has_keys A (dcd_delta mem) (hd (tbl_primaryKeyNames table)) M \<and>
     sorted (map sint (concat Ss)) \<and> int (length (concat Ss)) < 2 ^ 30 \<and> distinct (concat Ss) \<and> distinct T \<and> distinct M \<and>
     dcd_timestamp mem < dcd_timestamp tail \<and> 0 < dcd_timestamp tail \<and> dcd_timestamp mem < 5000000000000"

lemma concat_take_offset:
  assumes "list_all (\<lambda>Sb. length Sb = C) (butlast Ss)" and "b < length Ss"
  shows "length (concat (take b Ss)) = b * C"
proof -
  have "length Sb = C" if "Sb \<in> set (take b Ss)" for Sb
  proof -
    have "take b Ss = take b (butlast Ss)" using assms(2) by (auto simp: butlast_conv_take min_def)
    with that have "Sb \<in> set (butlast Ss)" by (metis in_set_takeD)
    with assms(1) show ?thesis by (simp add: list_all_iff)
  qed
  then have "map length (take b Ss) = map (\<lambda>_. C) (take b Ss)" by (intro map_cong refl)
  then have "length (concat (take b Ss)) = length (take b Ss) * C"
    unfolding length_concat by (simp only: sum_list_triv) simp
  then show ?thesis using assms(2) by simp
qed

lemma batch_slice_concat:
  assumes "b < length Ss" and "Ss ! b \<noteq> []"
  shows "batch_slice (concat Ss) (length (concat (take b Ss))) (Ss ! b)"
    and "length (concat (take (Suc b) Ss)) = length (concat (take b Ss)) + length (Ss ! b)"
    and "sorted (map sint (concat Ss)) \<Longrightarrow> sorted (map sint (Ss ! b))"
proof -
  have S: "concat Ss = concat (take b Ss) @ Ss ! b @ concat (drop (Suc b) Ss)"
    using id_take_nth_drop [OF assms(1)] by (metis concat.simps(2) concat_append)
  show "batch_slice (concat Ss) (length (concat (take b Ss))) (Ss ! b)"
    unfolding batch_slice_def S using assms(2) by simp
  show "length (concat (take (Suc b) Ss)) = length (concat (take b Ss)) + length (Ss ! b)"
    using assms(1) by (simp add: take_Suc_conv_app_nth)
  show "sorted (map sint (concat Ss)) \<Longrightarrow> sorted (map sint (Ss ! b))"
    unfolding S by (simp add: sorted_append)
qed

lemma first_batch_inv:
  assumes "tbl_primaryKeyNames table = [n]"
    and cols: "columnByName A (dcd_delta tail) n = Inr ct" "columnByName A (dcd_delta mem) n = Inr cm"
      "columnByName A (dcd_delta tail) ''type'' = Inr cy"
    and rd: "\<And>i. i < length M \<Longrightarrow> row_key A 1 [cm] i = Inr [M ! i]"
    and rows: "TupleSet_numRows A (dcd_delta tail) = length T" "TupleSet_numRows A (dcd_delta mem) = length M"
    and ts: "dcd_timestamp mem < dcd_timestamp tail" "0 < dcd_timestamp tail" "dcd_timestamp mem < 5000000000000"
    and d: "distinct M" "length bm = length S"
  shows "\<exists>st. first_batch A [tail, mem] table KeepMapCacheMode_make = Inr st \<and>
    batch_inv T ty M S bm ct cy n (\<lambda>_. 0) (\<lambda>_. False) (st, Some bm) \<and> kmm_memPrimaryKeyColumns st = [cm]"
proof -
  obtain km pos where mk: "mem_keep_map A 1 [cm] 0 (length M) ([], []) = Inr (km, pos)" "um_wf id pos"
    "um_keys id pos = {m + 0 |m. m < length M}"
    "\<And>k. um_find id [k] km = (if k \<in> set M then Some (the (index_of [sint k] (map (\<lambda>v. [v]) M)) + 0) else None)"
    using mem_keep_map_result [OF rd d(1), where t = 0] by blast
  have "map (row_placed T ty M S (\<lambda>_. 0) (\<lambda>_. False)) [0..<length T] = replicate (length T) False"
    by (intro nth_equalityI) (auto simp: row_placed_def)
  moreover have "batch_cleared T ty M S bm (\<lambda>_. 0) = bm"
    using d(2) by (auto simp: batch_cleared_def placed_def intro: nth_equalityI)
  ultimately show ?thesis
    using scan_two(1) [OF ts, of "- 1" "- 1"] scan_two(2,3) [OF ts] mk assms(1) cols rows
    by (auto simp: first_batch_def positionTailAndMemDelta_def KeepMapCacheMode_make_def key_width_def
        batch_inv_def placed_def simp del: scan_timestamps.simps)
qed

lemma placed_all: "placed T ty M (\<lambda>_. True) k = updates T ty (length T) k"
  by (auto simp: placed_def updates_def)

lemma sorted_list_of_filter:
  "sorted_list_of_set {m. m < n \<and> P m} = filter P [0..<(n :: nat)]"
proof -
  have "set (filter P [0..<n]) = {m. m < n \<and> P m}" by auto
  moreover have "sorted (filter P [0..<n])" using sorted_filter [of id "[0..<n]" P] by simp
  ultimately show ?thesis by (metis distinct_filter distinct_upt sorted_list_of_set.idem_if_sorted_distinct)
qed

lemma batch_inv_end:
  assumes "batch_inv T ty M S bm ct cy n (\<lambda>_. length S) (\<lambda>_. True) (st, bmo)"
  shows "sort (map fst (kmm_deltasPos st)) = filter (\<lambda>m. \<not> updates T ty (length T) (M ! m)) [0..<length M]"
    and "bmo = Some (cleared T ty M S bm (length T))"
proof -
  have "um_wf id (kmm_deltasPos st)" "um_keys id (kmm_deltasPos st) = {m. m < length M \<and> \<not> updates T ty (length T) (M ! m)}"
    using assms by (auto simp: batch_inv_def placed_all)
  then show "sort (map fst (kmm_deltasPos st)) = filter (\<lambda>m. \<not> updates T ty (length T) (M ! m)) [0..<length M]"
    using sort_um_keys [of "kmm_deltasPos st"] by (simp add: sorted_list_of_filter)
  have "placed T ty M (\<lambda>_. s < length S) k = updates T ty (length T) k" if "s < length S" for s k
    using that by (auto simp: placed_def updates_def)
  then show "bmo = Some (cleared T ty M S bm (length T))"
    using assms by (auto simp: batch_inv_def batch_cleared_def cleared_def)
qed

text \<open>The state after all batches, and that it still has the columns of the memory delta.\<close>

lemma batch_row_mem_cols:
  assumes "batch_row A E composite c bc several mx j (st, bm) = Inr (st', bm')"
  shows "kmm_memPrimaryKeyColumns st' = kmm_memPrimaryKeyColumns st"
  using assms
  by (auto simp: batch_row_def batch_update_def Let_def result_simps split: if_splits option.splits)

lemma middle_batch_mem_cols:
  assumes "middle_batch A E deltas B bc (st, bm) = Inr (st', bm')"
  shows "kmm_memPrimaryKeyColumns st' = kmm_memPrimaryKeyColumns st"
proof -
  obtain cols mx where "rfold (batch_row A E (length (kmm_primaryKeyColumnNames st) > 1) (hd cols) bc (length deltas > 1) mx)
      [0..<kmm_tailDeltaSize st] (st, bm) = Inr (st', bm')"
    using assms by (auto simp: middle_batch_def Let_def result_simps split: if_splits)
  from rfold_invariant [OF this, of "\<lambda>(s, _). kmm_memPrimaryKeyColumns s = kmm_memPrimaryKeyColumns st"]
  show ?thesis using batch_row_mem_cols by fastforce
qed

text \<open>The second initialisation, when the last call has batch number 1, adds every memory row again.\<close>

lemma mem_keep_map_keys:
  assumes "\<And>m. m < rows \<Longrightarrow> \<exists>k. row_key A w cols m = Inr k" and "um_wf id pos0" and "um_keys id pos0 \<subseteq> {m. m < rows}"
  shows "\<exists>km pos. mem_keep_map A w cols 0 rows (km0, pos0) = Inr (km, pos) \<and> sort (map fst pos) = [0..<rows]"
proof -
  let ?P = "\<lambda>j (km :: keep_map, pos :: pos_map). um_wf id pos \<and> um_keys id pos = um_keys id pos0 \<union> {m. m < j}"
  have "\<exists>u. rfold (\<lambda>m (km, pos). rbind (row_key A w cols m) (\<lambda>k.
         Inr (um_emplace id k (m + 0) km, um_emplace id (m + 0) k pos))) [0..<rows] (km0, pos0) = Inr u \<and> ?P rows u"
  proof (rule rfold_upt [where P = ?P])
    fix j u
    assume j: "j < rows" and P: "?P j u"
    obtain km pos where u: "u = (km, pos)" by (cases u)
    obtain k where "row_key A w cols j = Inr k" using assms(1) [OF j] by blast
    moreover have "?P (Suc j) (um_emplace id k (j + 0) km, um_emplace id (j + 0) k pos)"
      using P by (auto simp: u um_id_simps less_Suc_eq)
    ultimately show "\<exists>v. (case u of (km, pos) \<Rightarrow> rbind (row_key A w cols j) (\<lambda>k.
         Inr (um_emplace id k (j + 0) km, um_emplace id (j + 0) k pos))) = Inr v \<and> ?P (Suc j) v" by (simp add: u)
  qed (use assms(2) in simp)
  then obtain km pos where r: "mem_keep_map A w cols 0 rows (km0, pos0) = Inr (km, pos)" "um_wf id pos"
    "um_keys id pos = {m. m < rows \<and> True}"
    using assms(3) unfolding mem_keep_map_def by fastforce
  have "sort (map fst pos) = [0..<rows]"
    using sort_um_keys [OF r(2)] r(3) sorted_list_of_filter [of rows "\<lambda>_. True"] by simp
  with r(1) show ?thesis by blast
qed

text \<open>What the calls for the batches leave behind.\<close>

lemma batches_result:
  assumes "batches_input A table Bs tail mem Ss T ty M" and "length bm = length (concat Ss)" and "Bs \<noteq> []"
    and E: "\<And>j. j < length T \<Longrightarrow> ty ! j = ''UPDATE'' \<Longrightarrow> T ! j \<in> set M \<or> (\<exists>v. E = Inr v)"
  obtains st n cm ct cy where
    "rfold (\<lambda>b u. rbind (getBatchedKeepMap A E [tail, mem] (Bs ! b) table (int (b + 1)) False u) (\<lambda>(_, u'). Inr u'))
       [0..<length Bs] (KeepMapCacheMode_make, Some bm) = Inr (st, Some (cleared T ty M (concat Ss) bm (length T)))"
    and "batch_inv T ty M (concat Ss) bm ct cy n (\<lambda>_. length (concat Ss)) (\<lambda>_. True)
      (st, Some (cleared T ty M (concat Ss) bm (length T)))"
    and "kmm_memPrimaryKeyColumns st = [cm]" and "tbl_primaryKeyNames table = [n]"
    and "\<And>i. i < length M \<Longrightarrow> row_key A 1 [cm] i = Inr [M ! i]"
    and "columnByName A (dcd_delta tail) n = Inr ct" and "columnByName A (dcd_delta mem) n = Inr cm"
    and "columnByName A (dcd_delta tail) ''type'' = Inr cy" and "TupleSet_numRows A (dcd_delta mem) = length M"
proof -
  let ?S = "concat Ss" and ?t = "length T"
  obtain n where n: "tbl_primaryKeyNames table = [n]"
    using assms(1) by (auto simp: batches_input_def length_Suc_conv)
  have i: "sorted (map sint ?S)" "distinct ?S" "distinct T" "distinct M" "[] \<notin> set Ss"
    "list_all (\<lambda>Sb. length Sb = DefaultChunkSize) (butlast Ss)"
    and ts: "dcd_timestamp mem < dcd_timestamp tail" "0 < dcd_timestamp tail" "dcd_timestamp mem < 5000000000000"
    and rows: "TupleSet_numRows A (dcd_delta tail) = ?t" "TupleSet_numRows A (dcd_delta mem) = length M"
    using assms(1) by (auto simp: batches_input_def has_keys_def)
  from assms(1) n have hk: "list_all2 (\<lambda>B. has_keys A B n) Bs Ss" "has_keys A (dcd_delta tail) n T"
    "has_keys A (dcd_delta mem) n M" "has_types A (dcd_delta tail) ty" by (auto simp: batches_input_def)
  have len: "length Bs = length Ss" by (rule list_all2_lengthD [OF hk(1)])
  obtain ct where ct: "columnByName A (dcd_delta tail) n = Inr ct"
    "\<And>i. i < ?t \<Longrightarrow> row_key A 1 [ct] i = Inr [T ! i]" using has_keys_column [OF hk(2)] by metis
  obtain cm where cm: "columnByName A (dcd_delta mem) n = Inr cm"
    "\<And>i. i < length M \<Longrightarrow> row_key A 1 [cm] i = Inr [M ! i]" using has_keys_column [OF hk(3)] by metis
  obtain cy where cy: "columnByName A (dcd_delta tail) ''type'' = Inr cy"
    "\<And>i. i < ?t \<Longrightarrow> read_string A cy (int i) = Inr (ty ! i)" using has_types_column [OF hk(4) rows(1)] by metis
  let ?off = "\<lambda>b. length (concat (take b Ss))"
  let ?P = "\<lambda>b u. if b = 0 then u = (KeepMapCacheMode_make, Some bm)
    else batch_inv T ty M ?S bm ct cy n (\<lambda>_. ?off b) (\<lambda>_. True) u \<and> kmm_memPrimaryKeyColumns (fst u) = [cm]"
  let ?f = "\<lambda>b u. rbind (getBatchedKeepMap A E [tail, mem] (Bs ! b) table (int (b + 1)) False u) (\<lambda>(_, u'). Inr u')"
  have "\<exists>u. rfold ?f [0..<length Bs] (KeepMapCacheMode_make, Some bm) = Inr u \<and> ?P (length Bs) u"
  proof (rule rfold_upt [where P = ?P])
    fix b u
    assume b: "b < length Bs" and P: "?P b u"
    have bs: "b < length Ss" "Ss ! b \<noteq> []" using b len i(5) by (auto simp: in_set_conv_nth)
    have off: "int (?off b) = (int (b + 1) - 1) * int DefaultChunkSize"
      using concat_take_offset [OF i(6) bs(1)] by simp
    have key: "has_keys A (Bs ! b) n (Ss ! b)" using hk(1) b by (auto simp: list_all2_conv_all_nth)
    note sl = batch_slice_concat [OF bs]
    have short: "length (Ss ! b) < 2 ^ 30"
      using sl(1) assms(1) by (auto simp: batch_slice_def batches_input_def)
    define q where "q = (b > 0)"
    obtain st0 bmo where u: "u = (st0, bmo)" by (cases u)
    have "\<exists>st. (if int (b + 1) = 1 then first_batch A [tail, mem] table st0 else Inr st0) = Inr st \<and>
        batch_inv T ty M ?S bm ct cy n (\<lambda>_. ?off b) (\<lambda>_. q) (st, bmo) \<and> kmm_memPrimaryKeyColumns st = [cm]"
      using first_batch_inv [OF n ct(1) cm(1) cy(1) cm(2) rows ts i(4) assms(2)] P by (auto simp: u q_def)
    then obtain st where st: "(if int (b + 1) = 1 then first_batch A [tail, mem] table st0 else Inr st0) = Inr st"
      "batch_inv T ty M ?S bm ct cy n (\<lambda>_. ?off b) (\<lambda>_. q) (st, bmo)" "kmm_memPrimaryKeyColumns st = [cm]" by blast
    obtain v where v: "middle_batch A E [tail, mem] (Bs ! b) (int (b + 1)) (st, bmo) = Inr v"
      "batch_inv T ty M ?S bm ct cy n (\<lambda>_. ?off b + length (Ss ! b)) (\<lambda>_. True) v"
    proof -
      have "\<exists>v. middle_batch A E [tail, mem] (Bs ! b) (int (b + 1)) (st, bmo) = Inr v \<and>
          batch_inv T ty M ?S bm ct cy n (\<lambda>_. ?off b + length (Ss ! b)) (\<lambda>_. True) v"
        by (rule middle_batch_step [OF st(2) i(3,2) assms(2) i(4) sl(1) off key sl(3) [OF i(1)] short ct(2) cy(2) _ E]) simp_all
      with that show thesis by blast
    qed
    have "kmm_memPrimaryKeyColumns (fst v) = [cm]"
      using middle_batch_mem_cols [of A E "[tail, mem]" "Bs ! b" "int (b + 1)" st bmo "fst v" "snd v"] v(1) st(3) by simp
    with v st(1) show "\<exists>t. ?f b u = Inr t \<and> ?P (Suc b) t"
      by (simp add: u getBatchedKeepMap_def sl(2))
  qed simp
  then obtain st bmo where r: "rfold ?f [0..<length Bs] (KeepMapCacheMode_make, Some bm) = Inr (st, bmo)"
    "batch_inv T ty M ?S bm ct cy n (\<lambda>_. length ?S) (\<lambda>_. True) (st, bmo)" "kmm_memPrimaryKeyColumns st = [cm]"
    using assms(3) len [symmetric] by (auto split: if_splits)
  with that batch_inv_end(2) [OF r(2)] n cm ct(1) cy(1) rows(2) show ?thesis by blast
qed

text \<open>A read through the end iterator that fails ends the merge in the first batch.\<close>

lemma batches_end_read:
  assumes "batches_input A table Bs tail mem Ss T ty M" and "length bm = length (concat Ss)" and "Bs \<noteq> []"
    and miss: "end_is_read T ty M"
  shows "merge_batches A (Inl e) [tail, mem] table Bs bm = Inl e"
proof -
  let ?S = "concat Ss" and ?t = "length T"
  obtain n where n: "tbl_primaryKeyNames table = [n]"
    using assms(1) by (auto simp: batches_input_def length_Suc_conv)
  have i: "sorted (map sint ?S)" "distinct ?S" "distinct T" "distinct M" "[] \<notin> set Ss" "int (length ?S) < 2 ^ 30"
    and ts: "dcd_timestamp mem < dcd_timestamp tail" "0 < dcd_timestamp tail" "dcd_timestamp mem < 5000000000000"
    and rows: "TupleSet_numRows A (dcd_delta tail) = ?t" "TupleSet_numRows A (dcd_delta mem) = length M"
    using assms(1) by (auto simp: batches_input_def has_keys_def)
  from assms(1) n have hk: "list_all2 (\<lambda>B. has_keys A B n) Bs Ss" "has_keys A (dcd_delta tail) n T"
    "has_keys A (dcd_delta mem) n M" "has_types A (dcd_delta tail) ty" by (auto simp: batches_input_def)
  have len: "length Bs = length Ss" by (rule list_all2_lengthD [OF hk(1)])
  obtain ct where ct: "columnByName A (dcd_delta tail) n = Inr ct"
    "\<And>i. i < ?t \<Longrightarrow> row_key A 1 [ct] i = Inr [T ! i]" using has_keys_column [OF hk(2)] by metis
  obtain cm where cm: "columnByName A (dcd_delta mem) n = Inr cm"
    "\<And>i. i < length M \<Longrightarrow> row_key A 1 [cm] i = Inr [M ! i]" using has_keys_column [OF hk(3)] by metis
  obtain cy where cy: "columnByName A (dcd_delta tail) ''type'' = Inr cy"
    "\<And>i. i < ?t \<Longrightarrow> read_string A cy (int i) = Inr (ty ! i)" using has_types_column [OF hk(4) rows(1)] by metis
  have "0 < length Ss" using assms(3) unfolding len [symmetric] by simp
  moreover from this have "Ss ! 0 \<in> set Ss" by (rule nth_mem)
  ultimately have bs: "0 < length Ss" "Ss ! 0 \<noteq> []" using i(5) by metis+
  note sl = batch_slice_concat [OF bs]
  have short: "length (Ss ! 0) < 2 ^ 30" using sl(1) i(6) by (auto simp: batch_slice_def)
  have sl0: "batch_slice ?S 0 (Ss ! 0)" using sl(1) by simp
  have key: "has_keys A (Bs ! 0) n (Ss ! 0)" using hk(1) assms(3) by (auto simp: list_all2_conv_all_nth)
  obtain st where st: "first_batch A [tail, mem] table KeepMapCacheMode_make = Inr st"
    "batch_inv T ty M ?S bm ct cy n (\<lambda>_. 0) (\<lambda>_. False) (st, Some bm)"
    using first_batch_inv [OF n ct(1) cm(1) cy(1) cm(2) rows ts i(4) assms(2)] by blast
  have "middle_batch A (Inl e) [tail, mem] (Bs ! 0) 1 (st, Some bm) = Inl e"
    by (rule middle_batch_end_read [OF st(2) i(3,2) assms(2) i(4) sl0 refl key sl(3) [OF i(1)] short ct(2) cy(2) _ miss]) simp_all
  then have first: "getBatchedKeepMap A (Inl e) [tail, mem] (Bs ! 0) table 1 False (KeepMapCacheMode_make, Some bm) = Inl e"
    by (simp add: getBatchedKeepMap_def st(1))
  have "[0..<length Bs] = 0 # [Suc 0..<length Bs]" using assms(3) by (simp add: upt_conv_Cons)
  with first show ?thesis by (simp add: merge_batches_def)
qed

text \<open>The merge when no read through the end iterator fails.\<close>

lemma merge_batches_result:
  assumes "batches_input A table Bs tail mem Ss T ty M" and "length bm = length (concat Ss)" and "Bs \<noteq> []"
    and E: "\<And>j. j < length T \<Longrightarrow> ty ! j = ''UPDATE'' \<Longrightarrow> T ! j \<in> set M \<or> (\<exists>v. E = Inr v)"
  shows "merge_batches A E [tail, mem] table Bs bm =
    Inr (if length Bs = 1 then [0..<length M] else filter (\<lambda>m. \<not> updates T ty (length T) (M ! m)) [0..<length M],
         Some (cleared T ty M (concat Ss) bm (length T)))"
proof -
  let ?bm = "Some (cleared T ty M (concat Ss) bm (length T))"
  have ts: "dcd_timestamp mem < dcd_timestamp tail" "0 < dcd_timestamp tail" "dcd_timestamp mem < 5000000000000"
    using assms(1) by (auto simp: batches_input_def)
  obtain st n cm ct cy where r:
    "rfold (\<lambda>b u. rbind (getBatchedKeepMap A E [tail, mem] (Bs ! b) table (int (b + 1)) False u) (\<lambda>(_, u'). Inr u'))
       [0..<length Bs] (KeepMapCacheMode_make, Some bm) = Inr (st, ?bm)"
    "batch_inv T ty M (concat Ss) bm ct cy n (\<lambda>_. length (concat Ss)) (\<lambda>_. True) (st, ?bm)"
    "kmm_memPrimaryKeyColumns st = [cm]" "tbl_primaryKeyNames table = [n]"
    and rk: "\<And>i. i < length M \<Longrightarrow> row_key A 1 [cm] i = Inr [M ! i]"
    and cols: "columnByName A (dcd_delta tail) n = Inr ct" "columnByName A (dcd_delta mem) n = Inr cm"
      "columnByName A (dcd_delta tail) ''type'' = Inr cy" "TupleSet_numRows A (dcd_delta mem) = length M"
    by (rule batches_result [OF assms(1-3) E], assumption+, rule that, assumption+)
  show ?thesis
  proof (cases "length Bs = 1")
    case False
    with r(1) batch_inv_end(1) [OF r(2)] show ?thesis by (simp add: merge_batches_def getBatchedKeepMap_def)
  next
    case True
    have wf: "um_wf id (kmm_deltasPos st)" "um_keys id (kmm_deltasPos st) \<subseteq> {m. m < length M}"
      using r(2) by (auto simp: batch_inv_def)
    have "\<exists>k. row_key A 1 [cm, cm] m = Inr k" if "m < length M" for m
      using rk [OF that] by (simp add: row_key_def)
    from mem_keep_map_keys [OF this wf, of "kmm_deltasKm st"]
    obtain km pos where "mem_keep_map A 1 [cm, cm] 0 (length M) (kmm_deltasKm st, kmm_deltasPos st) = Inr (km, pos)"
      "sort (map fst pos) = [0..<length M]" by blast
    then have "\<exists>st'. getBatchedKeepMap A E [tail, mem] None table 1 True (st, ?bm) = Inr ([0..<length M], st', ?bm)"
      using scan_two(1) [OF ts, of "- 1" "- 1"] scan_two(2,3) [OF ts] r(3,4) cols
      by (auto simp: getBatchedKeepMap_def first_batch_def positionTailAndMemDelta_def key_width_def
          simp del: scan_timestamps.simps)
    with r(1) True show ?thesis by (auto simp: merge_batches_def)
  qed
qed

lemma merge_batches_with_end_read:
  assumes "batches_input A table Bs tail mem Ss T ty M" and "length bm = length (concat Ss)" and "Bs \<noteq> []"
  shows "merge_batches A E [tail, mem] table Bs bm =
    rbind (if end_is_read T ty M then E else Inr 0) (\<lambda>_.
      Inr (if length Bs = 1 then [0..<length M] else filter (\<lambda>m. \<not> updates T ty (length T) (M ! m)) [0..<length M],
           Some (cleared T ty M (concat Ss) bm (length T))))"
proof (cases "end_is_read T ty M \<and> (\<exists>e. E = Inl e)")
  case True
  then show ?thesis using batches_end_read [OF assms] by auto
next
  case False
  then have "\<And>j. j < length T \<Longrightarrow> ty ! j = ''UPDATE'' \<Longrightarrow> T ! j \<in> set M \<or> (\<exists>v. E = Inr v)"
    by (cases E) (auto simp: end_is_read_def)
  from merge_batches_result [OF assms this] False show ?thesis by (cases E) auto
qed


text \<open>
  C17.  A partition of a single batch is merged wrongly: the last call has batch number 1 again and
  initialises the keep map a second time, so every row of the memory delta is kept, also the rows
  that the tail has just replaced.  (The bitmap is right; and the merge gives this result unless it fails
  with the read through the end iterator.)
\<close>

theorem merge_single_batch_keeps_replaced_rows:
  assumes "batches_input A table [B] tail mem [S] T ty M" and "length bm = length S"
  shows "merge_batches A end_read [tail, mem] table [B] bm =
    rbind (if end_is_read T ty M then end_read else Inr 0) (\<lambda>_.
      Inr ([0..<length M], Some (map (\<lambda>s. if updates T ty (length T) (S ! s) \<and> S ! s \<notin> set M then 0 else bm ! s)
                                  [0..<length S])))"
  using merge_batches_with_end_read [OF assms(1), of bm end_read] assms(2) by (simp add: cleared_def)

text \<open>A partition of two batches: one hundred thousand rows and one more.\<close>

lemma has_keys_pk_table: "has_keys list_arrow (Some (pk_table ks)) ''k'' ks"
proof -
  let ?c = "\<lparr>col_name = ''k'', col_array = (Int32Type, map Int32Scalar ks)\<rparr>"
  have "canonicalize ''k'' = ''k''" by code_simp
  then have "columnByName list_arrow (Some (pk_table ks)) ''k'' = Inr ?c"
    by (simp add: columnByName_def getColumnByName_def deref_table_def list_arrow_def pk_table_def)
  moreover have "column_values list_arrow ?c = Inr ks"
  proof -
    have "column_values list_arrow ?c = Inr (map (\<lambda>i. ks ! i) [0..<length ks])"
      unfolding column_values_def
      by (rule trans, rule rmap_cong_Inr [where f = "\<lambda>i. ks ! i"])
        (auto simp: Column_numRows_def list_arrow_def read_int32_def Column_element_def Scalar_int32_def)
    then show ?thesis by (simp add: map_nth)
  qed
  moreover have "TupleSet_numRows list_arrow (Some (pk_table ks)) = length ks"
    by (simp add: TupleSet_numRows_def list_arrow_def pk_table_def list_rows_def)
  ultimately show ?thesis by (simp add: has_keys_def)
qed

lemma sint_of_nat_small: "i < 2 ^ 31 \<Longrightarrow> sint (of_nat i :: int32) = int i"
  by (simp add: signed_of_nat signed_take_bit_int_eq_self)

definition big_batch :: "int32 list" where
  "big_batch = map of_nat [0..<100000]"

lemma big_batch_keys:
  "sorted (map sint (concat [big_batch, [100000]]))" "distinct (concat [big_batch, [100000]])"
  "length big_batch = DefaultChunkSize"
proof -
  have c: "concat [big_batch, [100000]] = map of_nat [0..<100001]"
  proof -
    have "[0..<100001] = [0..<100000] @ [100000 :: nat]" using upt_Suc_append [of 0 100000] by simp
    then show ?thesis by (simp add: big_batch_def)
  qed
  have s: "map sint (map of_nat [0..<100001] :: int32 list) = map int [0..<100001]"
    by (auto simp: sint_of_nat_small)
  show "sorted (map sint (concat [big_batch, [100000]]))" unfolding c s by (simp add: sorted_map)
  have "distinct (map sint (concat [big_batch, [100000]]))" unfolding c s by (simp add: distinct_map)
  then show "distinct (concat [big_batch, [100000]])" by (simp only: distinct_map)
  show "length big_batch = DefaultChunkSize" by (simp add: big_batch_def DefaultChunkSize_def)
qed

lemma batches_sample:
  "batches_input list_arrow pk_tbl [Some (pk_table big_batch), Some (pk_table [100000])] keep_tail keep_mem
     [big_batch, [100000]] [2, 7, 8] [''UPDATE'', ''UPDATE'', ''INSERT''] [6, 7]"
  "batches_input list_arrow pk_tbl [Some (pk_table [1, 2, 3])] keep_tail keep_mem
     [[1, 2, 3]] [2, 7, 8] [''UPDATE'', ''UPDATE'', ''INSERT''] [6, 7]"
proof -
  have "int (length (concat [big_batch, [100000]])) < 2 ^ 30" using big_batch_keys(3) by (simp add: DefaultChunkSize_def)
  moreover have "big_batch \<noteq> []" using big_batch_keys(3) by (auto simp: DefaultChunkSize_def)
  ultimately
  show "batches_input list_arrow pk_tbl [Some (pk_table big_batch), Some (pk_table [100000])] keep_tail keep_mem
     [big_batch, [100000]] [2, 7, 8] [''UPDATE'', ''UPDATE'', ''INSERT''] [6, 7]"
    using keep_sample big_batch_keys has_keys_pk_table by (simp add: batches_input_def keep_input_def pk_tbl_def del: concat.simps)
  show "batches_input list_arrow pk_tbl [Some (pk_table [1, 2, 3])] keep_tail keep_mem
     [[1, 2, 3]] [2, 7, 8] [''UPDATE'', ''UPDATE'', ''INSERT''] [6, 7]"
    using keep_sample by (simp add: batches_input_def keep_input_def keep_sts_def)
qed


theorem merge_single_batch_keeps_replaced_rows_witness:
  "merge_batches list_arrow (Inr 0) [keep_tail, keep_mem] pk_tbl [Some (pk_table [1, 2, 3])] [1, 1, 1] =
     Inr ([0, 1], Some [1, 0, 1])"
proof -
  have "[0..<length [6, 7 :: int32]] = [0, 1]" by (simp add: upt_rec)
  moreover have "map (\<lambda>s. if updates [2, 7, 8] [''UPDATE'', ''UPDATE'', ''INSERT''] (length [2, 7, 8 :: int32]) ([1, 2, 3] ! s) \<and>
      [1, 2, 3] ! s \<notin> set [6, 7 :: int32] then 0 else [1, 1, 1 :: 8 word] ! s) [0..<length [1, 2, 3 :: int32]] = [1, 0, 1]"
    by code_simp
  ultimately show ?thesis
    using merge_single_batch_keeps_replaced_rows [OF batches_sample(2), of "[1, 1, 1]" "Inr 0"] by simp
qed

end
