(* ===== verification/Merge_Filter.thy ===== *)
theory Merge_Filter
  imports Tuple_Set "HOL-Library.Signed_Division"
begin

text \<open>
  The filter that applies a bitmap or a list of positions to a table
  (\<^verbatim>\<open>fpdb-executor/src/physical/deltamerge/DeltaMergeFilter.cpp\<close>).  It reads the table in record
  batches, builds a Gandiva selection vector for each and projects all columns through it.  The calls
  into Arrow's batch reader and into Gandiva are the fields of the record \<open>gandiva\<close>, and
  \<open>gandiva_ok\<close> collects the documented behaviour the properties rely on: what a table holds is
  given by its rows.
\<close>

unbundle bit_operations_syntax

section \<open>The Gandiva interface\<close>

text \<open>
  \<open>TableBatchReader\<close> lists the results of \<^verbatim>\<open>ReadNext\<close> for a chunk size up to the null batch that ends
  the table; a selection vector is the list of its indices; statuses are optional messages.
\<close>

record ('t, 'b) gandiva =
  TableBatchReader :: "'t \<Rightarrow> nat \<Rightarrow> (string + 'b) list"
  batch_num_rows :: "'b \<Rightarrow> nat"
  MakeInt64 :: "nat \<Rightarrow> string option"
  PopulateFromBitMap :: "nat \<Rightarrow> 8 word list \<Rightarrow> int \<Rightarrow> int \<Rightarrow> string + nat list"
  Projector_Make :: "'t \<Rightarrow> string option"
  Projector_Evaluate :: "'t \<Rightarrow> 'b \<Rightarrow> nat list \<Rightarrow> string + 't"
  EmptyTable :: "'t \<Rightarrow> 't"

section \<open>Bitmaps\<close>

definition SetBit :: "nat \<Rightarrow> 8 word list \<Rightarrow> 8 word list result" where
  "SetBit i bits =
     (if i div 8 < length bits then Inr (bits[i div 8 := bits ! (i div 8) OR push_bit (i mod 8) 1])
      else Inl (UndefinedBehaviour ''write outside a bitmap''))"

definition roundUp :: "int \<Rightarrow> int \<Rightarrow> int" where
  "roundUp numToRound multiple =
     (if multiple = 0 then numToRound
      else let remainder = numToRound smod multiple
           in if remainder = 0 then numToRound else numToRound + multiple - remainder)"

text \<open>The loop that sets the bits of the entries equal to 1.\<close>

definition bitmap_of :: "8 word list \<Rightarrow> 8 word list \<Rightarrow> 8 word list result" where
  "bitmap_of stableBm bitmap =
     rfold (\<lambda>j bits. if stableBm ! j = 1 then SetBit j bits else Inr bits) [0..<length stableBm] bitmap"

text \<open>
  \<open>generateSelectionVector\<close>.  With neither a bitmap nor positions control reaches the end of the function
  without a \<^verbatim>\<open>return\<close>; an empty bitmap indexes an empty vector.
\<close>

definition generateSelectionVector ::
  "('t, 'b) gandiva \<Rightarrow> nat list \<Rightarrow> 8 word list option \<Rightarrow> (string + nat list) result" where
  "generateSelectionVector G keepPosDelta stableBm =
     (case stableBm of
        Some bm \<Rightarrow>
          let max_slots = length bm;
              bitmap_size = roundUp (int max_slots) 64 * 8
          in rbind (bitmap_of bm (replicate (nat bitmap_size) 0)) (\<lambda>bitmap.
               case MakeInt64 G max_slots of
                 Some e \<Rightarrow> Inr (Inl e)
               | None \<Rightarrow>
                   if bitmap = [] then Inl (UndefinedBehaviour ''bitmap[0] of an empty vector'')
                   else Inr (PopulateFromBitMap G max_slots bitmap bitmap_size (int max_slots - 1)))
      | None \<Rightarrow>
          if keepPosDelta \<noteq> [] then
            (case MakeInt64 G (length keepPosDelta) of
               Some e \<Rightarrow> Inr (Inl e)
             | None \<Rightarrow> Inr (Inr keepPosDelta))
          else Inl (UndefinedBehaviour ''end of a function without return''))"

section \<open>Evaluation\<close>

text \<open>
  \<^verbatim>\<open>std::lower_bound\<close> and \<^verbatim>\<open>std::upper_bound\<close> need a range that is partitioned with respect to
  the value.
\<close>

definition partitioned_by :: "('x \<Rightarrow> bool) \<Rightarrow> 'x list \<Rightarrow> bool" where
  "partitioned_by P xs = list_all (\<lambda>x. \<not> P x) (dropWhile P xs)"

definition lower_bound :: "nat list \<Rightarrow> int \<Rightarrow> nat result" where
  "lower_bound xs v =
     (if partitioned_by (\<lambda>x. int x < v) xs then Inr (length (takeWhile (\<lambda>x. int x < v) xs))
      else Inl (UndefinedBehaviour ''lower_bound on an unpartitioned range''))"

definition upper_bound :: "nat list \<Rightarrow> int \<Rightarrow> nat result" where
  "upper_bound xs v =
     (if partitioned_by (\<lambda>x. \<not> v < int x) xs then Inr (length (takeWhile (\<lambda>x. \<not> v < int x) xs))
      else Inl (UndefinedBehaviour ''upper_bound on an unpartitioned range''))"

text \<open>The positions of a batch, relative to its first row.\<close>

definition batch_positions :: "nat list \<Rightarrow> int \<Rightarrow> int \<Rightarrow> int \<Rightarrow> nat list result" where
  "batch_positions keepPosDelta startPos endPos seenRows =
     rbind (lower_bound keepPosDelta startPos) (\<lambda>s.
     rbind (upper_bound keepPosDelta endPos) (\<lambda>e.
       if e = 0 then Inl (UndefinedBehaviour ''iterator before begin()'')
       else Inr (map (\<lambda>x. nat (int x - seenRows)) (drop s (take e keepPosDelta)))))"

text \<open>The selection vector of a batch; without a bitmap and without positions it stays as it was.\<close>

definition batch_selection ::
  "('t, 'b) gandiva \<Rightarrow> nat list \<Rightarrow> 8 word list option \<Rightarrow> nat \<Rightarrow> int \<Rightarrow> int \<Rightarrow> int \<Rightarrow> nat list option \<Rightarrow>
   nat list option result" where
  "batch_selection G keepPosDelta stableBm batchRows startPos endPos seenRows sel =
     (case stableBm of
        Some bm \<Rightarrow>
          if startPos + int batchRows > int (length bm) then
            Inl (UndefinedBehaviour ''range outside the bitmap'')
          else rbind (generateSelectionVector G keepPosDelta (Some (take batchRows (drop (nat startPos) bm)))) (\<lambda>v.
               rbind (expected_value v) (\<lambda>s. Inr (Some s)))
      | None \<Rightarrow>
          if keepPosDelta \<noteq> [] then
            rbind (batch_positions keepPosDelta startPos endPos seenRows) (\<lambda>ps.
            rbind (generateSelectionVector G ps None) (\<lambda>v.
            rbind (expected_value v) (\<lambda>s. Inr (Some s))))
          else Inr sel)"

fun evaluate_batches ::
  "('t, 'a) arrow \<Rightarrow> ('t, 'b) gandiva \<Rightarrow> 't \<Rightarrow> nat list \<Rightarrow> 8 word list option \<Rightarrow> 'b \<Rightarrow> (string + 'b) list \<Rightarrow>
   int \<Rightarrow> int \<Rightarrow> int \<Rightarrow> nat list option \<Rightarrow> 't TupleSet \<Rightarrow> (string + 't TupleSet) result" where
  "evaluate_batches A G t keepPosDelta stableBm batch rest startPos endPos seenRows sel filteredTupleSet =
     rbind (batch_selection G keepPosDelta stableBm (batch_num_rows G batch) startPos endPos seenRows sel) (\<lambda>sel'.
       case sel' of
         None \<Rightarrow> Inl (UndefinedBehaviour ''null selectionVector dereferenced'')
       | Some selectionVector \<Rightarrow>
           let batchRows = int (batch_num_rows G batch);
               seenRows' = (if stableBm = None \<and> keepPosDelta \<noteq> [] then seenRows + batchRows else seenRows)
           in case Projector_Make G t of
                Some e \<Rightarrow> Inr (Inl e)
              | None \<Rightarrow>
                  (case (if selectionVector \<noteq> [] then Projector_Evaluate G t batch selectionVector
                         else Inr (EmptyTable G t)) of
                     Inl e \<Rightarrow> Inr (Inl e)
                   | Inr batchArrowTable \<Rightarrow>
                       rbind (TupleSet_append A [Some batchArrowTable] filteredTupleSet) (\<lambda>(_, filtered').
                         case rest of
                           [] \<Rightarrow> Inr (Inr filtered')
                         | Inl e # _ \<Rightarrow> Inr (Inl e)
                         | Inr batch' # rest' \<Rightarrow>
                             evaluate_batches A G t keepPosDelta stableBm batch' rest' (startPos + batchRows)
                               (endPos + int (batch_num_rows G batch')) seenRows' sel' filtered')))"

declare evaluate_batches.simps [simp del]

definition DeltaMergeFilter_evaluate ::
  "('t, 'a) arrow \<Rightarrow> ('t, 'b) gandiva \<Rightarrow> nat list \<Rightarrow> 8 word list option \<Rightarrow> 't TupleSet \<Rightarrow>
   (string + 't TupleSet) result" where
  "DeltaMergeFilter_evaluate A G keepPosDelta stableBm tupleSet =
     (if TupleSet_numRows A tupleSet = 0 then Inr (Inr tupleSet)
      else rbind (deref_table tupleSet) (\<lambda>t.
        case TableBatchReader G t DefaultChunkSize of
          [] \<Rightarrow> Inl (UndefinedBehaviour ''null batch dereferenced'')
        | Inl e # _ \<Rightarrow> Inr (Inl e)
        | Inr batch # rest \<Rightarrow>
            evaluate_batches A G t keepPosDelta stableBm batch rest 0 (int (batch_num_rows G batch) - 1) 0 None
              (Some (EmptyTable G t))))"

section \<open>What is relied on of Gandiva\<close>

text \<open>
  The laws: a table is read as non-empty batches that make up its rows; the selection vector of a bitmap
  lists the bits that are set, in increasing order; projecting a batch through a selection vector gives
  the selected rows; schema equality is an equivalence, and tables of the same schema concatenate by
  rows.  \<open>rows\<close> and \<open>brows\<close> are the rows of a table and of a batch.
\<close>

definition gandiva_ok ::
  "('t, 'a) arrow \<Rightarrow> ('t, 'b) gandiva \<Rightarrow> ('t \<Rightarrow> 'r list) \<Rightarrow> ('b \<Rightarrow> 'r list) \<Rightarrow> bool" where
  "gandiva_ok A G rows brows \<longleftrightarrow>
     equivp (schema_Equals A) \<and>
     (\<forall>t. num_rows A t = length (rows t)) \<and>
     (\<forall>t. \<exists>bs. TableBatchReader G t DefaultChunkSize = map Inr bs \<and> (\<forall>b \<in> set bs. brows b \<noteq> []) \<and>
        concat (map brows bs) = rows t) \<and>
     (\<forall>b. batch_num_rows G b = length (brows b)) \<and>
     (\<forall>n. MakeInt64 G n = None) \<and> (\<forall>t. Projector_Make G t = None) \<and>
     (\<forall>n bits. 0 < n \<longrightarrow> length bits mod 8 = 0 \<longrightarrow> n \<le> 8 * length bits \<longrightarrow>
        PopulateFromBitMap G n bits (int (length bits)) (int n - 1) =
          Inr (filter (\<lambda>i. bit (bits ! (i div 8)) (i mod 8)) [0..<n])) \<and>
     (\<forall>t b sel. (\<forall>i \<in> set sel. i < length (brows b)) \<longrightarrow>
        (\<exists>u. Projector_Evaluate G t b sel = Inr u \<and> rows u = map (\<lambda>i. brows b ! i) sel \<and> schema_Equals A u t)) \<and>
     (\<forall>t. rows (EmptyTable G t) = [] \<and> schema_Equals A (EmptyTable G t) t) \<and>
     (\<forall>t ts. (\<forall>u \<in> set ts. schema_Equals A u t) \<longrightarrow>
        (\<exists>r. ConcatenateTables A (t # ts) = Inr r \<and> rows r = concat (map rows (t # ts)) \<and> schema_Equals A r t))"

lemma gandiva_okD:
  assumes "gandiva_ok A G rows brows"
  shows "equivp (schema_Equals A)" and "num_rows A t = length (rows t)"
    and "batch_num_rows G b = length (brows b)" and "MakeInt64 G n = None" and "Projector_Make G t = None"
    and "rows (EmptyTable G t) = []" and "schema_Equals A (EmptyTable G t) t"
  using assms by (auto simp: gandiva_ok_def)

lemma gandiva_batches:
  assumes "gandiva_ok A G rows brows"
  obtains bs where "TableBatchReader G t DefaultChunkSize = map Inr bs" and "\<forall>b \<in> set bs. brows b \<noteq> []"
    and "concat (map brows bs) = rows t"
  using assms that unfolding gandiva_ok_def by meson

lemma gandiva_populate:
  assumes "gandiva_ok A G rows brows" and "0 < n" and "length bits mod 8 = 0" and "n \<le> 8 * length bits"
  shows "PopulateFromBitMap G n bits (int (length bits)) (int n - 1) =
    Inr (filter (\<lambda>i. bit (bits ! (i div 8)) (i mod 8)) [0..<n])"
  using assms by (simp add: gandiva_ok_def)

lemma gandiva_project:
  assumes "gandiva_ok A G rows brows" and "\<forall>i \<in> set sel. i < length (brows b)"
  obtains u where "Projector_Evaluate G t b sel = Inr u" and "rows u = map (\<lambda>i. brows b ! i) sel"
    and "schema_Equals A u t"
  using assms that unfolding gandiva_ok_def by meson

lemma gandiva_concat:
  assumes "gandiva_ok A G rows brows" and "\<forall>u \<in> set ts. schema_Equals A u t"
  obtains r where "ConcatenateTables A (t # ts) = Inr r" and "rows r = concat (map rows (t # ts))"
    and "schema_Equals A r t"
  using assms that unfolding gandiva_ok_def by meson

section \<open>Selection vectors\<close>

lemma SetBit_result:
  assumes "i div 8 < length bits"
  shows "\<exists>bits'. SetBit i bits = Inr bits' \<and> length bits' = length bits \<and>
    (\<forall>k. k div 8 < length bits \<longrightarrow> bit (bits' ! (k div 8)) (k mod 8) = (k = i \<or> bit (bits ! (k div 8)) (k mod 8)))"
proof -
  have eq: "k = i \<longleftrightarrow> k div 8 = i div 8 \<and> k mod 8 = i mod 8" for k by (metis mult_div_mod_eq)
  have m: "k mod 8 < 8" for k :: nat by simp
  show ?thesis
    using assms m by (auto simp: SetBit_def nth_list_update bit_simps eq)
qed

lemma bitmap_of_result:
  assumes "length bm \<le> 8 * length bits"
  shows "\<exists>bits'. bitmap_of bm bits = Inr bits' \<and> length bits' = length bits \<and>
    (\<forall>k < length bm. bit (bits' ! (k div 8)) (k mod 8) = (bm ! k = 1 \<or> bit (bits ! (k div 8)) (k mod 8)))"
proof -
  let ?P = "\<lambda>j (bits' :: 8 word list). length bits' = length bits \<and>
    (\<forall>k < length bm. bit (bits' ! (k div 8)) (k mod 8) = (k < j \<and> bm ! k = 1 \<or> bit (bits ! (k div 8)) (k mod 8)))"
  have lt: "k div 8 < length bits" if "k < length bm" for k using that assms by (simp add: less_mult_imp_div_less)
  have "\<exists>bits'. bitmap_of bm bits = Inr bits' \<and> ?P (length bm) bits'"
    unfolding bitmap_of_def
  proof (rule rfold_upt [where P = ?P])
    fix j bs
    assume j: "j < length bm" and P: "?P j bs"
    show "\<exists>t. (if bm ! j = 1 then SetBit j bs else Inr bs) = Inr t \<and> ?P (Suc j) t"
    proof (cases "bm ! j = 1")
      case True
      from SetBit_result [of j bs] lt j P True obtain t where t: "SetBit j bs = Inr t" "length t = length bs"
        "\<And>k. k div 8 < length bs \<Longrightarrow> bit (t ! (k div 8)) (k mod 8) = (k = j \<or> bit (bs ! (k div 8)) (k mod 8))"
        by auto
      have "?P (Suc j) t" using t(2,3) P lt True by (auto simp: less_Suc_eq)
      with t(1) True show ?thesis by simp
    next
      case False
      with P show ?thesis by (auto simp: less_Suc_eq)
    qed
  qed auto
  then show ?thesis by auto
qed

lemma roundUp_props:
  assumes "0 \<le> n" and "0 < m"
  shows "n \<le> roundUp n m" and "roundUp n m < n + m" and "m dvd roundUp n m"
proof -
  have r: "roundUp n m = (if n mod m = 0 then n else n + m - n mod m)"
    using assms by (simp add: roundUp_def smod_mod_positive Let_def)
  have b: "0 \<le> n mod m" "n mod m < m" using assms(2) by auto
  have "n mod m \<le> m" "n mod m \<noteq> 0 \<Longrightarrow> 0 < n mod m" using b by linarith+
  then show "n \<le> roundUp n m" "roundUp n m < n + m" unfolding r using assms(2) by auto
  have "m dvd n - n mod m" by (rule dvd_minus_mod)
  then have "m dvd (n - n mod m) + m" by simp
  then show "m dvd roundUp n m" unfolding r by (auto simp: algebra_simps)
qed

lemma generateSelectionVector_bitmap:
  assumes "gandiva_ok A G rows brows" and "bm \<noteq> []"
  shows "generateSelectionVector G keep (Some bm) = Inr (Inr (filter (\<lambda>i. bm ! i = 1) [0..<length bm]))"
proof -
  let ?n = "roundUp (int (length bm)) 64 * 8"
  note ru = roundUp_props [of "int (length bm)" 64]
  have "0 < length bm" using assms(2) by simp
  then have n: "0 < ?n" using ru(1) by linarith
  have "length bm \<le> 8 * length (replicate (nat ?n) (0 :: 8 word))" using ru(1) by simp
  moreover have z: "replicate (nat ?n) (0 :: 8 word) ! (k div 8) = 0" if "k < length bm" for k
    using that ru(1) by simp
  ultimately obtain bits where bits: "bitmap_of bm (replicate (nat ?n) 0) = Inr bits"
    "length bits = nat ?n" "\<And>k. k < length bm \<Longrightarrow> bit (bits ! (k div 8)) (k mod 8) = (bm ! k = 1)"
    using bitmap_of_result [of bm "replicate (nat ?n) 0"] z by auto
  have "length bits mod 8 = 0" "length bm \<le> 8 * length bits" "int (length bits) = ?n" "bits \<noteq> []" "0 < length bm"
    using bits(2) ru(1) n assms(2) by (auto simp: nat_mult_distrib)
  then have "PopulateFromBitMap G (length bm) bits ?n (int (length bm) - 1) =
      Inr (filter (\<lambda>i. bit (bits ! (i div 8)) (i mod 8)) [0..<length bm])"
    using gandiva_populate [OF assms(1), of "length bm" bits] by simp
  also have "filter (\<lambda>i. bit (bits ! (i div 8)) (i mod 8)) [0..<length bm] = filter (\<lambda>i. bm ! i = 1) [0..<length bm]"
    using bits(3) by (intro filter_cong) auto
  finally show ?thesis
    using bits(1) \<open>bits \<noteq> []\<close> gandiva_okD(4) [OF assms(1)] by (simp add: generateSelectionVector_def Let_def)
qed

lemma sorted_split3:
  assumes "sorted (xs :: nat list)"
  shows "xs = filter (\<lambda>x. x < s) xs @ filter (\<lambda>x. s \<le> x \<and> x < s + n) xs @ filter (\<lambda>x. s + n \<le> x) xs"
  using assms
proof (induction xs)
  case (Cons x xs)
  have *: "\<forall>y \<in> set xs. x \<le> y" using Cons.prems by auto
  consider "x < s" | "s \<le> x" "x < s + n" | "s + n \<le> x" by linarith
  then show ?case
  proof cases
    case 2
    then have "filter (\<lambda>x. x < s) xs = []" using * by (auto simp: filter_empty_conv)
    with 2 Cons show ?thesis by auto
  next
    case 3
    then have "filter (\<lambda>x. x < s) xs = []" "filter (\<lambda>x. s \<le> x \<and> x < s + n) xs = []" using * by (auto simp: filter_empty_conv)
    with 3 Cons show ?thesis by auto
  qed (use Cons in auto)
qed simp

lemma partitioned_append:
  assumes "\<forall>x \<in> set xs. P x" and "\<forall>y \<in> set ys. \<not> P y"
  shows "partitioned_by P (xs @ ys)" and "length (takeWhile P (xs @ ys)) = length xs"
proof -
  have "takeWhile P (xs @ ys) = xs" "dropWhile P (xs @ ys) = ys"
    using assms by (cases ys; auto simp: takeWhile_append dropWhile_append)+
  with assms show "partitioned_by P (xs @ ys)" "length (takeWhile P (xs @ ys)) = length xs"
    by (auto simp: partitioned_by_def list_all_iff)
qed

lemma bounds_append:
  shows "\<forall>x \<in> set xs. int x < v \<Longrightarrow> \<forall>y \<in> set ys. v \<le> int y \<Longrightarrow> lower_bound (xs @ ys) v = Inr (length xs)"
    and "\<forall>x \<in> set xs. int x \<le> v \<Longrightarrow> \<forall>y \<in> set ys. v < int y \<Longrightarrow> upper_bound (xs @ ys) v = Inr (length xs)"
  using partitioned_append [of xs "\<lambda>x. int x < v" ys] partitioned_append [of xs "\<lambda>x. \<not> v < int x" ys]
  unfolding lower_bound_def upper_bound_def by (simp_all add: not_less)

lemma batch_positions_sorted:
  assumes "sorted_wrt (<) keep" and "\<exists>x \<in> set keep. s \<le> x \<and> x < s + n"
  shows "batch_positions keep (int s) (int s + int n - 1) (int s) =
    Inr (filter (\<lambda>i. s + i \<in> set keep) [0..<n])"
proof -
  have srt: "sorted keep" "distinct keep" using assms(1) by (auto simp: strict_sorted_iff)
  let ?a = "filter (\<lambda>x. x < s) keep" and ?b = "filter (\<lambda>x. s \<le> x \<and> x < s + n) keep"
    and ?c = "filter (\<lambda>x. s + n \<le> x) keep"
  have k: "keep = ?a @ ?b @ ?c" by (rule sorted_split3 [OF srt(1)])
  have lo: "lower_bound (?a @ ?b @ ?c) (int s) = Inr (length ?a)"
    by (rule bounds_append(1)) auto
  have hi: "upper_bound ((?a @ ?b) @ ?c) (int s + int n - 1) = Inr (length (?a @ ?b))"
    by (rule bounds_append(2)) auto
  have ne: "?b \<noteq> []" using assms(2) by (auto simp: filter_empty_conv)
  have "batch_positions keep (int s) (int s + int n - 1) (int s) = Inr (map (\<lambda>x. nat (int x - int s)) ?b)"
  proof -
    have "drop (length ?a) (take (length (?a @ ?b)) keep) = ?b" by (subst k) simp
    with lo hi ne show ?thesis unfolding append_assoc k [symmetric] by (simp add: batch_positions_def)
  qed
  also have "map (\<lambda>x. nat (int x - int s)) ?b = filter (\<lambda>i. s + i \<in> set keep) [0..<n]"
  proof (rule sorted_distinct_set_unique)
    show "sorted (map (\<lambda>x. nat (int x - int s)) ?b)"
      unfolding sorted_map by (intro sorted_wrt_filter sorted_wrt_mono_rel [OF _ srt(1)]) auto
    show "distinct (map (\<lambda>x. nat (int x - int s)) ?b)" using srt(2) by (auto simp: distinct_map inj_on_def)
    show "sorted (filter (\<lambda>i. s + i \<in> set keep) [0..<n])" using sorted_filter [of id "[0..<n]"] by simp
    show "set (map (\<lambda>x. nat (int x - int s)) ?b) = set (filter (\<lambda>i. s + i \<in> set keep) [0..<n])"
    proof (intro equalityI subsetI)
      fix i
      assume i: "i \<in> set (filter (\<lambda>i. s + i \<in> set keep) [0..<n])"
      have "i = nat (int (s + i) - int s)" by simp
      moreover have "s + i \<in> set ?b" using i by simp
      ultimately show "i \<in> set (map (\<lambda>x. nat (int x - int s)) ?b)" unfolding set_map by (rule image_eqI)
    next
      fix i
      assume "i \<in> set (map (\<lambda>x. nat (int x - int s)) ?b)"
      then obtain x where "x \<in> set keep" "s \<le> x" "x < s + n" "i = nat (int x - int s)" by auto
      then have "x \<in> set keep" "x = s + i" "i < n" by auto
      then show "i \<in> set (filter (\<lambda>i. s + i \<in> set keep) [0..<n])" by simp
    qed
  qed simp
  finally show ?thesis .
qed

section \<open>Filtering a table\<close>

text \<open>
  \<open>sel_list P s bs\<close>: the batches \<open>bs\<close>, whose rows start at position \<open>s\<close> of the table, each get the
  selection vector of the positions that satisfy \<open>P\<close>.
\<close>

fun sel_list ::
  "('t, 'b) gandiva \<Rightarrow> nat list \<Rightarrow> 8 word list option \<Rightarrow> ('b \<Rightarrow> 'r list) \<Rightarrow> (nat \<Rightarrow> bool) \<Rightarrow> nat \<Rightarrow> 'b list \<Rightarrow> bool" where
  "sel_list G keep bm brows P s [] = True"
| "sel_list G keep bm brows P s (b # bs) =
     ((\<forall>sel. batch_selection G keep bm (length (brows b)) (int s) (int s + int (length (brows b)) - 1)
         (if bm = None \<and> keep \<noteq> [] then int s else 0) sel =
         Inr (Some (filter (\<lambda>i. P (s + i)) [0..<length (brows b)]))) \<and>
      sel_list G keep bm brows P (s + length (brows b)) bs)"

lemma append_same_schema:
  assumes ok: "gandiva_ok A G rows brows" and "schema_Equals A u f"
  obtains f' where "TupleSet_append A [Some u] (Some f) = Inr (None, Some f')" and "rows f' = rows f @ rows u"
    and "schema_Equals A f' f"
proof -
  have "\<forall>x \<in> set [u]. schema_Equals A x f" using assms(2) by simp
  then obtain r where r: "ConcatenateTables A [f, u] = Inr r" "rows r = concat (map rows [f, u])" "schema_Equals A r f"
    by (rule gandiva_concat [OF ok])
  with that assms(2) show ?thesis by (simp add: TupleSet_append_def TupleSet_concatenate_def)
qed

lemma map_nth_slice:
  assumes "R = pre @ xs @ post" and "length pre = s"
  shows "map (\<lambda>i. xs ! i) (filter (\<lambda>i. P (s + i)) [0..<length xs]) = map (\<lambda>i. R ! i) (filter P [s..<s + length xs])"
proof -
  have "[s..<s + length xs] = map (\<lambda>i. i + s) [0..<length xs]"
    using map_add_upt [of s "length xs"] by (simp add: add.commute)
  then have "map (\<lambda>i. R ! i) (filter P [s..<s + length xs]) =
      map (\<lambda>i. R ! (i + s)) (filter (\<lambda>i. P (i + s)) [0..<length xs])"
    by (simp add: filter_map comp_def)
  also have "\<dots> = map (\<lambda>i. xs ! i) (filter (\<lambda>i. P (s + i)) [0..<length xs])"
    using assms by (intro map_cong) (auto simp: nth_append add.commute)
  finally show ?thesis ..
qed

lemma one_batch:
  assumes ok: "gandiva_ok A G rows brows" and v: "\<forall>i \<in> set v. i < length (brows b)" and f: "schema_Equals A f t"
  shows "\<exists>u f'. (if v \<noteq> [] then Projector_Evaluate G t b v else Inr (EmptyTable G t)) = Inr u \<and>
    TupleSet_append A [Some u] (Some f) = Inr (None, Some f') \<and>
    rows f' = rows f @ map (\<lambda>i. brows b ! i) v \<and> schema_Equals A f' t"
proof -
  obtain u where u: "(if v \<noteq> [] then Projector_Evaluate G t b v else Inr (EmptyTable G t)) = Inr u"
    "rows u = map (\<lambda>i. brows b ! i) v" "schema_Equals A u t"
  proof (cases "v = []")
    case True
    with that [of "EmptyTable G t"] gandiva_okD(6,7) [OF ok, of t] show ?thesis by simp
  next
    case False
    obtain u where "Projector_Evaluate G t b v = Inr u" "rows u = map (\<lambda>i. brows b ! i) v" "schema_Equals A u t"
      by (rule gandiva_project [OF ok v])
    with that [of u] False show ?thesis by simp
  qed
  note eq = gandiva_okD(1) [OF ok]
  have "schema_Equals A u f" using u(3) f equivp_symp [OF eq] equivp_transp [OF eq] by metis
  then obtain f' where "TupleSet_append A [Some u] (Some f) = Inr (None, Some f')" "rows f' = rows f @ rows u"
    "schema_Equals A f' f" by (rule append_same_schema [OF ok])
  moreover from this(3) have "schema_Equals A f' t" using f equivp_transp [OF eq] by metis
  ultimately show ?thesis using u by auto
qed

text \<open>One round of the loop, with its selection vector given.\<close>

lemma evaluate_batches_step:
  assumes ok: "gandiva_ok A G rows brows"
    and sel: "batch_selection G keep bm (length (brows b)) startPos endPos seen sel0 = Inr (Some v)"
    and u: "(if v \<noteq> [] then Projector_Evaluate G t b v else Inr (EmptyTable G t)) = Inr u"
      "TupleSet_append A [Some u] (Some f) = Inr (None, Some f')"
  shows "evaluate_batches A G t keep bm b (map Inr bs) startPos endPos seen sel0 (Some f) =
    (case bs of [] \<Rightarrow> Inr (Inr (Some f'))
     | c # cs \<Rightarrow> evaluate_batches A G t keep bm c (map Inr cs) (startPos + int (length (brows b)))
         (endPos + int (length (brows c)))
         (if bm = None \<and> keep \<noteq> [] then seen + int (length (brows b)) else seen) (Some v) (Some f'))"
  using sel u gandiva_okD [OF ok]
  by (subst evaluate_batches.simps) (auto simp: Let_def split: list.split)

definition seen_before :: "nat list \<Rightarrow> 8 word list option \<Rightarrow> nat \<Rightarrow> int" where
  "seen_before keep bm s = (if bm = None \<and> keep \<noteq> [] then int s else 0)"

lemma seen_before_step:
  "(if bm = None \<and> keep \<noteq> [] then seen_before keep bm s + int n else seen_before keep bm s) = seen_before keep bm (s + n)"
  by (simp add: seen_before_def)

lemma evaluate_batches_rows:
  assumes ok: "gandiva_ok A G rows brows"
    and "sel_list G keep bm brows P s (b # bs)" and "schema_Equals A f t"
    and "R = pre @ concat (map brows (b # bs))" and "length pre = s"
  shows "\<exists>f'. evaluate_batches A G t keep bm b (map Inr bs) (int s) (int s + int (length (brows b)) - 1)
      (seen_before keep bm s) sel (Some f) = Inr (Inr (Some f')) \<and>
    rows f' = rows f @ map (\<lambda>i. R ! i) (filter P [s..<length R]) \<and> schema_Equals A f' t"
  using assms(2-)
proof (induction bs arbitrary: b s sel f pre)
  case Nil
  define v where "v = filter (\<lambda>i. P (s + i)) [0..<length (brows b)]"
  have sel: "batch_selection G keep bm (length (brows b)) (int s) (int s + int (length (brows b)) - 1)
      (seen_before keep bm s) sel = Inr (Some v)" using Nil.prems(1) by (simp add: v_def seen_before_def)
  obtain u f' where u: "(if v \<noteq> [] then Projector_Evaluate G t b v else Inr (EmptyTable G t)) = Inr u"
    "TupleSet_append A [Some u] (Some f) = Inr (None, Some f')" "rows f' = rows f @ map (\<lambda>i. brows b ! i) v"
    "schema_Equals A f' t" using one_batch [OF ok, of v b f t] Nil.prems(2) by (auto simp: v_def)
  have "length R = s + length (brows b)" using Nil.prems(3,4) by simp
  then have "rows f' = rows f @ map (\<lambda>i. R ! i) (filter P [s..<length R])"
    using u(3) map_nth_slice [of R pre "brows b" "[]" s P] Nil.prems(3,4) by (simp add: v_def)
  with evaluate_batches_step [OF ok sel u(1,2), of "[]"] u(4) show ?case by simp
next
  case (Cons c bs)
  let ?s = "s + length (brows b)"
  define v where "v = filter (\<lambda>i. P (s + i)) [0..<length (brows b)]"
  have sel: "batch_selection G keep bm (length (brows b)) (int s) (int s + int (length (brows b)) - 1)
      (seen_before keep bm s) sel = Inr (Some v)" using Cons.prems(1) by (simp add: v_def seen_before_def)
  obtain u f1 where u: "(if v \<noteq> [] then Projector_Evaluate G t b v else Inr (EmptyTable G t)) = Inr u"
    "TupleSet_append A [Some u] (Some f) = Inr (None, Some f1)" "rows f1 = rows f @ map (\<lambda>i. brows b ! i) v"
    "schema_Equals A f1 t" using one_batch [OF ok, of v b f t] Cons.prems(2) by (auto simp: v_def)
  have "\<exists>f'. evaluate_batches A G t keep bm c (map Inr bs) (int ?s) (int ?s + int (length (brows c)) - 1)
      (seen_before keep bm ?s) (Some v) (Some f1) = Inr (Inr (Some f')) \<and>
    rows f' = rows f1 @ map (\<lambda>i. R ! i) (filter P [?s..<length R]) \<and> schema_Equals A f' t"
    by (rule Cons.IH [where pre = "pre @ brows b"]) (use Cons.prems u(4) in auto)
  then obtain f' where f': "evaluate_batches A G t keep bm c (map Inr bs) (int ?s) (int ?s + int (length (brows c)) - 1)
      (seen_before keep bm ?s) (Some v) (Some f1) = Inr (Inr (Some f'))"
    "rows f' = rows f1 @ map (\<lambda>i. R ! i) (filter P [?s..<length R])" "schema_Equals A f' t" by blast
  have split: "[s..<length R] = [s..<?s] @ [?s..<length R]"
    using upt_add_eq_append [of s ?s "length R - ?s"] Cons.prems(3,4) by (simp add: add.assoc)
  have "map (\<lambda>i. brows b ! i) v = map (\<lambda>i. R ! i) (filter P [s..<?s])"
    unfolding v_def
    by (rule map_nth_slice [of R pre _ "concat (map brows (c # bs))"]) (use Cons.prems(3,4) in simp_all)
  then have "rows f' = rows f @ map (\<lambda>i. R ! i) (filter P [s..<length R])"
    unfolding split f'(2) u(3) by simp
  moreover have "evaluate_batches A G t keep bm b (map Inr (c # bs)) (int s) (int s + int (length (brows b)) - 1)
      (seen_before keep bm s) sel (Some f) = Inr (Inr (Some f'))"
  proof -
    have "int s + int (length (brows b)) - 1 + int (length (brows c)) = int ?s + int (length (brows c)) - 1"
      "int s + int (length (brows b)) = int ?s" by simp_all
    with evaluate_batches_step [OF ok sel u(1,2), of "c # bs", unfolded list.case seen_before_step] f'(1)
    show ?thesis by argo
  qed
  ultimately show ?case using f'(3) by blast
qed

lemma sel_list_bitmap:
  assumes ok: "gandiva_ok A G rows brows" and "\<forall>b \<in> set bs. brows b \<noteq> []"
    and "s + length (concat (map brows bs)) \<le> length bm"
  shows "sel_list G keep (Some bm) brows (\<lambda>i. bm ! i = 1) s bs"
  using assms(2,3)
proof (induction bs arbitrary: s)
  case (Cons b bs)
  let ?n = "length (brows b)" and ?w = "take (length (brows b)) (drop s bm)"
  have len: "s + ?n \<le> length bm" and ne: "?n > 0" using Cons.prems by auto
  have "length ?w = ?n" using len by simp
  then have w: "?w \<noteq> []" "length ?w = ?n" "\<And>i. i < ?n \<Longrightarrow> ?w ! i = bm ! (s + i)" using len ne by (auto simp del: length_take)
  have f: "filter (\<lambda>i. ?w ! i = 1) [0..<?n] = filter (\<lambda>i. bm ! (s + i) = 1) [0..<?n]"
    using w(3) by (intro filter_cong) auto
  have "generateSelectionVector G keep (Some ?w) = Inr (Inr (filter (\<lambda>i. bm ! (s + i) = 1) [0..<?n]))"
    using generateSelectionVector_bitmap [OF ok w(1), of keep] unfolding w(2) f .
  with Cons.IH [of "s + ?n"] Cons.prems len show ?case
    by (simp add: batch_selection_def add.assoc)
qed simp

text \<open>Every batch has a position to keep.\<close>

fun covers :: "('b \<Rightarrow> 'r list) \<Rightarrow> nat list \<Rightarrow> nat \<Rightarrow> 'b list \<Rightarrow> bool" where
  "covers brows keep s [] = True"
| "covers brows keep s (b # bs) =
     (list_ex (\<lambda>x. s \<le> x \<and> x < s + length (brows b)) keep \<and> covers brows keep (s + length (brows b)) bs)"

lemma sel_list_positions:
  assumes ok: "gandiva_ok A G rows brows" and "sorted_wrt (<) keep" and "covers brows keep s bs"
  shows "sel_list G keep None brows (\<lambda>i. i \<in> set keep) s bs"
  using assms(3)
proof (induction bs arbitrary: s)
  case (Cons b bs)
  let ?n = "length (brows b)" and ?v = "filter (\<lambda>i. s + i \<in> set keep) [0..<length (brows b)]"
  have hit: "\<exists>x \<in> set keep. s \<le> x \<and> x < s + ?n" using Cons.prems by (simp add: list_ex_iff)
  then obtain x where x: "x \<in> set keep" "s \<le> x" "x < s + ?n" by blast
  then have "x - s \<in> set ?v" "keep \<noteq> []" by auto
  then have ne: "?v \<noteq> []" "keep \<noteq> []" by (metis empty_iff list.set(1), simp)
  have "generateSelectionVector G ?v None = Inr (Inr ?v)"
    using ne(1) gandiva_okD(4) [OF ok] by (simp add: generateSelectionVector_def)
  with batch_positions_sorted [OF assms(2) hit] Cons ne(2) show ?case
    by (simp add: batch_selection_def)
qed simp

lemma evaluate_rows:
  assumes ok: "gandiva_ok A G rows brows"
    and "\<And>bs. TableBatchReader G t DefaultChunkSize = map Inr bs \<Longrightarrow> \<forall>b \<in> set bs. brows b \<noteq> [] \<Longrightarrow>
      concat (map brows bs) = rows t \<Longrightarrow> sel_list G keep bm brows P 0 bs"
  shows "\<exists>t'. DeltaMergeFilter_evaluate A G keep bm (Some t) = Inr (Inr (Some t')) \<and>
    rows t' = map (\<lambda>i. rows t ! i) (filter P [0..<length (rows t)]) \<and> schema_Equals A t' t"
proof (cases "rows t = []")
  case True
  then show ?thesis using gandiva_okD(2) [OF ok] equivp_reflp [OF gandiva_okD(1) [OF ok], of t]
    by (simp add: DeltaMergeFilter_evaluate_def TupleSet_numRows_def)
next
  case False
  obtain bs where bs: "TableBatchReader G t DefaultChunkSize = map Inr bs" "\<forall>b \<in> set bs. brows b \<noteq> []"
    "concat (map brows bs) = rows t" by (rule gandiva_batches [OF ok])
  with False obtain b cs where b: "bs = b # cs" by (cases bs) auto
  have "sel_list G keep bm brows P 0 (b # cs)" using assms(2) [OF bs] by (simp add: b)
  moreover have R: "brows b @ concat (map brows cs) = rows t" using bs(3) by (simp add: b)
  moreover have "seen_before keep bm 0 = 0" by (simp add: seen_before_def)
  ultimately
  have "\<exists>f'. evaluate_batches A G t keep bm b (map Inr cs) 0 (int (length (brows b)) - 1) 0 None
      (Some (EmptyTable G t)) = Inr (Inr (Some f')) \<and> rows f' = map (\<lambda>i. rows t ! i) (filter P [0..<length (rows t)]) \<and>
      schema_Equals A f' t"
    using evaluate_batches_rows [OF ok _ gandiva_okD(7) [OF ok], of keep bm P 0 b cs "rows t" "[]" t None]
    by (auto simp: gandiva_okD(6) [OF ok])
  then show ?thesis
    using bs(1) False gandiva_okD [OF ok]
    by (simp add: DeltaMergeFilter_evaluate_def TupleSet_numRows_def deref_table_def b)
qed

lemma evaluate_bitmap_rows:
  assumes "gandiva_ok A G rows brows" and "length bm = length (rows t)"
  shows "\<exists>t'. DeltaMergeFilter_evaluate A G keep (Some bm) (Some t) = Inr (Inr (Some t')) \<and>
    rows t' = map (\<lambda>i. rows t ! i) (filter (\<lambda>i. bm ! i = 1) [0..<length (rows t)]) \<and> schema_Equals A t' t"
  by (rule evaluate_rows [OF assms(1)]) (rule sel_list_bitmap [OF assms(1)], use assms(2) in auto)

lemma evaluate_positions_rows:
  assumes "gandiva_ok A G rows brows" and "sorted_wrt (<) keep" and "\<forall>x \<in> set keep. x < length (rows t)"
    and "\<And>bs. TableBatchReader G t DefaultChunkSize = map Inr bs \<Longrightarrow> covers brows keep 0 bs"
  shows "\<exists>t'. DeltaMergeFilter_evaluate A G keep None (Some t) = Inr (Inr (Some t')) \<and>
    rows t' = map (\<lambda>i. rows t ! i) keep \<and> schema_Equals A t' t"
proof -
  have "filter (\<lambda>i. i \<in> set keep) [0..<length (rows t)] = keep"
    using assms(2,3) sorted_filter [of id "[0..<length (rows t)]"]
    by (intro sorted_distinct_set_unique) (auto simp: strict_sorted_iff)
  then show ?thesis
    using evaluate_rows [OF assms(1), of t keep None "\<lambda>i. i \<in> set keep"]
      sel_list_positions [OF assms(1,2)] assms(4) by simp
qed

text \<open>
  C18.  Filtering a table by a bitmap with one entry per row returns the rows whose entry is 1, in their
  order, whatever batches the table is read in.
\<close>

theorem evaluate_bitmap:
  assumes "gandiva_ok A G rows brows" and "length bm = length (rows t)"
  shows "\<exists>t'. DeltaMergeFilter_evaluate A G keep (Some bm) (Some t) = Inr (Inr (Some t')) \<and>
    rows t' = map (\<lambda>i. rows t ! i) (filter (\<lambda>i. bm ! i = 1) [0..<length (rows t)])"
  using evaluate_bitmap_rows [OF assms] by blast

text \<open>
  C19.  Filtering a table by a strictly increasing list of row positions returns the rows at these
  positions, provided that every batch the table is read in has a row to keep.
\<close>

theorem evaluate_positions:
  assumes "gandiva_ok A G rows brows" and "sorted_wrt (<) keep" and "\<forall>x \<in> set keep. x < length (rows t)"
    and "\<And>bs. TableBatchReader G t DefaultChunkSize = map Inr bs \<Longrightarrow> covers brows keep 0 bs"
  shows "\<exists>t'. DeltaMergeFilter_evaluate A G keep None (Some t) = Inr (Inr (Some t')) \<and>
    rows t' = map (\<lambda>i. rows t ! i) keep"
  using evaluate_positions_rows [OF assms(1-3)] assms(4) by blast

text \<open>A batch without a position to keep.\<close>

lemma batch_selection_gap:
  assumes "sorted_wrt (<) keep" and "keep \<noteq> []" and "\<not> (\<exists>x \<in> set keep. s \<le> x \<and> x < s + n)"
  shows "\<exists>e. batch_selection G keep None n (int s) (int s + int n - 1) (int s) sel = Inl (UndefinedBehaviour e)"
proof -
  let ?a = "filter (\<lambda>x. x < s) keep" and ?b = "filter (\<lambda>x. s \<le> x \<and> x < s + n) keep" and ?c = "filter (\<lambda>x. s + n \<le> x) keep"
  have "sorted keep" using assms(1) by (simp add: strict_sorted_iff)
  moreover have "?b = []" using assms(3) by (auto simp: filter_empty_conv)
  ultimately have k: "keep = ?a @ ?c" using sorted_split3 [of keep s n] by simp
  have "lower_bound (?a @ ?c) (int s) = Inr (length ?a)" by (rule bounds_append(1)) auto
  moreover have "upper_bound (?a @ ?c) (int s + int n - 1) = Inr (length ?a)" by (rule bounds_append(2)) auto
  ultimately show ?thesis
    using assms(2) unfolding k [symmetric]
    by (auto simp: batch_selection_def batch_positions_def generateSelectionVector_def)
qed

lemma evaluate_batches_gap:
  assumes ok: "gandiva_ok A G rows brows" and keep: "sorted_wrt (<) keep" "keep \<noteq> []"
    and "\<not> covers brows keep s (b # bs)" and "schema_Equals A f t"
  shows "\<exists>e. evaluate_batches A G t keep None b (map Inr bs) (int s) (int s + int (length (brows b)) - 1)
      (int s) sel (Some f) = Inl (UndefinedBehaviour e)"
  using assms(4,5)
proof (induction bs arbitrary: b s sel f)
  case Nil
  then have "\<not> (\<exists>x \<in> set keep. s \<le> x \<and> x < s + length (brows b))" by (simp add: list_ex_iff)
  from batch_selection_gap [OF keep this, of G sel] gandiva_okD [OF ok] show ?case
    by (auto simp: evaluate_batches.simps)
next
  case (Cons c bs)
  let ?n = "length (brows b)"
  show ?case
  proof (cases "\<exists>x \<in> set keep. s \<le> x \<and> x < s + ?n")
    case False
    from batch_selection_gap [OF keep False, of G sel] gandiva_okD [OF ok] show ?thesis
      by (auto simp: evaluate_batches.simps)
  next
    case True
    define v where "v = filter (\<lambda>i. s + i \<in> set keep) [0..<?n]"
    have "sel_list G keep None brows (\<lambda>i. i \<in> set keep) s [b]"
      by (rule sel_list_positions [OF ok keep(1)]) (use True in \<open>simp add: list_ex_iff\<close>)
    then have sel: "batch_selection G keep None ?n (int s) (int s + int ?n - 1) (int s) sel = Inr (Some v)"
      using keep(2) by (simp add: v_def)
    obtain u f1 where u: "(if v \<noteq> [] then Projector_Evaluate G t b v else Inr (EmptyTable G t)) = Inr u"
      "TupleSet_append A [Some u] (Some f) = Inr (None, Some f1)" "schema_Equals A f1 t"
      using one_batch [OF ok, of v b f t] Cons.prems(2) by (auto simp: v_def)
    have "\<not> covers brows keep (s + ?n) (c # bs)" using Cons.prems(1) True by (auto simp: list_ex_iff)
    from Cons.IH [OF this u(3), of "Some v"] obtain e where
      e: "evaluate_batches A G t keep None c (map Inr bs) (int (s + ?n)) (int (s + ?n) + int (length (brows c)) - 1)
        (int (s + ?n)) (Some v) (Some f1) = Inl (UndefinedBehaviour e)" by blast
    have idx: "int s + int ?n - 1 + int (length (brows c)) = int (s + ?n) + int (length (brows c)) - 1"
      "int s + int ?n = int (s + ?n)" by simp_all
    have seen: "(if (None :: 8 word list option) = None \<and> keep \<noteq> [] then int s + int ?n else int s) = int (s + ?n)"
      using keep(2) by simp
    note step = evaluate_batches_step [OF ok sel u(1,2), of "c # bs", unfolded list.case]
    show ?thesis unfolding step seen idx(1) unfolding idx(2) by (rule exI, rule e)
  qed
qed

text \<open>
  C20.  A table that is read in batches one of which, the first or a later one, has no row to keep cannot be
  filtered by positions: the call has undefined behaviour (a null selection vector is dereferenced, an
  iterator before \<^verbatim>\<open>begin()\<close> is formed, or a function ends without \<^verbatim>\<open>return\<close>).
\<close>

theorem evaluate_no_kept_row_fails:
  assumes "gandiva_ok A G rows brows" and "TableBatchReader G t DefaultChunkSize = map Inr bs"
    and "rows t \<noteq> []" and "sorted_wrt (<) keep" and "\<not> covers brows keep 0 bs"
  shows "\<exists>e. DeltaMergeFilter_evaluate A G keep None (Some t) = Inl (UndefinedBehaviour e)"
proof -
  obtain b cs where b: "bs = b # cs" using assms(5) by (cases bs) auto
  have "\<exists>e. evaluate_batches A G t keep None b (map Inr cs) 0 (int (length (brows b)) - 1) 0 None
      (Some (EmptyTable G t)) = Inl (UndefinedBehaviour e)"
  proof (cases "keep = []")
    case True
    then show ?thesis by (simp add: evaluate_batches.simps batch_selection_def)
  next
    case False
    from evaluate_batches_gap [OF assms(1,4) False assms(5) [unfolded b] gandiva_okD(7) [OF assms(1)], where sel = None]
    show ?thesis by simp
  qed
  then show ?thesis
    using assms(2,3) gandiva_okD [OF assms(1)]
    by (simp add: DeltaMergeFilter_evaluate_def TupleSet_numRows_def deref_table_def b)
qed

section \<open>An instance\<close>

text \<open>Tables as a schema name and a list of rows, read in one batch.\<close>

type_synonym row_table = "string \<times> nat list"

definition row_arrow :: "(row_table, nat list) arrow" where
  "row_arrow =
     \<lparr>num_rows = (\<lambda>t. length (snd t)), num_columns = (\<lambda>t. 1), field_names = (\<lambda>t. [fst t]),
      schema_Equals = (\<lambda>t u. fst t = fst u), GetColumnByName = (\<lambda>t n. if n = fst t then Some (snd t) else None),
      table_column = (\<lambda>t i. snd t), Table_Make = (\<lambda>cols. hd cols),
      ConcatenateTables = (\<lambda>ts. case ts of [] \<Rightarrow> Inl ''no tables'' | t # us \<Rightarrow> Inr (fst t, concat (map snd (t # us)))),
      RenameColumns = (\<lambda>t ns. Inr (hd ns, snd t)), CombineChunks = Inr,
      Slice = (\<lambda>t off len. (fst t, case len of None \<Rightarrow> drop off (snd t) | Some l \<Rightarrow> take l (drop off (snd t)))),
      array_length = length, array_type = (\<lambda>_. Int32Type), array_value = (\<lambda>a i. Int32Scalar (of_nat (a ! i))),
      array_buffer_sizes = (\<lambda>a. [of_nat (length a)]), float_to_int32 = (\<lambda>w. 0), double_to_int32 = (\<lambda>w. 0)\<rparr>"

definition row_gandiva :: "(row_table, nat list) gandiva" where
  "row_gandiva =
     \<lparr>TableBatchReader = (\<lambda>t n. if snd t = [] then [] else [Inr (snd t)]), batch_num_rows = length,
      MakeInt64 = (\<lambda>n. None),
      PopulateFromBitMap = (\<lambda>n bits s m. Inr (filter (\<lambda>i. bit (bits ! (i div 8)) (i mod 8)) [0..<n])),
      Projector_Make = (\<lambda>t. None), Projector_Evaluate = (\<lambda>t b sel. Inr (fst t, map (\<lambda>i. b ! i) sel)),
      EmptyTable = (\<lambda>t. (fst t, []))\<rparr>"

lemma row_gandiva_ok: "gandiva_ok row_arrow row_gandiva snd (\<lambda>b. b)"
proof -
  have "\<exists>bs. TableBatchReader row_gandiva t DefaultChunkSize = map Inr bs \<and> (\<forall>b \<in> set bs. b \<noteq> []) \<and>
      concat (map (\<lambda>b. b) bs) = snd t" for t
    by (cases "snd t = []") (auto simp: row_gandiva_def intro: exI [of _ "[]"] exI [of _ "[snd t]"])
  then show ?thesis
    by (auto simp: gandiva_ok_def row_arrow_def row_gandiva_def equivp_def fun_eq_iff)
qed

theorem evaluate_bitmap_witness:
  "\<exists>t'. DeltaMergeFilter_evaluate row_arrow row_gandiva [] (Some [1, 0, 1]) (Some (''k'', [7, 8, 9])) = Inr (Inr (Some t')) \<and>
     snd t' = [7, 9]"
  using evaluate_bitmap [OF row_gandiva_ok, of "[1, 0, 1]" "(''k'', [7, 8, 9])" "[]"] by (simp add: upt_rec)

theorem evaluate_positions_witness:
  "\<exists>t'. DeltaMergeFilter_evaluate row_arrow row_gandiva [0, 2] None (Some (''k'', [7, 8, 9])) = Inr (Inr (Some t')) \<and>
     snd t' = [7, 9]"
proof -
  have "covers (\<lambda>b. b) [0, 2] 0 bs"
    if "TableBatchReader row_gandiva (''k'', [7, 8, 9]) DefaultChunkSize = map Inr bs" for bs
  proof -
    have "bs = [[7, 8, 9]]" using that by (auto simp: row_gandiva_def)
    then show ?thesis by simp
  qed
  then show ?thesis
    using evaluate_positions [OF row_gandiva_ok, of "[0, 2]" "(''k'', [7, 8, 9])"] by simp
qed

text \<open>A reader that gives each row as a batch of its own: the second of three batches has no row to keep.\<close>

definition single_gandiva :: "(row_table, nat list) gandiva" where
  "single_gandiva = row_gandiva\<lparr>TableBatchReader := (\<lambda>t n. map (\<lambda>r. Inr [r]) (snd t))\<rparr>"

lemma single_gandiva_ok: "gandiva_ok row_arrow single_gandiva snd (\<lambda>b. b)"
proof -
  have "\<exists>bs. TableBatchReader single_gandiva t DefaultChunkSize = map Inr bs \<and> (\<forall>b \<in> set bs. b \<noteq> []) \<and>
      concat (map (\<lambda>b. b) bs) = snd t" for t
    by (rule exI [of _ "map (\<lambda>r. [r]) (snd t)"]) (auto simp: single_gandiva_def)
  then show ?thesis
    by (auto simp: gandiva_ok_def row_arrow_def single_gandiva_def row_gandiva_def equivp_def fun_eq_iff)
qed

theorem evaluate_no_kept_row_fails_witness:
  "\<exists>e. DeltaMergeFilter_evaluate row_arrow single_gandiva [0, 2] None (Some (''k'', [7, 8, 9])) = Inl (UndefinedBehaviour e)"
  by (rule evaluate_no_kept_row_fails [OF single_gandiva_ok, where bs = "[[7], [8], [9]]"])
    (simp_all add: single_gandiva_def)

end
