(* ===== verification/Delta_Merge.thy ===== *)
theory Delta_Merge
  imports Keep_Map Merge_Filter Operators
begin

text \<open>
  The delta-merge operator (\<^verbatim>\<open>fpdb-executor/src/physical/deltamerge/DeltaMergePOp.cpp\<close>) and the kernel
  of its result-generator mode (\<^verbatim>\<open>ResultGeneratorKernel.cpp\<close>, with the column builders of
  \<^verbatim>\<open>fpdb-tuple/src/ColumnBuilder.cpp\<close>).  The operator receives the stable rows of a partition and the
  deltas in memory, decides with the keep maps which rows are valid, and pushes the projected rows in
  chunks to the queue of its table; the merged delta goes back to the delta cache.

  The queues are global variables that other threads read; the operator only pushes to them, and
  \<open>dm_pushed\<close> lists what it pushes, in order.  Rows and chunks are counted by natural numbers: the
  counters are \<^verbatim>\<open>int\<close>s and a partition has fewer than \<open>2 ^ 31\<close> rows.
\<close>

section \<open>State and messages\<close>

datatype mode = resultGenerator | selectionVector | keepMapCache | keepMapCache2

datatype 't delta_payload =
    LoadDeltaRequest Table DeltaCacheKey int
  | LoadDeltaResponse "'t DeltaCacheData list" "8 word list option"
  | LoadDiskDeltasResponse "'t TupleSet option" int
  | MergedDelta Table int "'t TupleSet" "8 word list option"

datatype BatchQueue = lo_batchQueue | c_batchQueue | s_batchQueue | p_batchQueue | d_batchQueue

record ('t, 'a) DeltaMerge =
  dm_deltas :: "'t DeltaCacheData list"
  dm_stables :: "'t TupleSet option list"
  dm_diskDeltas :: "'t TupleSet option list"
  dm_diskDeltasTimestamps :: "int list"
  dm_cacheHandlerName :: string
  dm_batchCounter :: int
  dm_lastBatch :: bool
  dm_chunkCounter :: nat
  dm_earlyStableChunkIdx :: int
  dm_earlyChunkBatchCnt :: "int list"
  dm_evaluatedData :: "'t TupleSet option"
  dm_stableBm :: "8 word list option"
  dm_tableName :: string
  dm_targetTable :: Table
  dm_targetPartition :: int
  dm_predicatesExist :: bool
  dm_keepMapCacheMode :: "'a KeepMapCacheMode"
  dm_stableTuplesReceived :: bool
  dm_deltasReceived :: bool
  dm_queryId :: int
  dm_pushed :: "(BatchQueue \<times> 't) list"

type_synonym ('h, 't, 'a) merge_op = "('h, 't, 't delta_payload, ('t, 'a) DeltaMerge) POp"

type_synonym ('h, 't, 'a) merge_handler = "('h, 't, 't delta_payload, ('t, 'a) DeltaMerge) handler"

definition DeltaMerge_make :: "Table \<Rightarrow> int \<Rightarrow> string \<Rightarrow> bool \<Rightarrow> int \<Rightarrow> ('t, 'a) DeltaMerge" where
  "DeltaMerge_make table targetPartition cacheHandlerName predicatesExist queryId =
     \<lparr>dm_deltas = [], dm_stables = [], dm_diskDeltas = [], dm_diskDeltasTimestamps = [],
      dm_cacheHandlerName = cacheHandlerName, dm_batchCounter = 0, dm_lastBatch = False,
      dm_chunkCounter = 0, dm_earlyStableChunkIdx = - 1, dm_earlyChunkBatchCnt = [],
      dm_evaluatedData = None, dm_stableBm = None, dm_tableName = tbl_name table,
      dm_targetTable = table, dm_targetPartition = targetPartition,
      dm_predicatesExist = predicatesExist, dm_keepMapCacheMode = KeepMapCacheMode_make,
      dm_stableTuplesReceived = False, dm_deltasReceived = False, dm_queryId = queryId, dm_pushed = []\<rparr>"

definition DeltaMerge_clear :: "('t, 'a) DeltaMerge \<Rightarrow> ('t, 'a) DeltaMerge" where
  "DeltaMerge_clear st = st\<lparr>dm_stables := [], dm_deltas := []\<rparr>"

section \<open>Chunks\<close>

definition queue_of :: "string \<Rightarrow> BatchQueue" where
  "queue_of tableName =
     (if tableName = ''lineorder'' then lo_batchQueue
      else if tableName = ''customer'' then c_batchQueue
      else if tableName = ''supplier'' then s_batchQueue
      else if tableName = ''part'' then p_batchQueue
      else d_batchQueue)"

definition addToQueueAndNotify :: "'t \<Rightarrow> ('t, 'a) DeltaMerge \<Rightarrow> ('t, 'a) DeltaMerge" where
  "addToQueueAndNotify batch st =
     st\<lparr>dm_pushed := dm_pushed st @ [(queue_of (dm_tableName st), batch)]\<rparr>"

text \<open>The loops that cut a table into chunks; \<open>iter\<close> counts from 1.\<close>

function push_full_chunks ::
  "('t, 'a) arrow \<Rightarrow> 't \<Rightarrow> nat \<Rightarrow> ('t, 'a) DeltaMerge \<Rightarrow> nat \<times> ('t, 'a) DeltaMerge" where
  "push_full_chunks A t iter st =
     (if num_rows A t \<ge> iter * DefaultChunkSize then
        push_full_chunks A t (iter + 1)
          (addToQueueAndNotify (Slice A t ((iter - 1) * DefaultChunkSize) (Some DefaultChunkSize)) st)
      else (iter, st))"
  by auto
termination
  by (relation "measure (\<lambda>(A, t, iter, st). Suc (num_rows A t) - iter * DefaultChunkSize)")
    (auto simp: DefaultChunkSize_def)

definition push_rest :: "('t, 'a) arrow \<Rightarrow> 't \<Rightarrow> nat \<Rightarrow> ('t, 'a) DeltaMerge \<Rightarrow> ('t, 'a) DeltaMerge" where
  "push_rest A t iter st =
     (let buf = Slice A t ((iter - 1) * DefaultChunkSize) None
      in if num_rows A buf \<noteq> 0 then addToQueueAndNotify buf st else st)"

definition projected :: "('t, 'a) arrow \<Rightarrow> 't TupleSet \<Rightarrow> string list \<Rightarrow> 't TupleSet result" where
  "projected A ts names = rbind (projectExist A ts names) expected_value"

definition concatenated :: "('t, 'a) arrow \<Rightarrow> 't TupleSet list \<Rightarrow> 't TupleSet result" where
  "concatenated A tss = rbind (TupleSet_concatenate A tss) expected_value"

definition filtered ::
  "('t, 'a) arrow \<Rightarrow> ('t, 'b) gandiva \<Rightarrow> nat list \<Rightarrow> 8 word list option \<Rightarrow> 't TupleSet \<Rightarrow> 't TupleSet result"
  where
  "filtered A G keep bm ts = rbind (DeltaMergeFilter_evaluate A G keep bm ts) expected_value"

definition stable_at :: "('t, 'a) DeltaMerge \<Rightarrow> nat \<Rightarrow> 't TupleSet result" where
  "stable_at st i =
     (if i < length (dm_stables st) then deref_pointer (dm_stables st ! i)
      else Inl (UndefinedBehaviour ''stables[i] out of range''))"

text \<open>Every round of \<open>noMerge\<close> projects the stable rows again.\<close>

function noMerge_loop ::
  "('t, 'a) arrow \<Rightarrow> string list \<Rightarrow> 't TupleSet \<Rightarrow> nat \<Rightarrow> ('t, 'a) DeltaMerge \<Rightarrow> ('t, 'a) DeltaMerge result" where
  "noMerge_loop A names ts iter st =
     rbind (projected A ts names) (\<lambda>p. rbind (deref_table p) (\<lambda>t.
       if TupleSet_numRows A ts > iter * DefaultChunkSize then
         noMerge_loop A names ts (iter + 1)
           (addToQueueAndNotify (Slice A t ((iter - 1) * DefaultChunkSize) (Some DefaultChunkSize)) st)
       else Inr (push_rest A t iter st)))"
  by auto
termination
  by (relation "measure (\<lambda>(A, names, ts, iter, st). Suc (TupleSet_numRows A ts) - iter * DefaultChunkSize)")
    (auto simp: DefaultChunkSize_def)

declare push_full_chunks.simps [simp del] noMerge_loop.simps [simp del]

definition noMerge :: "('t, 'a) arrow \<Rightarrow> string list \<Rightarrow> ('t, 'a) DeltaMerge \<Rightarrow> ('t, 'a) DeltaMerge result" where
  "noMerge A names st = rbind (stable_at st 0) (\<lambda>ts. noMerge_loop A names ts 1 st)"


section \<open>The result generator\<close>

text \<open>
  A column builder with the values appended so far.  \<open>append\<close> casts the Arrow builder to the type of the
  scalar; its errors are values, which the kernel ignores.  \<open>Finish\<close> of the Arrow builder is an
  argument \<open>fin\<close>.
\<close>

record ColumnBuilder =
  cb_name :: string
  cb_type :: type_id
  cb_values :: "arrow_scalar list"

definition ColumnBuilder_make :: "string \<Rightarrow> type_id \<Rightarrow> ColumnBuilder" where
  "ColumnBuilder_make n ty = \<lparr>cb_name = n, cb_type = ty, cb_values = []\<rparr>"

definition builder_types :: "type_id list" where
  "builder_types = [Int32Type, Int64Type, DoubleType, BooleanType, Date64Type, StringType]"

definition ColumnBuilder_append :: "arrow_scalar \<Rightarrow> ColumnBuilder \<Rightarrow> (string option \<times> ColumnBuilder) result" where
  "ColumnBuilder_append s b =
     (if scalar_type s \<in> set builder_types then
        if cb_type b = scalar_type s then Inr (None, b\<lparr>cb_values := cb_values b @ [s]\<rparr>)
        else Inl (UndefinedBehaviour ''null typedArrowBuilder dereferenced'')
      else Inr (Some (''Builder for type '' @ quoted (type_string (scalar_type s)) @ '' not implemented yet''), b))"

definition ColumnBuilder_finalize ::
  "(type_id \<Rightarrow> arrow_scalar list \<Rightarrow> string + 'a) \<Rightarrow> ColumnBuilder \<Rightarrow> string + 'a Column" where
  "ColumnBuilder_finalize fin b =
     (case fin (cb_type b) (cb_values b) of
        Inl e \<Rightarrow> Inl (''Error when finalizing ColumnBuilder, '' @ e)
      | Inr a \<Rightarrow> Inr \<lparr>col_name = cb_name b, col_array = a\<rparr>)"

text \<open>The loop over the rows of one column; \<open>skip\<close> is the condition of its \<^verbatim>\<open>continue\<close>.\<close>

definition append_rows ::
  "('t, 'a) arrow \<Rightarrow> (nat \<Rightarrow> bool) \<Rightarrow> 'a Column \<Rightarrow> nat \<Rightarrow> ColumnBuilder \<Rightarrow> ColumnBuilder result" where
  "append_rows A skip col n b =
     rfold (\<lambda>r b. if skip r then Inr b
              else rbind (Column_element A col (int r)) (\<lambda>e.
                   rbind (expected_value e) (\<lambda>s.
                   rbind (ColumnBuilder_append s b) (\<lambda>(_, b'). Inr b')))) [0..<n] b"

definition append_source ::
  "('t, 'a) arrow \<Rightarrow> string list \<Rightarrow> (nat \<Rightarrow> bool) \<Rightarrow> 't TupleSet \<Rightarrow> ColumnBuilder list \<Rightarrow> ColumnBuilder list result"
  where
  "append_source A names skip ts builders =
     rmap (\<lambda>(n, b). rbind (columnByName A ts n) (\<lambda>col. append_rows A skip col (TupleSet_numRows A ts) b))
       (zip names builders)"

type_synonym delete_map = "(nat \<times> nat list) list"

definition delete_set :: "delete_map \<Rightarrow> nat \<Rightarrow> nat list" where
  "delete_set deleteMap i = (case um_find id i deleteMap of Some d \<Rightarrow> d | None \<Rightarrow> [])"

text \<open>Stable rows and memory deltas are skipped unless they are in the delete set, disk deltas if they are.\<close>

definition getFinalResult ::
  "('t, 'a) arrow \<Rightarrow> (type_id \<Rightarrow> arrow_scalar list \<Rightarrow> string + 'a) \<Rightarrow> (string \<Rightarrow> type_id option) \<Rightarrow>
   't DeltaCacheData list \<Rightarrow> 't TupleSet option list \<Rightarrow> 't TupleSet option list \<Rightarrow> delete_map \<Rightarrow>
   string list \<Rightarrow> 't TupleSet result" where
  "getFinalResult A fin field_type deltas stables diskDeltas deleteMap names =
     rbind (rmap (\<lambda>n. case field_type n of
                        Some ty \<Rightarrow> Inr (ColumnBuilder_make n ty)
                      | None \<Rightarrow> Inl (UndefinedBehaviour ''null field dereferenced'')) names) (\<lambda>b0.
     rbind (rfold (\<lambda>i b. rbind (deref_pointer (stables ! i)) (\<lambda>ts.
                append_source A names (\<lambda>r. r \<notin> set (delete_set deleteMap i)) ts b))
              [0..<length stables] b0) (\<lambda>b1.
     rbind (rfold (\<lambda>j b.
                append_source A names (\<lambda>r. r \<notin> set (delete_set deleteMap (j + length stables)))
                  (dcd_delta (deltas ! j)) b)
              [0..<length deltas] b1) (\<lambda>b2.
     rbind (rfold (\<lambda>j b. rbind (deref_pointer (diskDeltas ! j)) (\<lambda>ts.
                append_source A names
                  (\<lambda>r. r \<in> set (delete_set deleteMap (j + length stables + length deltas))) ts b))
              [0..<length diskDeltas] b2) (\<lambda>b3.
     rbind (rmap (\<lambda>b. case ColumnBuilder_finalize fin b of
                        Inr c \<Rightarrow> Inr c
                      | Inl _ \<Rightarrow> Inl (RuntimeError ''DeltaMerge: failed to build column!'')) b3) (\<lambda>cols.
       Inr (TupleSet_make A cols))))))"

section \<open>The merge of a whole partition\<close>

text \<open>
  What the operator is built with: Arrow, Gandiva, the column builders and the schema of the table, and
  what a read through an end iterator of the keep maps gives (see \<open>Keep_Map\<close>).
\<close>

record ('t, 'a, 'b) merge_env =
  env_arrow :: "('t, 'a) arrow"
  env_gandiva :: "('t, 'b) gandiva"
  env_finish :: "type_id \<Rightarrow> arrow_scalar list \<Rightarrow> string + 'a"
  env_field_type :: "string \<Rightarrow> type_id option"
  env_end_read :: "nat result"

definition tell_null_tuples :: "('h, 't, 't delta_payload, 'o) handler" where
  "tell_null_tuples S = tell (TupleMessage None (op_name S)) S"

definition merged_delta_message ::
  "'t TupleSet \<Rightarrow> 8 word list option \<Rightarrow> ('h, 't, 'a) merge_op \<Rightarrow> ('h, 't, 't delta_payload) Message" where
  "merged_delta_message delta bm S =
     DataMessage MergedDeltaMessage
       (MergedDelta (dm_targetTable (op_fields S)) (dm_targetPartition (op_fields S)) delta bm) (op_name S)"

text \<open>The branch of \<open>deltaMerge\<close> in keep-map mode.\<close>

definition keepMapMerge ::
  "('t, 'a, 'b) merge_env \<Rightarrow> bool \<Rightarrow> ('h, 't, 'a) merge_handler" where
  "keepMapMerge E flag S =
     (let A = env_arrow E; G = env_gandiva E; st = op_fields S; names = projectColumnNames S
      in rbind (rmap deref_pointer (dm_stables st)) (\<lambda>stables.
         rbind (getKeepMap A (env_end_read E) flag (dm_deltas st) stables (dm_targetTable st) (dm_stableBm st)) (\<lambda>(keep, bm).
         rbind (stable_at st 0) (\<lambda>stable.
         rbind (projected A stable names) (\<lambda>project_stable.
         rbind (filtered A G [] bm project_stable) (\<lambda>tuple1.
         rbind (projected A tuple1 names) (\<lambda>evaluatedStables.
         rbind (deref_table evaluatedStables) (\<lambda>stableTable.
         let (iterStables, st1) = push_full_chunks A stableTable 1 st
         in rbind (concatenated A [dcd_delta (hd (dm_deltas st))]) (\<lambda>tailDelta.
            rbind (if length (dm_deltas st) > 1
                   then concatenated A [tailDelta, dcd_delta (last (dm_deltas st))]
                   else Inr tailDelta) (\<lambda>combinedMemoryDelta.
            rbind (filtered A G keep None combinedMemoryDelta) (\<lambda>tuple2.
            rbind (projected A tuple2 names) (\<lambda>project_delta.
            rbind (concatenated A
                     [Some (Slice A stableTable ((iterStables - 1) * DefaultChunkSize) None), project_delta])
              (\<lambda>evaluatedDeltas.
            rbind (deref_table evaluatedDeltas) (\<lambda>deltaTable.
            let (iterDeltas, st2) = push_full_chunks A deltaTable 1 st1;
                S1 = S\<lparr>op_fields := push_rest A deltaTable iterDeltas st2\<rparr>;
                S2 = send (merged_delta_message tuple2 (if \<not> flag then bm else None) S1) ''DeltaCache'' S1
            in tell_null_tuples S2))))))))))))))"

definition deltaMerge ::
  "('t, 'a, 'b) merge_env \<Rightarrow> mode \<Rightarrow> bool \<Rightarrow> ('h, 't, 'a) merge_handler" where
  "deltaMerge E md flag S =
     (if dm_deltas (op_fields S) = [] then
        rbind (noMerge (env_arrow E) (projectColumnNames S) (op_fields S)) (\<lambda>st.
          tell_null_tuples (S\<lparr>op_fields := st\<rparr>))
      else if md = keepMapCache then keepMapMerge E flag S
      else if md = resultGenerator then
        rbind (getFinalResult (env_arrow E) (env_finish E) (env_field_type E) (dm_deltas (op_fields S))
                 (dm_stables (op_fields S)) (dm_diskDeltas (op_fields S)) [] (projectColumnNames S)) (\<lambda>finalResult.
          tell (TupleMessage (Some finalResult) (op_name S)) S)
      else Inr S)"

section \<open>The merge of batches\<close>

text \<open>The bits of a batch: from the end of the batches before it to its own end or the end of the bitmap.\<close>

definition sub_bitmap :: "8 word list \<Rightarrow> int \<Rightarrow> 8 word list result" where
  "sub_bitmap bm batchCnt =
     (let batchBegin = int DefaultChunkSize * (batchCnt - 1);
          batchEnd = (if int (length bm) < int DefaultChunkSize * batchCnt then int (length bm)
                      else int DefaultChunkSize * batchCnt)
      in if 0 \<le> batchBegin \<and> batchBegin \<le> batchEnd then
           Inr (take (nat (batchEnd - batchBegin)) (drop (nat batchBegin) bm))
         else Inl (UndefinedBehaviour ''invalid iterator range''))"

definition extend_evaluated :: "('t, 'a) arrow \<Rightarrow> 't TupleSet \<Rightarrow> ('t, 'a) DeltaMerge \<Rightarrow> ('t, 'a) DeltaMerge result" where
  "extend_evaluated A ts st =
     rbind (case dm_evaluatedData st of Some d \<Rightarrow> concatenated A [d, ts] | None \<Rightarrow> Inr ts) (\<lambda>d.
       Inr (st\<lparr>dm_evaluatedData := Some d\<rparr>))"

definition push_next_chunk :: "('t, 'a) arrow \<Rightarrow> 't TupleSet \<Rightarrow> ('t, 'a) DeltaMerge \<Rightarrow> ('t, 'a) DeltaMerge result" where
  "push_next_chunk A ts st =
     (if TupleSet_numRows A ts \<ge> (dm_chunkCounter st + 1) * DefaultChunkSize then
        rbind (deref_table ts) (\<lambda>t.
          let st' = addToQueueAndNotify
                (Slice A t (dm_chunkCounter st * DefaultChunkSize) (Some DefaultChunkSize)) st
          in Inr (st'\<lparr>dm_chunkCounter := dm_chunkCounter st + 1\<rparr>))
      else Inr st)"

definition stablesBatchedDeltaMerge ::
  "('t, 'a, 'b) merge_env \<Rightarrow> 't TupleSet option \<Rightarrow> int \<Rightarrow> ('h, 't, 'a) merge_handler" where
  "stablesBatchedDeltaMerge E batchPtr batchCnt S =
     (let A = env_arrow E; G = env_gandiva E; st = op_fields S; names = projectColumnNames S
      in rbind (deref_pointer batchPtr) (\<lambda>batch.
         if dm_deltas st = [] then
           rbind (projected A batch names) (\<lambda>p. rbind (deref_table p) (\<lambda>t.
             tell_null_tuples (S\<lparr>op_fields := addToQueueAndNotify t st\<rparr>)))
         else
           rbind (getBatchedKeepMap A (env_end_read E) (dm_deltas st) batch (dm_targetTable st) batchCnt (dm_lastBatch st)
                    (dm_keepMapCacheMode st, dm_stableBm st)) (\<lambda>(_, kmm, stableBm).
           rbind (projected A batch names) (\<lambda>project_stable.
           rbind (deref_pointer stableBm) (\<lambda>bm.
           rbind (sub_bitmap bm batchCnt) (\<lambda>subStableBM.
           rbind (filtered A G [] (Some subStableBM) project_stable) (\<lambda>tuple.
           rbind (projected A tuple names) (\<lambda>p.
           rbind (extend_evaluated A p (st\<lparr>dm_keepMapCacheMode := kmm, dm_stableBm := stableBm\<rparr>)) (\<lambda>st1.
           rbind (deref_pointer (dm_evaluatedData st1)) (\<lambda>d.
           rbind (push_next_chunk A d st1) (\<lambda>st2.
             tell_null_tuples (S\<lparr>op_fields := st2\<rparr>))))))))))))"

text \<open>
  The deltas after the last batch.  The loop over the chunks is \<open>push_full_chunks\<close> with the counter
  \<open>dm_chunkCounter + 1\<close>.
\<close>

definition deltasDeltaMerge :: "('t, 'a, 'b) merge_env \<Rightarrow> ('h, 't, 'a) merge_handler" where
  "deltasDeltaMerge E S =
     (let A = env_arrow E; G = env_gandiva E; st = op_fields S; names = projectColumnNames S
      in if dm_deltas st = [] then Inr S
         else
           let tailDelta = dcd_delta (hd (dm_deltas st))
           in rbind (getBatchedKeepMap A (env_end_read E) (dm_deltas st) None (dm_targetTable st) (dm_batchCounter st) True
                       (dm_keepMapCacheMode st, dm_stableBm st)) (\<lambda>(keep, kmm, stableBm).
              let st1 = st\<lparr>dm_lastBatch := True, dm_keepMapCacheMode := kmm, dm_stableBm := stableBm\<rparr>
              in rbind (if length (dm_deltas st) > 1 then
                          rbind (filtered A G keep None (dcd_delta (last (dm_deltas st)))) (\<lambda>tuple.
                          rbind (projected A tuple names) (\<lambda>p.
                          rbind (extend_evaluated A p st1) (\<lambda>st2. Inr (Some tuple, st2))))
                        else Inr (None, st1)) (\<lambda>(mergedDeltas, st2).
                 rbind (deref_pointer (dm_evaluatedData st2)) (\<lambda>d.
                 rbind (concatenated A [d, tailDelta]) (\<lambda>evaluated.
                 rbind (case mergedDeltas of
                          Some m \<Rightarrow> rbind (TupleSet_append A [tailDelta] m) (\<lambda>(_, m'). Inr m')
                        | None \<Rightarrow> Inr tailDelta) (\<lambda>merged.
                 rbind (deref_table evaluated) (\<lambda>t.
                 rbind (TupleSet_combine A merged) (\<lambda>(_, combined).
                   let (iter, st3) = push_full_chunks A t (dm_chunkCounter st2 + 1)
                         (st2\<lparr>dm_evaluatedData := Some evaluated\<rparr>);
                       S1 = S\<lparr>op_fields := push_rest A t iter (st3\<lparr>dm_chunkCounter := iter - 1\<rparr>)\<rparr>
                   in Inr (send (merged_delta_message combined None S1) ''DeltaCache'' S1)))))))))"

section \<open>The handlers\<close>

definition DeltaMerge_onStart :: "('h, 't, 'a) merge_handler" where
  "DeltaMerge_onStart S =
     Inr (send (DataMessage LoadDeltaRequestMessage
         (LoadDeltaRequest (dm_targetTable (op_fields S))
            (DeltaCacheKey_make (dm_targetPartition (op_fields S))) (dm_queryId (op_fields S))) (op_name S))
       (dm_cacheHandlerName (op_fields S)) S)"

definition DeltaMerge_onTuple ::
  "('t, 'a, 'b) merge_env \<Rightarrow> bool \<Rightarrow> 't TupleSet option \<Rightarrow> ('h, 't, 'a) merge_handler" where
  "DeltaMerge_onTuple E flag ts S =
     (let st = (op_fields S)\<lparr>dm_stableTuplesReceived := True\<rparr>
      in if \<not> flag then Inr (S\<lparr>op_fields := st\<lparr>dm_stables := dm_stables st @ [ts]\<rparr>\<rparr>)
         else
           let st1 = st\<lparr>dm_batchCounter := dm_batchCounter st + 1\<rparr>
           in if dm_deltasReceived st1 then
                stablesBatchedDeltaMerge E ts (dm_batchCounter st1) (S\<lparr>op_fields := st1\<rparr>)
              else Inr (S\<lparr>op_fields := st1\<lparr>dm_earlyChunkBatchCnt := dm_earlyChunkBatchCnt st1 @ [dm_batchCounter st1],
                                          dm_stables := dm_stables st1 @ [ts]\<rparr>\<rparr>))"

text \<open>The merge of the early batch with index \<open>i\<close>.\<close>

definition merge_early :: "('t, 'a, 'b) merge_env \<Rightarrow> nat \<Rightarrow> ('h, 't, 'a) merge_handler" where
  "merge_early E i S =
     (let st = op_fields S
      in if i < length (dm_stables st) \<and> i < length (dm_earlyChunkBatchCnt st) then
           stablesBatchedDeltaMerge E (dm_stables st ! i) (dm_earlyChunkBatchCnt st ! i)
             (S\<lparr>op_fields := st\<lparr>dm_earlyStableChunkIdx := int i\<rparr>\<rparr>)
         else Inl (UndefinedBehaviour ''stables_[earlyStableChunkIdx_] out of range''))"

definition DeltaMerge_onDeltas ::
  "('t, 'a, 'b) merge_env \<Rightarrow> bool \<Rightarrow> 't DeltaCacheData list \<Rightarrow> 8 word list option \<Rightarrow> ('h, 't, 'a) merge_handler"
  where
  "DeltaMerge_onDeltas E flag deltas stableBm S =
     (let st = (op_fields S)\<lparr>dm_deltas := deltas, dm_stableBm := stableBm, dm_deltasReceived := True\<rparr>;
          S1 = S\<lparr>op_fields := st\<rparr>
      in if flag \<and> dm_stableTuplesReceived st then
           merge_early E (nat (dm_earlyStableChunkIdx st + 1)) S1
         else Inr S1)"

text \<open>
  The loop over the early batches that are left: \<^verbatim>\<open>earlyStableChunkIdx_ < stables_.size() - 1\<close> is a
  comparison of unsigned numbers, which an index of \<open>- 1\<close> never passes.
\<close>

definition merge_early_rest :: "('t, 'a, 'b) merge_env \<Rightarrow> ('h, 't, 'a) merge_handler" where
  "merge_early_rest E S =
     (let st = op_fields S
      in if dm_earlyStableChunkIdx st < 0 then Inr S
         else if dm_stables st = [] then merge_early E (nat (dm_earlyStableChunkIdx st + 1)) S
         else rfold (merge_early E) [nat (dm_earlyStableChunkIdx st + 1)..<length (dm_stables st)] S)"

definition DeltaMerge_onComplete :: "('h, 't, 'a) merge_handler" where
  "DeltaMerge_onComplete = when_all_complete (notifyComplete DeltaMerge_clear)"

definition allProducersComplete :: "('h, 't, 'd, 'o) POp \<Rightarrow> bool" where
  "allProducersComplete S = local_allComplete Producer (operatorMap S)"

definition DeltaMerge_completed :: "('t, 'a, 'b) merge_env \<Rightarrow> mode \<Rightarrow> bool \<Rightarrow> ('h, 't, 'a) merge_handler" where
  "DeltaMerge_completed E md flag S =
     (if \<not> flag then
        rbind (if allProducersComplete S then deltaMerge E md flag S else Inr S) DeltaMerge_onComplete
      else if allProducersComplete S then
        rbind (merge_early_rest E S) (\<lambda>S1. rbind (deltasDeltaMerge E S1) DeltaMerge_onComplete)
      else Inr S)"

text \<open>\<open>onReceive\<close>; a message whose class does not have the type it is cast to throws.\<close>

definition bad_cast :: "'x result" where
  "bad_cast = Inl (RuntimeError ''std::bad_cast'')"

definition DeltaMerge_onReceive ::
  "('t, 'a, 'b) merge_env \<Rightarrow> mode \<Rightarrow> bool \<Rightarrow> ('h, 't, 't delta_payload) Message \<Rightarrow> ('h, 't, 'a) merge_handler"
  where
  "DeltaMerge_onReceive E md flag msg S =
     (case msg of
        StartMessage _ \<Rightarrow> DeltaMerge_onStart S
      | TupleMessage ts _ \<Rightarrow> DeltaMerge_onTuple E flag ts S
      | CompleteMessage _ \<Rightarrow> DeltaMerge_completed E md flag S
      | DataMessage c d _ \<Rightarrow>
          (case data_type c of
             LOAD_RESPONSE \<Rightarrow>
               (case d of LoadDeltaResponse deltas bm \<Rightarrow> DeltaMerge_onDeltas E flag deltas bm S | _ \<Rightarrow> bad_cast)
           | DISK_DELTAS \<Rightarrow>
               (case d of
                  LoadDiskDeltasResponse ts timestamp \<Rightarrow>
                    Inr (S\<lparr>op_fields := (op_fields S)\<lparr>
                      dm_diskDeltas := dm_diskDeltas (op_fields S) @ [ts],
                      dm_diskDeltasTimestamps := dm_diskDeltasTimestamps (op_fields S) @ [timestamp]\<rparr>\<rparr>)
                | _ \<Rightarrow> bad_cast)
           | _ \<Rightarrow> Inr (notifyError (''Unrecognized message type '' @ getTypeString msg) S))
      | _ \<Rightarrow> Inr (notifyError (''Unrecognized message type '' @ getTypeString msg) S))"

definition DeltaMergePOp ::
  "('t, 'a, 'b) merge_env \<Rightarrow> mode \<Rightarrow> bool \<Rightarrow> ('h, 't, 't delta_payload, ('t, 'a) DeltaMerge) operator_methods"
  where
  "DeltaMergePOp E md flag = \<lparr>onReceive = DeltaMerge_onReceive E md flag\<rparr>"


section \<open>The operator completes once\<close>

lemma tell_null_tuples_frames: "tell_null_tuples S = Inr T \<Longrightarrow> frames S T"
  unfolding tell_null_tuples_def by (erule frames_tell) simp

lemma null_tuples_update:
  assumes "tell_null_tuples (S\<lparr>op_fields := f\<rparr>) = Inr T"
  shows "frames S T"
  using frames_trans [OF frames_op_fields tell_null_tuples_frames [OF assms]] .

lemma frames_send_delta: "frames S (send (merged_delta_message d bm U) r S)"
  by (rule frames_send) (simp add: merged_delta_message_def completion_def)

lemma null_tuples_sent:
  assumes "tell_null_tuples (send (merged_delta_message d bm U) r (S\<lparr>op_fields := f\<rparr>)) = Inr T"
  shows "frames S T"
  by (rule frames_trans [OF frames_trans [OF frames_op_fields frames_send_delta] tell_null_tuples_frames [OF assms]])

lemma keepMapMerge_frames: "keepMapMerge E flag S = Inr T \<Longrightarrow> frames S T"
  unfolding keepMapMerge_def Let_def case_prod_beta by (elim rbindE) (rule null_tuples_sent)

lemma deltaMerge_frames:
  assumes "deltaMerge E md flag S = Inr T"
  shows "frames S T"
proof -
  have "tell (TupleMessage (Some r) (op_name S)) S = Inr T \<Longrightarrow> frames S T" for r
    by (erule frames_tell) simp
  with assms keepMapMerge_frames show ?thesis
    unfolding deltaMerge_def by (auto split: if_splits elim!: rbindE dest: null_tuples_update)
qed

lemma stablesBatchedDeltaMerge_frames: "stablesBatchedDeltaMerge E b n S = Inr T \<Longrightarrow> frames S T"
  unfolding stablesBatchedDeltaMerge_def Let_def case_prod_beta
  by (auto split: if_splits elim!: rbindE dest: null_tuples_update)

lemma sent_frames:
  assumes "Inr (send (merged_delta_message d bm U) r (S\<lparr>op_fields := f\<rparr>)) = Inr T"
  shows "frames S T"
  using assms frames_trans [OF frames_op_fields frames_send_delta] by auto

lemma deltasDeltaMerge_frames:
  assumes "deltasDeltaMerge E S = Inr T"
  shows "frames S T"
proof (cases "dm_deltas (op_fields S) = []")
  case False
  from assms show ?thesis
    unfolding deltasDeltaMerge_def Let_def case_prod_beta if_not_P [OF False] by (elim rbindE) (rule sent_frames)
qed (use assms in \<open>simp add: deltasDeltaMerge_def\<close>)

lemma merge_early_frames:
  assumes "merge_early E i S = Inr T"
  shows "frames S T"
  using assms frames_trans [OF frames_op_fields stablesBatchedDeltaMerge_frames]
  by (auto simp: merge_early_def Let_def split: if_splits)

lemma merge_early_rest_frames: "merge_early_rest E S = Inr T \<Longrightarrow> frames S T"
  unfolding merge_early_rest_def Let_def
  by (auto split: if_splits intro: merge_early_frames elim!: frames_rfold)

lemma DeltaMerge_onReceive_frames:
  assumes "DeltaMerge_onReceive E md flag m S = Inr T" and "\<forall>s. m \<noteq> CompleteMessage s"
  shows "frames S T"
proof -
  have start: "frames S T" if "DeltaMerge_onStart S = Inr T"
  proof -
    have "\<And>h d n. \<not> completion (Anon_send h (DataMessage LoadDeltaRequestMessage d n))" by (simp add: completion_def)
    with that frames_send show ?thesis unfolding DeltaMerge_onStart_def by (metis sum.inject(2))
  qed
  have tuple: "frames S T" if "DeltaMerge_onTuple E flag ts S = Inr T" for ts
    using that frames_trans [OF frames_op_fields stablesBatchedDeltaMerge_frames]
    by (auto simp: DeltaMerge_onTuple_def Let_def split: if_splits)
  have deltas: "frames S T" if "DeltaMerge_onDeltas E flag ds bm S = Inr T" for ds bm
    using that frames_trans [OF frames_op_fields merge_early_frames]
    by (auto simp: DeltaMerge_onDeltas_def Let_def split: if_splits)
  show ?thesis
    using assms start tuple deltas
    by (cases m) (auto simp: DeltaMerge_onReceive_def bad_cast_def
        split: DataMessageType.splits delta_payload.splits)
qed

lemma frames_allComplete:
  assumes "frames S T"
  shows "local_allComplete ty (operatorMap T) = local_allComplete ty (operatorMap S)"
  using assms unfolding frames_def by (auto simp: local_allComplete_def local_destroyActorHandles_def)

text \<open>The work of a \<open>COMPLETE\<close> message, then \<open>onComplete\<close>.\<close>

lemma DeltaMerge_completed_cases:
  assumes "DeltaMerge_completed E md flag S = Inr T"
  shows "(flag \<and> \<not> allProducersComplete S \<and> T = S) \<or> (\<exists>U. frames S U \<and> DeltaMerge_onComplete U = Inr T)"
proof (cases flag)
  case True
  show ?thesis
  proof (cases "allProducersComplete S")
    case True
    with \<open>flag\<close> assms have "rbind (merge_early_rest E S) (\<lambda>S1. rbind (deltasDeltaMerge E S1) DeltaMerge_onComplete) = Inr T"
      by (simp add: DeltaMerge_completed_def)
    then show ?thesis
      by (elim rbindE) (blast intro: frames_trans [OF merge_early_rest_frames deltasDeltaMerge_frames])
  qed (use assms True in \<open>simp add: DeltaMerge_completed_def\<close>)
next
  case False
  have "rbind (if allProducersComplete S then deltaMerge E md flag S else Inr S) DeltaMerge_onComplete = Inr T"
    using assms unfolding DeltaMerge_completed_def if_P [OF False] .
  then show ?thesis
    by (elim rbindE) (auto split: if_splits intro: deltaMerge_frames)
qed

interpretation delta_merge: completing_operator "DeltaMergePOp E md flag" DeltaMerge_clear
  for E :: "('t, 'a, 'b) merge_env" and md flag
proof
  fix m :: "('h, 't, 't delta_payload) Message" and S S' :: "('h, 't, 'a) merge_op"
  assume "onReceive (DeltaMergePOp E md flag) m S = Inr S'" "\<forall>s. m \<noteq> CompleteMessage s"
  then show "frames S S'" using DeltaMerge_onReceive_frames by (fastforce simp: DeltaMergePOp_def)
next
  fix s and S S' :: "('h, 't, 'a) merge_op"
  assume "onReceive (DeltaMergePOp E md flag) (CompleteMessage s) S = Inr S'"
  then have r: "DeltaMerge_completed E md flag S = Inr S'"
    by (simp add: DeltaMergePOp_def DeltaMerge_onReceive_def)
  show "frames S S'" if e: "op_complete S \<or> \<not> local_allComplete Producer (operatorMap S)"
    using DeltaMerge_completed_cases [OF r]
  proof (elim disjE exE conjE)
    fix U assume U: "frames S U" "DeltaMerge_onComplete U = Inr S'"
    have "op_complete U \<or> \<not> local_allComplete Producer (operatorMap U)"
      using e U(1) frames_allComplete [OF U(1)] by (auto simp: frames_def)
    with U show ?thesis by (auto simp: DeltaMerge_onComplete_def when_all_complete_def split: if_splits)
  qed simp
  show "\<exists>T. frames S T \<and> notifyComplete DeltaMerge_clear T = Inr S'"
    if e: "\<not> op_complete S" "local_allComplete Producer (operatorMap S)"
    using DeltaMerge_completed_cases [OF r]
  proof (elim disjE exE conjE)
    fix U assume U: "frames S U" "DeltaMerge_onComplete U = Inr S'"
    have "\<not> op_complete U" "local_allComplete Producer (operatorMap U)"
      using e U(1) frames_allComplete [OF U(1)] by (auto simp: frames_def)
    with U show ?thesis by (auto simp: DeltaMerge_onComplete_def when_all_complete_def)
  qed (use e in \<open>simp add: allProducersComplete_def\<close>)
qed


section \<open>Chunks make up the table\<close>

text \<open>
  What is relied on of slices and projections, for tables with the rows \<open>rows t\<close>; \<open>has t\<close> says that the
  table has the projected columns, and \<open>f\<close> projects a row.
\<close>

definition slice_ok :: "('t, 'a) arrow \<Rightarrow> ('t \<Rightarrow> 'r list) \<Rightarrow> bool" where
  "slice_ok A rows \<longleftrightarrow>
     (\<forall>t. num_rows A t = length (rows t)) \<and>
     (\<forall>t off len. off + len \<le> length (rows t) \<longrightarrow> rows (Slice A t off (Some len)) = take len (drop off (rows t))) \<and>
     (\<forall>t off. off \<le> length (rows t) \<longrightarrow> rows (Slice A t off None) = drop off (rows t))"

definition pushes :: "('t, 'a) DeltaMerge \<Rightarrow> 't list \<Rightarrow> ('t, 'a) DeltaMerge" where
  "pushes st bs = st\<lparr>dm_pushed := dm_pushed st @ map (Pair (queue_of (dm_tableName st))) bs\<rparr>"

lemma pushes_simps [simp]:
  "pushes st [] = st" "pushes (pushes st bs) cs = pushes st (bs @ cs)"
  "addToQueueAndNotify b st = pushes st [b]"
  by (simp_all add: pushes_def addToQueueAndNotify_def)

lemma take_drop_next:
  assumes "0 < k"
  shows "take n (drop ((k - 1) * n) xs) @ drop (k * n) xs = drop ((k - 1) * n) xs"
proof -
  have "drop (k * n) xs = drop n (drop ((k - 1) * n) xs)"
    using assms by (cases k) (simp_all add: add.commute)
  then show ?thesis by (simp only: append_take_drop_id)
qed

lemma push_full_chunks_spec:
  assumes ok: "slice_ok A rows" and "0 < iter" and "(iter - 1) * DefaultChunkSize \<le> length (rows t)"
  shows "\<exists>k bs. push_full_chunks A t iter st = (k, pushes st bs) \<and> 0 < k \<and>
    (k - 1) * DefaultChunkSize \<le> length (rows t) \<and> length (rows t) < k * DefaultChunkSize \<and>
    concat (map rows bs) @ drop ((k - 1) * DefaultChunkSize) (rows t) = drop ((iter - 1) * DefaultChunkSize) (rows t) \<and>
    (\<forall>b \<in> set bs. length (rows b) = DefaultChunkSize)"
  using assms(2,3)
proof (induction "Suc (length (rows t)) - iter * DefaultChunkSize" arbitrary: iter st rule: less_induct)
  case less
  let ?C = DefaultChunkSize
  have n: "num_rows A t = length (rows t)" using ok by (simp add: slice_ok_def)
  show ?case
  proof (cases "iter * ?C \<le> length (rows t)")
    case False
    then show ?thesis
      using less.prems n by (intro exI [of _ iter] exI [of _ "[]"]) (simp add: push_full_chunks.simps)
  next
    case True
    let ?b = "Slice A t ((iter - 1) * ?C) (Some ?C)"
    have off: "(iter - 1) * ?C + ?C = iter * ?C" using less.prems(1) by (cases iter) simp_all
    with True ok have b: "rows ?b = take ?C (drop ((iter - 1) * ?C) (rows t))" by (simp add: slice_ok_def)
    have "Suc (length (rows t)) - (iter + 1) * ?C < Suc (length (rows t)) - iter * ?C"
      using True by (simp add: DefaultChunkSize_def)
    from less.hyps [OF this, of "pushes st [?b]"] True obtain k bs where
      k: "push_full_chunks A t (iter + 1) (pushes st [?b]) = (k, pushes (pushes st [?b]) bs)" "0 < k"
      "(k - 1) * ?C \<le> length (rows t)" "length (rows t) < k * ?C"
      "concat (map rows bs) @ drop ((k - 1) * ?C) (rows t) = drop (iter * ?C) (rows t)"
      "\<forall>b \<in> set bs. length (rows b) = ?C" by auto
    have "push_full_chunks A t iter st = (k, pushes st (?b # bs))"
      using k(1) True n by (simp add: push_full_chunks.simps [of A t iter])
    moreover have "rows ?b @ drop (iter * ?C) (rows t) = drop ((iter - 1) * ?C) (rows t)"
      unfolding b by (rule take_drop_next [OF less.prems(1)])
    moreover have "length (rows ?b) = ?C" using True off unfolding b by simp
    ultimately show ?thesis using k(2-) by (intro exI [of _ k] exI [of _ "?b # bs"]) simp
  qed
qed

lemma push_rest_spec:
  assumes ok: "slice_ok A rows" and "(k - 1) * DefaultChunkSize \<le> length (rows t)"
    and "length (rows t) \<le> (k - 1) * DefaultChunkSize + DefaultChunkSize"
  shows "\<exists>bs. push_rest A t k st = pushes st bs \<and> concat (map rows bs) = drop ((k - 1) * DefaultChunkSize) (rows t) \<and>
    (\<forall>b \<in> set bs. 0 < length (rows b) \<and> length (rows b) \<le> DefaultChunkSize)"
proof -
  let ?b = "Slice A t ((k - 1) * DefaultChunkSize) None"
  have b: "rows ?b = drop ((k - 1) * DefaultChunkSize) (rows t)" "num_rows A ?b = length (rows ?b)"
    using ok assms(2) by (simp_all add: slice_ok_def)
  then have len: "length (rows ?b) \<le> DefaultChunkSize" using assms(3) by simp
  show ?thesis
  proof (cases "rows ?b = []")
    case True
    with b show ?thesis by (intro exI [of _ "[]"]) (simp add: push_rest_def)
  next
    case False
    with b len show ?thesis by (intro exI [of _ "[?b]"]) (simp add: push_rest_def Let_def)
  qed
qed

lemma noMerge_loop_spec:
  assumes ok: "slice_ok A rows" and p: "projected A (Some t) names = Inr (Some u)"
    and n: "length (rows u) = length (rows t)"
    and "0 < iter" and "(iter - 1) * DefaultChunkSize \<le> length (rows t)"
  shows "\<exists>bs. noMerge_loop A names (Some t) iter st = Inr (pushes st bs) \<and>
    concat (map rows bs) = drop ((iter - 1) * DefaultChunkSize) (rows u) \<and>
    (\<forall>b \<in> set bs. 0 < length (rows b) \<and> length (rows b) \<le> DefaultChunkSize)"
  using assms(4,5)
proof (induction "Suc (length (rows t)) - iter * DefaultChunkSize" arbitrary: iter st rule: less_induct)
  case less
  let ?C = DefaultChunkSize
  have nt: "TupleSet_numRows A (Some t) = length (rows t)" using ok by (simp add: slice_ok_def TupleSet_numRows_def)
  have off: "(iter - 1) * ?C + ?C = iter * ?C" using less.prems(1) by (cases iter) simp_all
  show ?case
  proof (cases "iter * ?C < length (rows t)")
    case False
    then have "\<exists>bs. push_rest A u iter st = pushes st bs \<and> concat (map rows bs) = drop ((iter - 1) * ?C) (rows u) \<and>
        (\<forall>b \<in> set bs. 0 < length (rows b) \<and> length (rows b) \<le> ?C)"
      using less.prems off n by (intro push_rest_spec [OF ok]) simp_all
    with False p nt show ?thesis by (simp add: noMerge_loop.simps deref_table_def)
  next
    case True
    let ?b = "Slice A u ((iter - 1) * ?C) (Some ?C)"
    have b: "rows ?b = take ?C (drop ((iter - 1) * ?C) (rows u))"
      using True off ok n by (simp add: slice_ok_def)
    have "Suc (length (rows t)) - (iter + 1) * ?C < Suc (length (rows t)) - iter * ?C"
      using True by (simp add: DefaultChunkSize_def)
    from less.hyps [OF this, of "pushes st [?b]"] True obtain bs where
      bs: "noMerge_loop A names (Some t) (iter + 1) (pushes st [?b]) = Inr (pushes (pushes st [?b]) bs)"
      "concat (map rows bs) = drop (iter * ?C) (rows u)"
      "\<forall>b \<in> set bs. 0 < length (rows b) \<and> length (rows b) \<le> ?C" by auto
    have "noMerge_loop A names (Some t) iter st = Inr (pushes st (?b # bs))"
      using bs(1) True p nt by (simp add: noMerge_loop.simps [of A names "Some t" iter] deref_table_def)
    moreover have "rows ?b @ drop (iter * ?C) (rows u) = drop ((iter - 1) * ?C) (rows u)"
      unfolding b by (rule take_drop_next [OF less.prems(1)])
    moreover have "0 < length (rows ?b) \<and> length (rows ?b) \<le> ?C"
      using True n off unfolding b by (simp add: DefaultChunkSize_def)
    ultimately show ?thesis using bs(2,3) by (intro exI [of _ "?b # bs"]) simp
  qed
qed


section \<open>What the operator pushes\<close>

text \<open>
  Projection: \<open>has t\<close> holds of the tables that have the columns to project to, \<open>f\<close> is the projection of
  a row.
\<close>

definition project_ok ::
  "('t, 'a) arrow \<Rightarrow> ('t \<Rightarrow> 'r list) \<Rightarrow> string list \<Rightarrow> ('t \<Rightarrow> bool) \<Rightarrow> ('r \<Rightarrow> 'r) \<Rightarrow> bool" where
  "project_ok A rows names has f \<longleftrightarrow>
     (\<forall>t. has t \<longrightarrow> (\<exists>u. projectExist A (Some t) names = Inr (Inr (Some u)) \<and> has u \<and> rows u = map f (rows t))) \<and>
     (\<forall>t u p q. has t \<longrightarrow> has u \<longrightarrow> projectExist A (Some t) names = Inr (Inr (Some p)) \<longrightarrow>
        projectExist A (Some u) names = Inr (Inr (Some q)) \<longrightarrow> schema_Equals A q p) \<and>
     (\<forall>t u. schema_Equals A u t \<longrightarrow> has t \<longrightarrow> has u) \<and>
     (\<forall>t off len. schema_Equals A (Slice A t off len) t) \<and>
     (\<forall>r. f (f r) = f r)"

lemma project_okD:
  assumes "project_ok A rows names has f" and "has t"
  obtains u where "projected A (Some t) names = Inr (Some u)" and "has u" and "rows u = map f (rows t)"
    and "projectExist A (Some t) names = Inr (Inr (Some u))"
proof -
  from assms obtain u where "projectExist A (Some t) names = Inr (Inr (Some u))" "has u" "rows u = map f (rows t)"
    unfolding project_ok_def by blast
  with that show ?thesis by (simp add: projected_def)
qed

lemma project_ok_laws:
  assumes "project_ok A rows names has f"
  shows "has t \<Longrightarrow> has u \<Longrightarrow> projectExist A (Some t) names = Inr (Inr (Some p)) \<Longrightarrow>
      projectExist A (Some u) names = Inr (Inr (Some q)) \<Longrightarrow> schema_Equals A q p"
    and "schema_Equals A u t \<Longrightarrow> has t \<Longrightarrow> has u" and "schema_Equals A (Slice A t off l) t" and "f (f r) = f r"
proof -
  have 1: "\<forall>t u p q. has t \<longrightarrow> has u \<longrightarrow> projectExist A (Some t) names = Inr (Inr (Some p)) \<longrightarrow>
      projectExist A (Some u) names = Inr (Inr (Some q)) \<longrightarrow> schema_Equals A q p"
    and 2: "\<forall>t u. schema_Equals A u t \<longrightarrow> has t \<longrightarrow> has u"
    and 3: "\<forall>t off len. schema_Equals A (Slice A t off len) t" and 4: "\<forall>r. f (f r) = f r"
    using assms unfolding project_ok_def by - (elim conjE, assumption)+
  from 1 show "has t \<Longrightarrow> has u \<Longrightarrow> projectExist A (Some t) names = Inr (Inr (Some p)) \<Longrightarrow>
      projectExist A (Some u) names = Inr (Inr (Some q)) \<Longrightarrow> schema_Equals A q p" by (elim allE impE) assumption
  from 2 show "schema_Equals A u t \<Longrightarrow> has t \<Longrightarrow> has u" by blast
  from 3 show "schema_Equals A (Slice A t off l) t" by blast
  from 4 show "f (f r) = f r" by blast
qed

lemma tell_null_tuples_running:
  "connected S \<Longrightarrow> \<not> op_complete S \<Longrightarrow>
   tell_null_tuples S = Inr (S\<lparr>trace := trace S @ to_consumers S (TupleMessage None (op_name S))\<rparr>)"
  by (simp add: tell_null_tuples_def tell_running)

lemma fields_frame [simp]:
  "connected (S\<lparr>op_fields := x\<rparr>) = connected S" "to_consumers (S\<lparr>op_fields := x\<rparr>) m = to_consumers S m"
  "connected (S\<lparr>trace := y\<rparr>) = connected S" "to_consumers (S\<lparr>trace := y\<rparr>) m = to_consumers S m"
  by (auto simp: to_consumers_def handle_of_def connected_def connected_to_def [abs_def])

text \<open>
  C31.  When the cache holds no delta for the partition, the operator pushes the projected rows of the first
  stable table it has received, all of them and in order, in chunks that are not empty and have at most
  \<open>DefaultChunkSize\<close> rows, and then sends each consumer one tuple message without tuples.  Stable tables
  received after the first (\<open>others\<close>) are neither merged nor pushed: \<^verbatim>\<open>noMerge\<close> reads
  \<^verbatim>\<open>stables_[0]\<close> only.
\<close>

theorem merge_without_deltas_pushes_stable:
  assumes "slice_ok (env_arrow E) rows" and "dm_deltas (op_fields S) = []"
    and "dm_stables (op_fields S) = Some (Some t) # others"
    and "projectExist (env_arrow E) (Some t) (projectColumnNames S) = Inr (Inr (Some u))"
    and "length (rows u) = length (rows t)" and "connected S" and "\<not> op_complete S"
  shows "\<exists>bs. deltaMerge E md flag S = Inr (S\<lparr>
      op_fields := (op_fields S)\<lparr>dm_pushed := dm_pushed (op_fields S)
        @ map (Pair (queue_of (dm_tableName (op_fields S)))) bs\<rparr>,
      trace := trace S @ to_consumers S (TupleMessage None (op_name S))\<rparr>) \<and>
    concat (map rows bs) = rows u \<and>
    (\<forall>b \<in> set bs. 0 < length (rows b) \<and> length (rows b) \<le> DefaultChunkSize)"
proof -
  have "projected (env_arrow E) (Some t) (projectColumnNames S) = Inr (Some u)"
    using assms(4) by (simp add: projected_def)
  from noMerge_loop_spec [OF assms(1) this assms(5), of 1 "op_fields S"] obtain bs where
    "noMerge_loop (env_arrow E) (projectColumnNames S) (Some t) 1 (op_fields S) = Inr (pushes (op_fields S) bs)"
    "concat (map rows bs) = rows u"
    "\<forall>b \<in> set bs. 0 < length (rows b) \<and> length (rows b) \<le> DefaultChunkSize" by auto
  then show ?thesis
    using assms(2,3,6,7)
    by (intro exI [of _ bs]) (simp add: deltaMerge_def noMerge_def stable_at_def tell_null_tuples_running pushes_def)
qed

lemma merge_input_rows:
  assumes "merge_input A table sts [d] S [D]"
  shows "length S = TupleSet_numRows A sts" and "length (dr_pks D) = TupleSet_numRows A (dcd_delta d)"
proof -
  have *: "rmap f [0..<n] = Inr ys \<Longrightarrow> length ys = n" for f n and ys :: "int32 list list"
    by (auto dest!: rmap_length)
  from assms show "length S = TupleSet_numRows A sts" "length (dr_pks D) = TupleSet_numRows A (dcd_delta d)"
    by (auto simp: merge_input_def stable_rows_def stable_source_def delta_rows_of_def mk_delta_source_def
        result_simps dest!: *)
qed

lemma concatenated_same:
  assumes ok: "gandiva_ok A G rows brows" and "\<forall>u \<in> set ts. schema_Equals A u t"
  obtains r where "concatenated A (map Some (t # ts)) = Inr (Some r)" and "rows r = concat (map rows (t # ts))"
    and "schema_Equals A r t"
proof -
  obtain r where r: "ConcatenateTables A (t # ts) = Inr r" "rows r = concat (map rows (t # ts))" "schema_Equals A r t"
    by (rule gandiva_concat [OF assms])
  have "concat_tables A t (map Some us) acc = Inr (Inr (acc @ us))" if "set us \<subseteq> set ts" for us acc
    using that assms(2) by (induction us arbitrary: acc) auto
  from this [of ts "[t]"] r show ?thesis
    by (intro that [of r]) (simp_all add: concatenated_def TupleSet_concatenate_def)
qed

lemma to_DeltaCache:
  "send (merged_delta_message x bm U) ''DeltaCache'' S =
     emit (Anon_send_atom (deltaCacheActor S) MergedDeltaAtom (merged_delta_message x bm U)) S"
  by (simp add: send_def merged_delta_message_def)

lemma merged_delta_pushes [simp]:
  "merged_delta_message x bm (S\<lparr>op_fields := pushes (op_fields S) bs\<rparr>) = merged_delta_message x bm S"
  by (simp add: merged_delta_message_def pushes_def)

text \<open>
  C30.  Merging one delta overlays it on the stable rows: with sorted primary keys and at least one row to keep
  in every batch of the delta, the operator pushes the projections of the stable rows whose key the delta
  does not mention, in order, followed by those of the rows of the delta that are not deletions; it
  sends these rows and the bitmap of the valid stable rows back to the delta cache, and then each
  consumer a tuple message without tuples.
\<close>

theorem merge_single_delta_overlays_stable:
  assumes ok: "gandiva_ok (env_arrow E) (env_gandiva E) rows brows" "slice_ok (env_arrow E) rows"
      "project_ok (env_arrow E) rows (projectColumnNames S) has f"
    and S: "connected S" "\<not> op_complete S" "dm_deltas (op_fields S) = [d]" "dm_stables (op_fields S) = [Some (Some t)]"
    and d: "dcd_delta d = Some dt" and cols: "has t" "has dt"
    and input: "merge_input (env_arrow E) (dm_targetTable (op_fields S)) (Some t) [d] K [D]"
    and covers: "\<And>c bs. rows c = rows dt \<Longrightarrow>
      TableBatchReader (env_gandiva E) c DefaultChunkSize = map Inr bs \<Longrightarrow>
      covers brows (filter (\<lambda>i. dr_types D ! i \<noteq> ''DELETE'') [0..<length (dr_pks D)]) 0 bs"
  shows "\<exists>bs m. deltaMerge E keepMapCache False S = Inr (S\<lparr>
      op_fields := (op_fields S)\<lparr>dm_pushed := dm_pushed (op_fields S)
        @ map (Pair (queue_of (dm_tableName (op_fields S)))) bs\<rparr>,
      trace := trace S @ Anon_send_atom (deltaCacheActor S) MergedDeltaAtom (DataMessage MergedDeltaMessage
          (MergedDelta (dm_targetTable (op_fields S)) (dm_targetPartition (op_fields S)) (Some m)
            (Some (map (\<lambda>r. if K ! r \<in> set (dr_pks D) then 0 else 1) [0..<length K]))) (op_name S))
        # to_consumers S (TupleMessage None (op_name S))\<rparr>) \<and>
    rows m = map (\<lambda>i. rows dt ! i) (filter (\<lambda>i. dr_types D ! i \<noteq> ''DELETE'') [0..<length (dr_pks D)]) \<and>
    concat (map rows bs) =
      map (\<lambda>r. f (rows t ! r)) (filter (\<lambda>r. K ! r \<notin> set (dr_pks D)) [0..<length K]) @
      map (\<lambda>i. f (rows dt ! i)) (filter (\<lambda>i. dr_types D ! i \<noteq> ''DELETE'') [0..<length (dr_pks D)]) \<and>
    (\<forall>b \<in> set bs. 0 < length (rows b) \<and> length (rows b) \<le> DefaultChunkSize)"
proof -
  let ?A = "env_arrow E" and ?G = "env_gandiva E" and ?names = "projectColumnNames S" and ?C = DefaultChunkSize
  define keep where "keep = filter (\<lambda>i. dr_types D ! i \<noteq> ''DELETE'') [0..<length (dr_pks D)]"
  define bm where "bm = map (\<lambda>r. if K ! r \<in> set (dr_pks D) then 0 else 1 :: 8 word) [0..<length K]"
  have nrows: "num_rows ?A x = length (rows x)" for x using ok(2) by (simp add: slice_ok_def)
  have len: "length K = length (rows t)" "length (dr_pks D) = length (rows dt)"
    using merge_input_rows [OF input] by (simp_all add: d TupleSet_numRows_def nrows)
  have km: "getKeepMap ?A r False [d] [Some t] (dm_targetTable (op_fields S)) b = Inr (keep, Some bm)" for r b
    using getDeleteMap_single [OF input] by (simp add: getKeepMap_def keep_def bm_def)
  note like = project_ok_laws(2) [OF ok(3)] and ff = project_ok_laws(4) [OF ok(3)]
  \<comment> \<open>the stable rows\<close>
  obtain u where u: "projected ?A (Some t) ?names = Inr (Some u)" "has u" "rows u = map f (rows t)"
    by (rule project_okD [OF ok(3) cols(1)])
  have "length bm = length (rows u)" by (simp add: bm_def u(3) len)
  from evaluate_bitmap_rows [OF ok(1) this, of "[]"] obtain u' where
    u': "filtered ?A ?G [] (Some bm) (Some u) = Inr (Some u')"
    "rows u' = map (\<lambda>i. rows u ! i) (filter (\<lambda>i. bm ! i = 1) [0..<length (rows u)])" "schema_Equals ?A u' u"
    by (auto simp: filtered_def)
  obtain v where v: "projected ?A (Some u') ?names = Inr (Some v)" "rows v = map f (rows u')"
    "projectExist ?A (Some u') ?names = Inr (Inr (Some v))"
    by (rule project_okD [OF ok(3) like [OF u'(3) u(2)]])
  have "filter (\<lambda>i. bm ! i = 1) [0..<length (rows u)] = filter (\<lambda>r. K ! r \<notin> set (dr_pks D)) [0..<length K]"
    by (intro filter_cong) (simp_all add: bm_def u(3) len)
  then have rv: "rows v = map (\<lambda>r. f (rows t ! r)) (filter (\<lambda>r. K ! r \<notin> set (dr_pks D)) [0..<length K])"
    by (simp add: v(2) u'(2) u(3) ff len)
  obtain k bs1 where k: "push_full_chunks ?A v 1 (op_fields S) = (k, pushes (op_fields S) bs1)" "0 < k"
    "(k - 1) * ?C \<le> length (rows v)" "concat (map rows bs1) @ drop ((k - 1) * ?C) (rows v) = rows v"
    "\<forall>b \<in> set bs1. length (rows b) = ?C"
    using push_full_chunks_spec [OF ok(2), of 1 v "op_fields S"] by auto
  \<comment> \<open>the delta\<close>
  obtain c where c: "concatenated ?A [Some dt] = Inr (Some c)" "rows c = rows dt" "schema_Equals ?A c dt"
    using concatenated_same [OF ok(1), of "[]" dt] by auto
  have "sorted_wrt (<) keep" by (simp add: keep_def sorted_wrt_filter)
  moreover have "\<forall>x \<in> set keep. x < length (rows c)" by (auto simp: keep_def c(2) len)
  moreover have "\<And>bs. TableBatchReader ?G c ?C = map Inr bs \<Longrightarrow> covers brows keep 0 bs"
    unfolding keep_def by (rule covers [OF c(2)])
  ultimately obtain m where m: "filtered ?A ?G keep None (Some c) = Inr (Some m)"
    "rows m = map (\<lambda>i. rows dt ! i) keep" "schema_Equals ?A m c"
    using evaluate_positions_rows [OF ok(1), of keep c] by (auto simp: filtered_def c(2))
  obtain w where w: "projected ?A (Some m) ?names = Inr (Some w)" "rows w = map f (rows m)"
    "projectExist ?A (Some m) ?names = Inr (Inr (Some w))"
    by (rule project_okD [OF ok(3) like [OF m(3) like [OF c(3) cols(2)]]])
  \<comment> \<open>what is left of the stable rows, followed by the delta\<close>
  let ?s = "Slice ?A v ((k - 1) * ?C) None"
  have s: "rows ?s = drop ((k - 1) * ?C) (rows v)" using ok(2) k(3) by (simp add: slice_ok_def)
  have "schema_Equals ?A w v"
    by (rule project_ok_laws(1) [OF ok(3) like [OF u'(3) u(2)] like [OF m(3) like [OF c(3) cols(2)]] v(3) w(3)])
  moreover have "schema_Equals ?A ?s v" by (rule project_ok_laws(3) [OF ok(3)])
  ultimately have "schema_Equals ?A w ?s"
    using gandiva_okD(1) [OF ok(1)] by (meson equivp_symp equivp_transp)
  then obtain x where x: "concatenated ?A [Some ?s, Some w] = Inr (Some x)" "rows x = rows ?s @ rows w"
    using concatenated_same [OF ok(1), of "[w]" ?s] by auto
  obtain j bs2 where j: "push_full_chunks ?A x 1 (pushes (op_fields S) bs1) = (j, pushes (op_fields S) (bs1 @ bs2))" "0 < j"
    "(j - 1) * ?C \<le> length (rows x)" "length (rows x) < j * ?C"
    "concat (map rows bs2) @ drop ((j - 1) * ?C) (rows x) = rows x" "\<forall>b \<in> set bs2. length (rows b) = ?C"
    using push_full_chunks_spec [OF ok(2), of 1 x "pushes (op_fields S) bs1"] by auto
  have "length (rows x) \<le> (j - 1) * ?C + ?C" using j(2,4) by (cases j) simp_all
  from push_rest_spec [OF ok(2) j(3) this, of "pushes (op_fields S) (bs1 @ bs2)"] obtain bs3 where
    bs3: "push_rest ?A x j (pushes (op_fields S) (bs1 @ bs2)) = pushes (op_fields S) ((bs1 @ bs2) @ bs3)"
    "concat (map rows bs3) = drop ((j - 1) * ?C) (rows x)"
    "\<forall>b \<in> set bs3. 0 < length (rows b) \<and> length (rows b) \<le> ?C" by auto
  have run: "deltaMerge E keepMapCache False S = tell_null_tuples (emit (Anon_send_atom (deltaCacheActor S) MergedDeltaAtom
      (merged_delta_message (Some m) (Some bm) S)) (S\<lparr>op_fields := pushes (op_fields S) ((bs1 @ bs2) @ bs3)\<rparr>))"
    using S(3,4) km u(1) u'(1) v(1) k(1) c(1) d m(1) w(1) x(1) j(1) bs3(1)
    by (simp add: deltaMerge_def keepMapMerge_def stable_at_def deref_table_def to_DeltaCache)
  have "concat (map rows ((bs1 @ bs2) @ bs3)) = concat (map rows bs1) @ rows x"
    using j(5) bs3(2) by simp
  also have "\<dots> = (concat (map rows bs1) @ rows ?s) @ rows w" by (simp add: x(2))
  also have "\<dots> = rows v @ rows w" unfolding s k(4) ..
  finally have all: "concat (map rows ((bs1 @ bs2) @ bs3)) = rows v @ rows w" .
  have C: "0 < ?C" by (simp add: DefaultChunkSize_def)
  let ?U = "S\<lparr>op_fields := pushes (op_fields S) ((bs1 @ bs2) @ bs3)\<rparr>"
  have "deltaMerge E keepMapCache False S = Inr (?U\<lparr>trace := trace S @ Anon_send_atom (deltaCacheActor S) MergedDeltaAtom
      (merged_delta_message (Some m) (Some bm) S) # to_consumers S (TupleMessage None (op_name S))\<rparr>)"
    unfolding run emit_def by (subst tell_null_tuples_running) (use S(1,2) in simp_all)
  then show ?thesis
    unfolding keep_def [symmetric] bm_def [symmetric] merged_delta_message_def pushes_def
  proof (intro exI [of _ "(bs1 @ bs2) @ bs3"] exI [of _ m] conjI)
    show "rows m = map (\<lambda>i. rows dt ! i) keep" by (rule m(2))
    show "concat (map rows ((bs1 @ bs2) @ bs3)) =
      map (\<lambda>r. f (rows t ! r)) (filter (\<lambda>r. K ! r \<notin> set (dr_pks D)) [0..<length K]) @
      map (\<lambda>i. f (rows dt ! i)) keep"
      unfolding all rv w(2) m(2) by simp
    show "\<forall>b \<in> set ((bs1 @ bs2) @ bs3). 0 < length (rows b) \<and> length (rows b) \<le> ?C"
      using k(5) j(6) bs3(3) C by auto
  qed simp
qed


section \<open>The result generator drops rows\<close>

lemma rfold_id: "(\<And>x. x \<in> set xs \<Longrightarrow> f x s = Inr s) \<Longrightarrow> rfold f xs s = Inr s"
  by (induction xs) simp_all

lemma append_source_skips:
  assumes "\<forall>n \<in> set names. \<exists>c. columnByName A ts n = Inr c" and "\<And>r. skip r" and "length b = length names"
  shows "append_source A names skip ts b = Inr b"
proof -
  have "append_rows A skip col n x = Inr x" for col n x
    unfolding append_rows_def by (rule rfold_id) (simp add: assms(2))
  then have "rmap (\<lambda>(n, b). rbind (columnByName A ts n) (\<lambda>col. append_rows A skip col k b)) (zip names b) = Inr b" for k
    using assms(1,3)
  proof (induction names arbitrary: b)
    case (Cons n names)
    then show ?case by (cases b) auto
  qed simp
  then show ?thesis by (simp add: append_source_def)
qed

text \<open>Whatever the stable tables and the memory deltas hold, nothing of it is taken.\<close>

lemma getFinalResult_disk_only:
  assumes "\<forall>p \<in> set stables. \<exists>ts. p = Some ts \<and> (\<forall>n \<in> set names. \<exists>c. columnByName A ts n = Inr c)"
    and "\<forall>d \<in> set deltas. \<forall>n \<in> set names. \<exists>c. columnByName A (dcd_delta d) n = Inr c"
  shows "getFinalResult A fin ft deltas stables diskDeltas [] names = getFinalResult A fin ft [] [] diskDeltas [] names"
proof -
  have none: "delete_set [] i = []" for i by (simp add: delete_set_def um_find_def us_find_def)
  have 1: "rfold (\<lambda>i b. rbind (deref_pointer (stables ! i)) (\<lambda>ts. append_source A names (\<lambda>r. True) ts b))
      [0..<length stables] b = Inr b" if "length b = length names" for b
  proof (rule rfold_id)
    fix i assume "i \<in> set [0..<length stables]"
    then have "stables ! i \<in> set stables" by simp
    with assms(1) obtain ts where ts: "stables ! i = Some ts" "\<forall>n \<in> set names. \<exists>c. columnByName A ts n = Inr c" by blast
    show "rbind (deref_pointer (stables ! i)) (\<lambda>ts. append_source A names (\<lambda>r. True) ts b) = Inr b"
      using append_source_skips [OF ts(2) _ that] by (simp add: ts(1))
  qed
  have 2: "rfold (\<lambda>j b. append_source A names (\<lambda>r. True) (dcd_delta (deltas ! j)) b) [0..<length deltas] b = Inr b"
    if "length b = length names" for b
    by (rule rfold_id) (use assms(2) that in \<open>auto intro!: append_source_skips\<close>)
  show ?thesis
  proof (cases "rmap (\<lambda>n. case ft n of Some ty \<Rightarrow> Inr (ColumnBuilder_make n ty)
      | None \<Rightarrow> Inl (UndefinedBehaviour ''null field dereferenced'')) names")
    case (Inr b)
    then have "length b = length names" by (rule rmap_length)
    with Inr show ?thesis by (simp add: getFinalResult_def none 1 2)
  qed (simp add: getFinalResult_def)
qed

text \<open>The scalars of a column of a tuple set, row by row.\<close>

definition holds_column :: "('t, 'a) arrow \<Rightarrow> 't TupleSet \<Rightarrow> string \<Rightarrow> arrow_scalar list \<Rightarrow> bool" where
  "holds_column A ts n vs \<longleftrightarrow> (\<exists>c. columnByName A ts n = Inr c \<and> TupleSet_numRows A ts = length vs \<and>
     (\<forall>r < length vs. Column_element A c (int r) = Inr (Inr (vs ! r))))"

lemma append_rows_all:
  assumes "\<forall>r < length vs. Column_element A c (int r) = Inr (Inr (vs ! r))"
    and "\<forall>v \<in> set vs. scalar_type v = cb_type b" and "cb_type b \<in> set builder_types"
  shows "append_rows A (\<lambda>_. False) c (length vs) b = Inr (b\<lparr>cb_values := cb_values b @ vs\<rparr>)"
proof -
  have "\<exists>b'. append_rows A (\<lambda>_. False) c (length vs) b = Inr b' \<and> b' = b\<lparr>cb_values := cb_values b @ take (length vs) vs\<rparr>"
    unfolding append_rows_def
    by (rule rfold_upt [where P = "\<lambda>k b'. b' = b\<lparr>cb_values := cb_values b @ take k vs\<rparr>"])
      (use assms in \<open>auto simp: ColumnBuilder_append_def take_Suc_conv_app_nth\<close>)
  then show ?thesis by simp
qed

text \<open>The builders of the result, when the columns of \<open>ds\<close> have been appended.\<close>

definition builders_of :: "(string \<Rightarrow> type_id) \<Rightarrow> (string \<Rightarrow> arrow_scalar list) \<Rightarrow> string list \<Rightarrow> ColumnBuilder list" where
  "builders_of ty vals names = map (\<lambda>n. \<lparr>cb_name = n, cb_type = ty n, cb_values = vals n\<rparr>) names"

lemma append_source_all:
  assumes "\<forall>n \<in> set names. holds_column A ts n (vs n) \<and> ty n \<in> set builder_types \<and> (\<forall>v \<in> set (vs n). scalar_type v = ty n)"
  shows "append_source A names (\<lambda>_. False) ts (builders_of ty vals names) = Inr (builders_of ty (\<lambda>n. vals n @ vs n) names)"
  using assms
proof (induction names)
  case (Cons n names)
  from Cons.prems obtain c where c: "columnByName A ts n = Inr c" "TupleSet_numRows A ts = length (vs n)"
    "\<forall>r < length (vs n). Column_element A c (int r) = Inr (Inr (vs n ! r))" by (auto simp: holds_column_def)
  with append_rows_all [OF c(3), of "\<lparr>cb_name = n, cb_type = ty n, cb_values = vals n\<rparr>"] Cons show ?case
    by (simp add: append_source_def builders_of_def)
qed (simp add: append_source_def builders_of_def)

text \<open>
  C32.  The result generator is called with an empty delete map, and takes a stable row or a row of a memory
  delta only if the delete map lists it.  So the result has exactly the rows of the disk deltas: each
  column is the array that Arrow finishes from the values of that column in the disk deltas, one delta
  after the other and in the order of the rows; whatever the stable tables and the memory deltas hold,
  none of their rows is in it.
\<close>

theorem result_generator_drops_stable_and_memory_rows:
  assumes "\<forall>p \<in> set stables. \<exists>ts. p = Some ts \<and> (\<forall>n \<in> set names. \<exists>c. columnByName A ts n = Inr c)"
    and "\<forall>d \<in> set deltas. \<forall>n \<in> set names. \<exists>c. columnByName A (dcd_delta d) n = Inr c"
    and types: "\<forall>n \<in> set names. ft n = Some (ty n) \<and> ty n \<in> set builder_types"
    and disk: "\<forall>ts \<in> set ds. \<forall>n \<in> set names. holds_column A ts n (vals ts n) \<and> (\<forall>v \<in> set (vals ts n). scalar_type v = ty n)"
    and finish: "\<forall>n \<in> set names. fin (ty n) (concat (map (\<lambda>ts. vals ts n) ds)) = Inr (arr n)"
  shows "getFinalResult A fin ft deltas stables (map Some ds) [] names =
    Inr (TupleSet_make A (map (\<lambda>n. \<lparr>col_name = n, col_array = arr n\<rparr>) names))"
proof -
  let ?B = "\<lambda>k. builders_of ty (\<lambda>n. concat (map (\<lambda>ts. vals ts n) (take k ds))) names"
  have start: "rmap (\<lambda>n. case ft n of Some ty \<Rightarrow> Inr (ColumnBuilder_make n ty)
      | None \<Rightarrow> Inl (UndefinedBehaviour ''null field dereferenced'')) names = Inr (?B 0)"
    using types unfolding builders_of_def by (intro rmap_cong_Inr) (simp add: ColumnBuilder_make_def)
  have "\<exists>b. rfold (\<lambda>j b. rbind (deref_pointer (map Some ds ! j)) (\<lambda>ts. append_source A names (\<lambda>_. False) ts b))
      [0..<length ds] (?B 0) = Inr b \<and> b = ?B (length ds)"
  proof (rule rfold_upt [where P = "\<lambda>k b. b = ?B k"])
    fix k b assume k: "k < length ds" and b: "b = ?B k"
    have "ds ! k \<in> set ds" using k by (rule nth_mem)
    with disk types have "\<forall>n \<in> set names. holds_column A (ds ! k) n (vals (ds ! k) n) \<and> ty n \<in> set builder_types \<and>
        (\<forall>v \<in> set (vals (ds ! k) n). scalar_type v = ty n)" by blast
    from append_source_all [OF this, of "\<lambda>n. concat (map (\<lambda>ts. vals ts n) (take k ds))"]
    have "append_source A names (\<lambda>_. False) (ds ! k) b = Inr (?B (Suc k))"
      unfolding b using k by (simp add: take_Suc_conv_app_nth)
    then show "\<exists>c. rbind (deref_pointer (map Some ds ! k)) (\<lambda>ts. append_source A names (\<lambda>_. False) ts b) = Inr c \<and> c = ?B (Suc k)"
      using k by simp
  qed simp
  then have run: "rfold (\<lambda>j b. rbind (deref_pointer (map Some ds ! j)) (\<lambda>ts. append_source A names (\<lambda>_. False) ts b))
      [0..<length ds] (?B 0) = Inr (?B (length ds))" by simp
  have "rmap (\<lambda>b. case ColumnBuilder_finalize fin b of Inr c \<Rightarrow> Inr c
      | Inl _ \<Rightarrow> Inl (RuntimeError ''DeltaMerge: failed to build column!'')) (?B (length ds)) =
    Inr (map (\<lambda>n. \<lparr>col_name = n, col_array = arr n\<rparr>) names)"
    unfolding builders_of_def
    by (rule rmap_map_Inr) (use finish in \<open>simp add: ColumnBuilder_finalize_def\<close>)
  moreover have "delete_set [] i = []" for i by (simp add: delete_set_def um_find_def us_find_def)
  ultimately show ?thesis
    unfolding getFinalResult_disk_only [OF assms(1,2)]
    using start run by (simp add: getFinalResult_def)
qed

section \<open>An instance\<close>

text \<open>Tables as their fields and their rows, read in one batch.\<close>

type_synonym row_list_table = "string list \<times> arrow_scalar list list"

definition column_of :: "row_list_table \<Rightarrow> nat \<Rightarrow> arrow_scalar list" where
  "column_of t i = map (\<lambda>r. r ! i) (snd t)"

definition rel_arrow :: "(row_list_table, arrow_scalar list) arrow" where
  "rel_arrow =
     \<lparr>num_rows = (\<lambda>t. length (snd t)), num_columns = (\<lambda>t. length (fst t)), field_names = fst,
      schema_Equals = (\<lambda>t u. fst t = fst u),
      GetColumnByName = (\<lambda>t n. map_option (column_of t) (List.find (\<lambda>i. fst t ! i = n) [0..<length (fst t)])),
      table_column = column_of,
      Table_Make = (\<lambda>cols. (map fst cols, case cols of [] \<Rightarrow> []
         | c # _ \<Rightarrow> map (\<lambda>i. map (\<lambda>c. snd c ! i) cols) [0..<length (snd c)])),
      ConcatenateTables = (\<lambda>ts. case ts of [] \<Rightarrow> Inl ''no tables'' | t # us \<Rightarrow> Inr (fst t, concat (map snd (t # us)))),
      RenameColumns = (\<lambda>t ns. Inr (ns, snd t)), CombineChunks = Inr,
      Slice = (\<lambda>t off len. (fst t, case len of None \<Rightarrow> drop off (snd t) | Some l \<Rightarrow> take l (drop off (snd t)))),
      array_length = length, array_type = (\<lambda>a. case a of [] \<Rightarrow> OtherType ''empty'' | s # _ \<Rightarrow> scalar_type s),
      array_value = (!), array_buffer_sizes = (\<lambda>a. [of_nat (length a)]),
      float_to_int32 = (\<lambda>w. 0), double_to_int32 = (\<lambda>w. 0)\<rparr>"

definition rel_gandiva :: "(row_list_table, arrow_scalar list list) gandiva" where
  "rel_gandiva =
     \<lparr>TableBatchReader = (\<lambda>t n. if snd t = [] then [] else [Inr (snd t)]), batch_num_rows = length,
      MakeInt64 = (\<lambda>n. None),
      PopulateFromBitMap = (\<lambda>n bits s m. Inr (filter (\<lambda>i. bit (bits ! (i div 8)) (i mod 8)) [0..<n])),
      Projector_Make = (\<lambda>t. None), Projector_Evaluate = (\<lambda>t b sel. Inr (fst t, map (\<lambda>i. b ! i) sel)),
      EmptyTable = (\<lambda>t. (fst t, []))\<rparr>"

lemma rel_gandiva_ok: "gandiva_ok rel_arrow rel_gandiva snd (\<lambda>b. b)"
proof -
  have "\<exists>bs. TableBatchReader rel_gandiva t DefaultChunkSize = map Inr bs \<and> (\<forall>b \<in> set bs. b \<noteq> []) \<and>
      concat (map (\<lambda>b. b) bs) = snd t" for t
    by (cases "snd t = []") (auto simp: rel_gandiva_def intro: exI [of _ "[]"] exI [of _ "[snd t]"])
  then show ?thesis
    by (auto simp: gandiva_ok_def rel_arrow_def rel_gandiva_def equivp_def fun_eq_iff)
qed

lemma rel_slice_ok: "slice_ok rel_arrow snd"
  by (auto simp: slice_ok_def rel_arrow_def)

definition first_is_k :: "row_list_table \<Rightarrow> bool" where
  "first_is_k t = (take 1 (fst t) = [''k''])"

lemma first_is_k_project:
  assumes "first_is_k t"
  shows "projectExist rel_arrow (Some t) [''k''] = Inr (Inr (Some ([''k''], map (\<lambda>r. [r ! 0]) (snd t))))"
proof -
  obtain fs rs where t: "t = (''k'' # fs, rs)"
    using assms by (cases t; cases "fst t") (auto simp: first_is_k_def)
  have "List.find (\<lambda>i. (''k'' # fs) ! i = ''k'') [0..<length (''k'' # fs)] = Some 0"
    by (simp add: upt_rec [of 0] del: upt_Suc)
  moreover have "map (\<lambda>i. [map (\<lambda>r. r ! 0) rs ! i]) [0..<length rs] = map (\<lambda>r. [r ! 0]) rs"
    by (intro nth_equalityI) simp_all
  moreover have "canonicalize ''k'' = ''k''" by code_simp
  ultimately show ?thesis
    by (simp add: projectExist_def getColumnByName_def deref_table_def t rel_arrow_def column_of_def TupleSet_make_def
        del: upt_Suc)
qed

lemma rel_schema:
  "schema_Equals rel_arrow t u \<longleftrightarrow> fst t = fst u" "fst (Slice rel_arrow t off l) = fst t"
  by (simp_all add: rel_arrow_def)

lemma rel_project_ok: "project_ok rel_arrow snd [''k''] first_is_k (\<lambda>r. [r ! 0])"
  unfolding project_ok_def
proof (intro conjI allI impI)
  fix t assume "first_is_k t"
  then show "\<exists>u. projectExist rel_arrow (Some t) [''k''] = Inr (Inr (Some u)) \<and> first_is_k u \<and>
      snd u = map (\<lambda>r. [r ! 0]) (snd t)"
    by (simp add: first_is_k_project first_is_k_def)
qed (auto simp: rel_schema first_is_k_project first_is_k_def)


definition rel_finish :: "type_id \<Rightarrow> arrow_scalar list \<Rightarrow> string + arrow_scalar list" where
  "rel_finish ty vs = Inr vs"

definition rel_env :: "(row_list_table, arrow_scalar list, arrow_scalar list list) merge_env" where
  "rel_env = \<lparr>env_arrow = rel_arrow, env_gandiva = rel_gandiva, env_finish = rel_finish,
     env_field_type = (\<lambda>n. if n = ''k'' then Some Int32Type else None), env_end_read = Inr 0\<rparr>"

definition rel_stable :: row_list_table where
  "rel_stable = ([''k''], [[Int32Scalar 1], [Int32Scalar 2], [Int32Scalar 3]])"

definition rel_delta :: row_list_table where
  "rel_delta = ([''k'', ''type''], [[Int32Scalar 2, StringScalar ''DELETE''], [Int32Scalar 4, StringScalar ''INSERT'']])"

definition sample_delta_merge :: "(nat, row_list_table, arrow_scalar list) merge_op" where
  "sample_delta_merge = \<lparr>op_name = ''m'', op_type = DELTA_MERGE, projectColumnNames = [''k''], op_consumers = [''c''],
     op_producers = [''a'', ''b''],
     op_fields = (DeltaMerge_make pk_tbl 0 ''h'' False 1)\<lparr>dm_stables := [Some (Some rel_stable)]\<rparr>,
     operatorMap = sample_directory, rootActor = Some 0, segmentCacheActor = None, deltaCacheActor = Some 9,
     op_complete = False, actor_id = 3, actor_name = ''m'', trace = []\<rparr>"

lemma sample_delta_merge_simps [simp]:
  "connected sample_delta_merge" "\<not> op_complete sample_delta_merge"
  "projectColumnNames sample_delta_merge = [''k'']" "op_name sample_delta_merge = ''m''"
  "dm_stables (op_fields sample_delta_merge) = [Some (Some rel_stable)]"
  "dm_deltas (op_fields sample_delta_merge) = []" "dm_pushed (op_fields sample_delta_merge) = []"
  "dm_targetTable (op_fields sample_delta_merge) = pk_tbl"
  by code_simp+

lemma rel_env_simps [simp]:
  "env_arrow rel_env = rel_arrow" "env_gandiva rel_env = rel_gandiva"
  by (simp_all add: rel_env_def)

theorem merge_without_deltas_pushes_stable_witness:
  "\<exists>S' bs. deltaMerge rel_env keepMapCache False sample_delta_merge = Inr S' \<and>
     map snd (dm_pushed (op_fields S')) = bs \<and> concat (map snd bs) = snd rel_stable"
proof -
  let ?u = "([''k''], map (\<lambda>r. [r ! 0]) (snd rel_stable))"
  have "projectExist rel_arrow (Some rel_stable) [''k''] = Inr (Inr (Some ?u))"
    by (rule first_is_k_project) (simp add: first_is_k_def rel_stable_def)
  then obtain bs where "deltaMerge rel_env keepMapCache False sample_delta_merge = Inr (sample_delta_merge\<lparr>
      op_fields := (op_fields sample_delta_merge)\<lparr>dm_pushed := dm_pushed (op_fields sample_delta_merge)
        @ map (Pair (queue_of (dm_tableName (op_fields sample_delta_merge)))) bs\<rparr>,
      trace := trace sample_delta_merge @ to_consumers sample_delta_merge (TupleMessage None (op_name sample_delta_merge))\<rparr>)"
    "concat (map snd bs) = snd ?u"
    using merge_without_deltas_pushes_stable [of rel_env snd sample_delta_merge rel_stable "[]" ?u keepMapCache False]
      rel_slice_ok by auto
  moreover have "snd ?u = snd rel_stable" by (simp add: rel_stable_def)
  ultimately show ?thesis by (simp add: comp_def)
qed

lemma rel_input:
  "merge_input rel_arrow pk_tbl (Some rel_stable) [DeltaCacheData_make (Some rel_delta) 5] [[1], [2], [3]]
     [pk_rows [2, 4] [''DELETE'', ''INSERT''] 5]"
  by code_simp

theorem merge_single_delta_overlays_stable_witness:
  "\<exists>S' bs. deltaMerge rel_env keepMapCache False (sample_delta_merge\<lparr>op_fields :=
       (op_fields sample_delta_merge)\<lparr>dm_deltas := [DeltaCacheData_make (Some rel_delta) 5]\<rparr>\<rparr>) = Inr S' \<and>
     map snd (dm_pushed (op_fields S')) = bs \<and>
     concat (map snd bs) = [[Int32Scalar 1], [Int32Scalar 3], [Int32Scalar 4]]"
proof -
  let ?S = "sample_delta_merge\<lparr>op_fields :=
    (op_fields sample_delta_merge)\<lparr>dm_deltas := [DeltaCacheData_make (Some rel_delta) 5]\<rparr>\<rparr>"
  let ?D = "pk_rows [2, 4] [''DELETE'', ''INSERT''] 5"
  have cov: "covers (\<lambda>b. b) (filter (\<lambda>i. dr_types ?D ! i \<noteq> ''DELETE'') [0..<length (dr_pks ?D)]) 0 bs"
    if "snd c = snd rel_delta" "TableBatchReader rel_gandiva c DefaultChunkSize = map Inr bs" for c bs
  proof -
    have "bs = [snd rel_delta]" using that by (auto simp: rel_gandiva_def rel_delta_def)
    then show ?thesis by (simp add: rel_delta_def pk_rows_def upt_rec)
  qed
  have "\<exists>bs m. deltaMerge rel_env keepMapCache False ?S = Inr (?S\<lparr>
      op_fields := (op_fields ?S)\<lparr>dm_pushed := dm_pushed (op_fields ?S)
        @ map (Pair (queue_of (dm_tableName (op_fields ?S)))) bs\<rparr>,
      trace := trace ?S @ Anon_send_atom (deltaCacheActor ?S) MergedDeltaAtom (DataMessage MergedDeltaMessage
          (MergedDelta (dm_targetTable (op_fields ?S)) (dm_targetPartition (op_fields ?S)) (Some m)
            (Some (map (\<lambda>r. if [[1], [2], [3]] ! r \<in> set (dr_pks ?D) then 0 else 1) [0..<length [[1], [2], [3 :: int32]]])))
          (op_name ?S)) # to_consumers ?S (TupleMessage None (op_name ?S))\<rparr>) \<and>
    snd m = map (\<lambda>i. snd rel_delta ! i) (filter (\<lambda>i. dr_types ?D ! i \<noteq> ''DELETE'') [0..<length (dr_pks ?D)]) \<and>
    concat (map snd bs) =
      map (\<lambda>r. [(snd rel_stable ! r) ! 0]) (filter (\<lambda>r. [[1], [2], [3]] ! r \<notin> set (dr_pks ?D)) [0..<length [[1], [2], [3 :: int32]]]) @
      map (\<lambda>i. [(snd rel_delta ! i) ! 0]) (filter (\<lambda>i. dr_types ?D ! i \<noteq> ''DELETE'') [0..<length (dr_pks ?D)]) \<and>
    (\<forall>b \<in> set bs. 0 < length (snd b) \<and> length (snd b) \<le> DefaultChunkSize)"
  proof (rule merge_single_delta_overlays_stable)
    show "gandiva_ok (env_arrow rel_env) (env_gandiva rel_env) snd (\<lambda>b. b)" using rel_gandiva_ok by simp
    show "slice_ok (env_arrow rel_env) snd" using rel_slice_ok by simp
    show "project_ok (env_arrow rel_env) snd (projectColumnNames ?S) first_is_k (\<lambda>r. [r ! 0])"
      using rel_project_ok by simp
    show "merge_input (env_arrow rel_env) (dm_targetTable (op_fields ?S)) (Some rel_stable)
        [DeltaCacheData_make (Some rel_delta) 5] [[1], [2], [3]] [?D]" using rel_input by simp
    show "covers (\<lambda>b. b) (filter (\<lambda>i. dr_types ?D ! i \<noteq> ''DELETE'') [0..<length (dr_pks ?D)]) 0 bs"
      if "snd c = snd rel_delta" "TableBatchReader (env_gandiva rel_env) c DefaultChunkSize = map Inr bs" for c bs
      using cov that by simp
  qed (simp_all add: DeltaCacheData_make_def first_is_k_def rel_stable_def rel_delta_def)
  then obtain bs S' where "deltaMerge rel_env keepMapCache False ?S = Inr S'"
    "map snd (dm_pushed (op_fields S')) = bs"
    "concat (map snd bs) =
      map (\<lambda>r. [(snd rel_stable ! r) ! 0]) (filter (\<lambda>r. [[1], [2], [3]] ! r \<notin> set (dr_pks ?D)) [0..<length [[1], [2], [3 :: int32]]]) @
      map (\<lambda>i. [(snd rel_delta ! i) ! 0]) (filter (\<lambda>i. dr_types ?D ! i \<noteq> ''DELETE'') [0..<length (dr_pks ?D)])"
    by (auto simp: comp_def)
  moreover from this(3) have "concat (map snd bs) = [[Int32Scalar 1], [Int32Scalar 3], [Int32Scalar 4]]"
    by (simp add: pk_rows_def rel_stable_def rel_delta_def upt_rec)
  ultimately show ?thesis by blast
qed

text \<open>A disk delta of two rows beside a stable table and a memory delta: the result has the two rows.\<close>

theorem result_generator_drops_stable_and_memory_rows_witness:
  "getFinalResult rel_arrow rel_finish (env_field_type rel_env) [DeltaCacheData_make (Some rel_delta) 5]
     [Some (Some rel_stable)] [Some (Some ([''k''], [[Int32Scalar 8], [Int32Scalar 9]]))] [] [''k''] =
   Inr (Some ([''k''], [[Int32Scalar 8], [Int32Scalar 9]]))"
proof -
  let ?disk = "Some ([''k''], [[Int32Scalar 8], [Int32Scalar 9]])"
  have col: "columnByName rel_arrow (Some rel_stable) ''k'' = Inr \<lparr>col_name = ''k'', col_array = [Int32Scalar 1, Int32Scalar 2, Int32Scalar 3]\<rparr>"
    "columnByName rel_arrow (Some rel_delta) ''k'' = Inr \<lparr>col_name = ''k'', col_array = [Int32Scalar 2, Int32Scalar 4]\<rparr>"
    "columnByName rel_arrow ?disk ''k'' = Inr \<lparr>col_name = ''k'', col_array = [Int32Scalar 8, Int32Scalar 9]\<rparr>"
    by code_simp+
  have "holds_column rel_arrow ?disk ''k'' [Int32Scalar 8, Int32Scalar 9]"
  proof -
    let ?c = "\<lparr>col_name = ''k'', col_array = [Int32Scalar 8, Int32Scalar 9]\<rparr>"
    have "TupleSet_numRows rel_arrow ?disk = 2" "Column_element rel_arrow ?c 0 = Inr (Inr (Int32Scalar 8))"
      "Column_element rel_arrow ?c 1 = Inr (Inr (Int32Scalar 9))" by code_simp+
    then show ?thesis unfolding holds_column_def col(3) by (auto simp: less_Suc_eq)
  qed
  moreover have "TupleSet_make rel_arrow [\<lparr>col_name = ''k'', col_array = [Int32Scalar 8, Int32Scalar 9]\<rparr>] = ?disk"
    by code_simp
  ultimately show ?thesis
    using col result_generator_drops_stable_and_memory_rows [of "[Some (Some rel_stable)]" "[''k'']" rel_arrow
        "[DeltaCacheData_make (Some rel_delta) 5]" "env_field_type rel_env" "\<lambda>_. Int32Type" "[?disk]"
        "\<lambda>_ _. [Int32Scalar 8, Int32Scalar 9]" rel_finish "\<lambda>_. [Int32Scalar 8, Int32Scalar 9]"]
    by (simp add: DeltaCacheData_make_def rel_env_def rel_finish_def builder_types_def scalar_type_def)
qed

end
