(* ===== verification/Execution.thy ===== *)
theory Execution
  imports Operators
begin

text \<open>
  The coordinator of a query (\<^verbatim>\<open>fpdb-executor/src/Execution.cpp\<close>): \<open>boot\<close> puts the operators of
  the plan into the directory and spawns their actors, \<open>start\<close> connects and starts them, and \<open>join\<close>
  receives messages at the root actor until the directory says that all operators are complete.

  The actor framework gives the handles of spawned actors (\<open>spawn\<close>, an argument; \<open>None\<close> when it
  fails) and delivers the messages \<open>join\<close> receives.  Time measurements, metrics and the drawing of the
  plan are left out.
\<close>

section \<open>The coordinator\<close>

record plan_op =
  po_name :: string
  po_type :: POpType
  po_producers :: "string list"
  po_consumers :: "string list"

record 'h Execution =
  opDirectory :: "('h, plan_op) POpDirectory"
  legacyCollateOperator :: "string option"
  ex_rootActor :: "'h option"
  ex_segmentCacheActor :: "'h option"

text \<open>What the coordinator sends: a new query to the segment cache, and messages to operators.\<close>

datatype ('h, 't, 'd) root_action =
    NewQuery "'h option"
  | Root_send "'h option" "('h, 't, 'd) Message"

definition register_op :: "plan_op \<Rightarrow> ('h, plan_op) POpDirectory \<Rightarrow> ('h, plan_op) POpDirectory result" where
  "register_op p d =
     (case pd_insert \<lparr>pe_name = po_name p, pe_def = p, pe_actorHandle = None, pe_complete = False\<rparr> d of
        Inl e \<Rightarrow> Inl (RuntimeError e)
      | Inr d' \<Rightarrow> Inr d')"

text \<open>\<open>localSpawn\<close> and \<open>remoteSpawn\<close>: a handle, or an exception.\<close>

definition spawn_op :: "(plan_op \<Rightarrow> 'h option) \<Rightarrow> plan_op \<Rightarrow> 'h result" where
  "spawn_op spawn p =
     (case spawn p of
        None \<Rightarrow> Inl (RuntimeError (''Failed to spawn operator actor '' @ quoted (po_name p)))
      | Some h \<Rightarrow> Inr h)"

definition spawn_entry ::
  "(plan_op \<Rightarrow> 'h option) \<Rightarrow> string \<times> ('h, plan_op) POpDirectoryEntry
     \<Rightarrow> (string \<times> ('h, plan_op) POpDirectoryEntry) result" where
  "spawn_entry spawn x =
     rbind (spawn_op spawn (pe_def (snd x))) (\<lambda>h. Inr (fst x, (snd x)\<lparr>pe_actorHandle := Some h\<rparr>))"

text \<open>
  The loops of \<open>boot\<close> and \<open>start\<close> over the directory, an unordered map, are walked in the order of the
  plan; which collate operator is the last one seen, if a plan has several, depends on that order.
\<close>

definition boot ::
  "(plan_op \<Rightarrow> 'h option) \<Rightarrow> plan_op list \<Rightarrow> 'h Execution
     \<Rightarrow> (('h, 't, 'd) root_action list \<times> 'h Execution) result" where
  "boot spawn plan ex =
     (let actions = (if ex_segmentCacheActor ex \<noteq> None then [NewQuery (ex_segmentCacheActor ex)] else [])
      in rbind (rfold register_op plan (opDirectory ex)) (\<lambda>d.
         rbind (rmap (spawn_entry spawn) (pd_entries d)) (\<lambda>es.
           let collates = filter (\<lambda>(n, e). po_type (pe_def e) = COLLATE) es
           in Inr (actions,
             ex\<lparr>opDirectory := d\<lparr>pd_entries := es\<rparr>,
                legacyCollateOperator :=
                  if collates = [] then legacyCollateOperator ex else Some (fst (last collates))\<rparr>))))"

definition ExecutionRootActorName :: string where
  "ExecutionRootActorName = ''execution_root''"

definition connection ::
  "('h, plan_op) POpDirectory \<Rightarrow> POpRelationshipType \<Rightarrow> string \<Rightarrow> 'h POpConnection result" where
  "connection d ty n =
     rbind (expected_value (pd_get n d)) (\<lambda>e. Inr (POpConnection n (pe_actorHandle e) ty))"

definition connect_entry ::
  "('h, plan_op) POpDirectory \<Rightarrow> string \<times> ('h, plan_op) POpDirectoryEntry \<Rightarrow> ('h, 't, 'd) root_action result" where
  "connect_entry d x =
     (let e = snd x
      in rbind (rmap (connection d Producer) (po_producers (pe_def e))) (\<lambda>ps.
         rbind (rmap (connection d Consumer) (po_consumers (pe_def e))) (\<lambda>cs.
           Inr (Root_send (pe_actorHandle e) (ConnectMessage (ps @ cs) ExecutionRootActorName)))))"

definition start ::
  "'h Execution \<Rightarrow> (('h, 't, 'd) root_action list \<times> 'h Execution) result" where
  "start ex =
     (let d = pd_setIncomplete (opDirectory ex)
      in rbind (rmap (connect_entry d) (pd_entries d)) (\<lambda>connects.
           Inr (connects @ map (\<lambda>(n, e). Root_send (pe_actorHandle e) (StartMessage ExecutionRootActorName))
                  (pd_entries d),
                ex\<lparr>opDirectory := d\<rparr>)))"

text \<open>
  \<open>join\<close>: the loop runs while not all operators are complete; an error of an operator, an operator
  that completes twice and any other message make it throw.
\<close>

datatype 'h join_state =
    Waiting "('h, plan_op) POpDirectory"
  | Joined "('h, plan_op) POpDirectory"
  | Thrown cpp_error

definition join_receive ::
  "('h, 't, 'd) Message \<Rightarrow> ('h, plan_op) POpDirectory \<Rightarrow> 'h join_state" where
  "join_receive msg d =
     (case msg of
        CompleteMessage s \<Rightarrow>
          (case pd_setComplete s d of
             Inl e \<Rightarrow> Thrown (RuntimeError e)
           | Inr d' \<Rightarrow> if pd_allComplete d' then Joined d' else Waiting d')
      | ErrorMessage c s \<Rightarrow> Thrown (RuntimeError (''ERROR: '' @ c @ '', from '' @ s))
      | _ \<Rightarrow> Thrown (RuntimeError (''Invalid message type sent to the root actor: '' @ getTypeString msg
               @ '', from '' @ sender msg)))"

fun join :: "('h, 't, 'd) Message list \<Rightarrow> ('h, plan_op) POpDirectory \<Rightarrow> 'h join_state" where
  "join [] d = Waiting d"
| "join (m # ms) d = (case join_receive m d of Waiting d' \<Rightarrow> join ms d' | r \<Rightarrow> r)"

section \<open>Booting registers every operator once\<close>

lemma register_ops:
  assumes "distinct (map po_name plan)" and "pd_ok d"
    and "set (map po_name plan) \<inter> pd_members d = {}"
  shows "\<exists>d'. rfold register_op plan d = Inr d' \<and> pd_ok d' \<and>
    pd_entries d' = pd_entries d @ map (\<lambda>p. (po_name p,
      \<lparr>pe_name = po_name p, pe_def = p, pe_actorHandle = None, pe_complete = False\<rparr>)) plan"
  using assms
proof (induction plan arbitrary: d)
  case (Cons p plan)
  let ?e = "\<lparr>pe_name = po_name p, pe_def = p, pe_actorHandle = None, pe_complete = False\<rparr> :: ('a, plan_op) POpDirectoryEntry"
  have wf: "um_wf id (pd_entries d)" using Cons.prems(2) by (simp add: pd_ok_def)
  have none: "um_find id (po_name p) (pd_entries d) = None"
    using Cons.prems(3) entries_with_find [OF wf, of "po_name p" "\<lambda>_. True"]
    by (cases "um_find id (po_name p) (pd_entries d)") (auto simp: pd_members_def)
  let ?d = "d\<lparr>pd_entries := pd_entries d @ [(po_name p, ?e)], numOperators := numOperators d + 1\<rparr>"
  have r: "register_op p d = Inr ?d"
    by (simp add: register_op_def pd_insert_def none um_emplace_append)
  have "pd_ok ?d"
    using Cons.prems(2) um_wf_append_new [OF wf none, of ?e] by (simp add: pd_ok_def)
  moreover have "pd_members ?d = insert (po_name p) (pd_members d)"
    by (auto simp: pd_members_def entries_with_def)
  ultimately show ?case
    using Cons.IH [of ?d] Cons.prems r by auto
qed simp

text \<open>
  A plan: the names are distinct, every operator's relatives are in the plan, and no operator is twice
  among the relatives of another.  \<open>po_consumers\<close> and \<open>po_producers\<close> are sets, kept sorted.
\<close>

definition plan_ok :: "plan_op list \<Rightarrow> bool" where
  "plan_ok plan \<longleftrightarrow> distinct (map po_name plan) \<and>
     (\<forall>p \<in> set plan. distinct (po_producers p @ po_consumers p) \<and>
        set (po_producers p @ po_consumers p) \<subseteq> po_name ` set plan)"

definition plan_handle :: "(plan_op \<Rightarrow> 'h option) \<Rightarrow> plan_op list \<Rightarrow> string \<Rightarrow> 'h option" where
  "plan_handle spawn plan n = (case List.find (\<lambda>p. po_name p = n) plan of None \<Rightarrow> None | Some p \<Rightarrow> spawn p)"

definition plan_connections ::
  "(plan_op \<Rightarrow> 'h option) \<Rightarrow> plan_op list \<Rightarrow> plan_op \<Rightarrow> 'h POpConnection list" where
  "plan_connections spawn plan p =
     map (\<lambda>n. POpConnection n (plan_handle spawn plan n) Producer) (po_producers p) @
     map (\<lambda>n. POpConnection n (plan_handle spawn plan n) Consumer) (po_consumers p)"

definition plan_entry :: "(plan_op \<Rightarrow> 'h option) \<Rightarrow> plan_op \<Rightarrow> string \<times> ('h, plan_op) POpDirectoryEntry" where
  "plan_entry spawn p = (po_name p,
     \<lparr>pe_name = po_name p, pe_def = p, pe_actorHandle = spawn p, pe_complete = False\<rparr>)"

lemma spawn_entries:
  assumes "\<forall>p \<in> set plan. spawn p \<noteq> None"
  shows "rmap (spawn_entry spawn) (map (plan_entry (\<lambda>p. None)) plan) = Inr (map (plan_entry spawn) plan)"
  using assms by (induction plan) (auto simp: spawn_entry_def spawn_op_def plan_entry_def)

lemma find_plan_entry:
  "um_find id n (map (plan_entry spawn) plan)
     = map_option (\<lambda>p. snd (plan_entry spawn p)) (List.find (\<lambda>p. po_name p = n) plan)"
  by (induction plan) (auto simp: um_find_def us_find_def plan_entry_def)

lemma connection_plan:
  assumes "pd_entries d = map (plan_entry spawn) plan" and "n \<in> po_name ` set plan"
  shows "connection d ty n = Inr (POpConnection n (plan_handle spawn plan n) ty)"
proof -
  from assms(2) obtain p where "List.find (\<lambda>p. po_name p = n) plan = Some p"
    by (cases "List.find (\<lambda>p. po_name p = n) plan") (auto simp: find_None_iff)
  then show ?thesis
    by (simp add: connection_def pd_get_def assms(1) find_plan_entry plan_handle_def plan_entry_def)
qed

lemma connect_entry_plan:
  assumes "pd_entries d = map (plan_entry spawn) plan" and "plan_ok plan" and "p \<in> set plan"
  shows "connect_entry d (plan_entry spawn p)
    = Inr (Root_send (spawn p) (ConnectMessage (plan_connections spawn plan p) ExecutionRootActorName))"
proof -
  have "set (po_producers p @ po_consumers p) \<subseteq> po_name ` set plan"
    using assms(2,3) by (simp add: plan_ok_def)
  then have "rmap (connection d Producer) (po_producers p)
      = Inr (map (\<lambda>n. POpConnection n (plan_handle spawn plan n) Producer) (po_producers p))"
    "rmap (connection d Consumer) (po_consumers p)
      = Inr (map (\<lambda>n. POpConnection n (plan_handle spawn plan n) Consumer) (po_consumers p))"
    by (auto intro!: rmap_cong_Inr connection_plan [OF assms(1)])
  then show ?thesis by (simp add: connect_entry_def plan_entry_def plan_connections_def)
qed

lemma connect_entries_plan:
  assumes "pd_entries d = map (plan_entry spawn) plan" and "plan_ok plan"
  shows "rmap (connect_entry d) (map (plan_entry spawn) plan) = Inr (map (\<lambda>p.
    Root_send (spawn p) (ConnectMessage (plan_connections spawn plan p) ExecutionRootActorName)) plan)"
  by (rule rmap_map_Inr) (rule connect_entry_plan [OF assms])

text \<open>
  C22.  For a well-formed plan whose actors can be spawned, \<open>boot\<close> and \<open>start\<close> do not throw.  Each
  operator is sent one CONNECT message, with the handles of exactly its producers and its consumers, and
  one START message, and no operator is started before all are connected.  The directory then holds every
  operator of the plan, none of them complete.
\<close>

theorem boot_and_start_connect_the_plan:
  fixes spawn :: "plan_op \<Rightarrow> 'h option"
  assumes "plan_ok plan" and "\<forall>p \<in> set plan. spawn p \<noteq> None"
    and "opDirectory ex = POpDirectory_empty"
  shows "\<exists>(as :: ('h, 't, 'd) root_action list) (bs :: ('h, 't, 'd) root_action list) ex' ex''.
    boot spawn plan ex = Inr (as, ex') \<and> start ex' = Inr (bs, ex'') \<and>
    bs = map (\<lambda>p. Root_send (spawn p) (ConnectMessage (plan_connections spawn plan p) ExecutionRootActorName)) plan @
       map (\<lambda>p. Root_send (spawn p) (StartMessage ExecutionRootActorName)) plan \<and>
    pd_ok (opDirectory ex'') \<and> pd_members (opDirectory ex'') = po_name ` set plan \<and>
    pd_finished (opDirectory ex'') = {}"
proof -
  have "pd_ok (POpDirectory_empty :: ('h, plan_op) POpDirectory)" "pd_members (POpDirectory_empty :: ('h, plan_op) POpDirectory) = {}"
    by (simp_all add: pd_ok_def POpDirectory_empty_def pd_members_def entries_with_def)
  with register_ops [of plan "POpDirectory_empty :: ('h, plan_op) POpDirectory"] assms(1) obtain d :: "('h, plan_op) POpDirectory" where
    d: "rfold register_op plan POpDirectory_empty = Inr d" "pd_ok d"
    "pd_entries d = map (plan_entry (\<lambda>p. None)) plan"
    by (auto simp: plan_ok_def plan_entry_def [abs_def] POpDirectory_empty_def)
  let ?d = "d\<lparr>pd_entries := map (plan_entry spawn) plan\<rparr>"
  obtain as :: "('h, 't, 'd) root_action list" and c where boot: "boot spawn plan ex = Inr (as, ex\<lparr>opDirectory := ?d, legacyCollateOperator := c\<rparr>)"
    by (simp add: boot_def assms(3) d(1,3) spawn_entries [OF assms(2)] Let_def)
  have inc: "pd_setIncomplete ?d = ?d"
    by (simp add: pd_setIncomplete_def plan_entry_def comp_def)
  have 1: "start (ex\<lparr>opDirectory := ?d, legacyCollateOperator := c\<rparr>) = Inr
      (map (\<lambda>p. Root_send (spawn p) (ConnectMessage (plan_connections spawn plan p) ExecutionRootActorName)) plan @
       map (\<lambda>p. Root_send (spawn p) (StartMessage ExecutionRootActorName)) plan,
       (ex\<lparr>opDirectory := ?d, legacyCollateOperator := c\<rparr>)\<lparr>opDirectory := ?d\<rparr>)"
    by (simp add: start_def inc Let_def connect_entries_plan [OF _ assms(1)])
      (simp add: plan_entry_def)
  have ok: "pd_ok ?d"
    using d(2,3) by (simp add: pd_ok_def count_entries_def us_wf_def plan_entry_def comp_def)
  have mem: "pd_members ?d = po_name ` set plan" "pd_finished ?d = {}"
    by (auto simp: pd_members_def pd_finished_def entries_with_def plan_entry_def)
  show ?thesis
    by (intro exI conjI, rule boot, rule 1, rule refl) (simp_all add: ok mem)
qed

definition sample_plan :: "plan_op list" where
  "sample_plan =
     [\<lparr>po_name = ''scan'', po_type = FILE_SCAN, po_producers = [], po_consumers = [''sort'']\<rparr>,
      \<lparr>po_name = ''sort'', po_type = SORT, po_producers = [''scan''], po_consumers = [''collate'']\<rparr>,
      \<lparr>po_name = ''collate'', po_type = COLLATE, po_producers = [''sort''], po_consumers = []\<rparr>]"

definition sample_execution :: "nat Execution" where
  "sample_execution = \<lparr>opDirectory = POpDirectory_empty, legacyCollateOperator = None,
     ex_rootActor = Some 0, ex_segmentCacheActor = None\<rparr>"

lemma sample_plan_ok: "plan_ok sample_plan"
  by (simp add: plan_ok_def sample_plan_def)

theorem boot_and_start_connect_the_plan_witness:
  "\<exists>(as :: (nat, list_table, unit) root_action list) ex' ex''.
     boot (\<lambda>p. Some (length (po_name p))) sample_plan sample_execution = Inr (as, ex') \<and>
     (\<exists>bs :: (nat, list_table, unit) root_action list. start ex' = Inr (bs, ex'') \<and> length bs = 6)"
proof -
  have e: "opDirectory sample_execution = POpDirectory_empty" by (simp add: sample_execution_def)
  have s: "\<forall>p \<in> set sample_plan. Some (length (po_name p)) \<noteq> None" by simp
  from boot_and_start_connect_the_plan [where 't = list_table and 'd = unit, OF sample_plan_ok s e]
  obtain as :: "(nat, list_table, unit) root_action list" and ex' ex''
    and bs :: "(nat, list_table, unit) root_action list" where
    "boot (\<lambda>p. Some (length (po_name p))) sample_plan sample_execution = Inr (as, ex')"
    "start ex' = Inr (bs, ex'')" "length bs = 2 * length sample_plan"
    by (auto simp: mult_2)
  then show ?thesis by (auto simp: sample_plan_def)
qed

section \<open>Connecting an operator\<close>

lemma connect_new:
  assumes "local_ok (operatorMap S)" and "\<not> connected_to S (con_name c)"
  shows "\<exists>d. connect c S = S\<lparr>operatorMap := d\<rparr> \<and> local_ok d \<and>
    le_entries d = le_entries (operatorMap S) @ [(con_name c, \<lparr>le_name = con_name c, le_actor = con_handle c,
      le_relationshipType = con_type c, le_complete = False\<rparr>)]"
proof -
  let ?e = "\<lparr>le_name = con_name c, le_actor = con_handle c, le_relationshipType = con_type c, le_complete = False\<rparr>"
  obtain d where d: "local_insert ?e (operatorMap S) = Inr d"
    "le_entries d = le_entries (operatorMap S) @ [(con_name c, ?e)]"
    using assms(2) by (cases "con_type c") (simp_all add: connected_to_def local_insert_def um_emplace_append Let_def)
  moreover have "local_ok d" by (rule local_insert_ok [OF assms(1) _ d(1)]) simp
  ultimately show ?thesis by (auto simp: connect_def)
qed

lemma connect_all_new:
  assumes "local_ok (operatorMap S)" and "distinct (map con_name cs)"
    and "\<forall>c \<in> set cs. \<not> connected_to S (con_name c)"
  shows "\<exists>d. fold connect cs S = S\<lparr>operatorMap := d\<rparr> \<and> local_ok d \<and>
    le_entries d = le_entries (operatorMap S) @ map (\<lambda>c. (con_name c, \<lparr>le_name = con_name c,
      le_actor = con_handle c, le_relationshipType = con_type c, le_complete = False\<rparr>)) cs"
  using assms
proof (induction cs arbitrary: S)
  case Nil
  then show ?case by (intro exI [of _ "operatorMap S"]) simp
next
  case (Cons c cs)
  let ?e = "\<lparr>le_name = con_name c, le_actor = con_handle c, le_relationshipType = con_type c, le_complete = False\<rparr>"
  from connect_new [of S c] Cons.prems obtain d where
    d: "connect c S = S\<lparr>operatorMap := d\<rparr>" "local_ok d"
    "le_entries d = le_entries (operatorMap S) @ [(con_name c, ?e)]" by auto
  have "\<not> connected_to (S\<lparr>operatorMap := d\<rparr>) n" if "\<not> connected_to S n" "n \<noteq> con_name c" for n
    using that by (auto simp: connected_to_def um_id_simps d(3))
  moreover have "con_name c' \<noteq> con_name c" if "c' \<in> set cs" for c'
    using Cons.prems(2) imageI [OF that, of con_name] by auto
  ultimately have "\<forall>c \<in> set cs. \<not> connected_to (S\<lparr>operatorMap := d\<rparr>) (con_name c)"
    using Cons.prems(3) by simp
  with Cons.IH [of "S\<lparr>operatorMap := d\<rparr>"] Cons.prems(2) d show ?case by auto
qed

text \<open>
  An operator of a plan that has received its CONNECT message has exactly its producers and its
  consumers in its directory, with the handles of their actors, none of them complete; an operator with
  at least one producer is then ready for its run.
\<close>

theorem connected_operator_is_ready:
  assumes "plan_ok plan" and "p \<in> set plan" and "po_producers p \<noteq> []"
    and "operatorMap S = LocalPOpDirectory_empty" and "op_consumers S = po_consumers p"
    and "\<not> op_complete S" and "trace S = []"
  shows "let S' = fold connect (plan_connections spawn plan p) S
    in fresh S' \<and> local_members Producer (operatorMap S') = set (po_producers p) \<and>
       local_members Consumer (operatorMap S') = set (po_consumers p) \<and>
       (\<forall>n \<in> set (po_producers p @ po_consumers p). handle_of S' n = plan_handle spawn plan n)"
proof -
  let ?cs = "plan_connections spawn plan p"
  have rel: "distinct (po_producers p @ po_consumers p)" using assms(1,2) by (simp add: plan_ok_def)
  have names: "map con_name ?cs = po_producers p @ po_consumers p"
    by (simp add: plan_connections_def comp_def)
  have "\<forall>c \<in> set ?cs. \<not> connected_to S (con_name c)"
    by (simp add: connected_to_def assms(4) LocalPOpDirectory_empty_def um_find_def us_find_def)
  from connect_all_new [OF _ _ this] obtain d where
    d: "fold connect ?cs S = S\<lparr>operatorMap := d\<rparr>" "local_ok d"
    "le_entries d = map (\<lambda>c. (con_name c, \<lparr>le_name = con_name c, le_actor = con_handle c,
      le_relationshipType = con_type c, le_complete = False\<rparr>)) ?cs"
    using rel unfolding names [symmetric] by (auto simp: assms(4)) (auto simp: LocalPOpDirectory_empty_def)
  have wf: "um_wf id (le_entries d)" using d(2) by (simp add: local_ok_def)
  have mem: "local_members Producer d = set (po_producers p)" "local_members Consumer d = set (po_consumers p)"
    "local_finished Producer d = {}"
    by (auto simp: local_members_def local_finished_def entries_with_def d(3) plan_connections_def)
  have find: "\<exists>e. um_find id n (le_entries d) = Some e \<and> le_actor e = plan_handle spawn plan n"
    if "n \<in> set (po_producers p @ po_consumers p)" for n
  proof -
    from that obtain e where "(n, e) \<in> set (le_entries d)" "le_actor e = plan_handle spawn plan n"
      by (force simp: d(3) plan_connections_def)
    then show ?thesis using entry_find [OF wf] by auto
  qed
  then have "connected (S\<lparr>operatorMap := d\<rparr>)"
    by (auto simp: connected_def connected_to_def list_all_iff assms(5) dest!: bspec)
  moreover have "handle_of (S\<lparr>operatorMap := d\<rparr>) n = plan_handle spawn plan n"
    if "n \<in> set (po_producers p @ po_consumers p)" for n
    using find [OF that] by (auto simp: handle_of_def)
  ultimately show ?thesis
    using d(1,2) mem assms(3,6,7) by (auto simp: Let_def fresh_def)
qed

section \<open>Joining\<close>

lemma join_append: "join (ms @ ns) d = (case join ms d of Waiting d' \<Rightarrow> join ns d' | r \<Rightarrow> r)"
  by (induction ms arbitrary: d) (auto split: join_state.splits)

text \<open>
  C21.  \<open>join\<close> returns exactly when the last operator of the query has completed, whatever the order
  in which the completions arrive: before that it waits, and afterwards it receives no more messages.
\<close>

theorem join_returns_with_the_last_operator:
  fixes ms :: "('h, 't, 'd) Message list"
  assumes "pd_ok d" and "distinct ns" and "set ns \<subseteq> pd_members d - pd_finished d" and "ns \<noteq> []"
  shows "if pd_finished d \<union> set ns = pd_members d
    then \<exists>d'. join (map CompleteMessage ns @ ms) d = Joined d' \<and> pd_finished d' = pd_members d
    else \<exists>d'. join (map CompleteMessage ns :: ('h, 't, 'd) Message list) d = Waiting d' \<and> pd_finished d' = pd_finished d \<union> set ns"
  using assms
proof (induction ns arbitrary: d)
  case (Cons n ns)
  from operators.set_complete_ok [OF Cons.prems(1), of n] Cons.prems(3) obtain d1 where
    d1: "pd_setComplete n d = Inr d1" by auto
  from operators.set_complete_Inr [OF Cons.prems(1) d1] Cons.prems(3)
  have 1: "pd_ok d1" "pd_members d1 = pd_members d" "pd_finished d1 = insert n (pd_finished d)" by auto
  note all = operators.all_complete_iff [OF 1(1)]
  show ?case
  proof (cases "ns = []")
    case True
    then show ?thesis using d1 1 all by (auto simp: join_receive_def)
  next
    case False
    have "\<not> pd_allComplete d1" using Cons.prems(2,3) False 1 all by (cases ns) auto
    moreover have "set ns \<subseteq> pd_members d1 - pd_finished d1" "distinct ns" using Cons.prems(2,3) 1 by auto
    ultimately show ?thesis
      using Cons.IH [OF 1(1) _ _ False] 1(2,3) d1 by (auto simp: join_receive_def split: if_splits)
  qed
qed simp

theorem connected_operator_is_ready_witness:
  "\<exists>p S. po_name p = ''sort'' \<and>
     fresh (fold connect (plan_connections (\<lambda>p. Some (length (po_name p))) sample_plan p)
       (S :: (nat, list_table, unit, unit) POp))"
proof -
  define p where "p = \<lparr>po_name = ''sort'', po_type = SORT, po_producers = [''scan''], po_consumers = [''collate'']\<rparr>"
  let ?S = "sample_op\<lparr>operatorMap := LocalPOpDirectory_empty, op_consumers := [''collate'']\<rparr>"
  have "p \<in> set sample_plan" "po_producers p \<noteq> []" "op_consumers ?S = po_consumers p" "po_name p = ''sort''"
    by (simp_all add: sample_plan_def p_def)
  moreover have "\<not> op_complete ?S" "trace ?S = []" by (simp_all add: sample_op_def)
  ultimately show ?thesis
    using connected_operator_is_ready [OF sample_plan_ok, of p ?S "\<lambda>p. Some (length (po_name p))"]
    by (intro exI [of _ p] exI [of _ ?S]) (simp add: Let_def)
qed

definition sample_running :: "(nat, plan_op) POpDirectory" where
  "sample_running = \<lparr>pd_entries = map (plan_entry (\<lambda>p. Some 1)) sample_plan, numOperators = 3,
     numOperatorsComplete = 0\<rparr>"

theorem join_returns_with_the_last_operator_witness:
  "\<exists>d'. join (map CompleteMessage [''collate'', ''scan'', ''sort''] @ [ErrorMessage ''late'' ''x'' :: (nat, unit, unit) Message])
     sample_running = Joined d'"
proof -
  have ok: "pd_ok sample_running"
    by (simp add: pd_ok_def sample_running_def sample_plan_def plan_entry_def us_wf_def)
  have mem: "pd_members sample_running = {''scan'', ''sort'', ''collate''}" "pd_finished sample_running = {}"
    by (simp_all add: pd_members_def pd_finished_def entries_with_filter sample_running_def sample_plan_def
        plan_entry_def)
  show ?thesis
    using join_returns_with_the_last_operator [OF ok, of "[''collate'', ''scan'', ''sort'']"
        "[ErrorMessage ''late'' ''x'' :: (nat, unit, unit) Message]"]
    by (auto simp: mem insert_commute)
qed

end
