(* ===== verification/Merge_Operator.thy ===== *)
theory Merge_Operator
  imports Operators
begin

text \<open>
  The merge operator (\<^verbatim>\<open>merge/MergePOp.cpp\<close>, \<^verbatim>\<open>merge/MergeKernel.cpp\<close>): it has a left and a
  right producer, queues the tuple sets of both, and as long as neither queue is empty puts the two
  front tuple sets side by side, projects the result and sends it to its consumers.
\<close>

section \<open>The kernel\<close>

definition duplicate_field :: "string list \<Rightarrow> string list \<Rightarrow> string option" where
  "duplicate_field fields1 fields2 = List.find (\<lambda>f. f \<in> set fields2) fields1"

definition validateTupleSets :: "('t, 'a) arrow \<Rightarrow> 't TupleSet \<Rightarrow> 't TupleSet \<Rightarrow> string + unit" where
  "validateTupleSets A ts1 ts2 =
     (if TupleSet_numColumns A ts1 > 0 \<and> TupleSet_numColumns A ts2 > 0 then
        if TupleSet_numRows A ts1 \<noteq> TupleSet_numRows A ts2 then
          Inl (''Cannot merge TupleSets, number of rows must be equal. tupleSet1.numRows: ''
            @ string_of_nat (TupleSet_numRows A ts1) @ '' != tupleSet2.numRows: ''
            @ string_of_nat (TupleSet_numRows A ts2))
        else
          (case (ts1, ts2) of
             (Some t1, Some t2) \<Rightarrow>
               (case duplicate_field (field_names A t1) (field_names A t2) of
                  Some f \<Rightarrow> Inl (''Cannot merge TupleSets, field names must not contain duplicates. ''
                    @ ''Multiple fields with name: '' @ f)
                | None \<Rightarrow> Inr ())
           | _ \<Rightarrow> Inr ())
      else Inr ())"

definition fields_of :: "('t, 'a) arrow \<Rightarrow> 't TupleSet \<Rightarrow> string list" where
  "fields_of A ts = (case ts of Some t \<Rightarrow> field_names A t | None \<Rightarrow> [])"

definition mergeSchema :: "('t, 'a) arrow \<Rightarrow> 't TupleSet \<Rightarrow> 't TupleSet \<Rightarrow> string list" where
  "mergeSchema A ts1 ts2 = fields_of A ts1 @ fields_of A ts2"

definition arrays_of :: "('t, 'a) arrow \<Rightarrow> 't TupleSet \<Rightarrow> 'a list" where
  "arrays_of A ts = (case ts of Some t \<Rightarrow> map (table_column A t) [0..<num_columns A t] | None \<Rightarrow> [])"

definition mergeArrays :: "('t, 'a) arrow \<Rightarrow> 't TupleSet \<Rightarrow> 't TupleSet \<Rightarrow> 'a list" where
  "mergeArrays A ts1 ts2 = arrays_of A ts1 @ arrays_of A ts2"

definition MergeKernel_merge ::
  "('t, 'a) arrow \<Rightarrow> 't TupleSet \<Rightarrow> 't TupleSet \<Rightarrow> string + 't TupleSet" where
  "MergeKernel_merge A ts1 ts2 =
     (case validateTupleSets A ts1 ts2 of
        Inl e \<Rightarrow> Inl e
      | Inr _ \<Rightarrow>
          let mergedSchema = mergeSchema A ts1 ts2;
              mergedArrays = mergeArrays A ts1 ts2
          in if mergedSchema \<noteq> [] \<and> mergedArrays \<noteq> [] then
               Inr (Some (Table_Make A (zip mergedSchema mergedArrays)))
             else Inr (Some (Table_Make A [])))"

section \<open>The operator\<close>

record 't Merge =
  leftProducerName :: string
  rightProducerName :: string
  leftTupleSets :: "'t TupleSet option list"
  rightTupleSets :: "'t TupleSet option list"

definition Merge_clear :: "'t Merge \<Rightarrow> 't Merge" where
  "Merge_clear m = m\<lparr>leftTupleSets := [], rightTupleSets := []\<rparr>"

definition setLeftProducer :: "string \<Rightarrow> ('h, 't, 'd, 't Merge) POp \<Rightarrow> ('h, 't, 'd, 't Merge) POp" where
  "setLeftProducer n S = PhysicalOp_consume n (S\<lparr>op_fields := (op_fields S)\<lparr>leftProducerName := n\<rparr>\<rparr>)"

definition setRightProducer :: "string \<Rightarrow> ('h, 't, 'd, 't Merge) POp \<Rightarrow> ('h, 't, 'd, 't Merge) POp" where
  "setRightProducer n S = PhysicalOp_consume n (S\<lparr>op_fields := (op_fields S)\<lparr>rightProducerName := n\<rparr>\<rparr>)"

definition Merge_onStart :: "('h, 't, 'd, 't Merge) handler" where
  "Merge_onStart S = Inr S"

text \<open>
  One round of the loop, without popping: an error of the kernel is reported and the pair dropped; an
  error of the projection is reported, and reading its value throws.
\<close>

definition merge_pair ::
  "('t, 'a) arrow \<Rightarrow> 't TupleSet option \<Rightarrow> 't TupleSet option \<Rightarrow> ('h, 't, 'd, 't Merge) handler" where
  "merge_pair A lp rp S =
     rbind (deref_pointer lp) (\<lambda>l. rbind (deref_pointer rp) (\<lambda>r.
     case MergeKernel_merge A l r of
        Inl e \<Rightarrow> Inr (notifyError (e @ ''.'' @ [CHR 0x0A] @ '' leftOp: '' @ leftProducerName (op_fields S)
                   @ [CHR 0x0A] @ '' rightOp: '' @ rightProducerName (op_fields S)) S)
      | Inr merged \<Rightarrow>
          rbind (projectExist A merged (projectColumnNames S)) (\<lambda>e.
          rbind (expected_value e) (\<lambda>projected. tell (TupleMessage (Some projected) (op_name S)) S))))"

function Merge_merge :: "('t, 'a) arrow \<Rightarrow> 't TupleSet option list \<Rightarrow> 't TupleSet option list
    \<Rightarrow> ('h, 't, 'd, 't Merge) handler" where
  "Merge_merge A (l # ls) (r # rs) S =
     rbind (merge_pair A l r S) (\<lambda>S'.
       Merge_merge A ls rs (S'\<lparr>op_fields := (op_fields S')\<lparr>leftTupleSets := ls, rightTupleSets := rs\<rparr>\<rparr>))"
| "Merge_merge A [] rs S = Inr S"
| "Merge_merge A (l # ls) [] S = Inr S"
  by pat_completeness auto
termination by (relation "measure (\<lambda>(A, ls, rs, S). length ls)") auto

definition Merge_onTuple :: "('t, 'a) arrow \<Rightarrow> 't TupleSet option \<Rightarrow> string \<Rightarrow> ('h, 't, 'd, 't Merge) handler" where
  "Merge_onTuple A tupleSet sndr S =
     (let f = op_fields S;
          S1 = (if sndr = leftProducerName f then
                  S\<lparr>op_fields := f\<lparr>leftTupleSets := leftTupleSets f @ [tupleSet]\<rparr>\<rparr>
                else if sndr = rightProducerName f then
                  S\<lparr>op_fields := f\<lparr>rightTupleSets := rightTupleSets f @ [tupleSet]\<rparr>\<rparr>
                else notifyError (''Unrecognized producer '' @ sndr @ '', left: '' @ leftProducerName f
                       @ '', right: '' @ rightProducerName f) S)
      in Merge_merge A (leftTupleSets (op_fields S1)) (rightTupleSets (op_fields S1)) S1)"

definition Merge_onComplete :: "('h, 't, 'd, 't Merge) handler" where
  "Merge_onComplete = when_all_complete (notifyComplete Merge_clear)"

definition MergePOp :: "('t, 'a) arrow \<Rightarrow> ('h, 't, 'd, 't Merge) operator_methods" where
  "MergePOp A = \<lparr>onReceive = dispatch Merge_onStart (Merge_onTuple A) Merge_onComplete\<rparr>"

section \<open>The kernel puts tables side by side\<close>

text \<open>
  C29.  Merging two valid tables with the same number of rows and no common field gives a table with the
  fields of the first followed by those of the second, each with its own array; a different number of
  rows or a common field is an error, unless one of them has no column.
\<close>

lemma arrays_of_length: "arrow_ok A \<Longrightarrow> length (arrays_of A (Some t)) = length (field_names A t)"
  by (simp add: arrays_of_def arrow_ok_def)

theorem merge_puts_tables_side_by_side:
  assumes "arrow_ok A" and "field_names A t1 \<noteq> []" and "field_names A t2 \<noteq> []"
  shows "case MergeKernel_merge A (Some t1) (Some t2) of
      Inr ts \<Rightarrow> num_rows A t1 = num_rows A t2 \<and> set (field_names A t1) \<inter> set (field_names A t2) = {} \<and>
        (\<exists>t. ts = Some t \<and> field_names A t = field_names A t1 @ field_names A t2 \<and>
           (\<forall>i < length (field_names A t1). table_column A t i = table_column A t1 i) \<and>
           (\<forall>i < length (field_names A t2). table_column A t (length (field_names A t1) + i) = table_column A t2 i))
    | Inl e \<Rightarrow> num_rows A t1 \<noteq> num_rows A t2 \<or> set (field_names A t1) \<inter> set (field_names A t2) \<noteq> {}"
proof -
  let ?f1 = "field_names A t1" and ?f2 = "field_names A t2"
  have cols: "num_columns A t1 = length ?f1" "num_columns A t2 = length ?f2"
    using assms(1) by (simp_all add: arrow_ok_def)
  let ?cols = "zip (mergeSchema A (Some t1) (Some t2)) (mergeArrays A (Some t1) (Some t2))"
  have len: "length ?cols = length ?f1 + length ?f2"
    using assms(1) by (simp add: mergeSchema_def mergeArrays_def fields_of_def arrays_of_length)
  have names: "map fst ?cols = ?f1 @ ?f2"
    using assms(1) by (simp add: mergeSchema_def mergeArrays_def fields_of_def arrays_of_length)
  have t: "field_names A (Table_Make A ?cols) = ?f1 @ ?f2"
    using assms(1) names unfolding arrow_ok_def by metis
  have col: "table_column A (Table_Make A ?cols) i = snd (?cols ! i)" if "i < length ?cols" for i
    using assms(1) that unfolding arrow_ok_def by blast
  have arr: "mergeArrays A (Some t1) (Some t2)
      = map (table_column A t1) [0..<length ?f1] @ map (table_column A t2) [0..<length ?f2]"
    by (simp add: mergeArrays_def arrays_of_def cols)
  have "snd (?cols ! i) = mergeArrays A (Some t1) (Some t2) ! i" if "i < length ?cols" for i
    using that by simp
  then have 1: "i < length ?f1 \<Longrightarrow> table_column A (Table_Make A ?cols) i = table_column A t1 i"
    and 2: "i < length ?f2 \<Longrightarrow> table_column A (Table_Make A ?cols) (length ?f1 + i) = table_column A t2 i" for i
    using col len by (simp_all add: arr nth_append)
  have dup: "duplicate_field ?f1 ?f2 = None \<longleftrightarrow> set ?f1 \<inter> set ?f2 = {}"
    by (auto simp: duplicate_field_def find_None_iff)
  have "mergeSchema A (Some t1) (Some t2) \<noteq> []" "mergeArrays A (Some t1) (Some t2) \<noteq> []"
    using assms(2) by (simp_all add: mergeSchema_def fields_of_def arr)
  then show ?thesis
    using assms(2,3) t 1 2 dup
    by (auto simp: MergeKernel_merge_def validateTupleSets_def TupleSet_numColumns_def TupleSet_numRows_def
        cols Let_def split: option.splits)
qed

theorem merge_puts_tables_side_by_side_witness:
  "\<exists>t. MergeKernel_merge list_arrow (Some sample_table) (Some [(''w'', Int32Type, [Int32Scalar 5, Int32Scalar 6])])
       = Inr (Some t) \<and> field_names list_arrow t = [''k'', ''v'', ''w'']"
proof -
  have "\<exists>ts. MergeKernel_merge list_arrow (Some sample_table) (Some [(''w'', Int32Type, [Int32Scalar 5, Int32Scalar 6])]) = Inr ts"
    by (simp add: MergeKernel_merge_def validateTupleSets_def TupleSet_numColumns_def TupleSet_numRows_def
        list_arrow_def sample_table_def list_rows_def duplicate_field_def Let_def)
  moreover have "field_names list_arrow sample_table = [''k'', ''v'']"
    "field_names list_arrow [(''w'', Int32Type, [Int32Scalar 5, Int32Scalar 6])] = [''w'']"
    by (simp_all add: list_arrow_def sample_table_def)
  ultimately show ?thesis
    using merge_puts_tables_side_by_side [OF list_arrow_ok, of sample_table
        "[(''w'', Int32Type, [Int32Scalar 5, Int32Scalar 6])]"] by auto
qed

section \<open>The operator completes once\<close>

lemma merge_pair_frames: "merge_pair A l r S = Inr T \<Longrightarrow> frames S T"
  unfolding merge_pair_def
  by (elim rbindE) (auto simp: result_simps intro: frames_notifyError frames_tell split: sum.splits)

lemma Merge_merge_frames: "Merge_merge A ls rs S = Inr T \<Longrightarrow> frames S T"
proof (induction A ls rs S rule: Merge_merge.induct)
  case (1 A l ls r rs S)
  then obtain S' where S': "merge_pair A l r S = Inr S'"
    "Merge_merge A ls rs (S'\<lparr>op_fields := (op_fields S')\<lparr>leftTupleSets := ls, rightTupleSets := rs\<rparr>\<rparr>) = Inr T"
    by (auto simp: result_simps)
  show ?case
    by (rule frames_trans [OF frames_update_fields [OF merge_pair_frames [OF S'(1)]] 1(1) [OF S'(1) S'(2)]])
qed simp_all

lemma Merge_onTuple_frames:
  assumes "Merge_onTuple A ts s S = Inr T"
  shows "frames S T"
proof -
  define S1 where "S1 = (if s = leftProducerName (op_fields S) then
      S\<lparr>op_fields := (op_fields S)\<lparr>leftTupleSets := leftTupleSets (op_fields S) @ [ts]\<rparr>\<rparr>
    else if s = rightProducerName (op_fields S) then
      S\<lparr>op_fields := (op_fields S)\<lparr>rightTupleSets := rightTupleSets (op_fields S) @ [ts]\<rparr>\<rparr>
    else notifyError (''Unrecognized producer '' @ s @ '', left: '' @ leftProducerName (op_fields S)
       @ '', right: '' @ rightProducerName (op_fields S)) S)"
  have "frames S S1" by (simp add: S1_def frames_op_fields frames_notifyError)
  moreover have "Merge_merge A (leftTupleSets (op_fields S1)) (rightTupleSets (op_fields S1)) S1 = Inr T"
    using assms unfolding Merge_onTuple_def Let_def S1_def .
  ultimately show ?thesis using Merge_merge_frames frames_trans by blast
qed

interpretation merge: completing_operator "MergePOp A" Merge_clear for A
  unfolding MergePOp_def Merge_onComplete_def
  by (rule dispatch_completing) (auto simp: Merge_onStart_def intro: Merge_onTuple_frames frames_refl)

text \<open>
  A merge operator that runs without throwing announces completion once to each of its consumers
  and to the root, exactly when both its producers have completed.
\<close>

theorem merge_completes_once:
  assumes "fresh (opBehaviour B)" and "buffer B = []" and "\<forall>m \<in> set ms. \<not> control m"
    and "distinct (completed_by ms)"
    and "set (completed_by ms) \<subseteq> local_members Producer (operatorMap (opBehaviour B))"
    and "POpActor_run (MergePOp A) (StartMessage r # ms) B = Inr B'"
  shows "completes_once (opBehaviour B) ms (opBehaviour B')"
  by (rule merge.run_completes_once [OF assms])

section \<open>What the operator sends\<close>

text \<open>The tuple sets of a sequence of arrivals that come from one producer, in order.\<close>

definition arrivals :: "string \<Rightarrow> (string \<times> 't TupleSet option) list \<Rightarrow> 't TupleSet option list" where
  "arrivals p xs = map snd (filter (\<lambda>x. fst x = p) xs)"

lemma arrivals_simps [simp]:
  "arrivals p [] = []"
  "arrivals p (xs @ ys) = arrivals p xs @ arrivals p ys"
  "arrivals p ((q, t) # xs) = (if q = p then t # arrivals p xs else arrivals p xs)"
  by (simp_all add: arrivals_def)

text \<open>What the operator computes from a pair, when nothing fails.\<close>

definition merged_output ::
  "('t, 'a) arrow \<Rightarrow> string list \<Rightarrow> 't TupleSet option \<Rightarrow> 't TupleSet option \<Rightarrow> 't TupleSet option" where
  "merged_output A names lp rp =
     (case (lp, rp) of
        (Some l, Some r) \<Rightarrow>
          (case MergeKernel_merge A l r of
             Inr m \<Rightarrow> (case projectExist A m names of Inr (Inr p) \<Rightarrow> Some p | _ \<Rightarrow> None)
           | Inl _ \<Rightarrow> None)
      | _ \<Rightarrow> None)"

definition outputs ::
  "('t, 'a) arrow \<Rightarrow> ('h, 't, 'd, 't Merge) POp \<Rightarrow> 't TupleSet option list \<Rightarrow> 't TupleSet option list
     \<Rightarrow> ('h, 't, 'd) action list" where
  "outputs A S ls rs = concat (map (\<lambda>(l, r).
     to_consumers S (TupleMessage (merged_output A (projectColumnNames S) l r) (op_name S))) (zip ls rs))"

definition merge_state ::
  "('t, 'a) arrow \<Rightarrow> ('h, 't, 'd, 't Merge) POp \<Rightarrow> 't TupleSet option list \<Rightarrow> 't TupleSet option list
     \<Rightarrow> ('h, 't, 'd, 't Merge) POp" where
  "merge_state A S ls rs =
     S\<lparr>op_fields := (op_fields S)\<lparr>leftTupleSets := drop (length rs) ls, rightTupleSets := drop (length ls) rs\<rparr>,
       trace := trace S @ outputs A S ls rs\<rparr>"

lemma merge_pair_ok:
  assumes "merged_output A (projectColumnNames S) l r = Some p" and "connected S" and "\<not> op_complete S"
  shows "merge_pair A l r S = Inr (S\<lparr>trace := trace S @ to_consumers S (TupleMessage (Some p) (op_name S))\<rparr>)"
  using assms by (auto simp: merge_pair_def merged_output_def tell_running split: sum.splits option.splits)

lemma to_consumers_cong:
  "op_consumers S = op_consumers T \<Longrightarrow> operatorMap S = operatorMap T \<Longrightarrow> to_consumers S m = to_consumers T m"
  by (simp add: to_consumers_def handle_of_def)

lemma zip_snoc_left: "zip (ls @ [l]) rs = zip ls rs @ (case drop (length ls) rs of [] \<Rightarrow> [] | r # _ \<Rightarrow> [(l, r)])"
proof (induction ls arbitrary: rs)
  case (Cons a ls)
  then show ?case by (cases rs) simp_all
qed (simp split: list.splits)

lemma zip_snoc_right: "zip ls (rs @ [r]) = zip ls rs @ (case drop (length rs) ls of [] \<Rightarrow> [] | l # _ \<Rightarrow> [(l, r)])"
proof (induction rs arbitrary: ls)
  case (Cons a rs)
  then show ?case by (cases ls) simp_all
qed (simp split: list.splits)

lemma drop_Cons_D:
  assumes "drop n xs = y # ys"
  shows "drop (Suc n) xs = ys" "n < length xs" "xs ! n = y" "y \<in> set xs"
proof -
  show "drop (Suc n) xs = ys" using assms by (metis drop_Suc list.sel(3) tl_drop)
  show n: "n < length xs" using assms by (metis drop_all leI list.distinct(1))
  show y: "xs ! n = y" using assms n by (metis Cons_nth_drop_Suc list.inject)
  show "y \<in> set xs" using n y by auto
qed

text \<open>
  The state of the operator after some arrivals depends only on the two sequences of tuple sets: a new
  arrival extends its sequence, and is merged at once when the other producer is ahead.
\<close>

lemma merge_now:
  assumes "merged_output A (projectColumnNames S) l r \<noteq> None" and "connected S" and "\<not> op_complete S"
    and U: "U = S\<lparr>op_fields := (op_fields S)\<lparr>leftTupleSets := l # ls, rightTupleSets := r # rs\<rparr>, trace := t\<rparr>"
    and e: "ls = [] \<or> rs = []"
  shows "Merge_merge A (l # ls) (r # rs) U = Inr (S\<lparr>op_fields := (op_fields S)\<lparr>leftTupleSets := ls,
    rightTupleSets := rs\<rparr>, trace := t @ to_consumers S (TupleMessage
      (merged_output A (projectColumnNames S) l r) (op_name S))\<rparr>)"
proof -
  obtain p where p: "merged_output A (projectColumnNames S) l r = Some p" using assms(1) by blast
  have "connected U = connected S" by (rule connected_cong) (simp_all add: U)
  then have "merge_pair A l r U = Inr (U\<lparr>trace := trace U @ to_consumers U (TupleMessage (Some p) (op_name U))\<rparr>)"
    using assms(2,3) p by (intro merge_pair_ok) (simp_all add: U)
  moreover have "to_consumers U m = to_consumers S m" for m
    by (rule to_consumers_cong) (simp_all add: U)
  ultimately show ?thesis
    using e p by (cases ls; cases rs) (simp_all add: U)
qed

lemma prefix_pairs:
  "\<forall>i < min (length (xs @ [x])) (length ys). P ((xs @ [x]) ! i) (ys ! i) \<Longrightarrow>
   \<forall>i < min (length xs) (length ys). P (xs ! i) (ys ! i)"
  "\<forall>i < min (length xs) (length (ys @ [y])). P (xs ! i) ((ys @ [y]) ! i) \<Longrightarrow>
   \<forall>i < min (length xs) (length ys). P (xs ! i) (ys ! i)"
  by (intro allI impI, drule_tac x = i in spec, simp add: nth_append)+

lemma merge_state_left:
  assumes "\<forall>i < length rs. i = length ls \<longrightarrow> merged_output A (projectColumnNames S) l (rs ! i) \<noteq> None"
    and "connected S" and "\<not> op_complete S" and "sndr = leftProducerName (op_fields S)"
  shows "Merge_onTuple A l sndr (merge_state A S ls rs) = Inr (merge_state A S (ls @ [l]) rs)"
proof (cases "drop (length ls) rs")
  case Nil
  then show ?thesis
    using assms(4) by (cases "drop (length rs) ls @ [l]")
      (auto simp: Merge_onTuple_def merge_state_def Let_def outputs_def zip_snoc_left)
next
  case (Cons r rest)
  note d = drop_Cons_D [OF Cons]
  have full: "drop (length rs) ls = []" using d(2) by simp
  let ?T = "merge_state A S ls rs"
  let ?U = "?T\<lparr>op_fields := (op_fields ?T)\<lparr>leftTupleSets := [l]\<rparr>\<rparr>"
  have "Merge_onTuple A l sndr ?T = Merge_merge A [l] (r # rest) ?U"
    using assms(4) by (simp add: Merge_onTuple_def merge_state_def Let_def full Cons)
  also have "\<dots> = Inr (S\<lparr>op_fields := (op_fields S)\<lparr>leftTupleSets := [], rightTupleSets := rest\<rparr>,
      trace := trace ?U @ to_consumers S (TupleMessage (merged_output A (projectColumnNames S) l r) (op_name S))\<rparr>)"
    by (rule merge_now) (use assms d in \<open>simp_all add: merge_state_def Cons full\<close>)
  also have "\<dots> = Inr (merge_state A S (ls @ [l]) rs)"
    using d(1,2) by (simp add: merge_state_def outputs_def zip_snoc_left Cons)
  finally show ?thesis .
qed

lemma merge_state_right:
  assumes "\<forall>i < length ls. i = length rs \<longrightarrow> merged_output A (projectColumnNames S) (ls ! i) r \<noteq> None"
    and "connected S" and "\<not> op_complete S" and "sndr = rightProducerName (op_fields S)"
    and "leftProducerName (op_fields S) \<noteq> rightProducerName (op_fields S)"
  shows "Merge_onTuple A r sndr (merge_state A S ls rs) = Inr (merge_state A S ls (rs @ [r]))"
proof (cases "drop (length rs) ls")
  case Nil
  then show ?thesis
    using assms(4,5) by (cases "drop (length ls) rs @ [r]")
      (auto simp: Merge_onTuple_def merge_state_def Let_def outputs_def zip_snoc_right)
next
  case (Cons l rest)
  note d = drop_Cons_D [OF Cons]
  have full: "drop (length ls) rs = []" using d(2) by simp
  let ?T = "merge_state A S ls rs"
  let ?U = "?T\<lparr>op_fields := (op_fields ?T)\<lparr>rightTupleSets := [r]\<rparr>\<rparr>"
  have "Merge_onTuple A r sndr ?T = Merge_merge A (l # rest) [r] ?U"
    using assms(4,5) by (simp add: Merge_onTuple_def merge_state_def Let_def full Cons)
  also have "\<dots> = Inr (S\<lparr>op_fields := (op_fields S)\<lparr>leftTupleSets := rest, rightTupleSets := []\<rparr>,
      trace := trace ?U @ to_consumers S (TupleMessage (merged_output A (projectColumnNames S) l r) (op_name S))\<rparr>)"
    by (rule merge_now) (use assms d in \<open>simp_all add: merge_state_def Cons full\<close>)
  also have "\<dots> = Inr (merge_state A S ls (rs @ [r]))"
    using d(1,2) by (simp add: merge_state_def outputs_def zip_snoc_right Cons)
  finally show ?thesis .
qed

text \<open>
  C26.  However the tuple sets of the two producers are interleaved, the operator has sent to its consumers,
  after every arrival, exactly the projected merges of the \<open>i\<close>-th tuple set of the left producer with
  the \<open>i\<close>-th of the right one, in order, and keeps the tuple sets of the producer that is ahead.
\<close>

theorem merge_pairs_in_arrival_order:
  assumes "connected S" and "\<not> op_complete S"
    and "leftProducerName (op_fields S) \<noteq> rightProducerName (op_fields S)"
    and "leftTupleSets (op_fields S) = []" and "rightTupleSets (op_fields S) = []"
    and "fst ` set xs \<subseteq> {leftProducerName (op_fields S), rightProducerName (op_fields S)}"
    and "ls = arrivals (leftProducerName (op_fields S)) xs" and "rs = arrivals (rightProducerName (op_fields S)) xs"
    and "\<forall>i < min (length ls) (length rs). merged_output A (projectColumnNames S) (ls ! i) (rs ! i) \<noteq> None"
  shows "rfold (\<lambda>(sndr, ts). Merge_onTuple A ts sndr) xs S = Inr (S\<lparr>
    op_fields := (op_fields S)\<lparr>leftTupleSets := drop (length rs) ls, rightTupleSets := drop (length ls) rs\<rparr>,
    trace := trace S @ concat (map (\<lambda>(l, r). to_consumers S (TupleMessage
      (merged_output A (projectColumnNames S) l r) (op_name S))) (zip ls rs))\<rparr>)"
proof -
  have "rfold (\<lambda>(sndr, ts). Merge_onTuple A ts sndr) xs S = Inr (merge_state A S ls rs)"
    using assms(6-9)
  proof (induction xs arbitrary: ls rs rule: rev_induct)
    case Nil
    then show ?case using assms(4,5) by (simp add: merge_state_def outputs_def)
  next
    case (snoc x xs)
    obtain sndr ts where x: "x = (sndr, ts)" by (cases x)
    let ?ls = "arrivals (leftProducerName (op_fields S)) xs"
      and ?rs = "arrivals (rightProducerName (op_fields S)) xs"
    show ?case
    proof (cases "sndr = leftProducerName (op_fields S)")
      case True
      then have l: "ls = ?ls @ [ts]" "rs = ?rs" using snoc.prems(2,3) assms(3) by (simp_all add: x)
      have "\<forall>i < min (length ?ls) (length ?rs). merged_output A (projectColumnNames S) (?ls ! i) (?rs ! i) \<noteq> None"
        using snoc.prems(4) unfolding l by (rule prefix_pairs)
      with snoc.IH snoc.prems(1) have IH:
        "rfold (\<lambda>(sndr, ts). Merge_onTuple A ts sndr) xs S = Inr (merge_state A S ?ls ?rs)" by simp
      have "Merge_onTuple A ts sndr (merge_state A S ?ls ?rs) = Inr (merge_state A S ls rs)"
        unfolding l by (rule merge_state_left) (use assms(1,2) True snoc.prems(4) l in \<open>auto simp: nth_append\<close>)
      with IH show ?thesis by (simp add: rfold_append x)
    next
      case False
      then have r: "sndr = rightProducerName (op_fields S)" using snoc.prems(1) by (auto simp: x)
      then have l: "ls = ?ls" "rs = ?rs @ [ts]" using snoc.prems(2,3) False by (simp_all add: x)
      have "\<forall>i < min (length ?ls) (length ?rs). merged_output A (projectColumnNames S) (?ls ! i) (?rs ! i) \<noteq> None"
        using snoc.prems(4) unfolding l by (rule prefix_pairs)
      with snoc.IH snoc.prems(1) have IH:
        "rfold (\<lambda>(sndr, ts). Merge_onTuple A ts sndr) xs S = Inr (merge_state A S ?ls ?rs)" by simp
      have "Merge_onTuple A ts sndr (merge_state A S ?ls ?rs) = Inr (merge_state A S ls rs)"
        unfolding l by (rule merge_state_right) (use assms(1-3) r snoc.prems(4) l in \<open>auto simp: nth_append\<close>)
      with IH show ?thesis by (simp add: rfold_append x)
    qed
  qed
  then show ?thesis by (simp add: merge_state_def outputs_def)
qed

definition sample_merge :: "(nat, list_table, unit, list_table Merge) POp" where
  "sample_merge = \<lparr>op_name = ''m'', op_type = MERGE, projectColumnNames = [''k'', ''w''], op_consumers = [''c''],
     op_producers = [''a'', ''b''],
     op_fields = \<lparr>leftProducerName = ''a'', rightProducerName = ''b'', leftTupleSets = [], rightTupleSets = []\<rparr>,
     operatorMap = sample_directory, rootActor = Some 0, segmentCacheActor = None, deltaCacheActor = None,
     op_complete = False, actor_id = 3, actor_name = ''m'', trace = []\<rparr>"

definition sample_right :: list_table where
  "sample_right = [(''w'', Int32Type, [Int32Scalar 5, Int32Scalar 6])]"

lemma sample_merge_connected: "connected sample_merge"
  by code_simp

lemma sample_merge_output:
  "merged_output list_arrow [''k'', ''w''] (Some (Some sample_table)) (Some (Some sample_right)) \<noteq> None"
proof -
  have "projectExist list_arrow (Some (sample_table @ sample_right)) [''k'', ''w''] =
      Inr (Inr (Some [(''k'', Int32Type, [Int32Scalar 1, Int32Scalar 2]), (''w'', Int32Type, [Int32Scalar 5, Int32Scalar 6])]))"
    by code_simp
  moreover have "MergeKernel_merge list_arrow (Some sample_table) (Some sample_right)
      = Inr (Some (sample_table @ sample_right))" by code_simp
  ultimately show ?thesis by (simp add: merged_output_def)
qed

theorem merge_pairs_in_arrival_order_witness:
  "\<exists>S'. rfold (\<lambda>(sndr, ts). Merge_onTuple list_arrow ts sndr)
       [(''b'', Some (Some sample_right)), (''b'', None), (''a'', Some (Some sample_table))] sample_merge = Inr S' \<and>
     length (trace S') = 1 \<and> rightTupleSets (op_fields S') = [None]"
proof -
  let ?xs = "[(''b'', Some (Some sample_right)), (''b'', None), (''a'', Some (Some sample_table))]"
  have "leftProducerName (op_fields sample_merge) = ''a''" "rightProducerName (op_fields sample_merge) = ''b''"
    "leftTupleSets (op_fields sample_merge) = []" "rightTupleSets (op_fields sample_merge) = []"
    "projectColumnNames sample_merge = [''k'', ''w'']" "\<not> op_complete sample_merge"
    "trace sample_merge = []" "op_consumers sample_merge = [''c'']"
    by (simp_all add: sample_merge_def)
  note s = this
  have "arrivals ''a'' ?xs = [Some (Some sample_table)]" "arrivals ''b'' ?xs = [Some (Some sample_right), None]" by simp_all
  with merge_pairs_in_arrival_order [OF sample_merge_connected, of ?xs "[Some (Some sample_table)]"
      "[Some (Some sample_right), None]" list_arrow] sample_merge_output
  show ?thesis by (auto simp: s to_consumers_def)
qed

theorem merge_completes_once_witness:
  "\<exists>B'. POpActor_run (MergePOp list_arrow) [StartMessage ''r'', CompleteMessage ''b'', CompleteMessage ''a'']
       \<lparr>running = False, buffer = [], opBehaviour = sample_merge\<rparr> = Inr B' \<and> op_complete (opBehaviour B')"
proof -
  let ?B = "\<lparr>running = False, buffer = [], opBehaviour = sample_merge\<rparr>"
    and ?ms = "[CompleteMessage ''b'', CompleteMessage ''a'']"
  have mem: "local_members Producer (operatorMap sample_merge) = {''a'', ''b''}"
    by (simp add: sample_merge_def local_members_def entries_with_filter sample_directory_def sample_entry_def)
  have fresh: "fresh sample_merge"
    using local_reachable_ok [OF sample_directory_reachable] sample_merge_connected
    by (simp add: fresh_def mem) (simp add: sample_merge_def local_finished_def entries_with_filter
        sample_directory_def sample_entry_def)
  have "case POpActor_run (MergePOp list_arrow) (StartMessage ''r'' # ?ms) ?B of Inr B' \<Rightarrow> True | Inl e \<Rightarrow> False"
    by code_simp
  then obtain B' where B': "POpActor_run (MergePOp list_arrow) (StartMessage ''r'' # ?ms) ?B = Inr B'"
    by (auto split: sum.splits)
  have "completes_once sample_merge ?ms (opBehaviour B')"
    using merge_completes_once [OF _ _ _ _ _ B'] fresh by (simp add: control_def mem)
  with B' mem show ?thesis by (auto simp: completes_once_def Let_def insert_commute)
qed

end
