(* ===== verification/Limit_Sort.thy ===== *)
theory Limit_Sort
  imports Operators "HOL-Library.Multiset"
begin

text \<open>
  The limit-sort operator (\<^verbatim>\<open>limitsort/LimitSortPOp.cpp\<close>): it keeps the best \<open>k\<close> rows seen so far,
  and for every tuple set that arrives selects the best \<open>k\<close> of these and the new rows.  Arrow's
  selection is an argument, with its documented behaviour as the hypothesis \<open>select_ok\<close>.
\<close>

section \<open>The operator\<close>

record 't LimitSort =
  ls_k :: "64 word"
  ls_sortKeys :: "SortKey list"
  arrowSelectKOptions :: "(64 word \<times> (string \<times> SortOrder) list) option"
  ls_result :: "'t TupleSet option"

definition LimitSort_make :: "64 word \<Rightarrow> SortKey list \<Rightarrow> 't LimitSort" where
  "LimitSort_make k sortKeys =
     \<lparr>ls_k = k, ls_sortKeys = sortKeys, arrowSelectKOptions = None, ls_result = None\<rparr>"

definition LimitSort_clear :: "'t LimitSort \<Rightarrow> 't LimitSort" where
  "LimitSort_clear st = st\<lparr>ls_result := None\<rparr>"

definition makeArrowSelectKOptions :: "'t LimitSort \<Rightarrow> 't LimitSort" where
  "makeArrowSelectKOptions st =
     (if arrowSelectKOptions st = None then
        st\<lparr>arrowSelectKOptions := Some (ls_k st, arrow_keys (ls_sortKeys st))\<rparr>
      else st)"

text \<open>An error is reported to the root, and reading the missing value then throws.\<close>

definition makeInput :: "('t, 'a) arrow \<Rightarrow> 't TupleSet \<Rightarrow> 't LimitSort \<Rightarrow> 't TupleSet result" where
  "makeInput A tupleSet st =
     (case ls_result st of
        None \<Rightarrow> Inr tupleSet
      | Some r \<Rightarrow> rbind (TupleSet_concatenate A [r, tupleSet]) expected_value)"

definition selectK ::
  "('t, 'a) arrow \<Rightarrow> ('t, 'i) arrow_compute \<Rightarrow> 't TupleSet \<Rightarrow> 't LimitSort
     \<Rightarrow> ('t TupleSet \<times> 't LimitSort) result" where
  "selectK A C tupleSet st =
     (if TupleSet_numRows A tupleSet = 0 then Inr (tupleSet, st)
      else
        let st' = makeArrowSelectKOptions st
        in rbind (deref_table tupleSet) (\<lambda>table.
             case arrowSelectKOptions st' of
               None \<Rightarrow> Inl (UndefinedBehaviour ''empty optional dereferenced'')
             | Some opts \<Rightarrow>
                 rbind (result_or_die (SelectKUnstable C table opts)) (\<lambda>selectKIndices.
                 rbind (result_or_die (Take C table selectKIndices)) (\<lambda>t. Inr (Some t, st')))))"

definition LimitSort_onStart :: "('h, 't, 'd, 't LimitSort) handler" where
  "LimitSort_onStart S = Inr S"

definition LimitSort_onTuple ::
  "('t, 'a) arrow \<Rightarrow> ('t, 'i) arrow_compute \<Rightarrow> 't TupleSet \<Rightarrow> string \<Rightarrow> ('h, 't, 'd, 't LimitSort) handler" where
  "LimitSort_onTuple A C tupleSet sndr S =
     rbind (makeInput A tupleSet (op_fields S)) (\<lambda>input.
     rbind (selectK A C input (op_fields S)) (\<lambda>(r, st).
       Inr (S\<lparr>op_fields := st\<lparr>ls_result := Some r\<rparr>\<rparr>)))"

text \<open>Without any tuple set the error is reported, and then the missing result is read.\<close>

definition LimitSort_finish :: "('t, 'a) arrow \<Rightarrow> ('h, 't, 'd, 't LimitSort) handler" where
  "LimitSort_finish A S =
     (case ls_result (op_fields S) of
        None \<Rightarrow> Inl BadOptionalAccess
      | Some r \<Rightarrow>
          rbind (projectExist A r (projectColumnNames S)) (\<lambda>e.
          rbind (expected_value e) (\<lambda>projected.
          rbind (tell (TupleMessage (Some projected) (op_name S)) S) (notifyComplete LimitSort_clear))))"

definition LimitSort_onComplete :: "('t, 'a) arrow \<Rightarrow> ('h, 't, 'd, 't LimitSort) handler" where
  "LimitSort_onComplete A = when_all_complete (LimitSort_finish A)"

definition LimitSortPOp ::
  "('t, 'a) arrow \<Rightarrow> ('t, 'i) arrow_compute \<Rightarrow> ('h, 't, 'd, 't LimitSort) operator_methods" where
  "LimitSortPOp A C =
     \<lparr>onReceive = dispatch LimitSort_onStart (with_tuples (LimitSort_onTuple A C)) (LimitSort_onComplete A)\<rparr>"

lemma LimitSort_onTuple_frames: "LimitSort_onTuple A C ts s S = Inr T \<Longrightarrow> frames S T"
  by (auto simp: LimitSort_onTuple_def result_simps intro: frames_op_fields)

lemma LimitSort_finish_frames:
  assumes "LimitSort_finish A S = Inr T"
  shows "\<exists>U. frames S U \<and> notifyComplete LimitSort_clear U = Inr T"
proof -
  from assms obtain p U where "tell (TupleMessage (Some p) (op_name S)) S = Inr U" "notifyComplete LimitSort_clear U = Inr T"
    by (auto simp: LimitSort_finish_def result_simps split: option.splits)
  then show ?thesis using frames_tell [of "TupleMessage (Some p) (op_name S)" S U] by auto
qed

interpretation limit_sort: completing_operator "LimitSortPOp A C" LimitSort_clear for A :: "('t, 'a) arrow" and C
  unfolding LimitSortPOp_def LimitSort_onComplete_def
  by (rule dispatch_completing)
    (auto simp: LimitSort_onStart_def dest!: with_tuples_Inr intro: LimitSort_onTuple_frames LimitSort_finish_frames frames_refl)

section \<open>The best rows of a multiset\<close>

text \<open>\<open>best le k M R\<close>: \<open>R\<close> consists of \<open>k\<close> rows of \<open>M\<close> (all, if there are fewer) before the others.\<close>

definition best :: "('r \<Rightarrow> 'r \<Rightarrow> bool) \<Rightarrow> nat \<Rightarrow> 'r multiset \<Rightarrow> 'r multiset \<Rightarrow> bool" where
  "best le k M R \<longleftrightarrow> R \<subseteq># M \<and> size R = min k (size M) \<and> (\<forall>x \<in># R. \<forall>y \<in># M - R. le x y)"

lemma best_all: "size M \<le> k \<Longrightarrow> best le k M M"
  by (simp add: best_def)

text \<open>The best of the best and the new rows are the best of all.\<close>

lemma best_step:
  assumes tr: "\<And>x y z. le x y \<Longrightarrow> le y z \<Longrightarrow> le x z"
    and R: "best le k M R" and R': "best le k (R + N) R'"
  shows "best le k (M + N) R'"
proof -
  have sub: "R \<subseteq># M" "R' \<subseteq># R + N" using R R' by (auto simp: best_def)
  have MN: "M + N - R' = (M - R) + (R + N - R')"
    using sub by (simp add: subset_mset.add_diff_assoc2 multiset_eq_iff subseteq_mset_def)
  have old: "le x y" if x: "x \<in># R'" and y: "y \<in># M - R" for x y
  proof -
    have "size R < size M"
      using y sub(1) by (metis Diff_eq_empty_iff_mset empty_iff leI le_neq_implies_less set_mset_empty size_mset_mono
          subset_mset.antisym_conv2 mset_subset_size)
    then have k: "size R = k" "size R' = k" using R R' by (auto simp: best_def)
    show ?thesis
    proof (cases "x \<in># R")
      case True
      with R y show ?thesis by (simp add: best_def)
    next
      case False
      then have "R' \<noteq> R" using x by auto
      then have "\<not> R \<subseteq># R'" using k by (metis mset_subset_size nat_less_le subset_mset.le_imp_less_or_eq)
      then obtain z where z: "z \<in># R - R'" by (metis Diff_eq_empty_iff_mset multiset_nonemptyE)
      then have "z \<in># R" by (rule in_diffD)
      moreover have "z \<in># R + N - R'" using z by (simp add: in_diff_count)
      ultimately have "z \<in># R" "z \<in># R + N - R'" .
      with R R' x y tr [of x z y] show ?thesis by (auto simp: best_def)
    qed
  qed
  have "le x y" if "x \<in># R'" "y \<in># M + N - R'" for x y
  proof -
    from that(2) have "y \<in># M - R \<or> y \<in># R + N - R'" unfolding MN by (simp only: union_iff)
    then show ?thesis using old that(1) R' by (auto simp: best_def)
  qed
  moreover have "R' \<subseteq># M + N"
    by (rule subset_mset.trans [OF sub(2)]) (simp add: sub(1))
  moreover have "size R' = min k (size (M + N))" using R R' by (auto simp: best_def)
  ultimately show ?thesis by (simp add: best_def)
qed

section \<open>The operator keeps the best rows\<close>

text \<open>
  What is relied on of Arrow, for tables of one schema (those that satisfy \<open>like\<close>) with the rows
  \<open>rows t\<close>: tables of the schema can be concatenated, row after row, and selecting the first \<open>k\<close> rows
  by the sort keys and taking them gives a table with the best \<open>k\<close> rows.
\<close>

definition select_ok ::
  "('t, 'a) arrow \<Rightarrow> ('t, 'i) arrow_compute \<Rightarrow> ('t \<Rightarrow> bool) \<Rightarrow> ('t \<Rightarrow> 'r list) \<Rightarrow> ('r \<Rightarrow> 'r \<Rightarrow> bool)
     \<Rightarrow> 64 word \<Rightarrow> (string \<times> SortOrder) list \<Rightarrow> bool" where
  "select_ok A C like rows le k keys \<longleftrightarrow>
     (\<forall>x y z. le x y \<longrightarrow> le y z \<longrightarrow> le x z) \<and>
     (\<forall>t. like t \<longrightarrow> num_rows A t = length (rows t)) \<and>
     (\<forall>t u. like t \<longrightarrow> like u \<longrightarrow> schema_Equals A u t \<and>
        (\<exists>r. ConcatenateTables A [t, u] = Inr r \<and> like r \<and> rows r = rows t @ rows u)) \<and>
     (\<forall>t. like t \<longrightarrow> rows t \<noteq> [] \<longrightarrow>
        (\<exists>i u. SelectKUnstable C t (k, keys) = Inr i \<and> Take C t i = Inr u \<and> like u \<and>
           best le (unat k) (mset (rows t)) (mset (rows u))))"

definition limit_options :: "'t LimitSort \<Rightarrow> 64 word \<Rightarrow> (string \<times> SortOrder) list \<Rightarrow> bool" where
  "limit_options st k keys \<longleftrightarrow> ls_k st = k \<and> arrow_keys (ls_sortKeys st) = keys \<and>
     (arrowSelectKOptions st = None \<or> arrowSelectKOptions st = Some (k, keys))"

lemma selectK_best:
  assumes ok: "select_ok A C like rows le k keys" and opts: "limit_options st k keys" and t: "like t"
  shows "\<exists>u st'. selectK A C (Some t) st = Inr (Some u, st') \<and> like u \<and> limit_options st' k keys \<and>
    ls_result st' = ls_result st \<and> best le (unat k) (mset (rows t)) (mset (rows u))"
proof (cases "rows t = []")
  case True
  then have "num_rows A t = 0" using ok t by (simp add: select_ok_def)
  with True opts t show ?thesis
    by (intro exI [of _ t] exI [of _ st]) (simp add: selectK_def TupleSet_numRows_def best_all)
next
  case False
  then have n: "num_rows A t \<noteq> 0" using ok t by (simp add: select_ok_def)
  from ok t False obtain i u where
    "SelectKUnstable C t (k, keys) = Inr i" "Take C t i = Inr u" "like u"
    "best le (unat k) (mset (rows t)) (mset (rows u))" unfolding select_ok_def by blast
  moreover have "arrowSelectKOptions (makeArrowSelectKOptions st) = Some (k, keys)"
    "limit_options (makeArrowSelectKOptions st) k keys"
    "ls_result (makeArrowSelectKOptions st) = ls_result st"
    using opts by (auto simp: makeArrowSelectKOptions_def limit_options_def)
  ultimately show ?thesis
    using n by (simp add: selectK_def TupleSet_numRows_def deref_table_def Let_def)
qed

lemma makeInput_rows:
  assumes ok: "select_ok A C like rows le k keys" and t: "like t"
    and r: "\<And>r. ls_result st = Some (Some r) \<Longrightarrow> like r" and "ls_result st \<noteq> Some None"
  shows "\<exists>u. makeInput A (Some t) st = Inr (Some u) \<and> like u \<and>
    rows u = (case ls_result st of Some (Some r) \<Rightarrow> rows r | _ \<Rightarrow> []) @ rows t"
proof (cases "ls_result st")
  case None
  then show ?thesis using t by (simp add: makeInput_def)
next
  case (Some x)
  with assms(4) obtain r where x: "ls_result st = Some (Some r)" by (cases x) auto
  from r [OF x] have "like r" .
  with ok t have "schema_Equals A t r \<and> (\<exists>u. ConcatenateTables A [r, t] = Inr u \<and> like u \<and> rows u = rows r @ rows t)"
    unfolding select_ok_def by blast
  then obtain u where "schema_Equals A t r" "ConcatenateTables A [r, t] = Inr u" "like u" "rows u = rows r @ rows t"
    by blast
  then show ?thesis by (simp add: makeInput_def x TupleSet_concatenate_def)
qed

text \<open>
  C27.  After any positive number of tuple sets of one schema the operator holds the best \<open>k\<close> of all the
  rows they have, whichever way these were divided into tuple sets and in whatever order they came.
\<close>

theorem limit_sort_keeps_best_rows:
  assumes "select_ok A C like rows le k keys" and "limit_options (op_fields S) k keys"
    and "ls_result (op_fields S) = None" and "\<forall>t \<in> set ts. like t" and "ts \<noteq> []"
  shows "\<exists>st r. rfold (\<lambda>t. LimitSort_onTuple A C (Some t) sndr) ts S = Inr (S\<lparr>op_fields := st\<rparr>) \<and>
    ls_result st = Some (Some r) \<and> best le (unat k) (mset (concat (map rows ts))) (mset (rows r))"
proof -
  have tr: "\<And>x y z. le x y \<Longrightarrow> le y z \<Longrightarrow> le x z" using assms(1) unfolding select_ok_def by blast
  have "\<exists>st r. rfold (\<lambda>t. LimitSort_onTuple A C (Some t) sndr) ts S = Inr (S\<lparr>op_fields := st\<rparr>) \<and>
    limit_options st k keys \<and> like r \<and>
    ls_result st = Some (Some r) \<and> best le (unat k) (mset (concat (map rows ts))) (mset (rows r))"
    using assms(5,4)
  proof (induction ts rule: rev_nonempty_induct)
    case (single t)
    from makeInput_rows [OF assms(1), of t "op_fields S"] assms(3) single obtain u where
      u: "makeInput A (Some t) (op_fields S) = Inr (Some u)" "like u" "rows u = rows t" by auto
    from selectK_best [OF assms(1,2) u(2)] u show ?case
      by (force simp: LimitSort_onTuple_def limit_options_def)
  next
    case (snoc t ts)
    then obtain st r where IH: "rfold (\<lambda>t. LimitSort_onTuple A C (Some t) sndr) ts S = Inr (S\<lparr>op_fields := st\<rparr>)"
      "limit_options st k keys" "like r" "ls_result st = Some (Some r)"
      "best le (unat k) (mset (concat (map rows ts))) (mset (rows r))" by auto
    from makeInput_rows [OF assms(1), of t st] IH(3,4) snoc.prems obtain u where
      u: "makeInput A (Some t) st = Inr (Some u)" "like u" "rows u = rows r @ rows t" by auto
    from selectK_best [OF assms(1) IH(2) u(2)] obtain w st' where
      w: "selectK A C (Some u) st = Inr (Some w, st')" "like w" "limit_options st' k keys"
      "best le (unat k) (mset (rows r) + mset (rows t)) (mset (rows w))" using u(3) by auto
    have "best le (unat k) (mset (concat (map rows ts)) + mset (rows t)) (mset (rows w))"
      by (rule best_step [OF tr IH(5) w(4)])
    moreover have "LimitSort_onTuple A C (Some t) sndr (S\<lparr>op_fields := st\<rparr>)
        = Inr (S\<lparr>op_fields := st'\<lparr>ls_result := Some (Some w)\<rparr>\<rparr>)"
      using u w by (simp add: LimitSort_onTuple_def)
    ultimately show ?case
      using IH(1) w(2,3) by (intro exI [of _ "st'\<lparr>ls_result := Some (Some w)\<rparr>"] exI [of _ w])
        (simp add: rfold_append limit_options_def)
  qed
  then show ?thesis by blast
qed

text \<open>
  An operator that has received no tuple set when its producers complete throws instead of sending
  an empty result: it does not complete.
\<close>

theorem limit_sort_without_input_throws:
  assumes "ls_result (op_fields S) = None" and "\<not> op_complete S"
    and "local_allComplete Producer (operatorMap S)"
  shows "onReceive (LimitSortPOp A C) (CompleteMessage s) S = Inl BadOptionalAccess"
  using assms by (simp add: LimitSortPOp_def dispatch_def LimitSort_onComplete_def when_all_complete_def
      LimitSort_finish_def)

text \<open>An instance: one column of integers, selected by sorting the row numbers.\<close>

definition int_rows :: "list_table \<Rightarrow> int list" where
  "int_rows t = (case t of [] \<Rightarrow> [] | (n, ty, vs) # _ \<Rightarrow>
     map (\<lambda>v. case v of Int32Scalar w \<Rightarrow> sint w | _ \<Rightarrow> 0) vs)"

definition int_compute :: "(list_table, nat list) arrow_compute" where
  "int_compute =
     \<lparr>SortIndices = (\<lambda>t keys. Inr (sort_key (\<lambda>i. int_rows t ! i) [0..<length (int_rows t)])),
      SelectKUnstable = (\<lambda>t (k, keys). Inr (take (unat k) (sort_key (\<lambda>i. int_rows t ! i) [0..<length (int_rows t)]))),
      Take = (\<lambda>t ixs. Inr (map (\<lambda>(n, ty, vs). (n, ty, map (\<lambda>i. vs ! i) ixs)) t))\<rparr>"

definition int_table :: "list_table \<Rightarrow> bool" where
  "int_table t \<longleftrightarrow> (\<exists>vs. t = [(''k'', Int32Type, map Int32Scalar vs)])"

definition int_column :: "int32 list \<Rightarrow> list_table" where
  "int_column vs = [(''k'', Int32Type, map Int32Scalar vs)]"

lemma int_column_simps [simp]:
  "int_table (int_column vs)" "int_rows (int_column vs) = map sint vs"
  by (auto simp: int_table_def int_column_def int_rows_def)

lemma best_take_sort: "best (\<le>) k (mset xs) (mset (take k (sort xs)))" for xs :: "int list"
proof -
  have "mset xs = mset (take k (sort xs) @ drop k (sort xs))" by simp
  then have m: "mset xs = mset (take k (sort xs)) + mset (drop k (sort xs))"
    unfolding mset_append .
  have "sorted (take k (sort xs) @ drop k (sort xs))" by simp
  then have "\<forall>x \<in> set (take k (sort xs)). \<forall>y \<in> set (drop k (sort xs)). x \<le> y"
    unfolding sorted_append by blast
  then show ?thesis unfolding best_def m by (simp add: min_def)
qed

lemma map_nth_sort: "map (\<lambda>i. xs ! i) (sort_key (\<lambda>i. xs ! i) [0..<length xs]) = sort xs" for xs :: "int list"
proof (rule properties_for_sort [symmetric])
  show "mset (map (\<lambda>i. xs ! i) (sort_key (\<lambda>i. xs ! i) [0..<length xs])) = mset xs"
    using map_nth [of xs] by (metis mset_map mset_sort)
qed simp

lemma int_compute_ok: "select_ok list_arrow int_compute int_table int_rows (\<le>) k keys"
  unfolding select_ok_def
proof (intro conjI allI impI)
  fix t u :: list_table
  assume "int_table t" "int_table u"
  then obtain vs ws where tu: "t = [(''k'', Int32Type, map Int32Scalar vs)]" "u = [(''k'', Int32Type, map Int32Scalar ws)]"
    by (auto simp: int_table_def)
  show "schema_Equals list_arrow u t" by (simp add: list_arrow_def tu)
  have "ConcatenateTables list_arrow [t, u] = Inr (int_column (vs @ ws))"
    by (simp add: list_arrow_def tu int_column_def)
  moreover have "int_rows t = map sint vs" "int_rows u = map sint ws"
    using int_column_simps(2) by (simp_all add: tu int_column_def)
  ultimately show "\<exists>r. ConcatenateTables list_arrow [t, u] = Inr r \<and> int_table r \<and> int_rows r = int_rows t @ int_rows u"
    by (intro exI [of _ "int_column (vs @ ws)"]) simp
next
  fix t :: list_table
  assume "int_table t"
  then obtain vs where t: "t = [(''k'', Int32Type, map Int32Scalar vs)]" by (auto simp: int_table_def)
  show "num_rows list_arrow t = length (int_rows t)"
    by (simp add: list_arrow_def list_rows_def int_rows_def t)
  define ixs where "ixs = take (unat k) (sort_key (\<lambda>i. int_rows t ! i) [0..<length (int_rows t)])"
  have rows: "int_rows t = map sint vs" by (simp add: int_rows_def t comp_def)
  have lt: "i < length vs" if "i \<in> set ixs" for i
    using that by (auto simp: ixs_def rows dest!: in_set_takeD)
  let ?u = "int_column (map (\<lambda>i. vs ! i) ixs)"
  have sel: "SelectKUnstable int_compute t (k, keys) = Inr ixs" by (simp add: int_compute_def ixs_def)
  have take: "Take int_compute t ixs = Inr ?u"
    using lt by (simp add: int_compute_def t int_column_def)
  have "map sint (map (\<lambda>i. vs ! i) ixs) = map (\<lambda>i. int_rows t ! i) ixs"
    using lt by (simp add: rows)
  also have "\<dots> = take (unat k) (sort (int_rows t))"
    unfolding ixs_def take_map [symmetric] map_nth_sort ..
  finally have u: "int_rows ?u = take (unat k) (sort (int_rows t))" by simp
  show "\<exists>i u. SelectKUnstable int_compute t (k, keys) = Inr i \<and> Take int_compute t i = Inr u \<and> int_table u \<and>
      best (\<le>) (unat k) (mset (int_rows t)) (mset (int_rows u))"
    by (intro exI conjI, rule sel, rule take, simp) (unfold u, rule best_take_sort)
qed auto

definition sample_limit :: "(nat, list_table, unit, list_table LimitSort) POp" where
  "sample_limit = \<lparr>op_name = ''m'', op_type = LIMIT_SORT, projectColumnNames = [''k''], op_consumers = [''c''],
     op_producers = [''a''], op_fields = LimitSort_make 2 [\<lparr>sk_name = ''k'', sk_order = ASCENDING\<rparr>],
     operatorMap = LocalPOpDirectory_empty, rootActor = Some 0, segmentCacheActor = None, deltaCacheActor = None,
     op_complete = False, actor_id = 3, actor_name = ''m'', trace = []\<rparr>"

theorem limit_sort_keeps_best_rows_witness:
  "\<exists>st r. rfold (\<lambda>t. LimitSort_onTuple list_arrow int_compute (Some t) ''a'') [int_column [5, 2], int_column [3]] sample_limit
      = Inr (sample_limit\<lparr>op_fields := st\<rparr>) \<and> ls_result st = Some (Some r) \<and>
     best (\<le>) 2 {#5, 2, 3#} (mset (int_rows r))"
proof -
  have opts: "limit_options (op_fields sample_limit) 2 [(''k'', ASCENDING)]"
    by (simp add: limit_options_def sample_limit_def LimitSort_make_def arrow_keys_def)
  have none: "ls_result (op_fields sample_limit) = None" by (simp add: sample_limit_def LimitSort_make_def)
  have cols: "\<forall>t \<in> set [int_column [5, 2], int_column [3]]. int_table t"
    by simp
  have "mset (concat (map int_rows [int_column [5, 2], int_column [3]])) = {#5, 2, 3#}"
    by simp
  with limit_sort_keeps_best_rows [OF int_compute_ok opts none cols, of "''a''"] show ?thesis by simp
qed

theorem limit_sort_without_input_throws_witness:
  "onReceive (LimitSortPOp list_arrow int_compute) (CompleteMessage ''a'') sample_limit = Inl BadOptionalAccess"
  using limit_sort_without_input_throws [of sample_limit list_arrow int_compute "''a''"]
  by (simp add: sample_limit_def LimitSort_make_def local_allComplete_def LocalPOpDirectory_empty_def)

end
