(* ===== verification/Spec2Isabelle.thy ===== *)
theory Spec2Isabelle
  imports LFU_Policy Semi_Join_Proofs Cache_Load Delta_Actor Delta_Merge Execution Merge_Operator Split_Operator Limit_Sort
begin

text \<open>
  This library models the caching and execution core of Hermes, a query engine that answers analytical queries
  over a transactional store: it caches column segments of the stored tables, keeps the recent changes of every
  partition as deltas, and merges stable data and deltas when a query reads them.

  Parts of the program and how they interact

  A query is a graph of physical operators, each run by an actor.  \<^verbatim>\<open>Execution.cpp\<close> puts
  the operators of the plan into a directory, spawns an actor for each, connects producers with consumers, starts
  them and waits until all have completed.  The scan of a partition asks the segment cache actor for the column
  segments it holds; hits come from the cache, misses from storage, and what was missing is stored again under the
  decision of a caching policy.  For a table with transactional changes a cache handler asks the delta cache actor,
  which pumps new deltas out of the transaction log once per query, for the deltas of the partition; the delta
  merge operator combines them with the stable table and sends the merged delta with a bitmap of the surviving
  stable rows back to the delta cache.  Join, sort, limit and split operators work on the merged tables.

  Theories and the code they model (paths under \<^verbatim>\<open>src/\<close>)

  Foundations.
  \<open>Hermes_Prelude\<close>: machine sizes, \<open>'a result\<close> (a value, or an exception or undefined
  behaviour as an error value), keyed containers for the unordered sets and maps, folds with errors.
  \<open>Std_Algorithms\<close>: sorting with a comparator that may throw, erasing through a found iterator.
  \<open>Segment_Key\<close>: \<^verbatim>\<open>fpdb-cache/src/SegmentKey.cpp\<close>,
  \<^verbatim>\<open>SegmentRange.cpp\<close>, \<^verbatim>\<open>SegmentMetadata.cpp\<close> and
  \<^verbatim>\<open>fpdb-catalogue/src/s3/S3Partition.cpp\<close>; the metadata objects that keys share live in
  an explicit heap from addresses to values.
  \<open>Tuple_Set\<close> and \<open>Row_Access\<close>: columns, tuple sets, array appenders, keys and
  selection of \<^verbatim>\<open>fpdb-tuple\<close> over the records \<open>arrow\<close> and
  \<open>arrow_rows\<close>.

  The segment cache.
  \<open>Segment_Cache\<close>: \<^verbatim>\<open>fpdb-cache/src/SegmentCache.cpp\<close> over the virtual
  methods of a policy (\<open>policy_vtable\<close>); the locale \<open>caching_policy\<close> is what the cache
  relies on, \<open>cache_step\<close> and \<open>cache_reachable\<close> are its runs.
  \<open>LRU_Policy\<close>, \<open>LFU_Policy\<close>, \<open>Belady_Policy\<close>: the policies of
  \<^verbatim>\<open>fpdb-cache/src/policy\<close>, each of which interprets \<open>caching_policy\<close>.
  \<open>Belady_Policy\<close> extends the runs with planning (\<open>belady_step\<close>), since its cache stores
  nothing without a plan.
  \<open>Cache_Actor\<close>: \<^verbatim>\<open>fpdb-executor/src/cache/SegmentCacheActor.cpp\<close>.
  \<open>Cache_Load\<close>: \<^verbatim>\<open>physical/cache/CacheLoadPOp.cpp\<close> and
  \<^verbatim>\<open>CacheHelper.cpp\<close>.

  Deltas.
  \<open>Delta_Cache\<close>: the delta, keep-map and bitmap caches of \<^verbatim>\<open>fpdb-delta/src\<close>,
  three interpretations of the locale \<open>partition_cache\<close>.
  \<open>Delta_Actor\<close>: \<^verbatim>\<open>fpdb-executor/src/delta/DeltaCacheActor.cpp\<close> and
  \<^verbatim>\<open>physical/deltacache/CacheHandlerPOp.cpp\<close>.
  \<open>Delete_Map\<close>, \<open>Keep_Map\<close>, \<open>Merge_Filter\<close>,
  \<open>Delta_Merge\<close>: \<^verbatim>\<open>physical/deltamerge\<close>, that is the k-way merge of
  \<^verbatim>\<open>DeleteMapGeneratorKernel.cpp\<close>, the incremental merge of
  \<^verbatim>\<open>KeepMapCacheMode.cpp\<close>, the filter \<^verbatim>\<open>DeltaMergeFilter.cpp\<close>,
  and the operator \<^verbatim>\<open>DeltaMergePOp.cpp\<close> with
  \<^verbatim>\<open>ResultGeneratorKernel.cpp\<close> and \<^verbatim>\<open>ColumnBuilder.cpp\<close>.

  Execution.
  \<open>Operator_Runtime\<close>: \<^verbatim>\<open>POpActor.cpp\<close>,
  \<^verbatim>\<open>POpContext.cpp\<close>, \<^verbatim>\<open>PhysicalOp.cpp\<close> and the two
  directories, which interpret \<open>completion_directory\<close>.
  \<open>Operators\<close>: collate, sort, project and aggregate, and the locale
  \<open>completing_operator\<close> (with \<open>total_operator\<close>) that the operators which wait for all
  their producers interpret (ten of them; the cache load and cache handler operators answer single messages).
  \<open>Execution\<close>: \<^verbatim>\<open>Execution.cpp\<close>.
  \<open>Merge_Operator\<close>, \<open>Split_Operator\<close>, \<open>Limit_Sort\<close>: the operators of
  \<^verbatim>\<open>physical/merge\<close>, \<^verbatim>\<open>split\<close> and
  \<^verbatim>\<open>limitsort\<close>.
  \<open>Tuple_Index\<close>: \<^verbatim>\<open>fpdb-tuple/src/TupleSetIndex.cpp\<close>, its finder and the
  build side of a hash join.
  \<open>Hash_Join\<close>, \<open>Hash_Join_Kernel\<close>, \<open>Outer_Join\<close>,
  \<open>Semi_Join\<close>: the probe side, \<^verbatim>\<open>physical/join\<close>;
  \<open>Hash_Join_Proofs\<close> and \<open>Semi_Join_Proofs\<close> hold their correctness proofs.
\<close>

text \<open>
  Conventions

  An operation that may throw, or whose behaviour the C++ standard leaves undefined, returns a \<open>result\<close>:
  \<open>Inl\<close> of a \<open>cpp_error\<close> or \<open>Inr\<close> of the value with the new state.  A
  \<^verbatim>\<open>tl::expected\<close> is a value of type \<open>'a expected\<close> inside it.  Classes are
  records, iterators into lists are node numbers, shared pointers are addresses where the code changes what they
  point to and plain values elsewhere.  A \<^verbatim>\<open>size_t\<close> is a 64-bit word and wraps; row
  counts and row numbers are natural numbers or integers, except where the code computes with an
  \<^verbatim>\<open>int\<close> that can overflow: the midpoint of \<open>binarySearch\<close> goes through
  \<open>to_int\<close>, which fails outside 32 bits.  An operator is a record of handlers over a trace of the
  actions it asks of the actor framework.

  Arguments that stand for code outside the repository

  The record \<open>arrow\<close> holds what the code calls of Apache Arrow's tables and arrays,
  \<open>arrow_rows\<close> record batches, builders and comparison, \<open>gandiva\<close> selection vectors
  and the projector.  The predicates \<open>arrow_ok\<close>, \<open>rows_ok\<close>,
  \<open>gandiva_ok\<close>, \<open>slice_ok\<close>, \<open>project_ok\<close>,
  \<open>combine_ok\<close> and \<open>belady_float_ok\<close> state the documented behaviour a property
  relies on; each is met by a concrete instance (tables as lists of columns or of rows) in the witnesses.  Hashes,
  the addresses of new objects, spawned actors, what is pumped from the log, floating-point comparisons and the
  order in which a container lists equal entries are arguments too.

  A read that C++ leaves undefined but that the code survives on every platform it was built for is an argument
  of its own: \<open>end_read\<close> in \<open>Keep_Map\<close> (and \<open>env_end_read\<close> in
  \<open>Delta_Merge\<close>) is the outcome of reading through the end iterator of the key map in
  \<^verbatim>\<open>KeepMapCacheMode.cpp\<close>, lines 128 and 189.  Statements over it say exactly when the
  read happens (\<open>end_is_read\<close>) and hold for every outcome: if it fails, so does the merge; if it
  returns, the result does not depend on what was read.

  Containers are lists of their entries.  A lookup in the multimap of an index compares all entries instead of one
  hash bucket, which finds the same rows because equal keys have equal hashes.  \<open>DeltaCache_store\<close>
  puts a new version in front, as \<^verbatim>\<open>libstdc++\<close> does for equal keys of a multimap; the
  standard leaves this open, and the merge relies on it.  \<open>boot\<close> and \<open>start\<close> walk the
  directory in the order of the plan, where the code walks an unordered map.
\<close>

text \<open>
  What the lemmas show

  Caches.  For every policy: its keys are those of the cache after any run of loads, stores of segments that are not
  held, filters and new queries.  LRU: the queue, its index and the free size agree; a store evicts a least suffix
  of the queue.  LFU: the invariant of frequencies and lists, the three outcomes of a store, and when a load is
  undefined.  Belady: the plan is greedy by next use and stays within 99 percent of the capacity, and a planned
  store never makes a size wrap.  The runs exclude two calls, each for a reason: storing a held segment, which the
  actor does not rule out and which breaks the agreement (\<open>concurrent_misses_break_consistency\<close>),
  and \<open>SegmentCache_remove\<close>, which does not tell the policy.

  Deltas.  The delta cache returns what was merged or pumped, in order of age, and loses what is pumped between a
  load and a store.  The k-way merge ends, keeps the newest version of every key and clears the bits of the stable
  rows that have one, but counts positions within each delta.  The incremental merge equals the merge in one go,
  over any division of the stable table into two or more batches.  The filter returns the rows selected by a bitmap,
  or by positions if every batch has one, and is undefined otherwise.  The merge operator pushes the surviving
  stable rows and the rows of the delta; without deltas it pushes the first stable table; the result generator
  returns the rows of the disk deltas only.

  Execution.  Messages that come before the start are handled as if they had come after it; a directory reports
  completion with the last member; an operator that waits for its producers announces its completion once; the coordinator connects all
  operators before it starts them and returns with the last completion.  Merge, split and limit-sort operators, and
  inner, outer and semi joins, give the rows of the relational operation for any division and interleaving of their
  input; where the code does not (the semi join with a late piece of the build side), the theorem says what it
  returns.

  Bounds and termination

  Loops over containers are structural; the other loops are total functions with a measure: the rows not yet
  consumed in the k-way merge, the queue that is left in an LRU eviction, the frequencies left in the search of LFU, the distance of the two ends in \<open>binarySearch\<close> (with a fail-fast branch
  for an overflowing midpoint), the rows left to push in \<open>push_full_chunks\<close> and
  \<open>noMerge_loop\<close>.  No definition uses fuel.  Key columns of the incremental merge have fewer than
  2^30 rows, so that no midpoint overflows; a Belady cache has at most 2^40 bytes and segments of 2^24, where a double
  is exact enough for its percentages; the invariant of LRU adds sizes as
  natural numbers and so rules out a wrap.

  What is not modelled

  The LFU-S and W-LFU policies, which order keys by floating-point values in heaps that are changed in place; the
  pruning of partitions, query plans, their transformers and the expression trees, which build and print trees for
  Calcite and Gandiva; the remaining physical operators (file and S3 scans, filter, group, shuffle, nested loop
  join, Bloom filters), which hand their work to Arrow, Gandiva or AWS; the log parser, the AWS and Calcite
  clients and the server, which are network and file access around generated code; and
  \<^verbatim>\<open>ATTIC\<close>, which is no longer built.  Printing, metrics and timing are left out of the
  modelled classes.
\<close>

end
